(* ===== verification/Prelude.thy ===== *)
theory Prelude
  imports Main "HOL-Library.Word"
begin

text \<open>
  Shared vocabulary of the development: names for the C++ integer types, the faults a C++
  operation can raise, the little-endian reading of byte sequences, and the generic interfaces
  (locales) that several components provide or rely on.
  \<^item> \<open>wire_simps\<close> collects the rewrite rules about byte sequences and object representations;
  \<^item> \<open>inv_intros\<close> collects the preservation lemmas of the component invariants.
\<close>

unbundle bit_operations_syntax

named_theorems wire_simps "byte sequences and object representations"
named_theorems inv_intros "operations preserve the invariant of their component"

type_synonym u8 = "8 word"
type_synonym u16 = "16 word"
type_synonym u32 = "32 word"
type_synonym u64 = "64 word"
type_synonym bytes = "u8 list"

text \<open>
  What can go wrong in an operation beyond its own error return: a failed \<open>assert\<close>, an access
  outside an object, a dereferenced null pointer, a division by zero, the exception that
  \<open>std::string\<close> raises beyond \<open>max_size()\<close>, a read of an uninitialised variable, the destruction of
  an object that is still in use.
\<close>

datatype fault = Assert_Failed | Out_Of_Bounds | Null_Deref | Div_By_Zero | Length_Error | Uninitialised | Still_In_Use

type_synonym 'a res = "fault + 'a"

text \<open>Sequencing: a fault of the first operation is the fault of the whole.\<close>

definition bind_res :: "'a res \<Rightarrow> ('a \<Rightarrow> 'b res) \<Rightarrow> 'b res" where
  "bind_res r f = (case r of Inl e \<Rightarrow> Inl e | Inr x \<Rightarrow> f x)"

lemma bind_res_simps [simp]: "bind_res (Inl e) f = Inl e" "bind_res (Inr x) f = f x"
  by (simp_all add: bind_res_def)

lemma bind_res_eq_Inr: "bind_res r f = Inr y \<longleftrightarrow> (\<exists>x. r = Inr x \<and> f x = Inr y)"
  by (cases r) auto

abbreviation max_size :: nat where
  "max_size \<equiv> 2 ^ 63 - 1"

section \<open>Words as byte sequences\<close>

fun le_bytes :: "nat \<Rightarrow> 'a::len word \<Rightarrow> bytes" where
  "le_bytes 0 w = []"
| "le_bytes (Suc n) w = ucast w # le_bytes n (drop_bit 8 w)"

fun le_word :: "bytes \<Rightarrow> 'a::len word" where
  "le_word [] = 0"
| "le_word (b # bs) = ucast b OR push_bit 8 (le_word bs)"

lemma length_le_bytes [simp, wire_simps]: "length (le_bytes n w) = n"
  by (induction n w rule: le_bytes.induct) auto

lemma le_bytes_numeral:
  "le_bytes (numeral k) w = ucast w # le_bytes (pred_numeral k) (drop_bit 8 w)"
  by (simp add: numeral_eq_Suc)

lemma le_bytes_eq_Nil [simp]: "le_bytes n w = [] \<longleftrightarrow> n = 0"
  by (cases n) auto

lemma nth_le_bytes: "i < n \<Longrightarrow> le_bytes n w ! i = ucast (drop_bit (8 * i) w)"
proof (induction n w arbitrary: i rule: le_bytes.induct)
  case (2 n w)
  then show ?case by (cases i) (auto simp: drop_bit_drop_bit ac_simps)
qed simp

lemma bit_le_word:
  "bit (le_word bs :: 'a::len word) k \<longleftrightarrow>
     k < LENGTH('a) \<and> k div 8 < length bs \<and> bit (bs ! (k div 8)) (k mod 8)"
proof (induction bs arbitrary: k)
  case (Cons b bs)
  show ?case
  proof (cases "k < 8")
    case True
    then show ?thesis
      by (auto simp: bit_simps)
  next
    case False
    then have "k = 8 + (k - 8)" by simp
    then obtain j where j: "k = 8 + j" by blast
    have "\<not> bit b k" using False by (auto dest: bit_imp_le_length)
    moreover have "(8 + j) div 8 = Suc (j div 8)" by simp
    ultimately show ?thesis
      using j by (auto simp: bit_simps Cons.IH)
  qed
qed simp

lemma le_word_le_bytes [wire_simps]:
  "le_word (le_bytes n w) = (take_bit (8 * n) w :: 'a::len word)"
proof (rule bit_word_eqI)
  fix k assume k: "k < LENGTH('a)"
  have "k div 8 < n \<longleftrightarrow> k < 8 * n" by (simp add: div_less_iff_less_mult ac_simps)
  with k show "bit (le_word (le_bytes n w) :: 'a word) k = bit (take_bit (8 * n) w) k"
    by (auto simp: bit_le_word nth_le_bytes bit_simps)
qed

lemma le_bytes_le_word [wire_simps]:
  assumes "length bs = n" and "8 * n \<le> LENGTH('a)"
  shows "le_bytes n (le_word bs :: 'a::len word) = bs"
proof (rule nth_equalityI)
  show "length (le_bytes n (le_word bs :: 'a word)) = length bs" by (simp add: assms)
next
  fix i assume "i < length (le_bytes n (le_word bs :: 'a word))"
  then have i: "i < n" by simp
  show "le_bytes n (le_word bs :: 'a word) ! i = bs ! i"
  proof (rule bit_word_eqI)
    fix k assume k: "k < LENGTH(8)"
    then have "8 * i + k < LENGTH('a)" and "(8 * i + k) div 8 = i" and "(8 * i + k) mod 8 = k"
      using i assms by auto
    with i k assms show "bit (le_bytes n (le_word bs :: 'a word) ! i) k = bit (bs ! i) k"
      by (simp add: nth_le_bytes bit_simps bit_le_word)
  qed
qed

lemma le_bytes_take_bit [wire_simps]:
  "8 * n \<le> m \<Longrightarrow> le_bytes n (take_bit m w) = le_bytes n w"
  by (rule nth_equalityI) (auto simp: nth_le_bytes bit_simps intro!: bit_word_eqI)

lemma le_bytes_ucast [wire_simps]:
  "8 * n \<le> LENGTH('b) \<Longrightarrow> 8 * n \<le> LENGTH('a) \<Longrightarrow>
     le_bytes n (ucast (w :: 'a::len word) :: 'b::len word) = le_bytes n w"
  by (rule nth_equalityI) (auto simp: nth_le_bytes bit_simps intro!: bit_word_eqI)

lemma le_word_append_bytes:
  "le_word (xs @ ys) = (le_word xs OR push_bit (8 * length xs) (le_word ys) :: 'a::len word)"
  by (induction xs) (simp_all add: push_bit_or ac_simps or.assoc push_bit_push_bit)

lemma ucast_le_word [wire_simps]:
  assumes "8 * length bs \<le> LENGTH('a)"
  shows "ucast (le_word bs :: 'a::len word) = (le_word bs :: 'b::len word)"
proof (rule bit_word_eqI)
  fix k assume "k < LENGTH('b)"
  moreover have "k div 8 < length bs \<Longrightarrow> k < LENGTH('a)" 
    using assms by (simp add: div_less_iff_less_mult)
  ultimately show "bit (ucast (le_word bs :: 'a word) :: 'b word) k = bit (le_word bs :: 'b word) k"
    by (auto simp: bit_simps bit_le_word)
qed

lemma ucast_up_down [simp]:
  "LENGTH('a) \<le> LENGTH('b) \<Longrightarrow> ucast (ucast (w :: 'a::len word) :: 'b::len word) = w"
  by (rule bit_word_eqI) (auto simp: bit_simps)

lemma rev_singleton: "length xs = Suc 0 \<Longrightarrow> rev xs = xs"
  by (cases xs) auto

lemma take_bit_full [simp]: "LENGTH('a) \<le> n \<Longrightarrow> take_bit n (w :: 'a::len word) = w"
  by (rule take_bit_word_eq_self)

lemma unat_of_nat_small: "n < 2 ^ LENGTH('a) \<Longrightarrow> unat (of_nat n :: 'a::len word) = n"
  by (simp add: unat_of_nat)

lemma unat_of_nat_le: "k \<le> unat (w :: 'a::len word) \<Longrightarrow> unat (of_nat k :: 'a word) = k"
  by (rule unat_of_nat_small) (rule order.strict_trans1 [OF _ unsigned_less])

lemma unat_plus_of_nat_small:
  "unat w + n < 2 ^ LENGTH('a) \<Longrightarrow> unat (w + of_nat n :: 'a::len word) = unat w + n"
  by (simp add: unat_word_ariths unat_of_nat)

lemma unat_ucast_up: "LENGTH('a) \<le> LENGTH('b) \<Longrightarrow> unat (ucast (w :: 'a::len word) :: 'b::len word) = unat w"
  by (simp add: unsigned_ucast_eq take_bit_nat_eq_self order.strict_trans2 [OF unsigned_less])

lemma unat_plus_small: "unat a + unat b < 2 ^ LENGTH('a) \<Longrightarrow> unat (a + b :: 'a::len word) = unat a + unat b"
  by (simp add: unat_word_ariths)

lemma unat_minus_small: "b \<le> a \<Longrightarrow> unat (a - b :: 'a::len word) = unat a - unat b"
  by (rule unat_sub)

section \<open>Windows of lists\<close>

text \<open>The bytes of a memory block between two offsets, and a block with a run of bytes replaced.\<close>

definition window :: "nat \<Rightarrow> nat \<Rightarrow> 'a list \<Rightarrow> 'a list" where
  "window i n xs = take n (drop i xs)"

definition splice_at :: "nat \<Rightarrow> 'a list \<Rightarrow> 'a list \<Rightarrow> 'a list" where
  "splice_at i ys xs = take i xs @ ys @ drop (i + length ys) xs"

lemma length_window [simp]: "i + n \<le> length xs \<Longrightarrow> length (window i n xs) = n"
  by (simp add: window_def)

lemma length_splice_at [simp]: "i + length ys \<le> length xs \<Longrightarrow> length (splice_at i ys xs) = length xs"
  by (simp add: splice_at_def)

lemma window_0 [simp]: "window i 0 xs = []"
  by (simp add: window_def)

lemma nth_window [simp]: "i + n \<le> length xs \<Longrightarrow> k < n \<Longrightarrow> window i n xs ! k = xs ! (i + k)"
  by (simp add: window_def)

lemma nth_splice_at:
  "i + length ys \<le> length xs \<Longrightarrow> k < length xs \<Longrightarrow>
     splice_at i ys xs ! k = (if i \<le> k \<and> k < i + length ys then ys ! (k - i) else xs ! k)"
  by (auto simp: splice_at_def nth_append)

lemma window_splice_same [simp]:
  "i + length ys \<le> length xs \<Longrightarrow> n = length ys \<Longrightarrow> window i n (splice_at i ys xs) = ys"
  by (rule nth_equalityI) (auto simp: nth_splice_at)

lemma window_splice_disjoint:
  assumes "i + length ys \<le> length xs" and "j + n \<le> length xs" and "j + n \<le> i \<or> i + length ys \<le> j"
  shows "window j n (splice_at i ys xs) = window j n xs"
  by (rule nth_equalityI) (use assms in \<open>auto simp: nth_splice_at\<close>)

lemma window_append_window:
  "i + m + n \<le> length xs \<Longrightarrow> window i (m + n) xs = window i m xs @ window (i + m) n xs"
  by (simp add: window_def take_add ac_simps)

lemma window_splice_before:
  "i + length ys = j \<Longrightarrow> j + n \<le> length xs \<Longrightarrow>
     window i (length ys + n) (splice_at i ys xs) = ys @ window j n xs"
  by (rule nth_equalityI) (auto simp: nth_splice_at nth_append)

lemma window_splice_after:
  "j + n = i \<Longrightarrow> i + length ys \<le> length xs \<Longrightarrow>
     window j (n + length ys) (splice_at i ys xs) = window j n xs @ ys"
  by (rule nth_equalityI) (auto simp: nth_splice_at nth_append)

lemma window_cong:
  "length xs = length ys \<Longrightarrow> i + n \<le> length xs \<Longrightarrow> (\<And>k. i \<le> k \<Longrightarrow> k < i + n \<Longrightarrow> xs ! k = ys ! k) \<Longrightarrow>
     window i n xs = window i n ys"
  by (rule nth_equalityI) auto

lemma splice_at_Nil [simp]: "splice_at i [] xs = xs"
  by (simp add: splice_at_def)

lemma splice_at_Cons:
  "i < length xs \<Longrightarrow> splice_at (Suc i) ys (xs[i := y]) = splice_at i (y # ys) xs"
  by (simp add: splice_at_def take_Suc_conv_app_nth)

lemma splice_at_append:
  "j = i + length ys \<Longrightarrow> j \<le> length xs \<Longrightarrow> splice_at j zs (splice_at i ys xs) = splice_at i (ys @ zs) xs"
  by (simp add: splice_at_def min_absorb2 ac_simps)

lemma window_Suc: "i < length xs \<Longrightarrow> window i (Suc n) xs = xs ! i # window (Suc i) n xs"
  by (simp add: window_def Cons_nth_drop_Suc [symmetric])

lemma window_full [simp]: "n = length xs \<Longrightarrow> window 0 n xs = xs"
  by (simp add: window_def)

lemma window_update_outside: "j < i \<or> i + n \<le> j \<Longrightarrow> window i n (xs[j := x]) = window i n xs"
  by (auto simp: window_def drop_update_swap not_less)

section \<open>Character data\<close>

text \<open>A \<open>char\<close> of the source is a byte; \<open>ascii\<close> gives the bytes of a string literal.\<close>

definition ascii :: "string \<Rightarrow> bytes" where
  "ascii s = map of_char s"

text \<open>\<open>toupper\<close> and \<open>tolower\<close> of the C locale.\<close>

definition c_toupper :: "u8 \<Rightarrow> u8" where
  "c_toupper c = (if 0x61 \<le> c \<and> c \<le> 0x7a then c - 0x20 else c)"

definition c_tolower :: "u8 \<Rightarrow> u8" where
  "c_tolower c = (if 0x41 \<le> c \<and> c \<le> 0x5a then c + 0x20 else c)"

section \<open>Interface: codecs\<close>

text \<open>
  A codec promises that decoding what it encoded returns the original, on the inputs it is made
  for. Every hex, cipher and length-framing component below is one.
\<close>

locale codec =
  fixes valid :: "'a \<Rightarrow> bool" and enc :: "'a \<Rightarrow> 'b" and dec :: "'b \<Rightarrow> 'a res"
  assumes dec_enc: "valid x \<Longrightarrow> dec (enc x) = Inr x"
begin

lemma enc_eq_iff: "valid x \<Longrightarrow> valid y \<Longrightarrow> enc x = enc y \<longleftrightarrow> x = y"
  by (metis dec_enc sum.inject(2))

lemma dec_unique: "valid x \<Longrightarrow> dec (enc x) = Inr y \<Longrightarrow> y = x"
  by (simp add: dec_enc)

end

section \<open>Interface: invertible steps\<close>

text \<open>
  A cipher whose every update can be undone: on the states \<open>ok\<close>, \<open>unstep i\<close> undoes \<open>step i\<close> for
  every good index. \<open>p\<close> stands for the parameters of the cipher (its key, the block length).
  Undoing a schedule in reverse order then restores the block.
\<close>

locale invertible_steps =
  fixes ok :: "'p \<Rightarrow> 's \<Rightarrow> bool" and good :: "'p \<Rightarrow> 'i \<Rightarrow> bool"
    and step :: "'p \<Rightarrow> 'i \<Rightarrow> 's \<Rightarrow> 's" and unstep :: "'p \<Rightarrow> 'i \<Rightarrow> 's \<Rightarrow> 's"
  assumes step_ok: "good p i \<Longrightarrow> ok p s \<Longrightarrow> ok p (step p i s)"
    and unstep_step: "good p i \<Longrightarrow> ok p s \<Longrightarrow> unstep p i (step p i s) = s"
begin

lemma fold_unstep:
  "(\<And>i. i \<in> set is \<Longrightarrow> good p i) \<Longrightarrow> ok p s \<Longrightarrow> fold (unstep p) (rev is) (fold (step p) is s) = s"
proof (induction "is" arbitrary: s)
  case (Cons i "is")
  then show ?case by (simp add: step_ok unstep_step)
qed simp

end

section \<open>Interface: FIFO queues\<close>

text \<open>
  A bounded queue: \<open>rep s q\<close> says that the state \<open>s\<close> holds the elements \<open>q\<close>, oldest first.
  An insertion may be refused, a removal from an empty queue yields nothing.
\<close>

datatype 'd queue_op = Enq 'd | Deq

fun run_queue :: "('d \<Rightarrow> 's \<Rightarrow> (bool \<times> 's) res) \<Rightarrow> ('s \<Rightarrow> ('d option \<times> 's) res) \<Rightarrow>
    'd queue_op list \<Rightarrow> 's \<Rightarrow> ('d list \<times> 'd list \<times> 's) res" where
  "run_queue push pop [] s = Inr ([], [], s)"
| "run_queue push pop (Enq d # ops) s =
     bind_res (push d s) (\<lambda>(ok, s). bind_res (run_queue push pop ops s)
       (\<lambda>(ins, outs, s). Inr (if ok then d # ins else ins, outs, s)))"
| "run_queue push pop (Deq # ops) s =
     bind_res (pop s) (\<lambda>(r, s). bind_res (run_queue push pop ops s)
       (\<lambda>(ins, outs, s). Inr (ins, (case r of None \<Rightarrow> outs | Some d \<Rightarrow> d # outs), s)))"

locale fifo =
  fixes rep :: "'s \<Rightarrow> 'd list \<Rightarrow> bool" and accepts :: "'s \<Rightarrow> 'd \<Rightarrow> bool"
    and push :: "'d \<Rightarrow> 's \<Rightarrow> (bool \<times> 's) res" and pop :: "'s \<Rightarrow> ('d option \<times> 's) res"
  assumes push_law: "rep s q \<Longrightarrow> accepts s d \<Longrightarrow>
      \<exists>ok s'. push d s = Inr (ok, s') \<and> rep s' (if ok then q @ [d] else q) \<and> accepts s' = accepts s"
    and pop_Nil_law: "rep s [] \<Longrightarrow> \<exists>s'. pop s = Inr (None, s') \<and> rep s' [] \<and> accepts s' = accepts s"
    and pop_Cons_law: "rep s (d # q) \<Longrightarrow> \<exists>s'. pop s = Inr (Some d, s') \<and> rep s' q \<and> accepts s' = accepts s"
begin

lemma run_fifo:
  "rep s q \<Longrightarrow> \<forall>d. Enq d \<in> set ops \<longrightarrow> accepts s d \<Longrightarrow>
     \<exists>ins outs s' q'. run_queue push pop ops s = Inr (ins, outs, s') \<and> rep s' q' \<and> q @ ins = outs @ q'"
proof (induction ops arbitrary: s q)
  case (Cons a ops)
  have rest: "\<exists>ins outs s' q'. run_queue push pop ops s1 = Inr (ins, outs, s') \<and> rep s' q' \<and> q1 @ ins = outs @ q'"
    if "rep s1 q1" "accepts s1 = accepts s" for s1 q1
    using Cons.IH [OF that(1)] Cons.prems(2) that(2) by simp
  show ?case
  proof (cases a)
    case (Enq d)
    then have "accepts s d" using Cons.prems(2) by simp
    from push_law [OF Cons.prems(1) this]
    obtain ok s1 where p: "push d s = Inr (ok, s1)" "rep s1 (if ok then q @ [d] else q)" "accepts s1 = accepts s"
      by blast
    obtain ins outs s' q' where r: "run_queue push pop ops s1 = Inr (ins, outs, s')" "rep s' q'"
      "(if ok then q @ [d] else q) @ ins = outs @ q'" using rest [OF p(2,3)] by blast
    have "run_queue push pop (a # ops) s = Inr (if ok then d # ins else ins, outs, s')" using p(1) r(1) Enq by simp
    moreover have "q @ (if ok then d # ins else ins) = outs @ q'" using r(3) by (cases ok) simp_all
    ultimately show ?thesis using r(2) by blast
  next
    case Deq
    obtain r s1 where p: "pop s = Inr (r, s1)" "rep s1 (tl q)" "accepts s1 = accepts s"
      "q = (case r of None \<Rightarrow> [] | Some d \<Rightarrow> d # tl q)"
    proof (cases q)
      case Nil
      with pop_Nil_law [of s] Cons.prems(1) that [of None] show ?thesis by auto
    next
      case (Cons d q1)
      with pop_Cons_law [of s d q1] \<open>rep s q\<close> that [of "Some d"] show ?thesis by auto
    qed
    obtain ins outs s' q' where k: "run_queue push pop ops s1 = Inr (ins, outs, s')" "rep s' q'"
      "tl q @ ins = outs @ q'" using rest [OF p(2,3)] by blast
    have "run_queue push pop (a # ops) s = Inr (ins, (case r of None \<Rightarrow> outs | Some d \<Rightarrow> d # outs), s')"
      using p(1) k(1) Deq by simp
    moreover have "q @ ins = (case r of None \<Rightarrow> outs | Some d \<Rightarrow> d # outs) @ q'"
      using p(4) k(3) by (cases r) (auto, metis append_Cons)
    ultimately show ?thesis using k(2) by blast
  qed
qed simp

end

section \<open>Interface: work that runs out\<close>

text \<open>
  Threads left to themselves: every step of theirs lowers a cost, and as long as the system is not
  idle one of them can take a step. Then each of their runs is finite and can be continued to an idle
  state.
\<close>

locale draining =
  fixes inv :: "'s \<Rightarrow> bool" and work :: "'s \<Rightarrow> 's \<Rightarrow> bool" and cost :: "'s \<Rightarrow> nat" and idle :: "'s \<Rightarrow> bool"
  assumes inv_work: "inv s \<Longrightarrow> work s s' \<Longrightarrow> inv s'"
    and work_less: "inv s \<Longrightarrow> work s s' \<Longrightarrow> cost s' < cost s"
    and progress: "inv s \<Longrightarrow> \<not> idle s \<Longrightarrow> \<exists>s'. work s s'"
begin

lemma inv_run: "inv s \<Longrightarrow> (work ^^ k) s s' \<Longrightarrow> inv s'"
  by (induction k arbitrary: s') (auto intro: inv_work)

lemma run_bounded: "inv s \<Longrightarrow> (work ^^ k) s s' \<Longrightarrow> cost s' + k \<le> cost s"
proof (induction k arbitrary: s')
  case (Suc k)
  then obtain t where "(work ^^ k) s t" "work t s'" by auto
  with Suc.IH [of t] Suc.prems work_less [of t s'] inv_run [of s k t] show ?case by auto
qed simp

lemma drains: "inv s \<Longrightarrow> \<exists>s'. work\<^sup>*\<^sup>* s s' \<and> idle s'"
proof (induction "cost s" arbitrary: s rule: less_induct)
  case less
  show ?case
  proof (cases "idle s")
    case False
    then obtain t where t: "work s t" using progress less.prems by blast
    with less inv_work work_less obtain s' where "work\<^sup>*\<^sup>* t s'" "idle s'" by blast
    with t show ?thesis by (meson converse_rtranclp_into_rtranclp)
  qed blast
qed

end

end
