(* ===== verification/Fmt_Digits.thy ===== *)
theory Fmt_Digits
  imports Prelude
begin

text \<open>
  Numerals of the formatting library (\<open>logger/fmt/format.h\<close>): counting the digits of an unsigned integer and writing them,
  two at a time for base 10, one at a time for the bases 2, 8 and 16. Unsigned values are natural numbers here, except where the
  bit representation matters. The built-ins for leading zeros are those of GCC.
\<close>

section \<open>Counting decimal digits\<close>

definition bsr2log10 :: "nat \<Rightarrow> nat" where
  "bsr2log10 bsr =
     [1, 1, 1, 2, 2, 2, 3, 3, 3, 4, 4, 4, 4, 5, 5, 5, 6, 6, 6, 7, 7, 7, 7, 8, 8, 8, 9, 9, 9, 10, 10, 10,
      10, 11, 11, 11, 12, 12, 12, 13, 13, 13, 13, 14, 14, 14, 15, 15, 15, 16, 16, 16, 16, 17, 17, 17, 18, 18, 18, 19, 19, 19, 19, 20] ! bsr"

fun count_digits_fallback :: "nat \<Rightarrow> nat \<Rightarrow> nat" where
  "count_digits_fallback n count =
     (if n < 10 then count
      else if n < 100 then count + 1
      else if n < 1000 then count + 2
      else if n < 10000 then count + 3
      else count_digits_fallback (n div 10000) (count + 4))"

declare count_digits_fallback.simps [simp del]

text \<open>\<open>__builtin_clz\<close> and \<open>__builtin_clzll\<close>.\<close>

definition clz :: "'a::len word \<Rightarrow> nat" where
  "clz n = length (takeWhile (\<lambda>i. \<not> bit n i) (rev [0..<LENGTH('a)]))"

definition powers_of_10 :: "nat \<Rightarrow> nat list" where
  "powers_of_10 factor = map (\<lambda>k. factor * 10 ^ k) [1..<10]"

definition count_digits64 :: "u64 \<Rightarrow> nat" where
  "count_digits64 n =
     (let t = bsr2log10 (clz (n OR 1) XOR 63);
          zero_or_powers_of_10 = [0, 0] @ powers_of_10 1 @ powers_of_10 1000000000 @ [10000000000000000000]
      in t - (if unat n < zero_or_powers_of_10 ! t then 1 else 0))"

definition count_digits32 :: "u32 \<Rightarrow> nat" where
  "count_digits32 n =
     (let t = bsr2log10 (clz (n OR 1) XOR 31); zero_or_powers_of_10 = [0, 0] @ powers_of_10 1
      in t - (if unat n < zero_or_powers_of_10 ! t then 1 else 0))"

text \<open>The overloads for the unsigned types of 32, 64 and 128 bits.\<close>

definition count_digits :: "'a::len word \<Rightarrow> nat" where
  "count_digits n =
     (if LENGTH('a) = 32 then count_digits32 (ucast n)
      else if LENGTH('a) = 64 then count_digits64 (ucast n)
      else count_digits_fallback (unat n) 1)"

text \<open>The number of digits in base \<open>2\<^sup>B\<^sup>I\<^sup>T\<^sup>S\<close>, where \<open>BITS\<close> is 1, 3 or 4, by a loop and for 32 bits with the built-in.\<close>

lemma drop_bit_less [termination_simp]: "0 < drop_bit k (n :: nat) \<Longrightarrow> 0 < k \<Longrightarrow> drop_bit k n < n"
  using one_less_power [of "2 :: nat" k] by (cases n) (auto simp: drop_bit_eq_div intro!: div_less_dividend)

fun count_loop :: "nat \<Rightarrow> nat \<Rightarrow> nat \<Rightarrow> nat" where
  "count_loop BITS n num_digits =
     (let n' = drop_bit BITS n in if n' \<noteq> 0 \<and> BITS \<noteq> 0 then count_loop BITS n' (num_digits + 1) else num_digits + 1)"

declare count_loop.simps [simp del]

definition count_digits_bits :: "nat \<Rightarrow> 'a::len word \<Rightarrow> nat" where
  "count_digits_bits BITS n =
     (if LENGTH('a) = 32 then (clz (ucast n OR 1 :: u32) XOR 31) div BITS + 1 else count_loop BITS (unat n) 0)"

section \<open>Writing digits\<close>

text \<open>The digits from the write position to the end of the buffer, which grow towards the front.\<close>

definition digit_pair :: "nat \<Rightarrow> string" where
  "digit_pair v = [char_of (48 + v div 10), char_of (48 + v mod 10)]"

fun decimal_loop :: "nat \<Rightarrow> string \<Rightarrow> string" where
  "decimal_loop value out =
     (if value \<ge> 100 then decimal_loop (value div 100) (digit_pair (value mod 100) @ out)
      else if value < 10 then char_of (48 + value) # out
      else digit_pair value @ out)"

declare decimal_loop.simps [simp del]

text \<open>
  The digits end at \<open>sz\<close>; the first result is the offset of the first one. Writing in front of the buffer is a fault.
\<close>

definition format_decimal :: "'a::len word \<Rightarrow> nat \<Rightarrow> (nat \<times> string) res" where
  "format_decimal value sz =
     (if \<not> sz \<ge> count_digits value then Inl Assert_Failed
      else let out = decimal_loop (unat value) [] in
        if length out \<le> sz then Inr (sz - length out, out) else Inl Out_Of_Bounds)"

definition hex_digit :: "bool \<Rightarrow> nat \<Rightarrow> char" where
  "hex_digit upper d = (if upper then ''0123456789ABCDEF'' else ''0123456789abcdef'') ! d"

fun uint_loop :: "nat \<Rightarrow> bool \<Rightarrow> nat \<Rightarrow> string \<Rightarrow> string" where
  "uint_loop BASE_BITS upper value buffer =
     (let digit = value AND (2 ^ BASE_BITS - 1);
          buffer = (if BASE_BITS < 4 then char_of (48 + digit) else hex_digit upper digit) # buffer;
          value = drop_bit BASE_BITS value
      in if value \<noteq> 0 \<and> BASE_BITS \<noteq> 0 then uint_loop BASE_BITS upper value buffer else buffer)"

declare uint_loop.simps [simp del]

definition format_uint :: "nat \<Rightarrow> 'a::len word \<Rightarrow> nat \<Rightarrow> bool \<Rightarrow> (nat \<times> string) res" where
  "format_uint BASE_BITS value num_digits upper =
     (let out = uint_loop BASE_BITS upper (unat value) [] in
      if length out \<le> num_digits then Inr (num_digits - length out, out) else Inl Out_Of_Bounds)"

section \<open>Positional notation\<close>

text \<open>The reference: the digits of a number in a base, and the number that digits stand for.\<close>

fun digits_in :: "nat \<Rightarrow> nat \<Rightarrow> nat list" where
  "digits_in b n = (if n < b \<or> b < 2 then [n] else digits_in b (n div b) @ [n mod b])"

declare digits_in.simps [simp del]

definition number :: "nat \<Rightarrow> nat list \<Rightarrow> nat" where
  "number b ds = foldl (\<lambda>v d. v * b + d) 0 ds"

lemma number_digits_in: "number b (digits_in b n) = n"
proof (induction b n rule: digits_in.induct)
  case (1 b n)
  then show ?case by (subst digits_in.simps) (simp add: number_def)
qed

lemma digits_in_less: "1 < b \<Longrightarrow> d \<in> set (digits_in b n) \<Longrightarrow> d < b"
proof (induction b n rule: digits_in.induct)
  case (1 b n)
  then show ?case by (subst (asm) (2) digits_in.simps) (auto split: if_splits)
qed

lemma digits_in_nonempty [simp]: "digits_in b n \<noteq> []"
  by (subst digits_in.simps) simp

lemma hd_digits_in: "1 < b \<Longrightarrow> 0 < n \<Longrightarrow> hd (digits_in b n) \<noteq> 0"
proof (induction b n rule: digits_in.induct)
  case (1 b n)
  then have "\<not> n < b \<Longrightarrow> hd (digits_in b (n div b)) \<noteq> 0" by (auto simp: div_greater_zero_iff)
  then show ?case using 1(2,3) by (subst digits_in.simps) (auto simp: hd_append)
qed

lemma digits_in_step: "1 < b \<Longrightarrow> b \<le> n \<Longrightarrow> digits_in b n = digits_in b (n div b) @ [n mod b]"
  by (subst digits_in.simps) simp

lemma digits_in_small: "n < b \<Longrightarrow> digits_in b n = [n]"
  by (subst digits_in.simps) simp

lemma length_digits_in:
  assumes "1 < b" and "n < b ^ k" and "0 < k" and "k = 1 \<or> b ^ (k - 1) \<le> n"
  shows "length (digits_in b n) = k"
  using assms(2-4)
proof (induction k arbitrary: n)
  case (Suc k)
  show ?case
  proof (cases k)
    case 0
    then show ?thesis using Suc.prems by (simp add: digits_in_small)
  next
    case (Suc l)
    have low: "b * b ^ l \<le> n" using Suc.prems(3) Suc by simp
    have "b * 1 \<le> b * b ^ l" using assms(1) by (intro mult_left_mono) auto
    then have "b \<le> n" using low by linarith
    have "n div b < b ^ k" using Suc.prems(1) assms(1) by (intro less_mult_imp_div_less) (simp add: mult.commute)
    moreover have "b ^ l \<le> n div b" using low assms(1) by (simp add: less_eq_div_iff_mult_less_eq mult.commute)
    ultimately have "length (digits_in b (n div b)) = k" using Suc.IH Suc by simp
    then show ?thesis using \<open>b \<le> n\<close> assms(1) by (simp add: digits_in_step)
  qed
qed simp

lemma length_digits_in_le: "1 < b \<Longrightarrow> n < b ^ Suc k \<Longrightarrow> length (digits_in b n) \<le> Suc k"
proof (induction k arbitrary: n)
  case (Suc k)
  show ?case
  proof (cases "n < b")
    case False
    have "n div b < b ^ Suc k" using Suc.prems by (intro less_mult_imp_div_less) (simp add: mult.commute)
    then show ?thesis using Suc.IH [OF Suc.prems(1)] False Suc.prems(1) by (simp add: digits_in_step)
  qed (simp add: digits_in_small)
qed (simp add: digits_in_small)

section \<open>The counts are right\<close>

lemma count_digits_fallback_eq: "count_digits_fallback n c + 1 = c + length (digits_in 10 n)"
proof (induction n c rule: count_digits_fallback.induct)
  case (1 n c)
  have d: "length (digits_in 10 n) = 4 + length (digits_in 10 (n div 10000))" if "\<not> n < 10000"
  proof -
    have "length (digits_in 10 m) = Suc (length (digits_in 10 (m div 10)))" if "\<not> m < 10" for m
      using that by (subst digits_in.simps) simp
    note step = this
    have "length (digits_in 10 n) = Suc (Suc (Suc (Suc (length (digits_in 10 (n div 10 div 10 div 10 div 10))))))"
      using that by (subst step, simp, subst step, simp, subst step, simp, subst step) auto
    then show ?thesis by (simp add: div_mult2_eq [symmetric])
  qed
  consider "n < 10" | "10 \<le> n" "n < 100" | "100 \<le> n" "n < 1000" | "1000 \<le> n" "n < 10000" | "10000 \<le> n" by linarith
  then show ?case
  proof cases
    case 5
    then have "count_digits_fallback n c = count_digits_fallback (n div 10000) (c + 4)" by (subst count_digits_fallback.simps) simp
    then show ?thesis using 1 5 d by simp
  qed (subst count_digits_fallback.simps, simp add: length_digits_in [of 10 n 1] length_digits_in [of 10 n 2]
      length_digits_in [of 10 n 3] length_digits_in [of 10 n 4])+
qed

text \<open>The position of the highest bit.\<close>

lemma clz_highest:
  fixes w :: "'a::len word"
  assumes "bit w k" and "\<And>j. k < j \<Longrightarrow> \<not> bit w j"
  shows "clz w = LENGTH('a) - 1 - k"
proof -
  have k: "k < LENGTH('a)" using assms(1) by (rule bit_imp_le_length)
  have "rev [0..<LENGTH('a)] = rev [Suc k..<LENGTH('a)] @ k # rev [0..<k]"
    using k upt_add_eq_append [of 0 "Suc k" "LENGTH('a) - Suc k"] by simp
  moreover have "takeWhile (\<lambda>i. \<not> bit w i) (rev [Suc k..<LENGTH('a)] @ k # rev [0..<k]) = rev [Suc k..<LENGTH('a)]"
    using assms by (subst takeWhile_append2) auto
  ultimately show ?thesis by (simp add: clz_def)
qed

lemma highest_bit:
  fixes n :: "'a::len word"
  obtains k where "clz (n OR 1) = LENGTH('a) - 1 - k" "k < LENGTH('a)" "unat n < 2 ^ Suc k" "k = 0 \<or> 2 ^ k \<le> unat n"
proof -
  let ?S = "{i. bit (n OR 1) i}"
  have "finite ?S" by (rule finite_subset [of _ "{..<LENGTH('a)}"]) (auto dest: bit_imp_le_length)
  moreover have "0 \<in> ?S" by (simp add: bit_or_iff bit_1_iff)
  ultimately have M: "Max ?S \<in> ?S" "\<And>j. j \<in> ?S \<Longrightarrow> j \<le> Max ?S" using Max_in [of ?S] by auto
  define k where "k = Max ?S"
  have k: "bit (n OR 1) k" "\<And>j. k < j \<Longrightarrow> \<not> bit (n OR 1) j" using M unfolding k_def by (auto simp: not_le [symmetric])
  have "take_bit (Suc k) n = n"
    by (rule bit_eqI) (use k(2) in \<open>auto simp: bit_take_bit_iff bit_or_iff less_Suc_eq_le not_le [symmetric]\<close>)
  then have "unat n < 2 ^ Suc k" by (metis take_bit_nat_less_exp unsigned_take_bit_eq)
  moreover have "2 ^ k \<le> unat n" if "k \<noteq> 0"
  proof -
    have "bit n k" using k(1) that by (auto simp: bit_or_iff bit_1_iff)
    then have "odd (unat n div 2 ^ k)" by (simp add: bit_unsigned_iff flip: bit_iff_odd)
    then show ?thesis by (metis div_less even_zero not_le)
  qed
  ultimately show ?thesis using that [of k] clz_highest [OF k] k(1) by (auto dest: bit_imp_le_length)
qed

lemma xor_mask: "k < 64 \<Longrightarrow> (63 - k) XOR 63 = (k :: nat)" "k < 32 \<Longrightarrow> (31 - k) XOR 31 = (k :: nat)"
proof -
  have "\<forall>k\<in>set [0..<64]. (63 - k) XOR 63 = (k :: nat)" by code_simp
  then show "k < 64 \<Longrightarrow> (63 - k) XOR 63 = k" by simp
  have "\<forall>k\<in>set [0..<32]. (31 - k) XOR 31 = (k :: nat)" by code_simp
  then show "k < 32 \<Longrightarrow> (31 - k) XOR 31 = k" by simp
qed

text \<open>The table is right for each position of the highest bit.\<close>

lemma bsr2log10_bounds:
  assumes "k < 64"
  shows "0 < bsr2log10 k \<and> bsr2log10 k \<le> (if k < 32 then 10 else 20) \<and> 2 ^ Suc k \<le> (10 :: nat) ^ bsr2log10 k \<and>
    (bsr2log10 k = 1 \<or> k \<noteq> 0 \<and> (10 :: nat) ^ (bsr2log10 k - 2) \<le> 2 ^ k)"
proof -
  have "list_all (\<lambda>k. 0 < bsr2log10 k \<and> bsr2log10 k \<le> (if k < 32 then 10 else 20) \<and> 2 ^ Suc k \<le> (10 :: nat) ^ bsr2log10 k \<and>
    (bsr2log10 k = 1 \<or> k \<noteq> 0 \<and> (10 :: nat) ^ (bsr2log10 k - 2) \<le> 2 ^ k)) (0 # 1 # [2..<64])"
    by (simp add: bsr2log10_def)
  moreover have "[0..<64] = 0 # 1 # [2..<64]" by (simp add: upt_rec)
  ultimately have "list_all (\<lambda>k. 0 < bsr2log10 k \<and> bsr2log10 k \<le> (if k < 32 then 10 else 20) \<and> 2 ^ Suc k \<le> (10 :: nat) ^ bsr2log10 k \<and>
    (bsr2log10 k = 1 \<or> k \<noteq> 0 \<and> (10 :: nat) ^ (bsr2log10 k - 2) \<le> 2 ^ k)) [0..<64]" by metis
  then show ?thesis using assms by (simp add: list_all_iff)
qed

lemma table_count:
  assumes "k < 64" and "n < 2 ^ Suc k" and "k = 0 \<or> 2 ^ k \<le> n" and "p = (if bsr2log10 k < 2 then 0 else 10 ^ (bsr2log10 k - 1))"
  shows "bsr2log10 k - (if n < p then 1 else 0) = length (digits_in 10 n)"
proof -
  define t where "t = bsr2log10 k"
  have b: "0 < t" "2 ^ Suc k \<le> (10 :: nat) ^ t" "t = 1 \<or> k \<noteq> 0 \<and> (10 :: nat) ^ (t - 2) \<le> 2 ^ k"
    using bsr2log10_bounds [OF assms(1)] unfolding t_def by auto
  have n: "n < 10 ^ t" using assms(2) b(2) by linarith
  show ?thesis
  proof (cases "n < p")
    case True
    then have "2 \<le> t" "n < 10 ^ (t - 1)" using assms(4) by (auto simp: t_def split: if_splits)
    moreover have "10 ^ (t - 2) \<le> n" using b(3) assms(3) \<open>2 \<le> t\<close> by auto
    ultimately have "length (digits_in 10 n) = t - 1" by (intro length_digits_in) (auto simp: numeral_2_eq_2)
    then show ?thesis using True by (simp add: t_def)
  next
    case False
    then have "t = 1 \<or> 10 ^ (t - 1) \<le> n" using assms(4) b(1) by (auto simp: t_def split: if_splits)
    then have "length (digits_in 10 n) = t" using b(1) n by (intro length_digits_in) auto
    then show ?thesis using False by (simp add: t_def)
  qed
qed

lemma powers_of_10_eq:
  "powers_of_10 f = [f * 10, f * 100, f * 1000, f * 10000, f * 100000, f * 1000000, f * 10000000, f * 100000000, f * 1000000000]"
  by (simp add: powers_of_10_def upt_rec)

lemma zero_or_powers64:
  assumes "t \<le> 20"
  shows "([0, 0] @ powers_of_10 1 @ powers_of_10 1000000000 @ [10000000000000000000]) ! t = (if t < 2 then 0 else 10 ^ (t - 1))"
proof -
  let ?P = "\<lambda>t. ([0, 0] @ powers_of_10 1 @ powers_of_10 1000000000 @ [10000000000000000000]) ! t = (if t < 2 then 0 else 10 ^ (t - 1))"
  have "list_all ?P (0 # 1 # [2..<21])" by (simp add: powers_of_10_eq)
  moreover have "[0..<21] = 0 # 1 # [2..<21]" by (simp add: upt_rec)
  ultimately have "list_all ?P [0..<21]" by metis
  then show ?thesis using assms by (simp add: list_all_iff)
qed

lemma zero_or_powers32:
  assumes "t \<le> 10"
  shows "([0, 0] @ powers_of_10 1) ! t = (if t < 2 then 0 else 10 ^ (t - 1))"
proof -
  let ?P = "\<lambda>t. ([0, 0] @ powers_of_10 1) ! t = (if t < 2 then 0 else 10 ^ (t - 1))"
  have "list_all ?P (0 # 1 # [2..<11])" by (simp add: powers_of_10_eq)
  moreover have "[0..<11] = 0 # 1 # [2..<11]" by (simp add: upt_rec)
  ultimately have "list_all ?P [0..<11]" by metis
  then show ?thesis using assms by (simp add: list_all_iff)
qed

lemma unat_ucast_same: "LENGTH('a::len) = LENGTH('b::len) \<Longrightarrow> unat (ucast (n :: 'a word) :: 'b word) = unat n"
  using unsigned_less [of n, where ?'a = nat] by (simp add: unsigned_ucast_eq take_bit_nat_eq_self)

lemma base_gt_1: "0 < b \<Longrightarrow> 1 < (2 :: nat) ^ b"
  using one_less_power [of "2 :: nat" b] by simp

lemma count_digits64_eq: "count_digits64 n = length (digits_in 10 (unat n))"
proof -
  obtain k where k: "clz (n OR 1) = 63 - k" "k < 64" "unat n < 2 ^ Suc k" "k = 0 \<or> 2 ^ k \<le> unat n"
    by (rule highest_bit [of n]) simp
  have "bsr2log10 k \<le> 20" using bsr2log10_bounds [OF k(2)] by (auto split: if_splits)
  then show ?thesis unfolding count_digits64_def Let_def k(1) xor_mask(1) [OF k(2)]
    by (simp only: zero_or_powers64 table_count [OF k(2-4) refl])
qed

lemma count_digits32_eq: "count_digits32 n = length (digits_in 10 (unat n))"
proof -
  obtain k where k: "clz (n OR 1) = 31 - k" "k < 32" "unat n < 2 ^ Suc k" "k = 0 \<or> 2 ^ k \<le> unat n"
    by (rule highest_bit [of n]) simp
  have "k < 64" using k(2) by simp
  have "bsr2log10 k \<le> 10" using bsr2log10_bounds [OF \<open>k < 64\<close>] k(2) by auto
  then have "([0, 0] @ powers_of_10 1) ! bsr2log10 k = (if bsr2log10 k < 2 then 0 else 10 ^ (bsr2log10 k - 1))"
    by (rule zero_or_powers32)
  then show ?thesis unfolding count_digits32_def Let_def k(1) xor_mask(2) [OF k(2)]
    by (simp only: table_count [OF \<open>k < 64\<close> k(3,4) refl])
qed

lemma count_digits_eq: "count_digits n = length (digits_in 10 (unat n))"
  using count_digits_fallback_eq [of "unat n" 1]
  by (simp add: count_digits_def count_digits32_eq count_digits64_eq unat_ucast_same)

lemma count_loop_eq: "0 < b \<Longrightarrow> count_loop b n c = c + length (digits_in (2 ^ b) n)"
proof (induction b n c rule: count_loop.induct)
  case (1 b n c)
  have p: "(1 :: nat) < 2 ^ b" using 1(2) by (rule base_gt_1)
  show ?case
  proof (cases "n < 2 ^ b")
    case True
    then show ?thesis by (subst count_loop.simps) (simp add: drop_bit_eq_div digits_in_small)
  next
    case False
    then have "n div 2 ^ b \<noteq> 0" by (simp add: div_eq_0_iff)
    then show ?thesis using 1 False p
      by (subst count_loop.simps) (simp add: drop_bit_eq_div digits_in_step Let_def)
  qed
qed

lemma count_digits_bits_eq:
  fixes n :: "'a::len word"
  assumes "0 < b"
  shows "count_digits_bits b n = length (digits_in (2 ^ b) (unat n))"
proof (cases "LENGTH('a) = 32")
  case True
  then have u: "unat (ucast n :: u32) = unat n" by (simp add: unat_ucast_same)
  obtain k where k: "clz ((ucast n :: u32) OR 1) = 31 - k" "k < 32" "unat n < 2 ^ Suc k" "k = 0 \<or> 2 ^ k \<le> unat n"
    by (rule highest_bit [of "ucast n :: u32"]) (simp add: u)
  have "Suc k \<le> b * (k div b + 1)" using dividend_less_times_div [OF assms, of k] by (simp add: Suc_le_eq)
  then have "(2 :: nat) ^ Suc k \<le> 2 ^ (b * (k div b + 1))" by (intro power_increasing) auto
  then have "unat n < (2 ^ b) ^ (k div b + 1)" using k(3) by (simp only: power_mult [symmetric])
  moreover have "k div b + 1 = 1 \<or> (2 ^ b) ^ (k div b) \<le> unat n"
  proof (cases "k div b = 0")
    case False
    have "(2 :: nat) ^ (b * (k div b)) \<le> 2 ^ k" using assms by (intro power_increasing) auto
    moreover have "2 ^ k \<le> unat n" using k(4) False by (cases "k = 0") auto
    ultimately show ?thesis by (simp add: power_mult)
  qed simp
  ultimately have "length (digits_in (2 ^ b) (unat n)) = k div b + 1"
    using base_gt_1 [OF assms] by (intro length_digits_in) auto
  then show ?thesis using True by (simp add: count_digits_bits_def k(1) xor_mask(2) [OF k(2)])
qed (use assms in \<open>simp add: count_digits_bits_def count_loop_eq\<close>)

section \<open>The texts are right\<close>

abbreviation digit_char :: "nat \<Rightarrow> char" where
  "digit_char d \<equiv> char_of (48 + d)"

lemma digits_in_pair: "100 \<le> n \<Longrightarrow> digits_in 10 n = digits_in 10 (n div 100) @ [n mod 100 div 10, n mod 100 mod 10]"
proof -
  assume a: "100 \<le> n"
  then have "10 \<le> n div 10" by linarith
  have "digits_in 10 n = digits_in 10 (n div 10) @ [n mod 10]" using a by (intro digits_in_step) auto
  moreover have "digits_in 10 (n div 10) = digits_in 10 (n div 10 div 10) @ [n div 10 mod 10]"
    using \<open>10 \<le> n div 10\<close> by (intro digits_in_step) auto
  moreover have "n mod 100 div 10 = n div 10 mod 10" "n mod 100 mod 10 = n mod 10" "n div 10 div 10 = n div 100"
    using mod_mult2_eq [of n 10 10] div_mult2_eq [of n 10 10] by simp_all
  ultimately show ?thesis by simp
qed

lemma decimal_loop_eq: "decimal_loop n out = map digit_char (digits_in 10 n) @ out"
proof (induction n out rule: decimal_loop.induct)
  case (1 n out)
  consider "n < 10" | "10 \<le> n" "n < 100" | "100 \<le> n" by linarith
  then show ?case
  proof cases
    case 1
    then show ?thesis by (subst decimal_loop.simps) (simp add: digits_in_small)
  next
    case 2
    then have "n div 10 < 10" by linarith
    then have "digits_in 10 n = [n div 10, n mod 10]" using 2 by (subst digits_in_step) (auto simp: digits_in_small)
    then show ?thesis using 2 by (subst decimal_loop.simps) (simp add: digit_pair_def)
  next
    case 3
    then have "decimal_loop n out = decimal_loop (n div 100) (digit_pair (n mod 100) @ out)" by (subst decimal_loop.simps) simp
    then show ?thesis using 1 3 digits_in_pair [OF 3] by (simp add: digit_pair_def)
  qed
qed

definition base_char :: "nat \<Rightarrow> bool \<Rightarrow> nat \<Rightarrow> char" where
  "base_char b upper d = (if b < 4 then digit_char d else hex_digit upper d)"

lemma uint_loop_eq: "0 < b \<Longrightarrow> uint_loop b upper n out = map (base_char b upper) (digits_in (2 ^ b) n) @ out"
proof (induction b upper n out rule: uint_loop.induct)
  case (1 b upper n out)
  have p: "(1 :: nat) < 2 ^ b" using 1(2) by (rule base_gt_1)
  have m: "n AND (2 ^ b - Suc 0) = n mod 2 ^ b" using take_bit_eq_mask [of b n] by (simp add: take_bit_eq_mod mask_eq_exp_minus_1)
  show ?case
  proof (cases "n < 2 ^ b")
    case True
    then show ?thesis by (subst uint_loop.simps) (simp add: drop_bit_eq_div digits_in_small m base_char_def)
  next
    case False
    then have "n div 2 ^ b \<noteq> 0" by (simp add: div_eq_0_iff)
    then show ?thesis using 1 False p
      by (subst uint_loop.simps) (simp add: drop_bit_eq_div digits_in_step m base_char_def Let_def)
  qed
qed

lemma format_decimal_eq: "format_decimal n (count_digits n) = Inr (0, map digit_char (digits_in 10 (unat n)))"
  by (simp add: format_decimal_def decimal_loop_eq count_digits_eq)

lemma format_uint_eq:
  "0 < b \<Longrightarrow> format_uint b n (count_digits_bits b n) upper = Inr (0, map (base_char b upper) (digits_in (2 ^ b) (unat n)))"
  by (simp add: format_uint_def uint_loop_eq count_digits_bits_eq)
end
