(* ===== verification/Fmt_Write.thy ===== *)
theory Fmt_Write
  imports Fmt_Digits
begin

text \<open>
  Writing of the built-in argument types by the formatting library (\<open>logger/fmt/core.h\<close>, \<open>format.h\<close>) into an output buffer: padding,
  integers in all their presentations, characters, strings with the display width of UTF-8, booleans and pointers. Floating-point
  numbers are not modelled. Localised output is that of the classic locale, which has no digit grouping.
\<close>

section \<open>Outcomes\<close>

text \<open>A call returns, throws \<open>format_error\<close> with a message, or runs into a fault. The state of an exception is the state it leaves behind.\<close>

datatype ('s, 'a) outcome = Done 'a 's | Throw string 's | Fault fault

fun bnd :: "('s, 'a) outcome \<Rightarrow> ('a \<Rightarrow> 's \<Rightarrow> ('s, 'b) outcome) \<Rightarrow> ('s, 'b) outcome" where
  "bnd (Done a s) f = f a s"
| "bnd (Throw m s) f = Throw m s"
| "bnd (Fault e) f = Fault e"

lemma bnd_cong [fundef_cong]:
  "m = m' \<Longrightarrow> (\<And>a s. m' = Done a s \<Longrightarrow> f a s = f' a s) \<Longrightarrow> bnd m f = bnd m' f'"
  by (cases m') auto

lemma bnd_Done_iff: "bnd m f = Done b t \<longleftrightarrow> (\<exists>a s. m = Done a s \<and> f a s = Done b t)"
  by (cases m) auto

definition done_res :: "'s res \<Rightarrow> ('s, unit) outcome" where
  "done_res r = (case r of Inl e \<Rightarrow> Fault e | Inr s \<Rightarrow> Done () s)"

lemma done_res_simps [simp]: "done_res (Inl e) = Fault e" "done_res (Inr s) = Done () s"
  by (simp_all add: done_res_def)

section \<open>Output buffers\<close>

text \<open>
  The storage of a buffer with its capacity, and the number of characters in use. \<open>grow\<close> is virtual: for a \<open>std::string\<close> behind
  a \<open>back_inserter\<close> it resizes the string, for a \<open>memory_buffer\<close> it allocates at least half as much again. (New storage is zero here; nothing reads it.)
\<close>

record fbuf =
  store :: string
  used :: nat

type_synonym grow = "nat \<Rightarrow> fbuf \<Rightarrow> fbuf"

definition string_grow :: grow where
  "string_grow capacity b = b\<lparr>store := take capacity (store b) @ replicate (capacity - length (store b)) (CHR 0x00)\<rparr>"

definition memory_capacity :: "nat \<Rightarrow> nat \<Rightarrow> nat" where
  "memory_capacity old_capacity sz =
     (let new_capacity = old_capacity + old_capacity div 2 in
      if sz > new_capacity then sz
      else if new_capacity > max_size then (if sz > max_size then sz else max_size)
      else new_capacity)"

definition memory_grow :: grow where
  "memory_grow sz b =
     b\<lparr>store := take (used b) (store b) @ replicate (memory_capacity (length (store b)) sz - used b) (CHR 0x00)\<rparr>"

definition try_reserve :: "grow \<Rightarrow> nat \<Rightarrow> fbuf \<Rightarrow> fbuf" where
  "try_reserve g new_capacity b = (if new_capacity > length (store b) then g new_capacity b else b)"

definition reserve :: "grow \<Rightarrow> nat \<Rightarrow> fbuf \<Rightarrow> fbuf" where
  "reserve g n b = try_reserve g (used b + n) b"

definition push_back :: "grow \<Rightarrow> char \<Rightarrow> fbuf \<Rightarrow> fbuf" where
  "push_back g c b = (let b = try_reserve g (used b + 1) b in b\<lparr>store := (store b)[used b := c], used := used b + 1\<rparr>)"

text \<open>One round of the loop of \<open>append\<close> copies as much as there is room for. (With a buffer that does not grow the loop would not end; both kinds grow.)\<close>

function append :: "grow \<Rightarrow> string \<Rightarrow> fbuf \<Rightarrow> fbuf" where
  "append g xs b =
     (if xs = [] then b
      else let b = try_reserve g (used b + length xs) b;
               free_cap = length (store b) - used b;
               count = (if free_cap < length xs then free_cap else length xs);
               b = b\<lparr>store := take (used b) (store b) @ take count xs @ drop (used b + count) (store b), used := used b + count\<rparr>
           in if count = 0 then b else append g (drop count xs) b)"
  by auto
termination
  by (relation "measure (\<lambda>(g, xs, b). length xs)") (auto split: if_splits)

declare append.simps [simp del]

fun fill_n :: "grow \<Rightarrow> nat \<Rightarrow> char \<Rightarrow> fbuf \<Rightarrow> fbuf" where
  "fill_n g 0 c b = b"
| "fill_n g (Suc n) c b = fill_n g n c (push_back g c b)"

fun fill_loop :: "grow \<Rightarrow> nat \<Rightarrow> string \<Rightarrow> fbuf \<Rightarrow> fbuf" where
  "fill_loop g 0 fl b = b"
| "fill_loop g (Suc n) fl b = fill_loop g n fl (append g fl b)"

definition fill_out :: "grow \<Rightarrow> nat \<Rightarrow> string \<Rightarrow> fbuf \<Rightarrow> fbuf" where
  "fill_out g n fl b = (if length fl = 1 then fill_n g n (hd fl) b else fill_loop g n fl b)"

section \<open>Format specifiers\<close>

datatype align_t = Align_None | Align_Left | Align_Right | Align_Center | Align_Numeric

datatype sign_t = Sign_None | Sign_Minus | Sign_Plus | Sign_Space

fun align_index :: "align_t \<Rightarrow> nat" where
  "align_index Align_None = 0"
| "align_index Align_Left = 1"
| "align_index Align_Right = 2"
| "align_index Align_Center = 3"
| "align_index Align_Numeric = 4"

text \<open>The type is a character or 0; the fill is one to four characters.\<close>

record format_specs =
  width :: int
  precision :: int
  type_char :: char
  align :: align_t
  sign :: sign_t
  alt :: bool
  localized :: bool
  fill :: string

definition default_specs :: format_specs where
  "default_specs = \<lparr>width = 0, precision = -1, type_char = CHR 0x00, align = Align_None, sign = Sign_None, alt = False, localized = False, fill = '' ''\<rparr>"

section \<open>Padding\<close>

definition left_padding_shifts :: "nat list" where
  "left_padding_shifts = [31, 31, 0, 1, 0]"

definition right_padding_shifts :: "nat list" where
  "right_padding_shifts = [0, 31, 0, 1, 0]"

text \<open>\<open>f\<close> writes \<open>sz\<close> characters that take \<open>wd\<close> columns; \<open>left\<close> is the default alignment.\<close>

definition write_padded :: "bool \<Rightarrow> grow \<Rightarrow> format_specs \<Rightarrow> nat \<Rightarrow> nat \<Rightarrow> (fbuf \<Rightarrow> fbuf res) \<Rightarrow> fbuf \<Rightarrow> fbuf res" where
  "write_padded left g specs sz wd f b =
     (if width specs < 0 then Inl Assert_Failed
      else let spec_width = nat (width specs);
               padding = (if spec_width > wd then spec_width - wd else 0);
               shifts = (if left then left_padding_shifts else right_padding_shifts);
               left_padding = drop_bit (shifts ! align_index (align specs)) padding;
               right_padding = padding - left_padding;
               b = reserve g (sz + padding * length (fill specs)) b;
               b = (if left_padding \<noteq> 0 then fill_out g left_padding (fill specs) b else b)
           in bind_res (f b) (\<lambda>b. Inr (if right_padding \<noteq> 0 then fill_out g right_padding (fill specs) b else b)))"

definition write_char :: "grow \<Rightarrow> char \<Rightarrow> format_specs \<Rightarrow> fbuf \<Rightarrow> fbuf res" where
  "write_char g c specs b = write_padded True g specs 1 1 (\<lambda>b. Inr (push_back g c b)) b"

section \<open>Integers\<close>

text \<open>A prefix has its characters in the three lower bytes and their number in the fourth.\<close>

fun prefix_chars :: "nat \<Rightarrow> u32 \<Rightarrow> string" where
  "prefix_chars 0 p = []"
| "prefix_chars (Suc n) p = (if p \<noteq> 0 then char_of (unat (p AND 0xff)) # prefix_chars n (drop_bit 8 p) else [])"

definition write_prefix :: "grow \<Rightarrow> u32 \<Rightarrow> fbuf \<Rightarrow> fbuf" where
  "write_prefix g prefix b = fold (push_back g) (prefix_chars 4 (prefix AND 0xffffff)) b"

definition prefix_append :: "u32 \<Rightarrow> u32 \<Rightarrow> u32" where
  "prefix_append prefix v =
     (let prefix = prefix OR (if prefix \<noteq> 0 then push_bit 8 v else v) in prefix + push_bit 24 (1 + (if v > 0xff then 1 else 0)))"

fun sign_prefix :: "sign_t \<Rightarrow> u32" where
  "sign_prefix Sign_None = 0"
| "sign_prefix Sign_Minus = 0"
| "sign_prefix Sign_Plus = 0x1000000 OR 43"
| "sign_prefix Sign_Space = 0x1000000 OR 32"

definition write_int_data :: "nat \<Rightarrow> u32 \<Rightarrow> format_specs \<Rightarrow> nat \<times> nat" where
  "write_int_data num_digits prefix specs =
     (let sz = unat (drop_bit 24 prefix) + num_digits in
      if align specs = Align_Numeric
      then let wd = nat (width specs) in if wd > sz then (wd, wd - sz) else (sz, 0)
      else if precision specs > int num_digits
      then (unat (drop_bit 24 prefix) + nat (precision specs), nat (precision specs - int num_digits))
      else (sz, 0))"

definition write_digits_int :: "grow \<Rightarrow> nat \<Rightarrow> u32 \<Rightarrow> format_specs \<Rightarrow> (fbuf \<Rightarrow> fbuf res) \<Rightarrow> fbuf \<Rightarrow> fbuf res" where
  "write_digits_int g num_digits prefix specs write_digits b =
     (if width specs = 0 \<and> precision specs = -1
      then let b = reserve g (num_digits + unat (drop_bit 24 prefix)) b in
        write_digits (if prefix \<noteq> 0 then write_prefix g prefix b else b)
      else let (sz, padding) = write_int_data num_digits prefix specs in
        write_padded False g specs sz sz (\<lambda>b. write_digits (fill_n g padding (CHR ''0'') (write_prefix g prefix b))) b)"

text \<open>The digits are copied from the start of a local buffer, which has to be filled from there on.\<close>

definition copy_digits :: "grow \<Rightarrow> (nat \<times> string) res \<Rightarrow> fbuf \<Rightarrow> fbuf res" where
  "copy_digits g r b = bind_res r (\<lambda>(begin, txt). if begin = 0 then Inr (append g txt b) else Inl Uninitialised)"

text \<open>
  With enough capacity the digits are written in place: the buffer is resized first, and a pointer to the new characters is used. Other digits
  than decimal ones are always written like this if possible.
\<close>

definition to_pointer :: "nat \<Rightarrow> fbuf \<Rightarrow> (nat \<times> fbuf) option" where
  "to_pointer n b = (if length (store b) < used b + n then None else Some (used b, b\<lparr>used := used b + n\<rparr>))"

definition poke :: "nat \<Rightarrow> string \<Rightarrow> fbuf \<Rightarrow> fbuf" where
  "poke p xs b = b\<lparr>store := take p (store b) @ xs @ drop (p + length xs) (store b)\<rparr>"

definition poke_digits :: "nat \<Rightarrow> (nat \<times> string) res \<Rightarrow> fbuf \<Rightarrow> fbuf res" where
  "poke_digits p r b = bind_res r (\<lambda>(begin, txt). if begin = 0 then Inr (poke p txt b) else Inl Uninitialised)"

definition uint_digits :: "grow \<Rightarrow> nat \<Rightarrow> (nat \<times> string) res \<Rightarrow> fbuf \<Rightarrow> fbuf res" where
  "uint_digits g num_digits r b =
     (case to_pointer num_digits b of Some (p, b) \<Rightarrow> poke_digits p r b | None \<Rightarrow> copy_digits g r b)"

text \<open>The magnitude of a signed or unsigned integer; the negation of the smallest value wraps around to its magnitude.\<close>

definition is_negative :: "bool \<Rightarrow> 'a::len word \<Rightarrow> bool" where
  "is_negative sg v \<longleftrightarrow> sg \<and> sint v < 0"

definition abs_value :: "bool \<Rightarrow> 'a::len word \<Rightarrow> 'a word" where
  "abs_value sg v = (if is_negative sg v then 0 - v else v)"

definition write_int :: "grow \<Rightarrow> bool \<Rightarrow> 'a::len word \<Rightarrow> format_specs \<Rightarrow> fbuf \<Rightarrow> (fbuf, unit) outcome" where
  "write_int g sg v specs b =
     (let prefix = (if is_negative sg v then 0x01000000 OR 45 else sign_prefix (sign specs));
          a = abs_value sg v;
          t = type_char specs;
          based = prefix_append prefix (push_bit 8 (of_char t) OR 48)
      in if t = CHR 0x00 \<or> t = CHR ''d''
         then let n = count_digits a in
           done_res (write_digits_int g n prefix specs (copy_digits g (format_decimal a n)) b)
         else if t = CHR ''x'' \<or> t = CHR ''X''
         then let n = count_digits_bits 4 a in
           done_res (write_digits_int g n (if alt specs then based else prefix) specs (uint_digits g n (format_uint 4 a n (t \<noteq> CHR ''x''))) b)
         else if t = CHR ''b'' \<or> t = CHR ''B''
         then let n = count_digits_bits 1 a in
           done_res (write_digits_int g n (if alt specs then based else prefix) specs (uint_digits g n (format_uint 1 a n False)) b)
         else if t = CHR ''o''
         then let n = count_digits_bits 3 a in
           done_res (write_digits_int g n (if alt specs \<and> precision specs \<le> int n \<and> a \<noteq> 0 then prefix_append prefix 48 else prefix)
             specs (uint_digits g n (format_uint 3 a n False)) b)
         else if t = CHR ''c'' then done_res (write_char g (char_of (unat a)) specs b)
         else Throw ''invalid type specifier'' b)"

text \<open>Without specifiers.\<close>

definition write_int_default :: "grow \<Rightarrow> bool \<Rightarrow> 'a::len word \<Rightarrow> fbuf \<Rightarrow> fbuf res" where
  "write_int_default g sg v b =
     (let negative = is_negative sg v;
          a = (if negative then NOT v + 1 else v);
          num_digits = count_digits a;
          sz = (if negative then 1 else 0) + num_digits;
          b = reserve g sz b
      in case to_pointer sz b of
           Some (p, b) \<Rightarrow>
             if negative then poke_digits (p + 1) (format_decimal a num_digits) (poke p ''-'' b)
             else poke_digits p (format_decimal a num_digits) b
         | None \<Rightarrow> copy_digits g (format_decimal a num_digits) (if negative then push_back g (CHR ''-'') b else b))"

section \<open>Strings\<close>

definition code_point_length :: "char \<Rightarrow> nat" where
  "code_point_length c =
     (let len = [1, 1, 1, 1, 1, 1, 1, 1, 1, 1, 1, 1, 1, 1, 1, 1, 0, 0, 0, 0, 0, 0, 0, 0, 2, 2, 2, 2, 3, 3, 4, 0] ! (of_char c div 8 :: nat)
      in if len = 0 then 1 else len)"

text \<open>Decoding at the start of four characters: the code point, whether there is an error, and the length.\<close>

definition utf8_decode :: "char \<times> char \<times> char \<times> char \<Rightarrow> u32 \<times> u32 \<times> nat" where
  "utf8_decode = (\<lambda>(s0, s1, s2, s3).
     let masks = [0x00, 0x7f, 0x1f, 0x0f, 0x07];
         mins = [4194304, 0, 128, 2048, 65536];
         shiftc = [0, 18, 12, 6, 0];
         shifte = [0, 6, 4, 2, 0];
         len = code_point_length s0;
         c = push_bit 18 (of_char s0 AND masks ! len);
         c = c OR push_bit 12 (of_char s1 AND 0x3f);
         c = c OR push_bit 6 (of_char s2 AND 0x3f);
         c = c OR (of_char s3 AND 0x3f);
         c = drop_bit (shiftc ! len) c;
         e = (if c < mins ! len then push_bit 6 1 else 0);
         e = e OR (if drop_bit 11 c = 0x1b then push_bit 7 1 else 0);
         e = e OR (if c > 0x10FFFF then push_bit 8 1 else 0);
         e = e OR drop_bit 2 (of_char s1 AND 0xc0);
         e = e OR drop_bit 4 (of_char s2 AND 0xc0);
         e = e OR drop_bit 6 (of_char s3);
         e = e XOR 0x2a;
         e = drop_bit (shifte ! len) e
     in (c, e, len))"

text \<open>The columns that a code point takes.\<close>

definition code_point_width :: "u32 \<Rightarrow> u32 \<Rightarrow> nat" where
  "code_point_width cp error =
     1 + (if error = 0 \<and> cp \<ge> 0x1100 \<and>
            (cp \<le> 0x115f \<or> cp = 0x2329 \<or> cp = 0x232a \<or> cp \<ge> 0x2e80 \<and> cp \<le> 0xa4cf \<and> cp \<noteq> 0x303f \<or> cp \<ge> 0xac00 \<and> cp \<le> 0xd7a3 \<or>
             cp \<ge> 0xf900 \<and> cp \<le> 0xfaff \<or> cp \<ge> 0xfe10 \<and> cp \<le> 0xfe19 \<or> cp \<ge> 0xfe30 \<and> cp \<le> 0xfe6f \<or> cp \<ge> 0xff00 \<and> cp \<le> 0xff60 \<or>
             cp \<ge> 0xffe0 \<and> cp \<le> 0xffe6 \<or> cp \<ge> 0x20000 \<and> cp \<le> 0x2fffd \<or> cp \<ge> 0x30000 \<and> cp \<le> 0x3fffd \<or>
             cp \<ge> 0x1f300 \<and> cp \<le> 0x1f64f \<or> cp \<ge> 0x1f900 \<and> cp \<le> 0x1f9ff) then 1 else 0)"

text \<open>
  \<open>for_each_codepoint\<close> with the counter of \<open>compute_width\<close>. Four characters are read at a time; the last up to three characters are
  copied into a buffer of seven zeros. \<open>p\<close> is a position, reading outside of \<open>s\<close> is a fault.
\<close>

definition decode_at :: "string \<Rightarrow> nat \<Rightarrow> (nat \<times> nat) res" where
  "decode_at s p =
     (if p + 3 < length s
      then let (cp, e, len) = utf8_decode (s ! p, s ! (p + 1), s ! (p + 2), s ! (p + 3)) in Inr (code_point_width cp e, p + len)
      else Inl Out_Of_Bounds)"

lemma code_point_length_pos: "0 < code_point_length c"
  by (simp add: code_point_length_def Let_def)

lemma decode_at_advances: "decode_at s p = Inr (w, p') \<Longrightarrow> p < p'"
  using code_point_length_pos [of "s ! p"] by (auto simp: decode_at_def utf8_decode_def Let_def split: if_splits)

function width_loop :: "string \<Rightarrow> nat \<Rightarrow> nat \<Rightarrow> nat \<Rightarrow> (nat \<times> nat) res" where
  "width_loop s bound p count =
     (if p < bound
      then case decode_at s p of Inl e \<Rightarrow> Inl e | Inr (w, p') \<Rightarrow> width_loop s bound p' (count + w)
      else Inr (p, count))"
  by auto
termination
  by (relation "measure (\<lambda>(s, bound, p, count). bound - p)") (auto dest: decode_at_advances intro: diff_less_mono2)

declare width_loop.simps [simp del]

definition compute_width :: "string \<Rightarrow> nat res" where
  "compute_width s =
     bind_res (if length s \<ge> 4 then width_loop s (length s - 4 + 1) 0 0 else Inr (0, 0)) (\<lambda>(p, count).
     let num_chars_left = length s - p in
     if num_chars_left = 0 then Inr count
     else if num_chars_left > 7 then Inl Out_Of_Bounds
     else let buf = drop p s @ replicate (7 - num_chars_left) (CHR 0x00) in
       bind_res (decode_at buf 0) (\<lambda>(w, p).
       bind_res (width_loop buf num_chars_left p (count + w)) (\<lambda>(p, count). Inr count)))"

text \<open>The precision of a string counts code units.\<close>

definition write_string :: "grow \<Rightarrow> string \<Rightarrow> format_specs \<Rightarrow> fbuf \<Rightarrow> fbuf res" where
  "write_string g s specs b =
     (let sz = (if precision specs \<ge> 0 \<and> nat (precision specs) < length s then nat (precision specs) else length s) in
      bind_res (if width specs \<noteq> 0 then compute_width (take sz s) else Inr 0) (\<lambda>wd.
      write_padded True g specs sz wd (\<lambda>b. Inr (append g (take sz s) b)) b))"

definition write_ptr :: "grow \<Rightarrow> u64 \<Rightarrow> format_specs \<Rightarrow> fbuf \<Rightarrow> fbuf res" where
  "write_ptr g v specs b =
     (let num_digits = count_digits_bits 4 v; sz = num_digits + 2 in
      write_padded False g specs sz sz
        (\<lambda>b. uint_digits g num_digits (format_uint 4 v num_digits False) (push_back g (CHR ''x'') (push_back g (CHR ''0'') b))) b)"

definition bool_text :: "bool \<Rightarrow> string" where
  "bool_text v = (if v then ''true'' else ''false'')"
section \<open>Arguments\<close>

text \<open>
  The values that a formatting call can have, with the types of \<open>detail::type\<close>. A C string has an address, which is 0 for the null pointer.
  Of the types with a formatter of their own, \<open>std::tm\<close> is modelled, which the logger uses.
\<close>

datatype arg_type =
    none_type | int_type | uint_type | long_long_type | ulong_long_type | int128_type | uint128_type | bool_type | char_type
  | float_type | double_type | long_double_type | cstring_type | string_type | pointer_type | custom_type

datatype 'tm fmt_arg =
    Int_Arg u32
  | UInt_Arg u32
  | LongLong_Arg u64
  | ULongLong_Arg u64
  | Int128_Arg "128 word"
  | UInt128_Arg "128 word"
  | Bool_Arg bool
  | Char_Arg char
  | CString_Arg u64 string
  | String_Arg string
  | Pointer_Arg u64
  | Tm_Arg 'tm

fun type_of :: "'tm fmt_arg \<Rightarrow> arg_type" where
  "type_of (Int_Arg v) = int_type"
| "type_of (UInt_Arg v) = uint_type"
| "type_of (LongLong_Arg v) = long_long_type"
| "type_of (ULongLong_Arg v) = ulong_long_type"
| "type_of (Int128_Arg v) = int128_type"
| "type_of (UInt128_Arg v) = uint128_type"
| "type_of (Bool_Arg v) = bool_type"
| "type_of (Char_Arg c) = char_type"
| "type_of (CString_Arg p s) = cstring_type"
| "type_of (String_Arg s) = string_type"
| "type_of (Pointer_Arg p) = pointer_type"
| "type_of (Tm_Arg t) = custom_type"

text \<open>
  The formatter of \<open>std::tm\<close>: the specifiers end at a brace; \<open>strftime\<close> is called with larger and larger buffers until its result fits. Its
  parameter here is the result that it has in a buffer that is large enough. The blank at the end makes every result non-empty.
\<close>

definition tm_parse :: "string \<Rightarrow> string \<times> nat" where
  "tm_parse s =
     (let skip = (if s \<noteq> [] \<and> hd s = CHR '':'' then 1 else 0); specs = takeWhile (\<lambda>c. c \<noteq> CHR ''}'') (drop skip s)
      in (specs, skip + length specs))"

function tm_loop :: "string \<Rightarrow> nat \<Rightarrow> string" where
  "tm_loop r capacity =
     (if length r < capacity then r else tm_loop r (memory_capacity capacity (capacity + (if capacity > 10 then capacity else 10))))"
  by auto
termination
  by (relation "measure (\<lambda>(r, capacity). Suc (length r) - capacity)") (auto simp: memory_capacity_def Let_def)

declare tm_loop.simps [simp del]

definition tm_text :: "(string \<Rightarrow> 'tm \<Rightarrow> string) \<Rightarrow> string \<Rightarrow> 'tm \<Rightarrow> string" where
  "tm_text strftime specs t = butlast (tm_loop (strftime (specs @ '' '') t) 500)"

text \<open>Visiting an argument without specifiers, and with them.\<close>

fun write_default :: "(string \<Rightarrow> 'tm \<Rightarrow> string) \<Rightarrow> grow \<Rightarrow> 'tm fmt_arg \<Rightarrow> fbuf \<Rightarrow> (fbuf, unit) outcome" where
  "write_default strftime g (Int_Arg v) b = done_res (write_int_default g True v b)"
| "write_default strftime g (UInt_Arg v) b = done_res (write_int_default g False v b)"
| "write_default strftime g (LongLong_Arg v) b = done_res (write_int_default g True v b)"
| "write_default strftime g (ULongLong_Arg v) b = done_res (write_int_default g False v b)"
| "write_default strftime g (Int128_Arg v) b = done_res (write_int_default g True v b)"
| "write_default strftime g (UInt128_Arg v) b = done_res (write_int_default g False v b)"
| "write_default strftime g (Bool_Arg v) b = done_res (write_string g (bool_text v) default_specs b)"
| "write_default strftime g (Char_Arg c) b = Done () (push_back g c (reserve g 1 b))"
| "write_default strftime g (CString_Arg p s) b =
     (if p = 0 then Throw ''string pointer is null'' b else Done () (append g s (reserve g (length s) b)))"
| "write_default strftime g (String_Arg s) b = Done () (append g s (reserve g (length s) b))"
| "write_default strftime g (Pointer_Arg p) b = done_res (write_ptr g p default_specs b)"
| "write_default strftime g (Tm_Arg t) b = Done () (fold (push_back g) (tm_text strftime (fst (tm_parse [])) t) b)"

definition check_int_type_spec :: "char \<Rightarrow> bool" where
  "check_int_type_spec t \<longleftrightarrow> t \<in> {CHR 0x00, CHR ''d'', CHR ''x'', CHR ''X'', CHR ''b'', CHR ''B'', CHR ''o'', CHR ''c''}"

definition char_specs_ok :: "format_specs \<Rightarrow> bool" where
  "char_specs_ok specs \<longleftrightarrow> \<not> (align specs = Align_Numeric \<or> sign specs \<noteq> Sign_None \<or> alt specs)"

abbreviation bad_type :: string where
  "bad_type \<equiv> ''invalid type specifier''"

text \<open>A \<open>char\<close> that is written as an integer is signed.\<close>

definition int_of_char :: "char \<Rightarrow> u32" where
  "int_of_char c = scast (of_char c :: u8)"

fun arg_formatter :: "grow \<Rightarrow> format_specs \<Rightarrow> 'tm fmt_arg \<Rightarrow> fbuf \<Rightarrow> (fbuf, unit) outcome" where
  "arg_formatter g specs (Int_Arg v) b = write_int g True v specs b"
| "arg_formatter g specs (UInt_Arg v) b = write_int g False v specs b"
| "arg_formatter g specs (LongLong_Arg v) b = write_int g True v specs b"
| "arg_formatter g specs (ULongLong_Arg v) b = write_int g False v specs b"
| "arg_formatter g specs (Int128_Arg v) b = write_int g True v specs b"
| "arg_formatter g specs (UInt128_Arg v) b = write_int g False v specs b"
| "arg_formatter g specs (Bool_Arg v) b =
     (if type_char specs \<noteq> CHR 0x00 \<and> type_char specs \<noteq> CHR ''s'' then write_int g True (if v then 1 else 0 :: u32) specs b
      else done_res (write_string g (bool_text v) specs b))"
| "arg_formatter g specs (Char_Arg c) b =
     (if type_char specs \<noteq> CHR 0x00 \<and> type_char specs \<noteq> CHR ''c'' then write_int g True (int_of_char c) specs b
      else if \<not> char_specs_ok specs then Throw ''invalid format specifier for char'' b
      else done_res (write_char g c specs b))"
| "arg_formatter g specs (CString_Arg p s) b =
     (if type_char specs = CHR 0x00 \<or> type_char specs = CHR ''s''
      then if p = 0 then Throw ''string pointer is null'' b else done_res (write_string g s specs b)
      else if type_char specs = CHR ''p'' then done_res (write_ptr g p specs b)
      else Throw bad_type b)"
| "arg_formatter g specs (String_Arg s) b =
     (if type_char specs \<noteq> CHR 0x00 \<and> type_char specs \<noteq> CHR ''s'' then Throw bad_type b else done_res (write_string g s specs b))"
| "arg_formatter g specs (Pointer_Arg p) b =
     (if type_char specs \<noteq> CHR 0x00 \<and> type_char specs \<noteq> CHR ''p'' then Throw bad_type b else done_res (write_ptr g p specs b))"
| "arg_formatter g specs (Tm_Arg t) b = Done () b"

section \<open>Growing\<close>

text \<open>The characters in a buffer, and writing in place with enough capacity.\<close>

definition wf_buf :: "fbuf \<Rightarrow> bool" where
  "wf_buf b \<longleftrightarrow> used b \<le> length (store b)"

definition content :: "fbuf \<Rightarrow> string" where
  "content b = take (used b) (store b)"

definition put :: "string \<Rightarrow> fbuf \<Rightarrow> fbuf" where
  "put xs b = b\<lparr>store := take (used b) (store b) @ xs @ drop (used b + length xs) (store b), used := used b + length xs\<rparr>"

definition wrote :: "grow \<Rightarrow> string \<Rightarrow> fbuf \<Rightarrow> fbuf" where
  "wrote g xs b = put xs (reserve g (length xs) b)"

lemma put_Nil [simp]: "wf_buf b \<Longrightarrow> put [] b = b"
  by (simp add: put_def wf_buf_def)

lemma used_put [simp]: "used (put xs b) = used b + length xs"
  by (simp add: put_def)

lemma length_put: "used b + length xs \<le> length (store b) \<Longrightarrow> length (store (put xs b)) = length (store b)"
  by (simp add: put_def)

lemma put_put: "used b + length xs + length ys \<le> length (store b) \<Longrightarrow> put ys (put xs b) = put (xs @ ys) b"
  by (simp add: put_def drop_append algebra_simps)

lemma wf_put: "used b + length xs \<le> length (store b) \<Longrightarrow> wf_buf (put xs b)"
  by (simp add: wf_buf_def length_put)

lemma content_put: "used b + length xs \<le> length (store b) \<Longrightarrow> content (put xs b) = content b @ xs"
  by (simp add: content_def put_def)

lemma reserve_idle: "used b + n \<le> length (store b) \<Longrightarrow> reserve g n b = b"
  by (simp add: reserve_def try_reserve_def)

lemma append_put: "used b + length xs \<le> length (store b) \<Longrightarrow> append g xs b = put xs b"
  by (cases xs) (auto simp: append.simps [of g] try_reserve_def put_def Let_def)

lemma push_back_put: "used b < length (store b) \<Longrightarrow> push_back g c b = put [c] b"
  by (simp add: push_back_def try_reserve_def put_def upd_conv_take_nth_drop)

lemma fold_push_back_put: "used b + length xs \<le> length (store b) \<Longrightarrow> fold (push_back g) xs b = put xs b"
  by (induction xs arbitrary: b) (auto simp: push_back_put put_put length_put wf_buf_def)

lemma fill_n_put: "used b + n \<le> length (store b) \<Longrightarrow> fill_n g n c b = put (replicate n c) b"
  by (induction n arbitrary: b) (auto simp: push_back_put put_put length_put wf_buf_def)

lemma fill_loop_put: "used b + n * length fl \<le> length (store b) \<Longrightarrow> fill_loop g n fl b = put (concat (replicate n fl)) b"
  by (induction n arbitrary: b) (auto simp: append_put put_put length_put wf_buf_def length_concat sum_list_replicate)

lemma fill_out_put: "used b + n * length fl \<le> length (store b) \<Longrightarrow> fill_out g n fl b = put (concat (replicate n fl)) b"
proof (cases "length fl = 1")
  case True
  then obtain c where "fl = [c]" by (cases fl) auto
  moreover have "concat (replicate n [c]) = replicate n c" by (induction n) auto
  moreover assume "used b + n * length fl \<le> length (store b)"
  ultimately show ?thesis by (simp add: fill_out_def fill_n_put)
qed (simp add: fill_out_def fill_loop_put)

text \<open>
  What the writers need of a buffer: \<open>grow\<close> gives the capacity that was asked for and leaves the characters in use unchanged; \<open>ok\<close> is
  a condition on the buffer that holds between two writes.
\<close>

locale growable =
  fixes g :: grow and ok :: "fbuf \<Rightarrow> bool"
  assumes ok_wf: "ok b \<Longrightarrow> wf_buf b"
    and grow_capacity: "wf_buf b \<Longrightarrow> length (store b) < n \<Longrightarrow> n \<le> length (store (g n b))"
    and grow_used: "used (g n b) = used b"
    and grow_content: "wf_buf b \<Longrightarrow> length (store b) < n \<Longrightarrow> take (used b) (store (g n b)) = take (used b) (store b)"
    and ok_wrote: "ok b \<Longrightarrow> ok (wrote g xs b)"
begin

lemma reserve_props:
  assumes "wf_buf b"
  shows "used (reserve g n b) = used b" and "used b + n \<le> length (store (reserve g n b))"
    and "take (used b) (store (reserve g n b)) = take (used b) (store b)"
proof -
  show "used (reserve g n b) = used b" by (simp add: reserve_def try_reserve_def grow_used)
  show "used b + n \<le> length (store (reserve g n b))" using grow_capacity [OF assms] by (auto simp: reserve_def try_reserve_def)
  show "take (used b) (store (reserve g n b)) = take (used b) (store b)" using grow_content [OF assms] by (simp add: reserve_def try_reserve_def)
qed

lemma wrote_props:
  assumes "wf_buf b"
  shows "wf_buf (wrote g xs b)" and "content (wrote g xs b) = content b @ xs"
proof -
  let ?r = "reserve g (length xs) b"
  have r: "used ?r = used b" "used ?r + length xs \<le> length (store ?r)" "content ?r = content b"
    using reserve_props [OF assms, of "length xs"] by (simp_all add: content_def)
  show "wf_buf (wrote g xs b)" using wf_put [OF r(2)] by (simp add: wrote_def)
  show "content (wrote g xs b) = content b @ xs" using content_put [OF r(2)] r(3) by (simp add: wrote_def)
qed

lemma append_wrote:
  assumes "wf_buf b"
  shows "append g xs b = wrote g xs b"
proof (cases "xs = []")
  case True
  then show ?thesis using assms reserve_idle [of b 0 g] by (simp add: append.simps wrote_def wf_buf_def)
next
  case False
  let ?r = "reserve g (length xs) b"
  have r: "used ?r = used b" "used ?r + length xs \<le> length (store ?r)" using reserve_props [OF assms, of "length xs"] by simp_all
  have "append g xs b = append g xs ?r" using False r unfolding append.simps [of g xs b] append.simps [of g xs ?r] by (simp add: reserve_def try_reserve_def Let_def)
  also have "\<dots> = wrote g xs b" using append_put [OF r(2)] by (simp add: wrote_def)
  finally show ?thesis .
qed

lemma push_back_wrote:
  assumes "wf_buf b"
  shows "push_back g c b = wrote g [c] b"
proof -
  let ?r = "reserve g 1 b"
  have r: "used ?r = used b" "used ?r < length (store ?r)" using reserve_props [OF assms, of 1] by simp_all
  have "push_back g c b = push_back g c ?r" using r by (simp add: push_back_def reserve_def try_reserve_def Let_def)
  also have "\<dots> = wrote g [c] b" using push_back_put [OF r(2)] by (simp add: wrote_def)
  finally show ?thesis .
qed

lemma fold_push_back:
  assumes "ok b"
  shows "ok (fold (push_back g) xs b) \<and> content (fold (push_back g) xs b) = content b @ xs"
  using assms
proof (induction xs arbitrary: b)
  case (Cons c xs)
  have "push_back g c b = wrote g [c] b" using Cons.prems by (simp add: push_back_wrote ok_wf)
  then show ?case using Cons.IH [of "wrote g [c] b"] Cons.prems wrote_props(2) [OF ok_wf [OF Cons.prems], of "[c]"] by (simp add: ok_wrote)
qed simp

end

interpretation string_buf: growable string_grow "\<lambda>b. used b = length (store b)"
  by unfold_locales (auto simp: wf_buf_def string_grow_def wrote_def put_def reserve_def try_reserve_def)

interpretation memory_buf: growable memory_grow wf_buf
proof unfold_locales
  have c: "n \<le> memory_capacity m n" for m n by (auto simp: memory_capacity_def Let_def)
  show "n \<le> length (store (memory_grow n b))" if "wf_buf b" "length (store b) < n" for b n
    using that c [of n "length (store b)"] by (simp add: memory_grow_def wf_buf_def)
  note cap = this
  have u: "used (memory_grow n b) = used b" for n b by (simp add: memory_grow_def)
  show "wf_buf (wrote memory_grow xs b)" if "wf_buf b" for b xs
    unfolding wrote_def
    by (rule wf_put) (use that cap [of b "used b + length xs"] u in \<open>auto simp: wf_buf_def reserve_def try_reserve_def\<close>)
qed (auto simp: memory_grow_def wf_buf_def)

end
