(* ===== verification/Fmt_Text.thy ===== *)
theory Fmt_Text
  imports Fmt_Write
begin

text \<open>
  What the writers of \<open>Fmt_Write\<close> produce. The text of every argument is defined without buffers, reservations and packed
  prefixes, and the writers are shown to append exactly this text, for every kind of buffer.
\<close>

section \<open>Padding\<close>

definition pad_text :: "bool \<Rightarrow> format_specs \<Rightarrow> nat \<Rightarrow> string \<Rightarrow> string" where
  "pad_text left specs wd body =
     (let padding = nat (width specs) - wd;
          lp = (case align specs of
                  Align_None \<Rightarrow> if left then 0 else padding
                | Align_Left \<Rightarrow> 0
                | Align_Center \<Rightarrow> padding div 2
                | _ \<Rightarrow> padding)
      in concat (replicate lp (fill specs)) @ body @ concat (replicate (padding - lp) (fill specs)))"

text \<open>Specifiers as the parser makes them: the width is an \<open>int\<close> that is not negative.\<close>

definition specs_ok :: "format_specs \<Rightarrow> bool" where
  "specs_ok specs \<longleftrightarrow> 0 \<le> width specs \<and> width specs < 2 ^ 31 \<and> - 1 \<le> precision specs"

lemma shift_padding:
  fixes n :: nat
  assumes "n < 2 ^ 31"
  shows "drop_bit ((if left then left_padding_shifts else right_padding_shifts) ! align_index a) n =
    (case a of Align_None \<Rightarrow> if left then 0 else n | Align_Left \<Rightarrow> 0 | Align_Center \<Rightarrow> n div 2 | _ \<Rightarrow> n)"
  using assms by (cases a) (auto simp: left_padding_shifts_def right_padding_shifts_def drop_bit_eq_div)

context growable
begin

lemma write_padded_wrote:
  assumes b: "wf_buf b" and s: "specs_ok specs" and len: "length body = sz"
    and f: "\<And>b. used b + sz \<le> length (store b) \<Longrightarrow> f b = Inr (put body b)"
  shows "write_padded left g specs sz wd f b = Inr (wrote g (pad_text left specs wd body) b)"
proof -
  define padding where "padding = nat (width specs) - wd"
  define lp where "lp = (case align specs of Align_None \<Rightarrow> if left then 0 else padding | Align_Left \<Rightarrow> 0 | Align_Center \<Rightarrow> padding div 2 | _ \<Rightarrow> padding)"
  define rp where "rp = padding - lp"
  let ?n = "length (fill specs)" and ?L = "concat (replicate lp (fill specs))" and ?R = "concat (replicate rp (fill specs))"
  let ?r = "reserve g (sz + padding * ?n) b"
  have "lp \<le> padding" by (auto simp: lp_def split: align_t.split)
  then have pad: "padding * ?n = lp * ?n + rp * ?n" by (simp add: rp_def flip: add_mult_distrib)
  have "nat (width specs) < 2 ^ 31" using s by (auto simp: specs_ok_def nat_less_iff)
  then have "padding < 2 ^ 31" unfolding padding_def by simp
  note sh = shift_padding [OF this, of left "align specs", folded lp_def]
  have r: "used ?r = used b" "used b + (sz + padding * ?n) \<le> length (store ?r)" using reserve_props [OF b] by auto
  have l: "length ?L = lp * ?n" "length ?R = rp * ?n" by (simp_all add: length_concat sum_list_replicate)
  have wr: "wf_buf ?r" using r by (simp add: wf_buf_def)
  have 1: "(if lp \<noteq> 0 then fill_out g lp (fill specs) ?r else ?r) = put ?L ?r"
    using r pad wr by (auto simp: fill_out_put)
  have 2: "f (put ?L ?r) = Inr (put body (put ?L ?r))" using r pad l by (intro f) (simp add: length_put)
  have 3: "put body (put ?L ?r) = put (?L @ body) ?r" using r pad l len by (intro put_put) simp
  have 4: "(if rp \<noteq> 0 then fill_out g rp (fill specs) (put (?L @ body) ?r) else put (?L @ body) ?r) = put ?R (put (?L @ body) ?r)"
    using r pad l len by (auto simp: fill_out_put length_put wf_put)
  have 5: "put ?R (put (?L @ body) ?r) = put (?L @ body @ ?R) ?r" using r pad l len by (subst put_put) auto
  have p: "(if nat (width specs) > wd then nat (width specs) - wd else 0) = padding" by (simp add: padding_def)
  have t: "pad_text left specs wd body = ?L @ body @ ?R" by (simp only: pad_text_def Let_def rp_def lp_def padding_def)
  have lt: "length (?L @ body @ ?R) = sz + padding * ?n" using l len pad by simp
  have "\<not> width specs < 0" using s by (simp add: specs_ok_def)
  then have "write_padded left g specs sz wd f b =
      bind_res (f (if lp \<noteq> 0 then fill_out g lp (fill specs) ?r else ?r))
        (\<lambda>b. Inr (if rp \<noteq> 0 then fill_out g rp (fill specs) b else b))"
    unfolding write_padded_def Let_def p sh rp_def by (simp only: if_False)
  also have "\<dots> = Inr (put (?L @ body @ ?R) ?r)" unfolding 1 2 bind_res_simps 3 4 5 ..
  finally show ?thesis unfolding t wrote_def lt .
qed

lemma write_char_wrote: "wf_buf b \<Longrightarrow> specs_ok specs \<Longrightarrow> write_char g c specs b = Inr (wrote g (pad_text True specs 1 [c]) b)"
  unfolding write_char_def by (intro write_padded_wrote) (auto simp: push_back_put)

end

section \<open>Integers\<close>

definition sign_text :: "bool \<Rightarrow> sign_t \<Rightarrow> string" where
  "sign_text negative s = (if negative then ''-'' else case s of Sign_Plus \<Rightarrow> ''+'' | Sign_Space \<Rightarrow> '' '' | _ \<Rightarrow> '''')"

definition int_digits :: "char \<Rightarrow> nat \<Rightarrow> string" where
  "int_digits t n =
     (if t = CHR ''x'' \<or> t = CHR ''X'' then map (base_char 4 (t = CHR ''X'')) (digits_in 16 n)
      else if t = CHR ''b'' \<or> t = CHR ''B'' then map digit_char (digits_in 2 n)
      else if t = CHR ''o'' then map digit_char (digits_in 8 n)
      else map digit_char (digits_in 10 n))"

definition base_text :: "format_specs \<Rightarrow> nat \<Rightarrow> string" where
  "base_text specs n =
     (let t = type_char specs in
      if \<not> alt specs then ''''
      else if t \<in> {CHR ''x'', CHR ''X'', CHR ''b'', CHR ''B''} then [CHR ''0'', t]
      else if t = CHR ''o'' \<and> precision specs \<le> int (length (int_digits t n)) \<and> n \<noteq> 0 then ''0'' else '''')"

text \<open>Sign, base, zeros up to the width or the precision, and digits; then the padding.\<close>

definition int_body :: "format_specs \<Rightarrow> bool \<Rightarrow> nat \<Rightarrow> string" where
  "int_body specs negative n =
     (let prefix = sign_text negative (sign specs) @ base_text specs n;
          digits = int_digits (type_char specs) n;
          zeros = (if align specs = Align_Numeric then nat (width specs) - (length prefix + length digits)
                   else nat (precision specs - int (length digits)))
      in prefix @ replicate zeros (CHR ''0'') @ digits)"

definition int_text :: "format_specs \<Rightarrow> bool \<Rightarrow> nat \<Rightarrow> string" where
  "int_text specs negative n =
     (if type_char specs = CHR ''c'' then pad_text True specs 1 [char_of n]
      else pad_text False specs (length (int_body specs negative n)) (int_body specs negative n))"

text \<open>The packed prefixes: the signs, followed by a base.\<close>

definition prefix_is :: "u32 \<Rightarrow> string \<Rightarrow> bool" where
  "prefix_is p s \<longleftrightarrow> prefix_chars 4 (p AND 0xffffff) = s \<and> unat (drop_bit 24 p) = length s \<and> (p = 0 \<longleftrightarrow> s = [])"

definition int_prefix :: "bool \<Rightarrow> format_specs \<Rightarrow> u32" where
  "int_prefix negative specs = (if negative then 0x01000000 OR 45 else sign_prefix (sign specs))"

lemma int_prefix_cases:
  obtains "int_prefix negative specs = 0" "sign_text negative (sign specs) = ''''"
  | "int_prefix negative specs = 0x0100002D" "sign_text negative (sign specs) = ''-''"
  | "int_prefix negative specs = 0x0100002B" "sign_text negative (sign specs) = ''+''"
  | "int_prefix negative specs = 0x01000020" "sign_text negative (sign specs) = '' ''"
  by (cases negative; cases "sign specs") (auto simp: int_prefix_def sign_text_def)

lemma prefixes_ground:
  "list_all (\<lambda>(p, s). prefix_is p s \<and> prefix_is (prefix_append p 48) (s @ ''0'') \<and>
     list_all (\<lambda>t. prefix_is (prefix_append p (push_bit 8 (of_char t) OR 48)) (s @ [CHR ''0'', t])) ''xXbB'')
   [(0, ''''), (0x0100002D, ''-''), (0x0100002B, ''+''), (0x01000020, '' '')]"
  by code_simp

lemma prefix_is_int_prefix:
  shows "prefix_is (int_prefix negative specs) (sign_text negative (sign specs))"
    and "prefix_is (prefix_append (int_prefix negative specs) 48) (sign_text negative (sign specs) @ ''0'')"
    and "t \<in> {CHR ''x'', CHR ''X'', CHR ''b'', CHR ''B''} \<Longrightarrow>
      prefix_is (prefix_append (int_prefix negative specs) (push_bit 8 (of_char t) OR 48)) (sign_text negative (sign specs) @ [CHR ''0'', t])"
  using prefixes_ground unfolding list.pred_inject prod.case
  by (cases rule: int_prefix_cases [of negative specs]; force)+

context growable
begin

lemma write_prefix_put:
  assumes "prefix_is p s" and "used b + length s \<le> length (store b)"
  shows "write_prefix g p b = put s b"
  using assms fold_push_back_put [of b s g] by (simp add: write_prefix_def prefix_is_def)

lemma write_digits_int_wrote:
  assumes b: "wf_buf b" and s: "specs_ok specs" and p: "prefix_is prefix pre" and len: "length digits = n"
    and zeros: "zeros = (if align specs = Align_Numeric then nat (width specs) - (length pre + n) else nat (precision specs - int n))"
    and f: "\<And>b. used b + n \<le> length (store b) \<Longrightarrow> f b = Inr (put digits b)"
  shows "write_digits_int g n prefix specs f b =
    Inr (wrote g (pad_text False specs (length pre + zeros + n) (pre @ replicate zeros (CHR ''0'') @ digits)) b)"
proof (cases "width specs = 0 \<and> precision specs = -1")
  case True
  let ?r = "reserve g (n + length pre) b"
  have r: "used ?r = used b" "used b + (n + length pre) \<le> length (store ?r)" using reserve_props [OF b] by auto
  have "(if prefix \<noteq> 0 then write_prefix g prefix ?r else ?r) = put pre ?r"
    using p r by (auto simp: prefix_is_def wf_buf_def write_prefix_put [OF p])
  moreover have "f (put pre ?r) = Inr (put digits (put pre ?r))" using r by (intro f) (simp add: length_put)
  moreover have "put digits (put pre ?r) = put (pre @ digits) ?r" using r len by (intro put_put) simp
  moreover have "unat (drop_bit 24 prefix) = length pre" using p by (simp add: prefix_is_def)
  moreover have "zeros = 0" using True zeros by simp
  ultimately show ?thesis using True len
    by (simp add: write_digits_int_def Let_def wrote_def pad_text_def add.commute split: align_t.split)
next
  case False
  have d: "write_int_data n prefix specs = (length pre + zeros + n, zeros)"
    using p zeros s by (auto simp: write_int_data_def prefix_is_def Let_def specs_ok_def)
  have z: "used b + (length pre + zeros + n) \<le> length (store b) \<Longrightarrow>
      f (fill_n g zeros (CHR ''0'') (write_prefix g prefix b)) = Inr (put (pre @ replicate zeros (CHR ''0'') @ digits) b)" for b
  proof -
    assume a: "used b + (length pre + zeros + n) \<le> length (store b)"
    have "fill_n g zeros (CHR ''0'') (write_prefix g prefix b) = put (pre @ replicate zeros (CHR ''0'')) b"
      using a by (simp add: write_prefix_put [OF p] fill_n_put length_put put_put)
    moreover have "f (put (pre @ replicate zeros (CHR ''0'')) b) = Inr (put digits (put (pre @ replicate zeros (CHR ''0'')) b))"
      using a by (intro f) (simp add: length_put)
    ultimately show ?thesis using a len by (simp add: put_put)
  qed
  have "write_padded False g specs (length pre + zeros + n) (length pre + zeros + n)
      (\<lambda>b. f (fill_n g zeros (CHR ''0'') (write_prefix g prefix b))) b =
    Inr (wrote g (pad_text False specs (length pre + zeros + n) (pre @ replicate zeros (CHR ''0'') @ digits)) b)"
    using z len by (intro write_padded_wrote b s) auto
  then show ?thesis unfolding write_digits_int_def if_not_P [OF False] d Let_def prod.case .
qed

lemma copy_digits_put: "used b + length txt \<le> length (store b) \<Longrightarrow> copy_digits g (Inr (0, txt)) b = Inr (put txt b)"
  by (simp add: copy_digits_def append_put)

lemma poke_digits_put: "used b + length txt \<le> length (store b) \<Longrightarrow> n = length txt \<Longrightarrow> poke_digits (used b) (Inr (0, txt)) (b\<lparr>used := used b + n\<rparr>) = Inr (put txt b)"
  by (simp add: poke_digits_def poke_def put_def)

lemma format_uint_put:
  assumes "used b + length (digits_in (2 ^ k) (unat a)) \<le> length (store b)" and "0 < k"
  shows "uint_digits g (count_digits_bits k a) (format_uint k a (count_digits_bits k a) upper) b =
    Inr (put (map (base_char k upper) (digits_in (2 ^ k) (unat a))) b)"
  unfolding format_uint_eq [OF assms(2)] using assms
  by (simp add: uint_digits_def to_pointer_def poke_digits_put count_digits_bits_eq)

lemma uint_digits_put: "used b + length txt \<le> length (store b) \<Longrightarrow> n = length txt \<Longrightarrow> uint_digits g n (Inr (0, txt)) b = Inr (put txt b)"
  by (simp add: uint_digits_def to_pointer_def poke_digits_put)

lemma write_int_case:
  assumes "wf_buf b" and "specs_ok specs" and "prefix_is prefix (sign_text negative (sign specs) @ base_text specs m)"
    and "r = Inr (0, int_digits (type_char specs) m)" and "n = length (int_digits (type_char specs) m)" and "type_char specs \<noteq> CHR ''c''"
    and "f = copy_digits g r \<or> f = uint_digits g n r"
  shows "write_digits_int g n prefix specs f b = Inr (wrote g (int_text specs negative m) b)"
proof -
  define pre where "pre = sign_text negative (sign specs) @ base_text specs m"
  define zeros where "zeros = (if align specs = Align_Numeric then nat (width specs) - (length pre + n) else nat (precision specs - int n))"
  have body: "int_body specs negative m = pre @ replicate zeros (CHR ''0'') @ int_digits (type_char specs) m"
    by (simp add: int_body_def pre_def zeros_def assms(5) Let_def)
  have "write_digits_int g n prefix specs f b =
      Inr (wrote g (pad_text False specs (length pre + zeros + n) (pre @ replicate zeros (CHR ''0'') @ int_digits (type_char specs) m)) b)"
    using assms by (intro write_digits_int_wrote) (auto simp: pre_def zeros_def copy_digits_put uint_digits_put)
  then show ?thesis using assms(5,6) by (simp add: int_text_def body add.assoc)
qed

end

lemma int_digits_simps:
  "t = CHR 0x00 \<or> t = CHR ''d'' \<Longrightarrow> int_digits t n = map digit_char (digits_in 10 n)"
  "t = CHR ''x'' \<or> t = CHR ''X'' \<Longrightarrow> int_digits t n = map (base_char 4 (t \<noteq> CHR ''x'')) (digits_in (2 ^ 4) n)"
  "t = CHR ''b'' \<or> t = CHR ''B'' \<Longrightarrow> int_digits t n = map (base_char 1 False) (digits_in (2 ^ 1) n)"
  "t = CHR ''o'' \<Longrightarrow> int_digits t n = map (base_char 3 False) (digits_in (2 ^ 3) n)"
proof -
  have "base_char 1 u = digit_char" "base_char 3 u = digit_char" for u by (auto simp: base_char_def fun_eq_iff)
  then show "t = CHR ''b'' \<or> t = CHR ''B'' \<Longrightarrow> int_digits t n = map (base_char 1 False) (digits_in (2 ^ 1) n)"
    "t = CHR ''o'' \<Longrightarrow> int_digits t n = map (base_char 3 False) (digits_in (2 ^ 3) n)" by (auto simp: int_digits_def)
qed (auto simp: int_digits_def)

lemma base_text_simps:
  "t = CHR 0x00 \<or> t = CHR ''d'' \<Longrightarrow> type_char specs = t \<Longrightarrow> base_text specs n = ''''"
  "t \<in> {CHR ''x'', CHR ''X'', CHR ''b'', CHR ''B''} \<Longrightarrow> type_char specs = t \<Longrightarrow> base_text specs n = (if alt specs then [CHR ''0'', t] else '''')"
  "type_char specs = CHR ''o'' \<Longrightarrow>
     base_text specs n = (if alt specs \<and> precision specs \<le> int (length (digits_in (2 ^ 3) n)) \<and> n \<noteq> 0 then ''0'' else '''')"
  by (auto simp: base_text_def Let_def int_digits_def)

context growable
begin

text \<open>A base of \<open>2\<^sup>k\<close>, with the prefix that belongs to it.\<close>

lemma write_uint_case:
  fixes a :: "'a::len word"
  assumes "wf_buf b" and "specs_ok specs" and "0 < k" and "type_char specs \<noteq> CHR ''c''"
    and "int_digits (type_char specs) (unat a) = map (base_char k upper) (digits_in (2 ^ k) (unat a))"
    and "prefix_is prefix (sign_text negative (sign specs) @ base_text specs (unat a))"
  shows "write_digits_int g (count_digits_bits k a) prefix specs (uint_digits g (count_digits_bits k a) (format_uint k a (count_digits_bits k a) upper)) b =
    Inr (wrote g (int_text specs negative (unat a)) b)"
  using assms by (intro write_int_case [where r = "format_uint k a (count_digits_bits k a) upper"]) (simp_all add: format_uint_eq flip: count_digits_bits_eq [OF assms(3)])

lemma write_int_wrote:
  fixes v :: "'a::len word"
  assumes "wf_buf b" and "specs_ok specs"
  shows "write_int g sg v specs b =
    (if check_int_type_spec (type_char specs)
     then Done () (wrote g (int_text specs (is_negative sg v) (unat (abs_value sg v))) b) else Throw bad_type b)"
proof -
  define t where "t = type_char specs"
  define a where "a = abs_value sg v"
  let ?neg = "is_negative sg v"
  have pre: "(if ?neg then 0x01000000 OR 45 else sign_prefix (sign specs)) = int_prefix ?neg specs" by (simp add: int_prefix_def)
  note wi = write_int_def [of g sg v specs b, unfolded pre Let_def, folded t_def a_def]
  note uint = write_uint_case [OF assms, of _ a _ _ ?neg, folded t_def]
  note pfx = prefix_is_int_prefix(1,2) [of ?neg specs] prefix_is_int_prefix(3) [of t ?neg specs]
  consider "t = CHR 0x00 \<or> t = CHR ''d''" | "t = CHR ''x'' \<or> t = CHR ''X''" | "t = CHR ''b'' \<or> t = CHR ''B''" | "t = CHR ''o''" | "t = CHR ''c''"
    | "t \<notin> {CHR 0x00, CHR ''d'', CHR ''x'', CHR ''X'', CHR ''b'', CHR ''B'', CHR ''o'', CHR ''c''}" by auto
  then show ?thesis
  proof cases
    case 1
    then have "write_digits_int g (count_digits a) (int_prefix ?neg specs) specs (copy_digits g (format_decimal a (count_digits a))) b =
        Inr (wrote g (int_text specs ?neg (unat a)) b)"
      using pfx by (intro write_int_case [OF assms])
        (auto simp: t_def base_text_simps(1) [OF 1] int_digits_simps(1) format_decimal_eq count_digits_eq simp flip: count_digits_eq)
    then show ?thesis using 1 by (auto simp: wi t_def a_def check_int_type_spec_def)
  next
    case 2
    then have "prefix_is (if alt specs then prefix_append (int_prefix ?neg specs) (push_bit 8 (of_char t) OR 48) else int_prefix ?neg specs)
        (sign_text ?neg (sign specs) @ base_text specs (unat a))"
      using pfx by (auto simp: base_text_simps(2) [of t] t_def [symmetric])
    then show ?thesis using 2 uint [OF _ _ int_digits_simps(2) [OF 2]] by (auto simp: wi a_def check_int_type_spec_def t_def)
  next
    case 3
    then have "prefix_is (if alt specs then prefix_append (int_prefix ?neg specs) (push_bit 8 (of_char t) OR 48) else int_prefix ?neg specs)
        (sign_text ?neg (sign specs) @ base_text specs (unat a))"
      using pfx by (auto simp: base_text_simps(2) [of t] t_def [symmetric])
    then show ?thesis using 3 uint [OF _ _ int_digits_simps(3) [OF 3]] by (auto simp: wi a_def check_int_type_spec_def t_def)
  next
    case 4
    then have "prefix_is (if alt specs \<and> precision specs \<le> int (count_digits_bits 3 a) \<and> a \<noteq> 0 then prefix_append (int_prefix ?neg specs) 48
        else int_prefix ?neg specs) (sign_text ?neg (sign specs) @ base_text specs (unat a))"
      using pfx by (auto simp: base_text_simps(3) t_def count_digits_bits_eq unat_eq_0)
    then show ?thesis using 4 uint [OF _ _ int_digits_simps(4) [OF 4]] by (auto simp: wi a_def check_int_type_spec_def t_def)
  next
    case 5
    then show ?thesis using write_char_wrote [OF assms] by (simp add: wi t_def a_def int_text_def check_int_type_spec_def)
  next
    case 6
    then show ?thesis by (auto simp: wi t_def check_int_type_spec_def)
  qed
qed

end

text \<open>The number that sign and magnitude stand for.\<close>

definition int_value :: "bool \<Rightarrow> 'a::len word \<Rightarrow> int" where
  "int_value sg v = (if sg then sint v else uint v)"

lemma uint_of_sint: "uint (v :: 'a::len word) = (if sint v < 0 then sint v + 2 ^ LENGTH('a) else sint v)"
proof -
  have h: "(2 :: int) ^ (LENGTH('a) - 1) \<le> 2 ^ LENGTH('a)" by (intro power_increasing) auto
  have m: "uint v = sint v mod 2 ^ LENGTH('a)" by (simp add: uint_sint take_bit_eq_mod)
  have b: "- (2 ^ LENGTH('a)) \<le> sint v" "sint v < 2 ^ LENGTH('a)" using sint_ge [of v] sint_lt [of v] h by linarith+
  show ?thesis
  proof (cases "sint v < 0")
    case True
    then have "(sint v + 2 ^ LENGTH('a)) mod 2 ^ LENGTH('a) = sint v + 2 ^ LENGTH('a)" using b by (intro mod_pos_pos_trivial) auto
    then show ?thesis using m True by simp
  qed (use m b in simp)
qed

lemma abs_value_eq: "int_value sg (v :: 'a::len word) = (if is_negative sg v then - int (unat (abs_value sg v)) else int (unat (abs_value sg v)))"
proof (cases "is_negative sg v")
  case True
  then have s: "sg" "sint v < 0" by (simp_all add: is_negative_def)
  then have "uint v \<noteq> 0" by (auto simp: uint_0_iff)
  then have "uint (0 - v) = 2 ^ LENGTH('a) - uint v" by (simp add: uint_word_ariths uint_word_of_int_eq zmod_zminus1_eq_if)
  then show ?thesis using True s uint_of_sint [of v] by (simp add: int_value_def abs_value_def)
next
  case False
  then show ?thesis using uint_of_sint [of v] by (auto simp: int_value_def abs_value_def is_negative_def)
qed

lemma default_int_text:
  "int_text default_specs negative n = (if negative then ''-'' else '''') @ map digit_char (digits_in 10 n)"
  by (simp add: int_text_def int_body_def default_specs_def pad_text_def base_text_def sign_text_def int_digits_def Let_def)

context growable
begin

lemma write_int_default_wrote:
  assumes "wf_buf b"
  shows "write_int_default g sg v b = Inr (wrote g (int_text default_specs (is_negative sg v) (unat (abs_value sg v))) b)"
proof -
  let ?neg = "is_negative sg v" and ?a = "abs_value sg v"
  let ?ds = "map digit_char (digits_in 10 (unat ?a))" and ?m = "if ?neg then ''-'' else ''''"
  have a: "(if ?neg then NOT v + 1 else v) = ?a" by (simp add: abs_value_def minus_eq_not_plus_1)
  have n: "(if ?neg then 1 else 0) + count_digits ?a = length (?m @ ?ds)" by (simp add: count_digits_eq)
  let ?r = "reserve g (length (?m @ ?ds)) b"
  have r: "used ?r = used b" "used b + length (?m @ ?ds) \<le> length (store ?r)" using reserve_props [OF assms] by auto
  then have "to_pointer (length (?m @ ?ds)) ?r = Some (used b, ?r\<lparr>used := used b + length (?m @ ?ds)\<rparr>)" by (simp add: to_pointer_def)
  moreover have "poke_digits (used b + 1) (Inr (0, ?ds)) (poke (used b) ''-'' (?r\<lparr>used := used b + length (?m @ ?ds)\<rparr>)) = Inr (put (?m @ ?ds) ?r)" if ?neg
    using that r by (auto simp: poke_digits_def poke_def put_def drop_append add.commute intro!: fbuf.equality)
  moreover have "poke_digits (used b) (Inr (0, ?ds)) (?r\<lparr>used := used b + length (?m @ ?ds)\<rparr>) = Inr (put (?m @ ?ds) ?r)" if "\<not> ?neg"
    using that r by (auto simp: poke_digits_def poke_def put_def intro!: fbuf.equality)
  ultimately show ?thesis
    unfolding write_int_default_def Let_def a n format_decimal_eq default_int_text wrote_def by (cases ?neg) simp_all
qed

end
section \<open>Strings\<close>

lemma code_point_length_le: "code_point_length c \<le> 4"
proof -
  let ?L = "[1, 1, 1, 1, 1, 1, 1, 1, 1, 1, 1, 1, 1, 1, 1, 1, 0, 0, 0, 0, 0, 0, 0, 0, 2, 2, 2, 2, 3, 3, 4, 0] :: nat list"
  have "of_char c < (32 :: nat) * 8" by simp
  then have "of_char c div 8 < (32 :: nat)" by (rule less_mult_imp_div_less)
  then have "of_char c div 8 < length ?L" by simp
  then have "?L ! (of_char c div 8) \<in> set ?L" by (rule nth_mem)
  then have "?L ! (of_char c div 8) \<le> 4" by auto
  then show ?thesis unfolding code_point_length_def Let_def by (simp split: if_split)
qed

lemma utf8_decode_length: "snd (snd (utf8_decode (s0, s1, s2, s3))) = code_point_length s0"
  by (simp add: utf8_decode_def Let_def)

lemma decode_at_in_bounds:
  assumes "p + 3 < length s"
  obtains w p' where "decode_at s p = Inr (w, p')" "p < p'" "p' \<le> p + 4" "w = 1 \<or> w = 2"
proof -
  obtain cp e len where u: "utf8_decode (s ! p, s ! (p + 1), s ! (p + 2), s ! (p + 3)) = (cp, e, len)" by (metis surj_pair)
  then have "len = code_point_length (s ! p)" using utf8_decode_length by (metis snd_conv)
  moreover have "code_point_width cp e = 1 \<or> code_point_width cp e = 2" by (simp add: code_point_width_def split: if_split)
  ultimately show ?thesis
    using that [of "code_point_width cp e" "p + len"] assms u code_point_length_le [of "s ! p"] code_point_length_pos [of "s ! p"]
    by (simp add: decode_at_def)
qed

lemma width_loop_in_bounds:
  "bound + 3 \<le> length s \<Longrightarrow> p \<le> bound + 3 \<Longrightarrow>
     \<exists>p' count'. width_loop s bound p count = Inr (p', count') \<and> bound \<le> p' \<and> p' \<le> bound + 3"
proof (induction s bound p count rule: width_loop.induct)
  case (1 s bound p count)
  show ?case
  proof (cases "p < bound")
    case True
    then have "p + 3 < length s" using 1(2) by simp
    then obtain w p' where d: "decode_at s p = Inr (w, p')" "p < p'" "p' \<le> p + 4" by (rule decode_at_in_bounds)
    then have "width_loop s bound p count = width_loop s bound p' (count + w)" using True by (subst width_loop.simps) simp
    then show ?thesis using 1(1) [OF True d(1) refl] 1(2) d(3) True by simp
  next
    case False
    then show ?thesis using 1(3) by (subst width_loop.simps) auto
  qed
qed

text \<open>The display width is computed without reading outside of the string and of the buffer for its end.\<close>

lemma compute_width_total: "\<exists>n. compute_width s = Inr n"
proof -
  define r where "r = (if length s \<ge> 4 then width_loop s (length s - 4 + 1) 0 0 else Inr (0, 0))"
  have "\<exists>p c. r = Inr (p, c) \<and> length s - p \<le> 3 \<and> p \<le> length s"
  proof (cases "length s \<ge> 4")
    case True
    define bound where "bound = length s - 4 + 1"
    have bd: "bound + 3 = length s" using True by (simp add: bound_def)
    then obtain p c where "width_loop s bound 0 0 = Inr (p, c)" "bound \<le> p" "p \<le> bound + 3" using width_loop_in_bounds [of bound s 0 0] by auto
    moreover have "r = width_loop s bound 0 0" using True by (simp add: r_def bound_def)
    ultimately show ?thesis using bd by auto
  qed (auto simp: r_def)
  then obtain p c where r: "r = Inr (p, c)" "length s - p \<le> 3" "p \<le> length s" by blast
  define left where "left = length s - p"
  define buf where "buf = drop p s @ replicate (7 - left) (CHR 0x00)"
  have buf: "length buf = 7" "left \<le> 3" using r by (simp_all add: buf_def left_def)
  obtain w q where d: "decode_at buf 0 = Inr (w, q)" "q \<le> 4"
    by (rule decode_at_in_bounds [of 0 buf]) (use buf in auto)
  obtain q' c' where "width_loop buf left q (c + w) = Inr (q', c')" if "left \<noteq> 0"
    using width_loop_in_bounds [of left buf q "c + w"] buf d(2) by fastforce
  moreover have "compute_width s = (if left = 0 then Inr c else if left > 7 then Inl Out_Of_Bounds
      else bind_res (decode_at buf 0) (\<lambda>(w, p). bind_res (width_loop buf left p (c + w)) (\<lambda>(p, count). Inr count)))"
    unfolding compute_width_def r_def [symmetric] r(1) bind_res_simps prod.case Let_def left_def buf_def ..
  ultimately show ?thesis using d buf by (cases "left = 0") auto
qed

definition columns :: "string \<Rightarrow> nat" where
  "columns s = (case compute_width s of Inl e \<Rightarrow> 0 | Inr n \<Rightarrow> n)"

lemma compute_width_columns: "compute_width s = Inr (columns s)"
  using compute_width_total [of s] by (auto simp: columns_def)

definition string_text :: "format_specs \<Rightarrow> string \<Rightarrow> string" where
  "string_text specs s =
     (let s = (if precision specs \<ge> 0 then take (nat (precision specs)) s else s) in pad_text True specs (columns s) s)"

definition ptr_text :: "format_specs \<Rightarrow> u64 \<Rightarrow> string" where
  "ptr_text specs p =
     (let body = ''0x'' @ map (base_char 4 False) (digits_in 16 (unat p)) in pad_text False specs (length body) body)"

context growable
begin

lemma write_string_wrote:
  assumes "wf_buf b" and "specs_ok specs"
  shows "write_string g s specs b = Inr (wrote g (string_text specs s) b)"
proof -
  define sz where "sz = (if precision specs \<ge> 0 \<and> nat (precision specs) < length s then nat (precision specs) else length s)"
  have t: "(if precision specs \<ge> 0 then take (nat (precision specs)) s else s) = take sz s" "length (take sz s) = sz"
    by (auto simp: sz_def)
  have "write_padded True g specs sz wd (\<lambda>b. Inr (append g (take sz s) b)) b = Inr (wrote g (pad_text True specs wd (take sz s)) b)" for wd
    using t(2) by (intro write_padded_wrote assms) (auto simp: append_put)
  moreover have "width specs = 0 \<Longrightarrow> pad_text True specs wd x = pad_text True specs wd' x" for wd wd' x
    by (simp add: pad_text_def)
  ultimately show ?thesis unfolding write_string_def sz_def [symmetric] Let_def string_text_def t(1) compute_width_columns
    by (cases "width specs = 0") (auto, metis)
qed

lemma write_ptr_wrote:
  assumes "wf_buf b" and "specs_ok specs"
  shows "write_ptr g p specs b = Inr (wrote g (ptr_text specs p) b)"
proof -
  let ?ds = "map (base_char 4 False) (digits_in 16 (unat p))"
  have n: "count_digits_bits 4 p + 2 = length (''0x'' @ ?ds)" by (simp add: count_digits_bits_eq)
  have "write_padded False g specs (length (''0x'' @ ?ds)) (length (''0x'' @ ?ds))
      (\<lambda>b. uint_digits g (count_digits_bits 4 p) (format_uint 4 p (count_digits_bits 4 p) False) (push_back g (CHR ''x'') (push_back g (CHR ''0'') b))) b =
    Inr (wrote g (pad_text False specs (length (''0x'' @ ?ds)) (''0x'' @ ?ds)) b)"
    by (intro write_padded_wrote assms) (simp_all add: format_uint_put [where k = 4, simplified] push_back_put length_put put_put)
  then show ?thesis unfolding write_ptr_def n Let_def ptr_text_def by simp
qed

end
section \<open>Arguments\<close>

fun default_text :: "(string \<Rightarrow> 'tm \<Rightarrow> string) \<Rightarrow> 'tm fmt_arg \<Rightarrow> string" where
  "default_text strftime (Int_Arg v) = int_text default_specs (is_negative True v) (unat (abs_value True v))"
| "default_text strftime (UInt_Arg v) = int_text default_specs (is_negative False v) (unat (abs_value False v))"
| "default_text strftime (LongLong_Arg v) = int_text default_specs (is_negative True v) (unat (abs_value True v))"
| "default_text strftime (ULongLong_Arg v) = int_text default_specs (is_negative False v) (unat (abs_value False v))"
| "default_text strftime (Int128_Arg v) = int_text default_specs (is_negative True v) (unat (abs_value True v))"
| "default_text strftime (UInt128_Arg v) = int_text default_specs (is_negative False v) (unat (abs_value False v))"
| "default_text strftime (Bool_Arg v) = bool_text v"
| "default_text strftime (Char_Arg c) = [c]"
| "default_text strftime (CString_Arg p s) = s"
| "default_text strftime (String_Arg s) = s"
| "default_text strftime (Pointer_Arg p) = ptr_text default_specs p"
| "default_text strftime (Tm_Arg t) = tm_text strftime '''' t"

fun arg_text :: "format_specs \<Rightarrow> 'tm fmt_arg \<Rightarrow> string" where
  "arg_text specs (Int_Arg v) = int_text specs (is_negative True v) (unat (abs_value True v))"
| "arg_text specs (UInt_Arg v) = int_text specs (is_negative False v) (unat (abs_value False v))"
| "arg_text specs (LongLong_Arg v) = int_text specs (is_negative True v) (unat (abs_value True v))"
| "arg_text specs (ULongLong_Arg v) = int_text specs (is_negative False v) (unat (abs_value False v))"
| "arg_text specs (Int128_Arg v) = int_text specs (is_negative True v) (unat (abs_value True v))"
| "arg_text specs (UInt128_Arg v) = int_text specs (is_negative False v) (unat (abs_value False v))"
| "arg_text specs (Bool_Arg v) =
     (if type_char specs \<in> {CHR 0x00, CHR ''s''} then string_text specs (bool_text v)
      else int_text specs False (if v then 1 else 0))"
| "arg_text specs (Char_Arg c) =
     (if type_char specs \<in> {CHR 0x00, CHR ''c''} then pad_text True specs 1 [c]
      else int_text specs (is_negative True (int_of_char c)) (unat (abs_value True (int_of_char c))))"
| "arg_text specs (CString_Arg p s) = (if type_char specs = CHR ''p'' then ptr_text specs p else string_text specs s)"
| "arg_text specs (String_Arg s) = string_text specs s"
| "arg_text specs (Pointer_Arg p) = ptr_text specs p"
| "arg_text specs (Tm_Arg t) = ''''"

text \<open>Which presentation types and flags an argument type allows: the last part of \<open>formatter::parse\<close>.\<close>

definition check_float_type_spec :: "char \<Rightarrow> bool" where
  "check_float_type_spec t \<longleftrightarrow> t \<in> {CHR 0x00, CHR ''g'', CHR ''G'', CHR ''e'', CHR ''E'', CHR ''f'', CHR ''F'', CHR ''a'', CHR ''A''}"

fun check_type :: "arg_type \<Rightarrow> format_specs \<Rightarrow> string option" where
  "check_type bool_type specs =
     (if type_char specs = CHR 0x00 \<or> type_char specs = CHR ''s'' \<or> check_int_type_spec (type_char specs) then None else Some bad_type)"
| "check_type char_type specs =
     (if type_char specs \<noteq> CHR 0x00 \<and> type_char specs \<noteq> CHR ''c''
      then if check_int_type_spec (type_char specs) then None else Some bad_type
      else if char_specs_ok specs then None else Some ''invalid format specifier for char'')"
| "check_type cstring_type specs = (if type_char specs \<in> {CHR 0x00, CHR ''s'', CHR ''p''} then None else Some bad_type)"
| "check_type string_type specs = (if type_char specs \<in> {CHR 0x00, CHR ''s''} then None else Some bad_type)"
| "check_type pointer_type specs = (if type_char specs \<in> {CHR 0x00, CHR ''p''} then None else Some bad_type)"
| "check_type custom_type specs = None"
| "check_type float_type specs = (if check_float_type_spec (type_char specs) then None else Some bad_type)"
| "check_type double_type specs = (if check_float_type_spec (type_char specs) then None else Some bad_type)"
| "check_type long_double_type specs = (if check_float_type_spec (type_char specs) then None else Some bad_type)"
| "check_type t specs = (if check_int_type_spec (type_char specs) then None else Some bad_type)"

fun null_string :: "'tm fmt_arg \<Rightarrow> bool" where
  "null_string (CString_Arg p s) \<longleftrightarrow> p = 0"
| "null_string _ \<longleftrightarrow> False"

lemma specs_ok_default [simp]: "specs_ok default_specs"
  by (simp add: specs_ok_def default_specs_def)

lemma string_text_default [simp]: "string_text default_specs s = s"
  by (simp add: string_text_def default_specs_def pad_text_def)

context growable
begin

lemma wrote_ok:
  assumes "ok b"
  shows "\<exists>b'. Done () (wrote g xs b) = Done () b' \<and> ok b' \<and> content b' = content b @ xs"
  using assms wrote_props(2) [OF ok_wf [OF assms]] by (auto intro: ok_wrote)

lemma append_reserve: "wf_buf b \<Longrightarrow> append g xs (reserve g (length xs) b) = wrote g xs b"
  using reserve_props [of b "length xs"] by (simp add: wrote_def append_put)

lemma push_back_reserve: "wf_buf b \<Longrightarrow> push_back g c (reserve g 1 b) = wrote g [c] b"
  using reserve_props [of b 1] by (simp add: wrote_def push_back_put)

lemma write_default_appends:
  assumes "ok b"
  shows "if null_string arg then write_default strftime g arg b = Throw ''string pointer is null'' b
    else \<exists>b'. write_default strftime g arg b = Done () b' \<and> ok b' \<and> content b' = content b @ default_text strftime arg"
proof -
  have wf: "wf_buf b" using assms by (rule ok_wf)
  note w = wrote_ok [OF assms]
  show ?thesis
  proof (cases arg)
    case (Tm_Arg t)
    then show ?thesis using fold_push_back [OF assms] by (simp add: tm_parse_def)
  qed (use w in \<open>simp_all add: write_int_default_wrote [OF wf] write_string_wrote [OF wf] write_ptr_wrote [OF wf]
      append_reserve [OF wf] push_back_reserve [OF wf, unfolded One_nat_def]\<close>)
qed

lemma arg_formatter_appends:
  assumes "ok b" and "specs_ok specs" and "type_of arg \<noteq> custom_type"
  shows "case check_type (type_of arg) specs of
      Some m \<Rightarrow> arg_formatter g specs arg b = Throw m b
    | None \<Rightarrow> if null_string arg \<and> type_char specs \<noteq> CHR ''p'' then arg_formatter g specs arg b = Throw ''string pointer is null'' b
        else \<exists>b'. arg_formatter g specs arg b = Done () b' \<and> ok b' \<and> content b' = content b @ arg_text specs arg"
proof -
  have wf: "wf_buf b" using assms(1) by (rule ok_wf)
  note w = wrote_ok [OF assms(1)]
  note wi = write_int_wrote [OF wf assms(2)] write_string_wrote [OF wf assms(2)] write_ptr_wrote [OF wf assms(2)] write_char_wrote [OF wf assms(2)]
  have one: "\<not> is_negative True (if v then 1 else 0 :: u32)" "unat (abs_value True (if v then 1 else 0 :: u32)) = (if v then 1 else 0)" for v
    by (simp_all add: is_negative_def abs_value_def)
  show ?thesis
  proof (cases arg)
    case (Bool_Arg v)
    then show ?thesis using w one [of v] by (auto simp: wi check_int_type_spec_def)
  qed (use w assms(3) in \<open>auto simp: wi\<close>)
qed

end
end
