(* ===== verification/Fmt_Parse.thy ===== *)
theory Fmt_Parse
  imports Fmt_Text "HOL-Library.Sublist"
begin

text \<open>
  Parsing of format strings (\<open>logger/fmt/core.h\<close>). As in the source the parser knows nothing of output and arguments: it reports
  what it finds to a handler, here a record of functions on the handler's state. A pointer into the format string is
  the rest of the string from there; reading at its end is a fault. \<open>on_error\<close> of all handlers throws.
\<close>

section \<open>Numbers and argument identifiers\<close>

definition is_digit :: "char \<Rightarrow> bool" where
  "is_digit c \<longleftrightarrow> (48 :: nat) \<le> of_char c \<and> (of_char c :: nat) \<le> 57"

definition max_int :: u32 where
  "max_int = 0x7FFFFFFF"

fun int_loop :: "u32 \<Rightarrow> string \<Rightarrow> u32 \<times> string" where
  "int_loop v [] = (v, [])"
| "int_loop v (c # s) =
     (if v > max_int div 10 then (max_int + 1, c # s)
      else let v = v * 10 + (of_char c - 48) in
        if s \<noteq> [] \<and> is_digit (hd s) then int_loop v s else (v, s))"

definition parse_nonnegative_int :: "string \<Rightarrow> 's \<Rightarrow> ('s, int \<times> string) outcome" where
  "parse_nonnegative_int s st =
     (if s = [] \<or> \<not> is_digit (hd s) then Fault Assert_Failed
      else let (v, s) = int_loop 0 s in
        if v > max_int then Throw ''number is too big'' st else Done (uint v, s) st)"

datatype arg_id = Auto_Id | Index_Id int | Name_Id string

definition is_name_start :: "char \<Rightarrow> bool" where
  "is_name_start c \<longleftrightarrow>
     (97 :: nat) \<le> of_char c \<and> (of_char c :: nat) \<le> 122 \<or> (65 :: nat) \<le> of_char c \<and> (of_char c :: nat) \<le> 90 \<or> c = CHR ''_''"

text \<open>\<open>k\<close> is the handler for the identifier.\<close>

definition do_parse_arg_id :: "(arg_id \<Rightarrow> 's \<Rightarrow> ('s, 'a) outcome) \<Rightarrow> string \<Rightarrow> 's \<Rightarrow> ('s, 'a \<times> string) outcome" where
  "do_parse_arg_id k s st =
     (if s = [] then Fault Assert_Failed
      else let c = hd s in
        if is_digit c
        then bnd (if c \<noteq> CHR ''0'' then parse_nonnegative_int s st else Done (0, tl s) st) (\<lambda>(index, s) st.
          if s = [] \<or> hd s \<noteq> CHR ''}'' \<and> hd s \<noteq> CHR '':'' then Throw ''invalid format string'' st
          else bnd (k (Index_Id index) st) (\<lambda>a st. Done (a, s) st))
        else if \<not> is_name_start c then Throw ''invalid format string'' st
        else let name = c # takeWhile (\<lambda>c. is_name_start c \<or> is_digit c) (tl s) in
          bnd (k (Name_Id name) st) (\<lambda>a st. Done (a, drop (length name) s) st))"

definition parse_arg_id :: "(arg_id \<Rightarrow> 's \<Rightarrow> ('s, 'a) outcome) \<Rightarrow> string \<Rightarrow> 's \<Rightarrow> ('s, 'a \<times> string) outcome" where
  "parse_arg_id k s st =
     (if s = [] then Fault Out_Of_Bounds
      else if hd s \<noteq> CHR ''}'' \<and> hd s \<noteq> CHR '':'' then do_parse_arg_id k s st
      else bnd (k Auto_Id st) (\<lambda>a st. Done (a, s) st))"

section \<open>Format specifiers\<close>

text \<open>The notifications of \<open>specs_setter\<close> and what they do to the specifiers.\<close>

datatype spec_event =
    On_Fill string | On_Align align_t | On_Plus | On_Minus | On_Space | On_Hash | On_Localized | On_Zero
  | On_Width int | On_Precision int | On_Type char

fun specs_setter :: "spec_event \<Rightarrow> format_specs \<Rightarrow> format_specs" where
  "specs_setter (On_Fill f) sp = sp\<lparr>fill := f\<rparr>"
| "specs_setter (On_Align a) sp = sp\<lparr>align := a\<rparr>"
| "specs_setter On_Plus sp = sp\<lparr>sign := Sign_Plus\<rparr>"
| "specs_setter On_Minus sp = sp\<lparr>sign := Sign_Minus\<rparr>"
| "specs_setter On_Space sp = sp\<lparr>sign := Sign_Space\<rparr>"
| "specs_setter On_Hash sp = sp\<lparr>alt := True\<rparr>"
| "specs_setter On_Localized sp = sp\<lparr>localized := True\<rparr>"
| "specs_setter On_Zero sp = sp\<lparr>align := Align_Numeric, fill := (fill sp)[0 := CHR ''0'']\<rparr>"
| "specs_setter (On_Width w) sp = sp\<lparr>width := w\<rparr>"
| "specs_setter (On_Precision p) sp = sp\<lparr>precision := p\<rparr>"
| "specs_setter (On_Type t) sp = sp\<lparr>type_char := t\<rparr>"

record 's spec_handler =
  event :: "spec_event \<Rightarrow> 's \<Rightarrow> 's"
  on_dynamic_width :: "arg_id \<Rightarrow> 's \<Rightarrow> ('s, unit) outcome"
  on_dynamic_precision :: "arg_id \<Rightarrow> 's \<Rightarrow> ('s, unit) outcome"

text \<open>\<open>numeric_specs_checker\<close> and \<open>specs_checker\<close>, which looks at the type of the argument before it passes a notification on.\<close>

fun is_integral_type :: "arg_type \<Rightarrow> bool" where
  "is_integral_type t \<longleftrightarrow>
     t \<in> {int_type, uint_type, long_long_type, ulong_long_type, int128_type, uint128_type, bool_type, char_type}"

fun is_arithmetic_type :: "arg_type \<Rightarrow> bool" where
  "is_arithmetic_type t \<longleftrightarrow> is_integral_type t \<or> t \<in> {float_type, double_type, long_double_type}"

definition require_numeric_argument :: "arg_type \<Rightarrow> 's \<Rightarrow> ('s, unit) outcome" where
  "require_numeric_argument t st =
     (if \<not> is_arithmetic_type t then Throw ''format specifier requires numeric argument'' st else Done () st)"

definition check_sign :: "arg_type \<Rightarrow> 's \<Rightarrow> ('s, unit) outcome" where
  "check_sign t st = bnd (require_numeric_argument t st) (\<lambda>_ st.
     if is_integral_type t \<and> t \<noteq> int_type \<and> t \<noteq> long_long_type \<and> t \<noteq> char_type
     then Throw ''format specifier requires signed argument'' st else Done () st)"

definition check_precision :: "arg_type \<Rightarrow> 's \<Rightarrow> ('s, unit) outcome" where
  "check_precision t st =
     (if is_integral_type t \<or> t = pointer_type then Throw ''precision not allowed for this argument type'' st else Done () st)"

fun specs_checker :: "'s spec_handler \<Rightarrow> arg_type \<Rightarrow> spec_event \<Rightarrow> 's \<Rightarrow> ('s, unit) outcome" where
  "specs_checker H t (On_Align a) st =
     bnd (if a = Align_Numeric then require_numeric_argument t st else Done () st) (\<lambda>_ st. Done () (event H (On_Align a) st))"
| "specs_checker H t On_Plus st = bnd (check_sign t st) (\<lambda>_ st. Done () (event H On_Plus st))"
| "specs_checker H t On_Minus st = bnd (check_sign t st) (\<lambda>_ st. Done () (event H On_Minus st))"
| "specs_checker H t On_Space st = bnd (check_sign t st) (\<lambda>_ st. Done () (event H On_Space st))"
| "specs_checker H t On_Hash st = bnd (require_numeric_argument t st) (\<lambda>_ st. Done () (event H On_Hash st))"
| "specs_checker H t On_Localized st = bnd (require_numeric_argument t st) (\<lambda>_ st. Done () (event H On_Localized st))"
| "specs_checker H t On_Zero st = bnd (require_numeric_argument t st) (\<lambda>_ st. Done () (event H On_Zero st))"
| "specs_checker H t e st = Done () (event H e st)"

fun align_of :: "char \<Rightarrow> align_t" where
  "align_of c = (if c = CHR ''<'' then Align_Left else if c = CHR ''>'' then Align_Right else if c = CHR ''^'' then Align_Center else Align_None)"

text \<open>Messages with quotation marks.\<close>

abbreviation quoted :: "char \<Rightarrow> string" where
  "quoted c \<equiv> [CHR 0x27, c, CHR 0x27]"

abbreviation bad_fill :: string where
  "bad_fill \<equiv> ''invalid fill character '' @ quoted (CHR ''{'')"

abbreviation unmatched_brace :: string where
  "unmatched_brace \<equiv> ''unmatched '' @ quoted (CHR ''}'') @ '' in format string''"

abbreviation missing_brace :: string where
  "missing_brace \<equiv> ''missing '' @ quoted (CHR ''}'') @ '' in format string''"

text \<open>Fill and alignment: first behind one code point, then at the start.\<close>

definition parse_align :: "'s spec_handler \<Rightarrow> arg_type \<Rightarrow> string \<Rightarrow> 's \<Rightarrow> ('s, string) outcome" where
  "parse_align H t s st =
     (if s = [] then Fault Assert_Failed
      else let n = code_point_length (hd s); p = (if n \<ge> length s then 0 else n) in
        if p \<noteq> 0 \<and> align_of (s ! p) \<noteq> Align_None
        then if hd s = CHR ''{'' then Throw bad_fill st
             else bnd (specs_checker H t (On_Fill (take p s)) st) (\<lambda>_ st.
               bnd (specs_checker H t (On_Align (align_of (s ! p))) st) (\<lambda>_ st. Done (drop (p + 1) s) st))
        else if align_of (hd s) \<noteq> Align_None
        then bnd (specs_checker H t (On_Align (align_of (hd s))) st) (\<lambda>_ st. Done (tl s) st)
        else Done s st)"

definition parse_width :: "'s spec_handler \<Rightarrow> arg_type \<Rightarrow> string \<Rightarrow> 's \<Rightarrow> ('s, string) outcome" where
  "parse_width H t s st =
     (if s = [] then Fault Assert_Failed
      else if is_digit (hd s)
      then bnd (parse_nonnegative_int s st) (\<lambda>(w, s) st. bnd (specs_checker H t (On_Width w) st) (\<lambda>_ st. Done s st))
      else if hd s = CHR ''{''
      then bnd (if tl s \<noteq> [] then bnd (parse_arg_id (on_dynamic_width H) (tl s) st) (\<lambda>(_, s) st. Done s st) else Done (tl s) st) (\<lambda>s st.
        if s = [] \<or> hd s \<noteq> CHR ''}'' then Throw ''invalid format string'' st else Done (tl s) st)
      else Done s st)"

definition parse_precision :: "'s spec_handler \<Rightarrow> arg_type \<Rightarrow> string \<Rightarrow> 's \<Rightarrow> ('s, string) outcome" where
  "parse_precision H t s st =
     (let s = tl s; c = (if s \<noteq> [] then hd s else CHR 0x00) in
      bnd (if is_digit c
           then bnd (parse_nonnegative_int s st) (\<lambda>(p, s) st. bnd (specs_checker H t (On_Precision p) st) (\<lambda>_ st. Done s st))
           else if c = CHR ''{''
           then bnd (if tl s \<noteq> [] then bnd (parse_arg_id (on_dynamic_precision H) (tl s) st) (\<lambda>(_, s) st. Done s st) else Done (tl s) st) (\<lambda>s st.
             if s = [] \<or> hd s \<noteq> CHR ''}'' then Throw ''invalid format string'' st else Done (tl s) st)
           else Throw ''missing precision specifier'' st)
        (\<lambda>s st. bnd (check_precision t st) (\<lambda>_ st. Done s st)))"

definition is_ascii_letter :: "char \<Rightarrow> bool" where
  "is_ascii_letter c \<longleftrightarrow> (97 :: nat) \<le> of_char c \<and> (of_char c :: nat) \<le> 122 \<or> (65 :: nat) \<le> of_char c \<and> (of_char c :: nat) \<le> 90"

text \<open>The parts of \<open>parse_format_specs\<close>; each returns at once at the end of the string.\<close>

definition parse_type :: "'s spec_handler \<Rightarrow> arg_type \<Rightarrow> string \<Rightarrow> 's \<Rightarrow> ('s, string) outcome" where
  "parse_type H t s st =
     bnd (if s \<noteq> [] \<and> hd s = CHR ''L'' then bnd (specs_checker H t On_Localized st) (\<lambda>_ st. Done (tl s) st) else Done s st) (\<lambda>s st.
       if s \<noteq> [] \<and> hd s \<noteq> CHR ''}'' then bnd (specs_checker H t (On_Type (hd s)) st) (\<lambda>_ st. Done (tl s) st) else Done s st)"

definition parse_sign :: "'s spec_handler \<Rightarrow> arg_type \<Rightarrow> string \<Rightarrow> 's \<Rightarrow> ('s, string) outcome" where
  "parse_sign H t s st =
     (if hd s = CHR ''+'' then bnd (specs_checker H t On_Plus st) (\<lambda>_ st. Done (tl s) st)
      else if hd s = CHR ''-'' then bnd (specs_checker H t On_Minus st) (\<lambda>_ st. Done (tl s) st)
      else if hd s = CHR '' '' then bnd (specs_checker H t On_Space st) (\<lambda>_ st. Done (tl s) st)
      else Done s st)"

text \<open>A flag character, if it is there.\<close>

definition parse_flag :: "'s spec_handler \<Rightarrow> arg_type \<Rightarrow> char \<Rightarrow> spec_event \<Rightarrow> string \<Rightarrow> 's \<Rightarrow> ('s, string) outcome" where
  "parse_flag H t c e s st = (if hd s = c then bnd (specs_checker H t e st) (\<lambda>_ st. Done (tl s) st) else Done s st)"

definition unless_end :: "(string \<Rightarrow> 's \<Rightarrow> ('s, string) outcome) \<Rightarrow> string \<Rightarrow> 's \<Rightarrow> ('s, string) outcome" where
  "unless_end f s st = (if s = [] then Done s st else f s st)"

definition parse_format_specs :: "'s spec_handler \<Rightarrow> arg_type \<Rightarrow> string \<Rightarrow> 's \<Rightarrow> ('s, string) outcome" where
  "parse_format_specs H t s st =
     (if length s > 1 \<and> s ! 1 = CHR ''}'' \<and> is_ascii_letter (hd s) \<and> hd s \<noteq> CHR ''L''
      then bnd (specs_checker H t (On_Type (hd s)) st) (\<lambda>_ st. Done (tl s) st)
      else
        bnd (unless_end (parse_align H t) s st) (\<lambda>s st.
        bnd (unless_end (parse_sign H t) s st) (\<lambda>s st.
        bnd (unless_end (parse_flag H t (CHR ''#'') On_Hash) s st) (\<lambda>s st.
        bnd (unless_end (parse_flag H t (CHR ''0'') On_Zero) s st) (\<lambda>s st.
        bnd (unless_end (parse_width H t) s st) (\<lambda>s st.
        bnd (unless_end (\<lambda>s st. if hd s = CHR ''.'' then parse_precision H t s st else Done s st) s st) (\<lambda>s st.
        unless_end (parse_type H t) s st)))))))"

section \<open>Format strings\<close>

text \<open>
  The handler of a format string. \<open>on_format_specs\<close> gets the rest of the string behind the colon and returns how many characters it has parsed.
\<close>

record 's handler =
  on_text :: "string \<Rightarrow> 's \<Rightarrow> ('s, unit) outcome"
  on_arg_id :: "arg_id \<Rightarrow> 's \<Rightarrow> ('s, int) outcome"
  on_replacement_field :: "int \<Rightarrow> 's \<Rightarrow> ('s, unit) outcome"
  on_format_specs :: "int \<Rightarrow> string \<Rightarrow> 's \<Rightarrow> ('s, nat) outcome"

text \<open>Behind the specifiers, of which \<open>n\<close> characters of \<open>s\<close> were parsed, the field has to be closed.\<close>

definition after_specs :: "string \<Rightarrow> nat \<Rightarrow> 's \<Rightarrow> ('s, string) outcome" where
  "after_specs s n st =
     (if n > length s then Fault Out_Of_Bounds
      else let s = drop n s in
        if s = [] \<or> hd s \<noteq> CHR ''}'' then Throw ''unknown format specifier'' st else Done (tl s) st)"

text \<open>The string starts with a brace.\<close>

definition parse_replacement_field :: "'s handler \<Rightarrow> string \<Rightarrow> 's \<Rightarrow> ('s, string) outcome" where
  "parse_replacement_field H s st =
     (let s = tl s in
      if s = [] then Throw ''invalid format string'' st
      else if hd s = CHR ''}''
      then bnd (on_arg_id H Auto_Id st) (\<lambda>i st. bnd (on_replacement_field H i st) (\<lambda>_ st. Done (tl s) st))
      else if hd s = CHR ''{'' then bnd (on_text H [hd s] st) (\<lambda>_ st. Done (tl s) st)
      else bnd (parse_arg_id (on_arg_id H) s st) (\<lambda>(i, s) st.
        let c = (if s \<noteq> [] then hd s else CHR 0x00) in
        if c = CHR ''}'' then bnd (on_replacement_field H i st) (\<lambda>_ st. Done (tl s) st)
        else if c = CHR '':''
        then bnd (on_format_specs H i (tl s) st) (after_specs (tl s))
        else Throw missing_brace st))"

text \<open>The parser only moves forward: what is left is an end of the string.\<close>

named_theorems parse_suffix "what the parser leaves is a suffix"

lemma suffix_tl_trans: "suffix s' (tl s) \<Longrightarrow> suffix s' s"
  using suffix_order.trans suffix_tl by blast

lemma suffix_drop_trans: "suffix s' (drop n s) \<Longrightarrow> suffix s' s"
  using suffix_order.trans suffix_drop by blast

lemma int_loop_suffix: "suffix (snd (int_loop v s)) s"
  by (induction v s rule: int_loop.induct) (auto simp: Let_def intro: suffix_ConsI)

lemma parse_nonnegative_int_suffix [parse_suffix]: "parse_nonnegative_int s st = Done (n, s') st' \<Longrightarrow> suffix s' s"
  using int_loop_suffix [of 0 s] by (auto simp: parse_nonnegative_int_def split: if_splits prod.splits)

lemma parse_arg_id_suffix [parse_suffix]: "parse_arg_id k s st = Done (a, s') st' \<Longrightarrow> suffix s' s"
  by (auto simp: parse_arg_id_def do_parse_arg_id_def Let_def bnd_Done_iff suffix_drop suffix_tl split: if_splits dest!: parse_nonnegative_int_suffix)

lemma parse_arg_id_length: "parse_arg_id k s st = Done (a, s') st' \<Longrightarrow> length s' \<le> length s"
  by (blast dest: parse_arg_id_suffix suffix_length_le)

text \<open>A replacement field takes at least its brace.\<close>

lemma parse_replacement_field_length: "parse_replacement_field H s st = Done s' st' \<Longrightarrow> length s' < length s"
  by (cases s) (auto simp: parse_replacement_field_def after_specs_def Let_def bnd_Done_iff split: if_splits dest!: parse_arg_id_length)

text \<open>The loop for short strings; \<open>pending\<close> is the text from \<open>begin\<close> up to the current position.\<close>

function short_loop :: "'s handler \<Rightarrow> string \<Rightarrow> string \<Rightarrow> 's \<Rightarrow> ('s, unit) outcome" where
  "short_loop H pending s st =
     (if s = [] then on_text H pending st
      else if hd s = CHR ''{''
      then bnd (on_text H pending st) (\<lambda>_ st. bnd (parse_replacement_field H s st) (\<lambda>s st. short_loop H [] s st))
      else if hd s = CHR ''}''
      then if tl s = [] \<or> hd (tl s) \<noteq> CHR ''}'' then Throw unmatched_brace st
           else bnd (on_text H (pending @ [hd s]) st) (\<lambda>_ st. short_loop H [] (tl (tl s)) st)
      else short_loop H (pending @ [hd s]) (tl s) st)"
  by auto
termination
  by (relation "measure (\<lambda>(H, pending, s, st). length s)") (auto dest: parse_replacement_field_length simp: neq_Nil_conv)

declare short_loop.simps [simp del]

text \<open>For longer strings: texts without an opening brace, in which closing braces have to be doubled, and the loop over the fields.\<close>

function write_text :: "'s handler \<Rightarrow> string \<Rightarrow> 's \<Rightarrow> ('s, unit) outcome" where
  "write_text H s st =
     (let t = takeWhile (\<lambda>c. c \<noteq> CHR ''}'') s; rest = drop (length t) s in
      if rest = [] then on_text H s st
      else if tl rest = [] \<or> hd (tl rest) \<noteq> CHR ''}'' then Throw unmatched_brace st
      else bnd (on_text H (t @ [CHR ''}'']) st) (\<lambda>_ st. write_text H (tl (tl rest)) st))"
  by auto
termination
  by (relation "measure (\<lambda>(H, s, st). length s)") (auto simp: neq_Nil_conv)

declare write_text.simps [simp del]

definition writer :: "'s handler \<Rightarrow> string \<Rightarrow> 's \<Rightarrow> ('s, unit) outcome" where
  "writer H s st = (if s = [] then Done () st else write_text H s st)"

function long_loop :: "'s handler \<Rightarrow> string \<Rightarrow> 's \<Rightarrow> ('s, unit) outcome" where
  "long_loop H s st =
     (if s = [] then Done () st
      else let t = takeWhile (\<lambda>c. c \<noteq> CHR ''{'') s; rest = drop (length t) s in
        if rest = [] then writer H s st
        else bnd (writer H t st) (\<lambda>_ st. bnd (parse_replacement_field H rest st) (\<lambda>s st. long_loop H s st)))"
  by auto
termination
  by (relation "measure (\<lambda>(H, s, st). length s)") (auto dest!: parse_replacement_field_length)

declare long_loop.simps [simp del]

definition parse_format_string :: "'s handler \<Rightarrow> string \<Rightarrow> 's \<Rightarrow> ('s, unit) outcome" where
  "parse_format_string H s st = (if length s < 32 then short_loop H [] s st else long_loop H s st)"

section \<open>The rest after the specifiers\<close>

lemma parse_align_suffix [parse_suffix]: "parse_align H t s st = Done s' st' \<Longrightarrow> suffix s' s"
  by (auto simp: parse_align_def Let_def bnd_Done_iff suffix_drop suffix_tl split: if_splits)

lemma parse_sign_suffix [parse_suffix]: "parse_sign H t s st = Done s' st' \<Longrightarrow> suffix s' s"
  by (auto simp: parse_sign_def bnd_Done_iff suffix_tl split: if_splits)

lemma parse_flag_suffix [parse_suffix]: "parse_flag H t c e s st = Done s' st' \<Longrightarrow> suffix s' s"
  by (auto simp: parse_flag_def bnd_Done_iff suffix_tl split: if_splits)

lemma parse_type_suffix [parse_suffix]: "parse_type H t s st = Done s' st' \<Longrightarrow> suffix s' s"
  by (auto simp: parse_type_def bnd_Done_iff suffix_tl suffix_tl_trans split: if_splits)

lemma suffix_tl_tl: "suffix y (tl x) \<Longrightarrow> suffix (tl y) x" "suffix y (tl (tl x)) \<Longrightarrow> suffix (tl y) x"
  by (meson suffix_order.trans suffix_tl)+

lemma parse_width_suffix [parse_suffix]: "parse_width H t s st = Done s' st' \<Longrightarrow> suffix s' s"
  by (auto simp: parse_width_def bnd_Done_iff split: if_splits dest!: parse_arg_id_suffix parse_nonnegative_int_suffix intro: suffix_tl_tl)

lemma parse_precision_suffix [parse_suffix]: "parse_precision H t s st = Done s' st' \<Longrightarrow> suffix s' s"
  by (auto simp: parse_precision_def Let_def bnd_Done_iff split: if_splits dest!: parse_arg_id_suffix parse_nonnegative_int_suffix
      intro: suffix_tl_tl suffix_tl_trans)

lemma unless_end_suffix:
  "unless_end f s st = Done s' st' \<Longrightarrow> (\<And>st s' st'. f s st = Done s' st' \<Longrightarrow> suffix s' s) \<Longrightarrow> suffix s' s"
  by (auto simp: unless_end_def split: if_splits)

lemma parse_point_suffix: "(if hd s = c then parse_precision H t s st else Done s st) = Done s' st' \<Longrightarrow> suffix s' s"
  by (auto split: if_splits dest: parse_precision_suffix)

lemma unless_suffix:
  "unless_end (parse_align H t) s st = Done s' st' \<Longrightarrow> suffix s' s"
  "unless_end (parse_sign H t) s st = Done s' st' \<Longrightarrow> suffix s' s"
  "unless_end (parse_flag H t c e) s st = Done s' st' \<Longrightarrow> suffix s' s"
  "unless_end (parse_width H t) s st = Done s' st' \<Longrightarrow> suffix s' s"
  "unless_end (\<lambda>s st. if hd s = CHR ''.'' then parse_precision H t s st else Done s st) s st = Done s' st' \<Longrightarrow> suffix s' s"
  "unless_end (parse_type H t) s st = Done s' st' \<Longrightarrow> suffix s' s"
  by (erule unless_end_suffix, erule parse_suffix parse_point_suffix)+

lemma parse_format_specs_suffix:
  assumes "parse_format_specs H t s st = Done s' st'"
  shows "suffix s' s"
proof (cases "length s > 1 \<and> s ! 1 = CHR ''}'' \<and> is_ascii_letter (hd s) \<and> hd s \<noteq> CHR ''L''")
  case True
  then show ?thesis using assms unfolding parse_format_specs_def by (auto simp: bnd_Done_iff suffix_tl)
next
  case False
  from assms obtain s1 s2 s3 s4 s5 s6 t1 t2 t3 t4 t5 t6 where
    "unless_end (parse_align H t) s st = Done s1 t1" "unless_end (parse_sign H t) s1 t1 = Done s2 t2"
    "unless_end (parse_flag H t (CHR ''#'') On_Hash) s2 t2 = Done s3 t3" "unless_end (parse_flag H t (CHR ''0'') On_Zero) s3 t3 = Done s4 t4"
    "unless_end (parse_width H t) s4 t4 = Done s5 t5"
    "unless_end (\<lambda>s st. if hd s = CHR ''.'' then parse_precision H t s st else Done s st) s5 t5 = Done s6 t6"
    "unless_end (parse_type H t) s6 t6 = Done s' st'"
    unfolding parse_format_specs_def if_not_P [OF False] bnd_Done_iff by (elim exE conjE) (rule that)
  then have "suffix s1 s" "suffix s2 s1" "suffix s3 s2" "suffix s4 s3" "suffix s5 s4" "suffix s6 s5" "suffix s' s6"
    by (blast intro: unless_suffix)+
  then show ?thesis by (meson suffix_order.trans)
qed

section \<open>Both loops do the same\<close>

lemma bnd_assoc: "bnd (bnd m f) h = bnd m (\<lambda>a s. bnd (f a s) h)"
  by (cases m) auto

lemma takeWhile_no: "c \<notin> set p \<Longrightarrow> takeWhile (\<lambda>x. x \<noteq> c) (p @ c # s) = p"
  by (induction p) auto

lemma write_text_brace:
  assumes "CHR ''}'' \<notin> set p"
  shows "write_text H (p @ CHR ''}'' # s) st =
    (if s = [] \<or> hd s \<noteq> CHR ''}'' then Throw unmatched_brace st
     else bnd (on_text H (p @ [CHR ''}'']) st) (\<lambda>_ st. write_text H (tl s) st))"
  using assms by (subst write_text.simps) (simp add: takeWhile_no Let_def)

lemma write_text_plain: "CHR ''}'' \<notin> set s \<Longrightarrow> write_text H s st = on_text H s st"
proof -
  assume "CHR ''}'' \<notin> set s"
  then have t: "takeWhile (\<lambda>c. c \<noteq> CHR ''}'') s = s" by (auto simp: takeWhile_eq_all_conv)
  show ?thesis unfolding write_text.simps [of H s] t Let_def by simp
qed

text \<open>All that matters is that an empty text changes nothing. \<open>I\<close> is an invariant of the handler's state.\<close>

locale text_handler =
  fixes H :: "'s handler" and I :: "'s \<Rightarrow> bool"
  assumes on_text_Nil: "I st \<Longrightarrow> on_text H [] st = Done () st"
    and on_text_inv: "I st \<Longrightarrow> on_text H x st = Done () st' \<Longrightarrow> I st'"
    and on_arg_id_inv: "I st \<Longrightarrow> on_arg_id H i st = Done n st' \<Longrightarrow> I st'"
    and on_replacement_field_inv: "I st \<Longrightarrow> on_replacement_field H n st = Done () st' \<Longrightarrow> I st'"
    and on_format_specs_inv: "I st \<Longrightarrow> on_format_specs H n x st = Done k st' \<Longrightarrow> I st'"
begin

lemma parse_arg_id_inv: "I st \<Longrightarrow> parse_arg_id (on_arg_id H) s st = Done (n, s') st' \<Longrightarrow> I st'"
  by (auto simp: parse_arg_id_def do_parse_arg_id_def parse_nonnegative_int_def Let_def bnd_Done_iff split: if_splits prod.splits
      intro: on_arg_id_inv)

lemma parse_replacement_field_inv:
  assumes "I st" and "parse_replacement_field H s st = Done s' st'"
  shows "I st'"
proof -
  have a: "I st2" if "on_format_specs H n x st = Done k st1" "after_specs x k st1 = Done y st2" "I st" for x n k y st st1 st2
    using that on_format_specs_inv [OF that(3,1)] by (auto simp: after_specs_def Let_def split: if_splits)
  show ?thesis using assms
    by (auto simp: parse_replacement_field_def Let_def bnd_Done_iff split: if_splits
        dest: parse_arg_id_inv on_text_inv on_arg_id_inv on_replacement_field_inv a)
qed

lemma write_text_inv: "I st \<Longrightarrow> write_text H s st = Done () st' \<Longrightarrow> I st'"
proof (induction "length s" arbitrary: s st rule: less_induct)
  case less
  define t where "t = takeWhile (\<lambda>c. c \<noteq> CHR ''}'') s"
  define rest where "rest = drop (length t) s"
  show ?case
  proof (cases "rest = [] \<or> tl rest = [] \<or> hd (tl rest) \<noteq> CHR ''}''")
    case True
    then show ?thesis using less.prems unfolding write_text.simps [of H s] Let_def t_def [symmetric] rest_def [symmetric]
      by (auto split: if_splits intro: on_text_inv)
  next
    case False
    then obtain st1 where o: "on_text H (t @ [CHR ''}'']) st = Done () st1" "write_text H (tl (tl rest)) st1 = Done () st'"
      using less.prems(2) unfolding write_text.simps [of H s] Let_def t_def [symmetric] rest_def [symmetric] by (auto simp: bnd_Done_iff)
    have "length (tl (tl rest)) < length s" using False by (cases s) (auto simp: rest_def neq_Nil_conv)
    then show ?thesis using less.hyps o on_text_inv [OF less.prems(1) o(1)] by blast
  qed
qed

end

text \<open>The short loop up to the next opening brace.\<close>

lemma short_loop_text:
  assumes "CHR ''}'' \<notin> set p"
  shows "short_loop H p s st =
    (let t = takeWhile (\<lambda>c. c \<noteq> CHR ''{'') s; rest = drop (length t) s in
     if rest = [] then write_text H (p @ s) st
     else bnd (write_text H (p @ t) st) (\<lambda>_ st. bnd (parse_replacement_field H rest st) (\<lambda>s st. short_loop H [] s st)))"
  using assms
proof (induction "length s" arbitrary: p s st rule: less_induct)
  case less
  show ?case
  proof (cases s)
    case Nil
    then show ?thesis using less.prems by (subst short_loop.simps) (simp add: write_text_plain)
  next
    case (Cons c s')
    consider "c = CHR ''{''" | "c = CHR ''}''" | "c \<noteq> CHR ''{''" "c \<noteq> CHR ''}''" by blast
    then show ?thesis
    proof cases
      case 1
      then show ?thesis using less.prems Cons by (subst short_loop.simps) (simp add: write_text_plain Let_def)
    next
      case 2
      show ?thesis
      proof (cases "s' = [] \<or> hd s' \<noteq> CHR ''}''")
        case True
        then have "takeWhile (\<lambda>c. c \<noteq> CHR ''{'') s' = [] \<or> hd (takeWhile (\<lambda>c. c \<noteq> CHR ''{'') s') \<noteq> CHR ''}''" by (cases s') auto
        then show ?thesis using True 2 Cons less.prems
          by (subst short_loop.simps) (simp add: write_text_brace Let_def)
      next
        case False
        then obtain u where u: "s' = CHR ''}'' # u" by (cases s') auto
        then have IH: "short_loop H [] u st = (let t = takeWhile (\<lambda>c. c \<noteq> CHR ''{'') u; rest = drop (length t) u in
            if rest = [] then write_text H u st
            else bnd (write_text H t st) (\<lambda>_ st. bnd (parse_replacement_field H rest st) (\<lambda>s st. short_loop H [] s st)))" for st
          using less.hyps [of u "[]"] Cons by (simp add: Let_def)
        have "short_loop H p s st = bnd (on_text H (p @ [CHR ''}'']) st) (\<lambda>_ st. short_loop H [] u st)"
          using 2 Cons u by (subst short_loop.simps) simp
        then show ?thesis using 2 Cons u less.prems by (simp add: IH write_text_brace Let_def bnd_assoc)
      qed
    next
      case 3
      then have "short_loop H p s st = short_loop H (p @ [c]) s' st" using Cons by (subst short_loop.simps) simp
      then show ?thesis using less.hyps [of s' "p @ [c]"] less.prems 3 Cons by (simp add: Let_def)
    qed
  qed
qed

context text_handler
begin

lemma writer_write_text: "I st \<Longrightarrow> writer H s st = write_text H s st"
  by (simp add: writer_def write_text_plain [of "[]"] on_text_Nil)

lemma short_long: "I st \<Longrightarrow> short_loop H [] s st = long_loop H s st"
proof (induction "length s" arbitrary: s st rule: less_induct)
  case less
  define t where "t = takeWhile (\<lambda>c. c \<noteq> CHR ''{'') s"
  define rest where "rest = drop (length t) s"
  have IH: "bnd (parse_replacement_field H rest st) (\<lambda>s st. short_loop H [] s st) = bnd (parse_replacement_field H rest st) (\<lambda>s st. long_loop H s st)"
    if "I st" for st
    using parse_replacement_field_inv [OF that]
    by (intro bnd_cong) (auto intro!: less.hyps dest: parse_replacement_field_length simp: rest_def)
  have W: "bnd (write_text H t st) (\<lambda>_ st. bnd (parse_replacement_field H rest st) (\<lambda>s st. short_loop H [] s st)) =
      bnd (write_text H t st) (\<lambda>_ st. bnd (parse_replacement_field H rest st) (\<lambda>s st. long_loop H s st))"
    by (rule bnd_cong [OF refl]) (rule IH, rule write_text_inv [OF less.prems], simp)
  show ?case
  proof (cases "s = []")
    case True
    then show ?thesis using less.prems by (subst short_loop.simps, subst long_loop.simps) (simp add: on_text_Nil)
  next
    case False
    have "short_loop H [] s st = (if rest = [] then write_text H s st
        else bnd (write_text H t st) (\<lambda>_ st. bnd (parse_replacement_field H rest st) (\<lambda>s st. short_loop H [] s st)))"
      unfolding rest_def t_def by (rule short_loop_text [of "[]" H s st, unfolded Let_def append_Nil]) simp
    moreover have "long_loop H s st = (if rest = [] then write_text H s st
        else bnd (write_text H t st) (\<lambda>_ st. bnd (parse_replacement_field H rest st) (\<lambda>s st. long_loop H s st)))"
      using False unfolding rest_def t_def long_loop.simps [of H s] Let_def writer_write_text [OF less.prems] by simp
    ultimately show ?thesis using W by simp
  qed
qed

end

section \<open>Numbers are read exactly\<close>

lemma of_char_digit_char:
  assumes "d < 10"
  shows "of_char (digit_char d) = (48 + d :: nat)" and "of_char (digit_char d) = (48 + of_nat d :: u32)"
proof -
  show n: "of_char (digit_char d) = (48 + d :: nat)" using assms by simp
  have "of_char (digit_char d) = (of_nat (of_char (digit_char d)) :: u32)" by (simp only: of_nat_of_char)
  then show "of_char (digit_char d) = (48 + of_nat d :: u32)" unfolding n by simp
qed

lemma is_digit_digit_char: "d < 10 \<Longrightarrow> is_digit (digit_char d)"
  by (simp add: is_digit_def of_char_digit_char)

definition value_from :: "nat \<Rightarrow> nat list \<Rightarrow> nat" where
  "value_from v ds = foldl (\<lambda>v d. v * 10 + d) v ds"

lemma value_from_mono: "v \<le> value_from v ds"
proof (induction ds arbitrary: v)
  case (Cons d ds)
  have "v * 10 + d \<le> value_from v (d # ds)" using Cons [of "v * 10 + d"] by (simp add: value_from_def)
  then show ?case by simp
qed (simp add: value_from_def)

lemma int_loop_digits:
  assumes "ds \<noteq> []" and "\<forall>d\<in>set ds. d < 10" and "rest = [] \<or> \<not> is_digit (hd rest)" and "unat v \<le> 2147483649"
  shows "if value_from (unat v) ds \<le> 2147483647
    then int_loop v (map digit_char ds @ rest) = (of_nat (value_from (unat v) ds), rest)
    else fst (int_loop v (map digit_char ds @ rest)) > max_int"
  using assms(1,2,4)
proof (induction ds arbitrary: v)
  case (Cons d ds)
  have big: "v > max_int div 10 \<longleftrightarrow> unat v > 214748364" by (simp add: max_int_def word_less_nat_alt)
  have val: "value_from (unat v) (d # ds) = value_from (unat v * 10 + d) ds" by (simp add: value_from_def)
  show ?case
  proof (cases "unat v > 214748364")
    case True
    then have "value_from (unat v) (d # ds) > 2147483647" using value_from_mono [of "unat v * 10 + d" ds] val by simp
    moreover have "fst (int_loop v (map digit_char (d # ds) @ rest)) = max_int + 1" using True big by simp
    ultimately show ?thesis by (simp add: max_int_def)
  next
    case False
    have d: "d < 10" using Cons.prems(2) by simp
    define v' where "v' = v * 10 + of_nat d"
    have v': "unat v' = unat v * 10 + d" using False d by (simp add: v'_def unat_word_ariths unat_of_nat)
    then have le: "unat v' \<le> 2147483649" using False d by simp
    have step: "int_loop v (map digit_char (d # ds) @ rest) =
        (if map digit_char ds @ rest \<noteq> [] \<and> is_digit (hd (map digit_char ds @ rest)) then int_loop v' (map digit_char ds @ rest) else (v', map digit_char ds @ rest))"
      using False big d by (simp add: v'_def of_char_digit_char)
    show ?thesis
    proof (cases "ds = []")
      case True
      then have "int_loop v (map digit_char (d # ds) @ rest) = (v', rest)" using step assms(3) by auto
      moreover have "v' = of_nat (unat v * 10 + d)" by (simp add: v'_def)
      ultimately show ?thesis using True v' by (auto simp: value_from_def max_int_def word_less_nat_alt)
    next
      case ds: False
      then have "is_digit (hd (map digit_char ds @ rest))" using Cons.prems(2) by (cases ds) (auto simp: is_digit_digit_char)
      then have "int_loop v (map digit_char (d # ds) @ rest) = int_loop v' (map digit_char ds @ rest)" using step ds by simp
      then show ?thesis using Cons.IH [OF ds _ le] Cons.prems(2) val v' by simp
    qed
  qed
qed simp

lemma parse_nonnegative_int_digits:
  assumes "ds \<noteq> []" and "\<forall>d\<in>set ds. d < 10" and "rest = [] \<or> \<not> is_digit (hd rest)"
  shows "parse_nonnegative_int (map digit_char ds @ rest) st =
    (if number 10 ds \<le> 2147483647 then Done (int (number 10 ds), rest) st else Throw ''number is too big'' st)"
proof -
  have n: "value_from (unat 0) ds = number 10 ds" by (simp add: value_from_def number_def)
  have h: "map digit_char ds @ rest \<noteq> []" "is_digit (hd (map digit_char ds @ rest))"
    using assms(1,2) by (cases ds; simp add: is_digit_digit_char)+
  note L = int_loop_digits [OF assms, of 0, unfolded n]
  show ?thesis
  proof (cases "number 10 ds \<le> 2147483647")
    case True
    then have "int_loop 0 (map digit_char ds @ rest) = (of_nat (number 10 ds), rest)" using L by simp
    moreover have "\<not> (of_nat (number 10 ds) :: u32) > max_int" "uint (of_nat (number 10 ds) :: u32) = int (number 10 ds)"
      using True by (simp_all add: max_int_def word_less_nat_alt unat_of_nat uint_nat)
    ultimately show ?thesis using True h unfolding parse_nonnegative_int_def by simp
  next
    case False
    then have "fst (int_loop 0 (map digit_char ds @ rest)) > max_int" using L by simp
    then show ?thesis using False h unfolding parse_nonnegative_int_def by (cases "int_loop 0 (map digit_char ds @ rest)") simp
  qed
qed
end
