(* ===== verification/Fmt_Sim.thy ===== *)
theory Fmt_Sim
  imports Fmt_Parse
begin

text \<open>
  Two handlers of the parser side by side. If each notification of one handler that returns is matched by the other, then so is
  parsing as a whole: whenever the first handler accepts a format string, the second one accepts it too or throws
  one of the exceptions that its notifications may throw.
\<close>

definition sim :: "('s \<Rightarrow> 't \<Rightarrow> bool) \<Rightarrow> (string \<Rightarrow> 't \<Rightarrow> bool) \<Rightarrow> ('s, 'a) outcome \<Rightarrow> ('t, 'a) outcome \<Rightarrow> bool" where
  "sim R E o1 o2 \<longleftrightarrow> (\<forall>a s. o1 = Done a s \<longrightarrow> (\<exists>t. o2 = Done a t \<and> R s t) \<or> (\<exists>m t. o2 = Throw m t \<and> E m t))"

named_theorems sim_intros "simulation of outcomes"

lemma sim_Done [sim_intros]: "R s t \<Longrightarrow> sim R E (Done a s) (Done a t)"
  by (simp add: sim_def)

lemma sim_Throw [sim_intros]: "sim R E (Throw m s) x"
  by (simp add: sim_def)

lemma sim_Fault [sim_intros]: "sim R E (Fault e) x"
  by (simp add: sim_def)

lemma sim_error: "E m t \<Longrightarrow> sim R E x (Throw m t)"
  by (simp add: sim_def)

lemma sim_bnd:
  assumes "sim R E m1 m2" and "\<And>a s t. m1 = Done a s \<Longrightarrow> R s t \<Longrightarrow> sim R' E (f1 a s) (f2 a t)"
  shows "sim R' E (bnd m1 f1) (bnd m2 f2)"
proof (cases m1)
  case (Done a s)
  with assms(1) consider t where "m2 = Done a t" "R s t" | m t where "m2 = Throw m t" "E m t" by (auto simp: sim_def)
  then show ?thesis using Done assms(2) by cases (auto intro: sim_error)
qed (auto intro: sim_intros)

lemma sim_if [sim_intros]: "(c \<Longrightarrow> sim R E a1 a2) \<Longrightarrow> (\<not> c \<Longrightarrow> sim R E b1 b2) \<Longrightarrow> sim R E (if c then a1 else b1) (if c then a2 else b2)"
  by simp

lemma sim_case_prod [sim_intros]: "(\<And>x y. p = (x, y) \<Longrightarrow> sim R E (f1 x y s) (f2 x y t)) \<Longrightarrow> sim R E (case_prod f1 p s) (case_prod f2 p t)"
  by (cases p) simp

section \<open>Specifiers\<close>

fun event_ok :: "spec_event \<Rightarrow> bool" where
  "event_ok (On_Width w) \<longleftrightarrow> 0 \<le> w \<and> w < 2 ^ 31"
| "event_ok (On_Precision p) \<longleftrightarrow> 0 \<le> p \<and> p < 2 ^ 31"
| "event_ok e \<longleftrightarrow> True"

lemma parse_nonnegative_int_range: "parse_nonnegative_int s st = Done (n, s') st' \<Longrightarrow> 0 \<le> n \<and> n < 2 ^ 31"
  by (auto simp: parse_nonnegative_int_def max_int_def word_less_def split: if_splits prod.splits)

lemma sim_parse_nonnegative_int: "R s t \<Longrightarrow> sim R E (parse_nonnegative_int x s) (parse_nonnegative_int x t)"
  by (auto simp: parse_nonnegative_int_def intro!: sim_intros split: prod.split)

lemma sim_parse_arg_id:
  assumes "R s t" and "\<And>i s t. R s t \<Longrightarrow> sim R E (k1 i s) (k2 i t)"
  shows "sim R E (parse_arg_id k1 x s) (parse_arg_id k2 x t)"
proof -
  have k: "R s t \<Longrightarrow> sim R E (bnd (k1 i s) (\<lambda>a st. Done (a, y) st)) (bnd (k2 i t) (\<lambda>a st. Done (a, y) st))" for i s t y
    by (rule sim_bnd [OF assms(2)]) (auto intro: sim_intros)
  show ?thesis unfolding parse_arg_id_def do_parse_arg_id_def Let_def
    by (intro sim_intros k assms(1) sim_bnd [where R = R] sim_parse_nonnegative_int; assumption?)
qed

locale spec_sim =
  fixes H1 :: "'s spec_handler" and H2 :: "'t spec_handler" and R :: "'s \<Rightarrow> 't \<Rightarrow> bool" and E :: "string \<Rightarrow> 't \<Rightarrow> bool"
  assumes event_sim: "R s t \<Longrightarrow> event_ok e \<Longrightarrow> R (event H1 e s) (event H2 e t)"
    and width_sim: "R s t \<Longrightarrow> sim R E (on_dynamic_width H1 i s) (on_dynamic_width H2 i t)"
    and precision_sim: "R s t \<Longrightarrow> sim R E (on_dynamic_precision H1 i s) (on_dynamic_precision H2 i t)"
begin

lemma sim_checker: "R s t \<Longrightarrow> event_ok e \<Longrightarrow> sim R E (specs_checker H1 ty e s) (specs_checker H2 ty e t)"
  by (cases e) (auto simp: check_sign_def require_numeric_argument_def intro!: sim_intros event_sim)

lemma sim_notify:
  assumes "R s t" and "event_ok e"
  shows "sim R E (bnd (specs_checker H1 ty e s) (\<lambda>_ st. Done x st)) (bnd (specs_checker H2 ty e t) (\<lambda>_ st. Done x st))"
  by (rule sim_bnd [OF sim_checker [OF assms]]) (auto intro: sim_intros)

lemma sim_number:
  assumes "R s t" and "\<And>n. 0 \<le> n \<Longrightarrow> n < 2 ^ 31 \<Longrightarrow> event_ok (ev n)"
  shows "sim R E (bnd (parse_nonnegative_int x s) (\<lambda>(w, y) st. bnd (specs_checker H1 ty (ev w) st) (\<lambda>_ st. Done y st)))
    (bnd (parse_nonnegative_int x t) (\<lambda>(w, y) st. bnd (specs_checker H2 ty (ev w) st) (\<lambda>_ st. Done y st)))"
  by (rule sim_bnd [OF sim_parse_nonnegative_int [where R = R, OF assms(1)]])
    (auto intro!: sim_notify assms(2) split: prod.split dest: parse_nonnegative_int_range)

lemma sim_dynamic:
  assumes "R s t" and "\<And>i s t. R s t \<Longrightarrow> sim R E (k1 i s) (k2 i t)"
  shows "sim R E
    (bnd (if x \<noteq> [] then bnd (parse_arg_id k1 x s) (\<lambda>(_, y) st. Done y st) else Done x s) (\<lambda>y st.
        if y = [] \<or> hd y \<noteq> CHR ''}'' then Throw m st else Done (tl y) st))
    (bnd (if x \<noteq> [] then bnd (parse_arg_id k2 x t) (\<lambda>(_, y) st. Done y st) else Done x t) (\<lambda>y st.
        if y = [] \<or> hd y \<noteq> CHR ''}'' then Throw m st else Done (tl y) st))"
proof -
  have "sim R E (bnd (parse_arg_id k1 x s) (\<lambda>(_, y) st. Done y st)) (bnd (parse_arg_id k2 x t) (\<lambda>(_, y) st. Done y st))"
    by (rule sim_bnd [OF sim_parse_arg_id [OF assms]]) (auto intro: sim_intros)
  then have "sim R E (if x \<noteq> [] then bnd (parse_arg_id k1 x s) (\<lambda>(_, y) st. Done y st) else Done x s)
      (if x \<noteq> [] then bnd (parse_arg_id k2 x t) (\<lambda>(_, y) st. Done y st) else Done x t)"
    using assms(1) by (auto intro: sim_intros)
  then show ?thesis by (rule sim_bnd) (auto intro: sim_intros)
qed

lemma sim_align: "R s t \<Longrightarrow> sim R E (parse_align H1 ty x s) (parse_align H2 ty x t)"
  unfolding parse_align_def Let_def
  by (intro sim_intros sim_notify sim_bnd [where R = R] sim_checker; simp?)

lemma sim_width: "R s t \<Longrightarrow> sim R E (parse_width H1 ty x s) (parse_width H2 ty x t)"
  unfolding parse_width_def by (intro sim_intros sim_number sim_dynamic width_sim; simp?)

lemma sim_check_precision: "R s t \<Longrightarrow> sim R E (bnd (check_precision ty s) (\<lambda>_ st. Done y st)) (bnd (check_precision ty t) (\<lambda>_ st. Done y st))"
  by (auto simp: check_precision_def intro: sim_intros)

lemma sim_precision: "R s t \<Longrightarrow> sim R E (parse_precision H1 ty x s) (parse_precision H2 ty x t)"
  unfolding parse_precision_def Let_def
  by (rule sim_bnd [where R = R]) (intro sim_intros sim_number sim_dynamic precision_sim sim_check_precision; simp?)+

lemma sim_unless_end:
  "R s t \<Longrightarrow> (\<And>s t. R s t \<Longrightarrow> sim R E (f1 x s) (f2 x t)) \<Longrightarrow> sim R E (unless_end f1 x s) (unless_end f2 x t)"
  by (auto simp: unless_end_def intro: sim_intros)

lemma sim_sign: "R s t \<Longrightarrow> sim R E (parse_sign H1 ty x s) (parse_sign H2 ty x t)"
  unfolding parse_sign_def by (intro sim_intros sim_notify; simp?)

lemma sim_flag: "R s t \<Longrightarrow> event_ok e \<Longrightarrow> sim R E (parse_flag H1 ty c e x s) (parse_flag H2 ty c e x t)"
  unfolding parse_flag_def by (intro sim_intros sim_notify; simp?)

lemma sim_type: "R s t \<Longrightarrow> sim R E (parse_type H1 ty x s) (parse_type H2 ty x t)"
  unfolding parse_type_def by (rule sim_bnd [where R = R]) (intro sim_intros sim_notify; simp?)+

lemma sim_format_specs: "R s t \<Longrightarrow> sim R E (parse_format_specs H1 ty x s) (parse_format_specs H2 ty x t)"
  unfolding parse_format_specs_def
  by (intro sim_if sim_bnd [where R = R] sim_checker sim_Done sim_unless_end sim_align sim_sign sim_flag sim_width sim_precision sim_type; simp?)

end

section \<open>Format strings\<close>

text \<open>An identifier of the parser has no negative index. \<open>P\<close> is what the first handler guarantees of the indices of arguments.\<close>

fun id_ok :: "arg_id \<Rightarrow> bool" where
  "id_ok (Index_Id i) \<longleftrightarrow> 0 \<le> i"
| "id_ok i \<longleftrightarrow> True"

locale handler_sim =
  fixes H1 :: "'s handler" and H2 :: "'t handler" and R :: "'s \<Rightarrow> 't \<Rightarrow> bool" and E :: "string \<Rightarrow> 't \<Rightarrow> bool" and P :: "int \<Rightarrow> bool"
  assumes text_sim: "R s t \<Longrightarrow> sim R E (on_text H1 x s) (on_text H2 x t)"
    and arg_id_sim: "R s t \<Longrightarrow> sim R E (on_arg_id H1 i s) (on_arg_id H2 i t)"
    and arg_id_valid: "id_ok i \<Longrightarrow> on_arg_id H1 i s = Done n s' \<Longrightarrow> P n"
    and field_sim: "R s t \<Longrightarrow> P n \<Longrightarrow> sim R E (on_replacement_field H1 n s) (on_replacement_field H2 n t)"
    and specs_sim: "R s t \<Longrightarrow> P n \<Longrightarrow>
      sim R E (bnd (on_format_specs H1 n x s) (after_specs x)) (bnd (on_format_specs H2 n x t) (after_specs x))"
begin

lemma parse_arg_id_valid: "parse_arg_id (on_arg_id H1) x s = Done (n, y) s' \<Longrightarrow> P n"
  by (auto simp: parse_arg_id_def do_parse_arg_id_def Let_def bnd_Done_iff split: if_splits dest!: arg_id_valid [rotated] parse_nonnegative_int_range)

lemma sim_field: "R s t \<Longrightarrow> P n \<Longrightarrow>
  sim R E (bnd (on_replacement_field H1 n s) (\<lambda>_ st. Done x st)) (bnd (on_replacement_field H2 n t) (\<lambda>_ st. Done x st))"
  by (rule sim_bnd [OF field_sim]) (auto intro: sim_intros)

lemma sim_replacement_field: "R s t \<Longrightarrow> sim R E (parse_replacement_field H1 x s) (parse_replacement_field H2 x t)"
  unfolding parse_replacement_field_def Let_def
  by (intro sim_intros sim_field sim_bnd [where R = R] arg_id_sim text_sim specs_sim sim_parse_arg_id; (assumption | rule arg_id_valid parse_arg_id_valid)?)
    (auto dest: arg_id_valid parse_arg_id_valid intro: arg_id_sim text_sim specs_sim sim_intros)

lemma sim_short_loop: "R s t \<Longrightarrow> sim R E (short_loop H1 p x s) (short_loop H2 p x t)"
proof (induction "length x" arbitrary: p x s t rule: less_induct)
  case less
  note IH = less.hyps
  have field: "sim R E (bnd (parse_replacement_field H1 x s) (\<lambda>x st. short_loop H1 [] x st)) (bnd (parse_replacement_field H2 x t) (\<lambda>x st. short_loop H2 [] x st))"
    if "R s t" for s t
    by (rule sim_bnd [OF sim_replacement_field [OF that]]) (auto intro: IH dest: parse_replacement_field_length)
  show ?case unfolding short_loop.simps [of H1 p x s] short_loop.simps [of H2 p x t]
    by (intro sim_intros sim_bnd [where R = R] text_sim field less.prems IH; (assumption | simp)?)
qed

lemma sim_write_text: "R s t \<Longrightarrow> sim R E (write_text H1 x s) (write_text H2 x t)"
proof (induction "length x" arbitrary: x s t rule: less_induct)
  case less
  note IH = less.hyps
  show ?case unfolding write_text.simps [of H1 x s] write_text.simps [of H2 x t] Let_def
    by (intro sim_intros sim_bnd [where R = R] text_sim less.prems IH; (assumption | simp add: neq_Nil_conv)?)
qed

lemma sim_long_loop: "R s t \<Longrightarrow> sim R E (long_loop H1 x s) (long_loop H2 x t)"
proof (induction "length x" arbitrary: x s t rule: less_induct)
  case less
  note IH = less.hyps
  define rest where "rest = drop (length (takeWhile (\<lambda>c. c \<noteq> CHR ''{'') x)) x"
  have field: "sim R E (bnd (parse_replacement_field H1 rest s) (\<lambda>x st. long_loop H1 x st)) (bnd (parse_replacement_field H2 rest t) (\<lambda>x st. long_loop H2 x st))"
    if "R s t" for s t
    by (rule sim_bnd [OF sim_replacement_field [OF that]]) (auto intro: IH dest!: parse_replacement_field_length simp: rest_def)
  have w: "R s t \<Longrightarrow> sim R E (writer H1 x s) (writer H2 x t)" for x s t by (auto simp: writer_def intro: sim_write_text sim_intros)
  show ?case unfolding long_loop.simps [of H1 x s] long_loop.simps [of H2 x t] Let_def rest_def [symmetric]
    by (intro sim_intros sim_bnd [where R = R] w field less.prems; assumption?)
qed

lemma sim_format_string: "R s t \<Longrightarrow> sim R E (parse_format_string H1 x s) (parse_format_string H2 x t)"
  by (auto simp: parse_format_string_def intro: sim_short_loop sim_long_loop)

end
end
