(* ===== verification/Fmt_Format.thy ===== *)
theory Fmt_Format
  imports Fmt_Sim
begin

text \<open>
  Formatting (\<open>format_handler\<close> and \<open>vformat_to\<close> of \<open>logger/fmt/format.h\<close>) and the check of format strings at compile time
  (\<open>format_string_checker\<close> of \<open>core.h\<close>). Arguments are a list, with the names of named arguments; \<open>Fmt_Args\<close> shows how they are packed.
\<close>

section \<open>Indices of arguments\<close>

text \<open>\<open>next_arg_id_\<close> of the parse context; it is negative once an index was given explicitly.\<close>

definition next_arg_id :: "int \<Rightarrow> string + int \<times> int" where
  "next_arg_id n = (if n \<ge> 0 then Inr (n, n + 1) else Inl ''cannot switch from manual to automatic argument indexing'')"

definition check_arg_id :: "int \<Rightarrow> string + int" where
  "check_arg_id n = (if n > 0 then Inl ''cannot switch from automatic to manual argument indexing'' else Inr (-1))"

text \<open>\<open>compile_parse_context\<close> also looks at the number of arguments.\<close>

definition next_arg_id_checked :: "nat \<Rightarrow> int \<Rightarrow> string + int \<times> int" where
  "next_arg_id_checked num_args n =
     (case next_arg_id n of Inl m \<Rightarrow> Inl m | Inr (i, n) \<Rightarrow> if i \<ge> int num_args then Inl ''argument not found'' else Inr (i, n))"

definition check_arg_id_checked :: "nat \<Rightarrow> int \<Rightarrow> int \<Rightarrow> string + int" where
  "check_arg_id_checked num_args i n =
     (case check_arg_id n of Inl m \<Rightarrow> Inl m | Inr n \<Rightarrow> if i \<ge> int num_args then Inl ''argument not found'' else Inr n)"

section \<open>Formatting\<close>

record 'tm format_args =
  arg_list :: "'tm fmt_arg list"
  arg_names :: "(string \<times> int) list"

definition get_id :: "'tm format_args \<Rightarrow> string \<Rightarrow> int" where
  "get_id args name = (case map_of (arg_names args) name of None \<Rightarrow> -1 | Some i \<Rightarrow> i)"

definition get_arg :: "'tm format_args \<Rightarrow> int \<Rightarrow> 'tm fmt_arg option" where
  "get_arg args i = (if 0 \<le> i \<and> i < int (length (arg_list args)) then Some (arg_list args ! nat i) else None)"

record fstate =
  next_id :: int
  out :: fbuf

text \<open>Output through the context.\<close>

definition on_out :: "(fbuf \<Rightarrow> (fbuf, unit) outcome) \<Rightarrow> fstate \<Rightarrow> (fstate, unit) outcome" where
  "on_out f st = (case f (out st) of Done a b \<Rightarrow> Done a (st\<lparr>out := b\<rparr>) | Throw m b \<Rightarrow> Throw m (st\<lparr>out := b\<rparr>) | Fault e \<Rightarrow> Fault e)"

definition handler_arg_id :: "'tm format_args \<Rightarrow> arg_id \<Rightarrow> fstate \<Rightarrow> (fstate, int) outcome" where
  "handler_arg_id args i st =
     (case i of
        Auto_Id \<Rightarrow> (case next_arg_id (next_id st) of Inl m \<Rightarrow> Throw m st | Inr (i, n) \<Rightarrow> Done i (st\<lparr>next_id := n\<rparr>))
      | Index_Id i \<Rightarrow> (case check_arg_id (next_id st) of Inl m \<Rightarrow> Throw m st | Inr n \<Rightarrow> Done i (st\<lparr>next_id := n\<rparr>))
      | Name_Id name \<Rightarrow> if get_id args name < 0 then Throw ''argument not found'' st else Done (get_id args name) st)"

text \<open>
  A dynamic width or precision: the value of an integer argument that is not \<open>bool\<close> or \<open>char\<close>, as \<open>unsigned long long\<close>. \<open>what\<close> is "width" or "precision".
\<close>

fun dynamic_value :: "string \<Rightarrow> 'tm fmt_arg \<Rightarrow> string + u64" where
  "dynamic_value what (Int_Arg v) = (if is_negative True v then Inl (''negative '' @ what) else Inr (ucast v))"
| "dynamic_value what (UInt_Arg v) = Inr (ucast v)"
| "dynamic_value what (LongLong_Arg v) = (if is_negative True v then Inl (''negative '' @ what) else Inr v)"
| "dynamic_value what (ULongLong_Arg v) = Inr v"
| "dynamic_value what (Int128_Arg v) = (if is_negative True v then Inl (''negative '' @ what) else Inr (ucast v))"
| "dynamic_value what (UInt128_Arg v) = Inr (ucast v)"
| "dynamic_value what _ = Inl (what @ '' is not integer'')"

definition get_dynamic_spec :: "string \<Rightarrow> 'tm fmt_arg \<Rightarrow> string + int" where
  "get_dynamic_spec what arg =
     (case dynamic_value what arg of
        Inl m \<Rightarrow> Inl m
      | Inr v \<Rightarrow> if v > 0x7FFFFFFF then Inl ''number is too big'' else Inr (uint v))"

text \<open>\<open>specs_handler\<close>: the state is the specifiers so far and the state of the formatting. A name is looked up among the arguments directly.\<close>

definition dynamic_arg :: "'tm format_args \<Rightarrow> arg_id \<Rightarrow> fstate \<Rightarrow> (fstate, 'tm fmt_arg) outcome" where
  "dynamic_arg args i st =
     bnd (case i of
            Name_Id name \<Rightarrow> Done (get_id args name) st
          | _ \<Rightarrow> handler_arg_id args i st)
       (\<lambda>n st. case get_arg args n of None \<Rightarrow> Throw ''argument not found'' st | Some a \<Rightarrow> Done a st)"

definition on_dynamic :: "'tm format_args \<Rightarrow> string \<Rightarrow> (int \<Rightarrow> spec_event) \<Rightarrow> arg_id \<Rightarrow> format_specs \<times> fstate \<Rightarrow> (format_specs \<times> fstate, unit) outcome" where
  "on_dynamic args what ev i = (\<lambda>(sp, st).
     case dynamic_arg args i st of
       Fault e \<Rightarrow> Fault e
     | Throw m st \<Rightarrow> Throw m (sp, st)
     | Done a st \<Rightarrow> (case get_dynamic_spec what a of Inl m \<Rightarrow> Throw m (sp, st) | Inr v \<Rightarrow> Done () (specs_setter (ev v) sp, st)))"

definition specs_handler :: "'tm format_args \<Rightarrow> (format_specs \<times> fstate) spec_handler" where
  "specs_handler args =
     \<lparr>event = (\<lambda>e (sp, st). (specs_setter e sp, st)),
      on_dynamic_width = on_dynamic args ''width'' On_Width,
      on_dynamic_precision = on_dynamic args ''precision'' On_Precision\<rparr>"

definition handler_replacement_field :: "(string \<Rightarrow> 'tm \<Rightarrow> string) \<Rightarrow> grow \<Rightarrow> 'tm format_args \<Rightarrow> int \<Rightarrow> fstate \<Rightarrow> (fstate, unit) outcome" where
  "handler_replacement_field strftime g args n st =
     (case get_arg args n of None \<Rightarrow> Throw ''argument not found'' st | Some a \<Rightarrow> on_out (write_default strftime g a) st)"

definition handler_format_specs :: "(string \<Rightarrow> 'tm \<Rightarrow> string) \<Rightarrow> grow \<Rightarrow> 'tm format_args \<Rightarrow> int \<Rightarrow> string \<Rightarrow> fstate \<Rightarrow> (fstate, nat) outcome" where
  "handler_format_specs strftime g args n s st =
     (case get_arg args n of
        None \<Rightarrow> Throw ''argument not found'' st
      | Some (Tm_Arg t) \<Rightarrow>
          (let (specs, k) = tm_parse s in Done k (st\<lparr>out := fold (push_back g) (tm_text strftime specs t) (out st)\<rparr>))
      | Some a \<Rightarrow>
          (case parse_format_specs (specs_handler args) (type_of a) s (default_specs, st) of
             Fault e \<Rightarrow> Fault e
           | Throw m (sp, st) \<Rightarrow> Throw m st
           | Done s' (sp, st) \<Rightarrow>
               if s' = [] \<or> hd s' \<noteq> CHR ''}'' then Throw missing_brace st
               else bnd (on_out (arg_formatter g sp a) st) (\<lambda>_ st. Done (length s - length s') st)))"

definition format_handler :: "(string \<Rightarrow> 'tm \<Rightarrow> string) \<Rightarrow> grow \<Rightarrow> 'tm format_args \<Rightarrow> fstate handler" where
  "format_handler strftime g args =
     \<lparr>on_text = (\<lambda>s. on_out (\<lambda>b. Done () (append g s (reserve g (length s) b)))),
      on_arg_id = handler_arg_id args,
      on_replacement_field = handler_replacement_field strftime g args,
      on_format_specs = handler_format_specs strftime g args\<rparr>"

text \<open>\<open>detail::vformat_to\<close>, with its short cut for a single field.\<close>

definition vformat_to :: "(string \<Rightarrow> 'tm \<Rightarrow> string) \<Rightarrow> grow \<Rightarrow> string \<Rightarrow> 'tm format_args \<Rightarrow> fbuf \<Rightarrow> (fbuf, unit) outcome" where
  "vformat_to strftime g s args b =
     (if s = ''{}''
      then (case get_arg args 0 of None \<Rightarrow> Throw ''argument not found'' b | Some a \<Rightarrow> write_default strftime g a b)
      else (case parse_format_string (format_handler strftime g args) s \<lparr>next_id = 0, out = b\<rparr> of
              Fault e \<Rightarrow> Fault e | Throw m st \<Rightarrow> Throw m (out st) | Done _ st \<Rightarrow> Done () (out st)))"

text \<open>\<open>format_to\<close> with the \<open>back_inserter\<close> of a string, and \<open>format\<close>, which uses a \<open>memory_buffer\<close>.\<close>

definition format_to :: "(string \<Rightarrow> 'tm \<Rightarrow> string) \<Rightarrow> string \<Rightarrow> 'tm fmt_arg list \<Rightarrow> string \<Rightarrow> (string, unit) outcome" where
  "format_to strftime s args container =
     (case vformat_to strftime string_grow s \<lparr>arg_list = args, arg_names = []\<rparr> \<lparr>store = container, used = length container\<rparr> of
        Fault e \<Rightarrow> Fault e | Throw m b \<Rightarrow> Throw m (store b) | Done _ b \<Rightarrow> Done () (store b))"

definition format_string :: "(string \<Rightarrow> 'tm \<Rightarrow> string) \<Rightarrow> string \<Rightarrow> 'tm fmt_arg list \<Rightarrow> (unit, string) outcome" where
  "format_string strftime s args =
     (case vformat_to strftime memory_grow s \<lparr>arg_list = args, arg_names = []\<rparr> \<lparr>store = replicate 500 (CHR 0x00), used = 0\<rparr> of
        Fault e \<Rightarrow> Fault e | Throw m b \<Rightarrow> Throw m () | Done _ b \<Rightarrow> Done (take (used b) (store b)) ())"

section \<open>The check at compile time\<close>

definition checker_arg_id :: "nat \<Rightarrow> arg_id \<Rightarrow> int \<Rightarrow> (int, int) outcome" where
  "checker_arg_id num_args i n =
     (case i of
        Auto_Id \<Rightarrow> (case next_arg_id_checked num_args n of Inl m \<Rightarrow> Throw m n | Inr (i, n) \<Rightarrow> Done i n)
      | Index_Id i \<Rightarrow> (case check_arg_id_checked num_args i n of Inl m \<Rightarrow> Throw m n | Inr n \<Rightarrow> Done i n)
      | Name_Id name \<Rightarrow> Throw (''compile-time checks don'' @ [CHR 0x27] @ ''t support named arguments'') n)"

text \<open>\<open>dynamic_specs_handler\<close> only keeps a reference to the argument of a dynamic width or precision; the check does not read it again.\<close>

definition make_arg_ref :: "nat \<Rightarrow> arg_id \<Rightarrow> format_specs \<times> int \<Rightarrow> (format_specs \<times> int, unit) outcome" where
  "make_arg_ref num_args i = (\<lambda>(sp, n).
     case i of
       Auto_Id \<Rightarrow> (case next_arg_id_checked num_args n of Inl m \<Rightarrow> Throw m (sp, n) | Inr (i, n) \<Rightarrow> Done () (sp, n))
     | Index_Id i \<Rightarrow> (case check_arg_id_checked num_args i n of Inl m \<Rightarrow> Throw m (sp, n) | Inr n \<Rightarrow> Done () (sp, n))
     | Name_Id name \<Rightarrow> Done () (sp, n))"

definition dynamic_specs_handler :: "nat \<Rightarrow> (format_specs \<times> int) spec_handler" where
  "dynamic_specs_handler num_args =
     \<lparr>event = (\<lambda>e (sp, n). (specs_setter e sp, n)), on_dynamic_width = make_arg_ref num_args, on_dynamic_precision = make_arg_ref num_args\<rparr>"

text \<open>\<open>formatter::parse\<close> of the type of the argument.\<close>

definition formatter_parse :: "nat \<Rightarrow> arg_type \<Rightarrow> string \<Rightarrow> int \<Rightarrow> (int, nat) outcome" where
  "formatter_parse num_args t s n =
     (if t = custom_type then Done (snd (tm_parse s)) n
      else if s = [] then Done 0 n
      else case parse_format_specs (dynamic_specs_handler num_args) t s (default_specs, n) of
             Fault e \<Rightarrow> Fault e
           | Throw m (sp, n) \<Rightarrow> Throw m n
           | Done s' (sp, n) \<Rightarrow> (case check_type t sp of Some m \<Rightarrow> Throw m n | None \<Rightarrow> Done (length s - length s') n))"

definition format_string_checker :: "arg_type list \<Rightarrow> int handler" where
  "format_string_checker types =
     \<lparr>on_text = (\<lambda>s n. Done () n),
      on_arg_id = checker_arg_id (length types),
      on_replacement_field = (\<lambda>i n. Done () n),
      on_format_specs = (\<lambda>i s n. if 0 \<le> i \<and> i < int (length types) then formatter_parse (length types) (types ! nat i) s n else Done 0 n)\<rparr>"

definition check_format_string :: "arg_type list \<Rightarrow> string \<Rightarrow> bool" where
  "check_format_string types s \<longleftrightarrow>
     (case parse_format_string (format_string_checker types) s 0 of Done _ _ \<Rightarrow> True | _ \<Rightarrow> False)"

section \<open>A format string that was checked\<close>

text \<open>The exceptions that depend on the values of the arguments, or on the names that a width or a precision refers to.\<close>

definition runtime_errors :: "string list" where
  "runtime_errors =
     [''string pointer is null'', ''negative width'', ''width is not integer'', ''negative precision'', ''precision is not integer'',
      ''number is too big'', ''argument not found'']"

text \<open>\<open>c\<close> is what the buffer had at the start, \<open>ok\<close> the condition on buffers between two writes.\<close>

definition out_rel :: "(fbuf \<Rightarrow> bool) \<Rightarrow> string \<Rightarrow> int \<Rightarrow> fstate \<Rightarrow> bool" where
  "out_rel ok c n st \<longleftrightarrow> n = next_id st \<and> ok (out st) \<and> (\<exists>txt. content (out st) = c @ txt)"

definition specs_rel :: "(fbuf \<Rightarrow> bool) \<Rightarrow> string \<Rightarrow> format_specs \<times> int \<Rightarrow> format_specs \<times> fstate \<Rightarrow> bool" where
  "specs_rel ok c = (\<lambda>(sp, n) (sp', st).
     out_rel ok c n st \<and> specs_ok sp' \<and> sp'\<lparr>width := 0, precision := 0\<rparr> = sp\<lparr>width := 0, precision := 0\<rparr>)"

definition out_error :: "(fbuf \<Rightarrow> bool) \<Rightarrow> string \<Rightarrow> string \<Rightarrow> fstate \<Rightarrow> bool" where
  "out_error ok c m st \<longleftrightarrow> m \<in> set runtime_errors \<and> out_rel ok c (next_id st) st"

lemma out_rel_next [simp]: "out_rel ok c n (st\<lparr>next_id := n'\<rparr>) \<longleftrightarrow> n = n' \<and> out_rel ok c (next_id st) st"
  by (auto simp: out_rel_def)

lemma next_arg_id_checked_sim:
  "sim R E (case next_arg_id_checked k n of Inl m \<Rightarrow> Throw m s | Inr (i, n') \<Rightarrow> f i n')
     (case next_arg_id n of Inl m \<Rightarrow> Throw m t | Inr (i, n') \<Rightarrow> h i n')"
  if "\<And>i n'. 0 \<le> i \<Longrightarrow> i < int k \<Longrightarrow> sim R E (f i n') (h i n')"
  using that by (auto simp: next_arg_id_checked_def next_arg_id_def intro!: sim_intros)

lemma check_arg_id_checked_sim:
  "sim R E (case check_arg_id_checked k i n of Inl m \<Rightarrow> Throw m s | Inr n' \<Rightarrow> f n')
     (case check_arg_id n of Inl m \<Rightarrow> Throw m t | Inr n' \<Rightarrow> h n')"
  if "\<And>n'. i < int k \<Longrightarrow> sim R E (f n') (h n')"
  using that by (auto simp: check_arg_id_checked_def check_arg_id_def intro!: sim_intros)

lemma get_dynamic_spec_cases:
  assumes "what \<in> {''width'', ''precision''}"
  shows "case get_dynamic_spec what a of Inl m \<Rightarrow> m \<in> set runtime_errors | Inr v \<Rightarrow> 0 \<le> v \<and> v < 2 ^ 31"
proof -
  have "dynamic_value what a = Inl m \<Longrightarrow> m \<in> set runtime_errors" for m
    using assms by (cases "(what, a)" rule: dynamic_value.cases) (auto simp: runtime_errors_def split: if_splits)
  then show ?thesis by (auto simp: get_dynamic_spec_def runtime_errors_def word_less_def split: sum.split)
qed
lemma specs_rel_event:
  assumes "specs_rel ok c (sp, n) (sp', st)" and "event_ok e"
  shows "specs_rel ok c (specs_setter e sp, n) (specs_setter e sp', st)"
  using assms by (cases e; cases sp; cases sp') (auto simp: specs_rel_def specs_ok_def)

lemma specs_rel_next [simp]: "specs_rel ok c (sp, n) (sp', st\<lparr>next_id := n'\<rparr>) \<longleftrightarrow> n = n' \<and> specs_rel ok c (sp, next_id st) (sp', st)"
  by (auto simp: specs_rel_def)

lemma specs_rel_set:
  "specs_rel ok c (sp, n) (sp', st) \<Longrightarrow> 0 \<le> v \<Longrightarrow> v < 2 ^ 31 \<Longrightarrow> ev = On_Width \<or> ev = On_Precision \<Longrightarrow>
     specs_rel ok c (sp, n) (specs_setter (ev v) sp', st)"
  by (cases sp; cases sp') (auto simp: specs_rel_def specs_ok_def)

text \<open>Looking up the argument of a dynamic width or precision and taking its value.\<close>

definition dynamic_set :: "'tm format_args \<Rightarrow> string \<Rightarrow> (int \<Rightarrow> spec_event) \<Rightarrow> int \<Rightarrow> format_specs \<times> fstate \<Rightarrow> (format_specs \<times> fstate, unit) outcome" where
  "dynamic_set args what ev j = (\<lambda>(sp, st).
     case get_arg args j of
       None \<Rightarrow> Throw ''argument not found'' (sp, st)
     | Some a \<Rightarrow> (case get_dynamic_spec what a of Inl m \<Rightarrow> Throw m (sp, st) | Inr v \<Rightarrow> Done () (specs_setter (ev v) sp, st)))"

lemma on_dynamic_set:
  "on_dynamic args what ev i (sp, st) =
     (case i of
        Auto_Id \<Rightarrow> (case next_arg_id (next_id st) of Inl m \<Rightarrow> Throw m (sp, st) | Inr (j, n) \<Rightarrow> dynamic_set args what ev j (sp, st\<lparr>next_id := n\<rparr>))
      | Index_Id j \<Rightarrow> (case check_arg_id (next_id st) of Inl m \<Rightarrow> Throw m (sp, st) | Inr n \<Rightarrow> dynamic_set args what ev j (sp, st\<lparr>next_id := n\<rparr>))
      | Name_Id name \<Rightarrow> dynamic_set args what ev (get_id args name) (sp, st))"
  by (auto simp: on_dynamic_def dynamic_arg_def handler_arg_id_def dynamic_set_def split: arg_id.split sum.split option.split)

lemma dynamic_set_sim:
  assumes R: "specs_rel ok c (sp, n) (sp', st)" and w: "what = ''width'' \<and> ev = On_Width \<or> what = ''precision'' \<and> ev = On_Precision"
  shows "sim (specs_rel ok c) (\<lambda>m (sp, st). out_error ok c m st) (Done () (sp, n)) (dynamic_set args what ev j (sp', st))"
proof -
  have d: "get_dynamic_spec what a = Inl m \<Longrightarrow> m \<in> set runtime_errors" "get_dynamic_spec what a = Inr v \<Longrightarrow> 0 \<le> v \<and> v < 2 ^ 31" for a m v
    using get_dynamic_spec_cases [of what a] w by auto
  have e: "out_rel ok c (next_id st) st" using R by (simp add: specs_rel_def out_rel_def)
  then have n: "out_error ok c ''argument not found'' st" by (simp add: out_error_def runtime_errors_def)
  show ?thesis
  proof (cases "get_arg args j")
    case (Some a)
    then show ?thesis using d [of a] e specs_rel_set [OF R] w
      by (cases "get_dynamic_spec what a") (auto simp: dynamic_set_def out_error_def intro!: sim_error sim_Done)
  qed (use n in \<open>auto simp: dynamic_set_def intro!: sim_error\<close>)
qed

lemma on_dynamic_sim:
  assumes R: "specs_rel ok c x y" and w: "what = ''width'' \<and> ev = On_Width \<or> what = ''precision'' \<and> ev = On_Precision"
  shows "sim (specs_rel ok c) (\<lambda>m (sp, st). out_error ok c m st) (make_arg_ref (length (arg_list args)) i x) (on_dynamic args what ev i y)"
proof -
  obtain sp n sp' st where xy: "x = (sp, n)" "y = (sp', st)" by (metis surj_pair)
  have R': "specs_rel ok c (sp, n) (sp', st)" "n = next_id st" using R xy by (auto simp: specs_rel_def out_rel_def)
  then have s: "specs_rel ok c (sp, k) (sp', st\<lparr>next_id := k\<rparr>)" for k by simp
  show ?thesis unfolding xy on_dynamic_set make_arg_ref_def prod.case R'(2)
    by (cases i) (auto intro!: next_arg_id_checked_sim check_arg_id_checked_sim dynamic_set_sim w s R'(1) [unfolded R'(2)])
qed

interpretation specs_sim: spec_sim "dynamic_specs_handler (length (arg_list args))" "specs_handler args" "specs_rel ok c" "\<lambda>m (sp, st). out_error ok c m st"
  for args ok c
  by unfold_locales (auto simp: dynamic_specs_handler_def specs_handler_def intro: specs_rel_event on_dynamic_sim)
text \<open>The check of the presentation type does not look at width and precision.\<close>

lemma check_type_rel:
  assumes "specs_rel ok c (sp, n) (sp', st)"
  shows "check_type t sp' = check_type t sp"
proof -
  have e: "sp'\<lparr>width := 0, precision := 0\<rparr> = sp\<lparr>width := 0, precision := 0\<rparr>" using assms by (simp add: specs_rel_def)
  have "type_char sp' = type_char sp" "align sp' = align sp" "sign sp' = sign sp" "alt sp' = alt sp"
    using arg_cong [OF e, of type_char] arg_cong [OF e, of align] arg_cong [OF e, of sign] arg_cong [OF e, of alt] by simp_all
  then show ?thesis by (cases t) (simp_all add: char_specs_ok_def)
qed

lemma after_specs_suffix: "suffix s' s \<Longrightarrow>
  after_specs s (length s - length s') st = (if s' = [] \<or> hd s' \<noteq> CHR ''}'' then Throw ''unknown format specifier'' st else Done (tl s') st)"
  by (auto simp: after_specs_def suffix_def)

context growable
begin

lemma on_text_wrote: "ok (out st) \<Longrightarrow> on_text (format_handler strftime g args) x st = Done () (st\<lparr>out := wrote g x (out st)\<rparr>)"
  by (simp add: format_handler_def on_out_def append_reserve ok_wf)

lemma out_rel_wrote: "out_rel ok c n st \<Longrightarrow> out_rel ok c n (st\<lparr>out := wrote g x (out st)\<rparr>)"
  using wrote_props(2) [OF ok_wf, of "out st" x] by (auto simp: out_rel_def ok_wrote)

lemma out_rel_appends:
  "out_rel ok c n st \<Longrightarrow> ok b \<Longrightarrow> content b = content (out st) @ txt \<Longrightarrow> out_rel ok c n (st\<lparr>out := b\<rparr>)"
  by (auto simp: out_rel_def)

lemma default_sim:
  assumes "out_rel ok c n st"
  shows "sim (out_rel ok c) (out_error ok c) (Done () n) (on_out (write_default strftime g a) st)"
proof -
  have o: "ok (out st)" "n = next_id st" using assms by (simp_all add: out_rel_def)
  show ?thesis using write_default_appends [OF o(1), of a strftime] assms o(2)
    by (auto simp: on_out_def out_error_def runtime_errors_def intro!: sim_error sim_Done intro: out_rel_appends split: if_splits)
qed

lemma formatter_sim:
  assumes "out_rel ok c n st" and "specs_ok sp" and "type_of a \<noteq> custom_type" and "check_type (type_of a) sp = None"
  shows "sim (out_rel ok c) (out_error ok c) (Done () n) (on_out (arg_formatter g sp a) st)"
proof -
  have o: "ok (out st)" "n = next_id st" using assms(1) by (simp_all add: out_rel_def)
  show ?thesis using arg_formatter_appends [OF o(1) assms(2,3)] assms(1,4) o(2)
    by (auto simp: on_out_def out_error_def runtime_errors_def intro!: sim_error sim_Done intro: out_rel_appends split: if_splits)
qed

text \<open>The specifiers of one field: \<open>formatter::parse\<close> at compile time and \<open>on_format_specs\<close> at run time.\<close>

lemma specs_field_sim:
  assumes R: "out_rel ok c n st" and a: "get_arg args i = Some a"
  shows "sim (out_rel ok c) (out_error ok c) (bnd (formatter_parse (length (arg_list args)) (type_of a) s n) (after_specs s))
    (bnd (handler_format_specs strftime g args i s st) (after_specs s))"
proof (cases "type_of a = custom_type")
  case True
  then obtain t where t: "a = Tm_Arg t" by (cases a) auto
  have "ok (out st)" using R by (simp add: out_rel_def)
  then have f: "out_rel ok c n (st\<lparr>out := fold (push_back g) xs (out st)\<rparr>)" for xs using fold_push_back R by (blast intro: out_rel_appends)
  obtain specs k where k: "tm_parse s = (specs, k)" by (metis surj_pair)
  show ?thesis using f by (auto simp: formatter_parse_def handler_format_specs_def a t k after_specs_def Let_def intro!: sim_intros)
next
  case False
  let ?P1 = "parse_format_specs (dynamic_specs_handler (length (arg_list args))) (type_of a) s (default_specs, n)"
  let ?P2 = "parse_format_specs (specs_handler args) (type_of a) s (default_specs, st)"
  have h: "handler_format_specs strftime g args i s st =
      (case ?P2 of Fault e \<Rightarrow> Fault e | Throw m (sp, st) \<Rightarrow> Throw m st
       | Done s' (sp, st) \<Rightarrow> if s' = [] \<or> hd s' \<noteq> CHR ''}'' then Throw missing_brace st
           else bnd (on_out (arg_formatter g sp a) st) (\<lambda>_ st. Done (length s - length s') st))"
    using False a unfolding handler_format_specs_def by (cases a; hypsubst; simp)
  have sim: "sim (specs_rel ok c) (\<lambda>m (sp, st). out_error ok c m st) ?P1 ?P2"
    by (rule specs_sim.sim_format_specs) (use R in \<open>simp add: specs_rel_def\<close>)
  show ?thesis
  proof (cases "s = []")
    case True
    then show ?thesis using False by (simp add: formatter_parse_def after_specs_def sim_Throw)
  next
    case s: False
    show ?thesis
    proof (cases ?P1)
      case (Done s' x)
      obtain sp m where x: "x = (sp, m)" by (metis surj_pair)
      show ?thesis
      proof (cases "check_type (type_of a) sp = None \<and> s' \<noteq> [] \<and> hd s' = CHR ''}''")
        case True
        have f1: "bnd (formatter_parse (length (arg_list args)) (type_of a) s n) (after_specs s) = bnd (Done () m) (\<lambda>_ st. Done (tl s') st)"
          using True False s Done x parse_format_specs_suffix [OF Done] by (simp add: formatter_parse_def after_specs_suffix)
        consider sp' st' where "?P2 = Done s' (sp', st')" "specs_rel ok c (sp, m) (sp', st')"
          | e sp' st' where "?P2 = Throw e (sp', st')" "out_error ok c e st'" using sim Done x by (force simp: sim_def)
        then show ?thesis
        proof cases
          case 1
          then have f2: "bnd (handler_format_specs strftime g args i s st) (after_specs s) =
              bnd (on_out (arg_formatter g sp' a) st') (\<lambda>_ st. Done (tl s') st)"
            using True parse_format_specs_suffix [OF 1(1)] by (simp add: h bnd_assoc after_specs_suffix)
          have "sim (out_rel ok c) (out_error ok c) (Done () m) (on_out (arg_formatter g sp' a) st')"
            using 1(2) True False check_type_rel [OF 1(2)] by (intro formatter_sim) (simp_all add: specs_rel_def)
          then show ?thesis unfolding f1 f2 by (rule sim_bnd) (rule sim_Done)
        qed (simp add: h sim_error)
      next
        case F: False
        then show ?thesis using False s Done x parse_format_specs_suffix [OF Done]
          by (cases "check_type (type_of a) sp") (auto simp: formatter_parse_def after_specs_suffix intro: sim_intros)
      qed
    qed (use False s in \<open>auto simp: formatter_parse_def intro: sim_intros\<close>)
  qed
qed

lemma arg_id_sim:
  assumes "out_rel ok c n st"
  shows "sim (out_rel ok c) (out_error ok c) (checker_arg_id k i n) (handler_arg_id args i st)"
proof -
  have n: "n = next_id st" and o: "out_rel ok c (next_id st) st" using assms by (simp_all add: out_rel_def)
  show ?thesis unfolding checker_arg_id_def handler_arg_id_def n
    by (cases i) (auto intro!: next_arg_id_checked_sim check_arg_id_checked_sim sim_intros simp: o)
qed

lemma checked_handler_sim:
  "handler_sim (format_string_checker (map type_of (arg_list args))) (format_handler strftime g args) (out_rel ok c) (out_error ok c)
     (\<lambda>i. 0 \<le> i \<and> i < int (length (arg_list args)))"
proof unfold_locales
  let ?P = "\<lambda>i. 0 \<le> i \<and> i < int (length (arg_list args))"
  fix n st x i k
  assume R: "out_rel ok c n st"
  show "sim (out_rel ok c) (out_error ok c) (on_text (format_string_checker (map type_of (arg_list args))) x n) (on_text (format_handler strftime g args) x st)"
    using R on_text_wrote [of st strftime args x] out_rel_wrote [OF R, of x] by (simp add: format_string_checker_def out_rel_def sim_Done)
  show "sim (out_rel ok c) (out_error ok c) (on_arg_id (format_string_checker (map type_of (arg_list args))) i n) (on_arg_id (format_handler strftime g args) i st)"
    using arg_id_sim [OF R] by (simp add: format_string_checker_def format_handler_def)
  assume P: "?P k"
  then obtain a where a: "get_arg args k = Some a" "map type_of (arg_list args) ! nat k = type_of a" by (simp add: get_arg_def nat_less_iff)
  show "sim (out_rel ok c) (out_error ok c) (on_replacement_field (format_string_checker (map type_of (arg_list args))) k n)
      (on_replacement_field (format_handler strftime g args) k st)"
    using default_sim [OF R] a by (simp add: format_string_checker_def format_handler_def handler_replacement_field_def)
  show "sim (out_rel ok c) (out_error ok c) (bnd (on_format_specs (format_string_checker (map type_of (arg_list args))) k x n) (after_specs x))
      (bnd (on_format_specs (format_handler strftime g args) k x st) (after_specs x))"
    using specs_field_sim [OF R a(1)] a(2) P by (simp add: format_string_checker_def format_handler_def)
next
  fix i n k n'
  assume "id_ok i" and "on_arg_id (format_string_checker (map type_of (arg_list args))) i n = Done k n'"
  then show "0 \<le> k \<and> k < int (length (arg_list args))"
    by (cases i) (auto simp: format_string_checker_def checker_arg_id_def next_arg_id_checked_def next_arg_id_def
        check_arg_id_checked_def check_arg_id_def split: if_splits sum.splits)
qed

end

interpretation checked_string: handler_sim "format_string_checker (map type_of (arg_list args))" "format_handler strftime string_grow args"
  "out_rel (\<lambda>b. used b = length (store b)) c" "out_error (\<lambda>b. used b = length (store b)) c" "\<lambda>i. 0 \<le> i \<and> i < int (length (arg_list args))"
  for args strftime c
  by (rule string_buf.checked_handler_sim)

interpretation checked_memory: handler_sim "format_string_checker (map type_of (arg_list args))" "format_handler strftime memory_grow args"
  "out_rel wf_buf c" "out_error wf_buf c" "\<lambda>i. 0 \<le> i \<and> i < int (length (arg_list args))"
  for args strftime c
  by (rule memory_buf.checked_handler_sim)

section \<open>The kind of buffer does not matter\<close>

definition no_error :: "string \<Rightarrow> 's \<Rightarrow> bool" where
  "no_error m s \<longleftrightarrow> False"

definition same_specs :: "fbuf \<Rightarrow> fbuf \<Rightarrow> format_specs \<times> fstate \<Rightarrow> format_specs \<times> fstate \<Rightarrow> bool" where
  "same_specs b1 b2 = (\<lambda>(sp, st) (sp', st').
     sp' = sp \<and> specs_ok sp \<and> next_id st' = next_id st \<and> out st = b1 \<and> out st' = b2)"

lemma dynamic_set_same:
  assumes "same_specs b1 b2 x y" and w: "what = ''width'' \<and> ev = On_Width \<or> what = ''precision'' \<and> ev = On_Precision"
  shows "sim (same_specs b1 b2) no_error (dynamic_set args what ev j x) (dynamic_set args what ev j y)"
proof -
  obtain sp st st' where xy: "x = (sp, st)" "y = (sp, st')" using assms(1) by (auto simp: same_specs_def)
  show ?thesis
  proof (cases "get_arg args j")
    case (Some a)
    then show ?thesis using assms get_dynamic_spec_cases [of what a]
      by (cases "get_dynamic_spec what a") (auto simp: xy dynamic_set_def same_specs_def specs_ok_def intro!: sim_intros)
  qed (simp add: xy dynamic_set_def sim_Throw)
qed

lemma on_dynamic_same:
  assumes "same_specs b1 b2 x y" and w: "what = ''width'' \<and> ev = On_Width \<or> what = ''precision'' \<and> ev = On_Precision"
  shows "sim (same_specs b1 b2) no_error (on_dynamic args what ev i x) (on_dynamic args what ev i y)"
proof -
  obtain sp st st' where xy: "x = (sp, st)" "y = (sp, st')" "next_id st' = next_id st" using assms(1) by (auto simp: same_specs_def)
  have s: "same_specs b1 b2 (sp, st\<lparr>next_id := k\<rparr>) (sp, st'\<lparr>next_id := k\<rparr>)" "same_specs b1 b2 (sp, st) (sp, st')" for k
    using assms(1) by (simp_all add: same_specs_def xy)
  show ?thesis unfolding xy on_dynamic_set
    by (cases i) (auto split: sum.split intro!: sim_intros dynamic_set_same w s)
qed

interpretation same_specs: spec_sim "specs_handler args" "specs_handler args" "same_specs b1 b2" no_error
  for args :: "'tm format_args" and b1 b2
proof unfold_locales
  show "same_specs b1 b2 s t \<Longrightarrow> event_ok e \<Longrightarrow> same_specs b1 b2 (event (specs_handler args) e s) (event (specs_handler args) e t)" for s t e
    by (cases e) (auto simp: same_specs_def specs_handler_def specs_ok_def)
qed (simp_all add: specs_handler_def on_dynamic_same)

text \<open>\<open>c1\<close> and \<open>c2\<close> are what the buffers had at the start.\<close>

definition same_text :: "(fbuf \<Rightarrow> bool) \<Rightarrow> (fbuf \<Rightarrow> bool) \<Rightarrow> string \<Rightarrow> string \<Rightarrow> fstate \<Rightarrow> fstate \<Rightarrow> bool" where
  "same_text ok1 ok2 c1 c2 st st' \<longleftrightarrow>
     next_id st' = next_id st \<and> ok1 (out st) \<and> ok2 (out st') \<and> (\<exists>txt. content (out st) = c1 @ txt \<and> content (out st') = c2 @ txt)"

lemma same_text_appends:
  "same_text ok1 ok2 c1 c2 st st' \<Longrightarrow> ok1 b1 \<Longrightarrow> ok2 b2 \<Longrightarrow> content b1 = content (out st) @ txt \<Longrightarrow> content b2 = content (out st') @ txt \<Longrightarrow>
     same_text ok1 ok2 c1 c2 (st\<lparr>out := b1\<rparr>) (st'\<lparr>out := b2\<rparr>)"
  by (auto simp: same_text_def)

lemma same_text_next:
  "same_text ok1 ok2 c1 c2 st st' \<Longrightarrow> same_text ok1 ok2 c1 c2 (st\<lparr>next_id := n\<rparr>) (st'\<lparr>next_id := n\<rparr>)"
  by (simp add: same_text_def)

lemma on_out_same:
  assumes "same_text ok1 ok2 c1 c2 st st'"
    and "f1 (out st) = Throw m b \<or> (\<exists>b1 b2. f1 (out st) = Done () b1 \<and> f2 (out st') = Done () b2 \<and> ok1 b1 \<and> ok2 b2 \<and>
      content b1 = content (out st) @ x \<and> content b2 = content (out st') @ x)"
  shows "sim (same_text ok1 ok2 c1 c2) no_error (on_out f1 st) (on_out f2 st')"
  using assms(2) by (auto simp: on_out_def intro!: sim_intros same_text_appends [OF assms(1)])

locale two_buffers = one: growable g1 ok1 + two: growable g2 ok2 for g1 ok1 g2 ok2
begin

lemma default_same:
  assumes "same_text ok1 ok2 c1 c2 st st'"
  shows "sim (same_text ok1 ok2 c1 c2) no_error (on_out (write_default strftime g1 a) st) (on_out (write_default strftime g2 a) st')"
proof -
  have o: "ok1 (out st)" "ok2 (out st')" using assms by (simp_all add: same_text_def)
  show ?thesis
    by (rule on_out_same [where m = "''string pointer is null''" and b = "out st" and x = "default_text strftime a", OF assms])
      (use one.write_default_appends [OF o(1), of a strftime] two.write_default_appends [OF o(2), of a strftime] in \<open>auto split: if_splits\<close>)
qed

lemma formatter_same:
  assumes "same_text ok1 ok2 c1 c2 st st'" and "specs_ok sp" and "type_of a \<noteq> custom_type"
  shows "sim (same_text ok1 ok2 c1 c2) no_error (on_out (arg_formatter g1 sp a) st) (on_out (arg_formatter g2 sp a) st')"
proof -
  have o: "ok1 (out st)" "ok2 (out st')" using assms by (simp_all add: same_text_def)
  define m where "m = (case check_type (type_of a) sp of Some m \<Rightarrow> m | None \<Rightarrow> ''string pointer is null'')"
  show ?thesis
    by (rule on_out_same [where m = m and b = "out st" and x = "arg_text sp a", OF assms(1)])
      (use one.arg_formatter_appends [OF o(1) assms(2,3)] two.arg_formatter_appends [OF o(2) assms(2,3)] in
        \<open>auto simp: m_def split: option.splits if_splits\<close>)
qed

end

lemma handler_format_specs_builtin:
  assumes "get_arg args i = Some a" and "type_of a \<noteq> custom_type"
  shows "handler_format_specs strftime g args i s st =
    (case parse_format_specs (specs_handler args) (type_of a) s (default_specs, st) of
       Fault e \<Rightarrow> Fault e | Throw m (sp, st) \<Rightarrow> Throw m st
     | Done s' (sp, st) \<Rightarrow> if s' = [] \<or> hd s' \<noteq> CHR ''}'' then Throw missing_brace st
         else bnd (on_out (arg_formatter g sp a) st) (\<lambda>_ st. Done (length s - length s') st))"
  using assms unfolding handler_format_specs_def by (cases a; hypsubst; simp)

context two_buffers
begin

lemma specs_same:
  assumes "same_text ok1 ok2 c1 c2 st st'"
  shows "sim (same_text ok1 ok2 c1 c2) no_error (handler_format_specs strftime g1 args i s st) (handler_format_specs strftime g2 args i s st')"
proof (cases "get_arg args i")
  case (Some a)
  have o: "ok1 (out st)" "ok2 (out st')" "next_id st' = next_id st" using assms by (simp_all add: same_text_def)
  show ?thesis
  proof (cases "type_of a = custom_type")
    case True
    then obtain t where t: "a = Tm_Arg t" by (cases a) auto
    have "same_text ok1 ok2 c1 c2 (st\<lparr>out := fold (push_back g1) x (out st)\<rparr>) (st'\<lparr>out := fold (push_back g2) x (out st')\<rparr>)" for x
      using one.fold_push_back [OF o(1), of x] two.fold_push_back [OF o(2), of x] by (intro same_text_appends [OF assms]) simp_all
    then show ?thesis by (auto simp: handler_format_specs_def Some t Let_def intro!: sim_intros split: prod.split)
  next
    case False
    let ?P = "\<lambda>st. parse_format_specs (specs_handler args) (type_of a) s (default_specs, st)"
    have "same_specs (out st) (out st') (default_specs, st) (default_specs, st')" using o by (simp add: same_specs_def)
    then have p: "sim (same_specs (out st) (out st')) no_error (?P st) (?P st')" by (rule same_specs.sim_format_specs)
    show ?thesis
    proof (cases "?P st")
      case (Done s' x)
      then obtain sp t t' where x: "x = (sp, t)" "?P st' = Done s' (sp, t')" "specs_ok sp"
        and "next_id t' = next_id t" "out t = out st" "out t' = out st'"
        using p by (cases x) (auto simp: sim_def same_specs_def no_error_def)
      then have st: "same_text ok1 ok2 c1 c2 t t'" using assms by (simp add: same_text_def)
      have "sim (same_text ok1 ok2 c1 c2) no_error (bnd (on_out (arg_formatter g1 sp a) t) (\<lambda>_ st. Done k st))
          (bnd (on_out (arg_formatter g2 sp a) t') (\<lambda>_ st. Done k st))" for k
        by (rule sim_bnd [OF formatter_same [OF st x(3) False]]) (auto intro: sim_intros)
      then show ?thesis using Done x by (auto simp: handler_format_specs_builtin [OF Some False] intro: sim_intros)
    qed (auto simp: handler_format_specs_builtin [OF Some False] intro: sim_intros split: prod.split)
  qed
qed (simp add: handler_format_specs_def sim_Throw)

lemma text_same:
  assumes "same_text ok1 ok2 c1 c2 st st'"
  shows "sim (same_text ok1 ok2 c1 c2) no_error (on_text (format_handler strftime g1 args) x st) (on_text (format_handler strftime g2 args) x st')"
proof -
  have o: "ok1 (out st)" "ok2 (out st')" using assms by (simp_all add: same_text_def)
  have "same_text ok1 ok2 c1 c2 (st\<lparr>out := wrote g1 x (out st)\<rparr>) (st'\<lparr>out := wrote g2 x (out st')\<rparr>)"
    using one.ok_wrote [OF o(1)] two.ok_wrote [OF o(2)] one.wrote_props(2) [OF one.ok_wf [OF o(1)]] two.wrote_props(2) [OF two.ok_wf [OF o(2)]]
    by (intro same_text_appends [OF assms]) simp_all
  then show ?thesis
    unfolding one.on_text_wrote [of st strftime args x, OF o(1)] two.on_text_wrote [of st' strftime args x, OF o(2)] by (rule sim_Done)
qed

lemma arg_id_same:
  assumes "same_text ok1 ok2 c1 c2 st st'"
  shows "sim (same_text ok1 ok2 c1 c2) no_error (handler_arg_id args i st) (handler_arg_id args i st')"
proof -
  have "next_id st' = next_id st" using assms by (simp add: same_text_def)
  then show ?thesis using assms
    by (cases i) (auto simp: handler_arg_id_def intro!: sim_intros same_text_next split: sum.split)
qed

lemma field_same:
  assumes "same_text ok1 ok2 c1 c2 st st'"
  shows "sim (same_text ok1 ok2 c1 c2) no_error (handler_replacement_field strftime g1 args n st) (handler_replacement_field strftime g2 args n st')"
  using default_same [OF assms] by (cases "get_arg args n") (simp_all add: handler_replacement_field_def sim_Throw)

lemma same_handler_sim:
  "handler_sim (format_handler strftime g1 args) (format_handler strftime g2 args) (same_text ok1 ok2 c1 c2) no_error (\<lambda>_. True)"
proof unfold_locales
  show "sim (same_text ok1 ok2 c1 c2) no_error (bnd (on_format_specs (format_handler strftime g1 args) n x s) (after_specs x))
      (bnd (on_format_specs (format_handler strftime g2 args) n x t) (after_specs x))" if "same_text ok1 ok2 c1 c2 s t" for s t n x
    using specs_same [OF that] by (auto simp: format_handler_def after_specs_def Let_def intro!: sim_bnd sim_intros)
qed (use text_same in \<open>auto simp: arg_id_same field_same format_handler_def\<close>)

end

text \<open>A buffer beside itself: the condition on buffers is an invariant of formatting, and an empty text changes nothing.\<close>

context growable
begin

lemma two_buffers_self: "two_buffers g ok g ok"
  by (intro two_buffers.intro growable_axioms)

lemma sim_inv: "sim (same_text ok ok c c) no_error m m \<Longrightarrow> m = Done a st' \<Longrightarrow> ok (out st')"
  by (auto simp: sim_def no_error_def same_text_def)

lemma same_self: "ok (out st) \<Longrightarrow> same_text ok ok (content (out st)) (content (out st)) st st"
  by (simp add: same_text_def)

lemma wrote_Nil: "ok b \<Longrightarrow> wrote g [] b = b"
  using ok_wf [of b] by (simp add: wrote_def wf_buf_def reserve_idle)

lemma handler_text: "text_handler (format_handler strftime g args) (\<lambda>st. ok (out st))"
proof unfold_locales
  fix st :: fstate
  assume o: "ok (out st)"
  note self = two_buffers_self same_self [OF o]
  show "on_text (format_handler strftime g args) [] st = Done () st" using o by (simp add: on_text_wrote wrote_Nil)
  show "on_text (format_handler strftime g args) x st = Done () st' \<Longrightarrow> ok (out st')" for x st'
    by (rule sim_inv [OF two_buffers.text_same [OF self]])
  show "on_arg_id (format_handler strftime g args) i st = Done n st' \<Longrightarrow> ok (out st')" for i n st'
    by (rule sim_inv [OF two_buffers.arg_id_same [OF self]]) (simp add: format_handler_def)
  show "on_replacement_field (format_handler strftime g args) n st = Done () st' \<Longrightarrow> ok (out st')" for n st'
    by (rule sim_inv [OF two_buffers.field_same [OF self]]) (simp add: format_handler_def)
  show "on_format_specs (format_handler strftime g args) n x st = Done k st' \<Longrightarrow> ok (out st')" for n x k st'
    by (rule sim_inv [OF two_buffers.specs_same [OF self]]) (simp add: format_handler_def)
qed

text \<open>The short cut of \<open>vformat_to\<close> has the result of parsing.\<close>

lemma vformat_to_parse:
  assumes "ok b"
  shows "vformat_to strftime g s args b =
    (case parse_format_string (format_handler strftime g args) s \<lparr>next_id = 0, out = b\<rparr> of
       Fault e \<Rightarrow> Fault e | Throw m st \<Rightarrow> Throw m (out st) | Done _ st \<Rightarrow> Done () (out st))"
proof (cases "s = ''{}''")
  case True
  let ?H = "format_handler strftime g args" and ?st = "\<lparr>next_id = 0, out = b\<rparr>"
  have t: "ok (out st) \<Longrightarrow> on_text ?H [] st = Done () st" for st by (simp add: on_text_wrote wrote_Nil)
  have i: "on_arg_id ?H Auto_Id ?st = Done 0 \<lparr>next_id = 1, out = b\<rparr>"
    by (simp add: format_handler_def handler_arg_id_def next_arg_id_def)
  have f: "on_replacement_field ?H 0 \<lparr>next_id = 1, out = b\<rparr> =
      (case get_arg args 0 of None \<Rightarrow> Throw ''argument not found'' \<lparr>next_id = 1, out = b\<rparr> | Some a \<Rightarrow> on_out (write_default strftime g a) \<lparr>next_id = 1, out = b\<rparr>)"
    by (simp add: format_handler_def handler_replacement_field_def)
  have "parse_format_string ?H s ?st = bnd (parse_replacement_field ?H ''{}'' ?st) (\<lambda>s st. short_loop ?H [] s st)"
    using True t assms by (simp add: parse_format_string_def short_loop.simps [of _ _ "''{}''"])
  also have "\<dots> = bnd (on_replacement_field ?H 0 \<lparr>next_id = 1, out = b\<rparr>) (\<lambda>_ st. short_loop ?H [] [] st)"
    by (simp add: parse_replacement_field_def i bnd_assoc)
  finally have p: "parse_format_string ?H s ?st = bnd (on_replacement_field ?H 0 \<lparr>next_id = 1, out = b\<rparr>) (\<lambda>_ st. short_loop ?H [] [] st)" .
  show ?thesis
  proof (cases "get_arg args 0")
    case None
    then show ?thesis using True p f by (simp add: vformat_to_def)
  next
    case (Some a)
    show ?thesis
    proof (cases "write_default strftime g a b")
      case (Done u b')
      then have "ok b'" using write_default_appends [OF assms, of a strftime] by (auto split: if_splits)
      then show ?thesis using True p f Some Done t by (simp add: vformat_to_def on_out_def short_loop.simps)
    qed (use True p f Some in \<open>simp_all add: vformat_to_def on_out_def\<close>)
  qed
qed (simp add: vformat_to_def)

end

interpretation string_text: text_handler "format_handler strftime string_grow args" "\<lambda>st. used (out st) = length (store (out st))"
  for strftime args
  by (rule string_buf.handler_text)

interpretation memory_text: text_handler "format_handler strftime memory_grow args" "\<lambda>st. wf_buf (out st)"
  for strftime args
  by (rule memory_buf.handler_text)

interpretation checker_text: text_handler "format_string_checker types" "\<lambda>_. True" for types
  by unfold_locales (simp_all add: format_string_checker_def)

interpretation string_memory: two_buffers string_grow "\<lambda>b. used b = length (store b)" memory_grow wf_buf
  by (intro two_buffers.intro string_buf.growable_axioms memory_buf.growable_axioms)

interpretation memory_string: two_buffers memory_grow wf_buf string_grow "\<lambda>b. used b = length (store b)"
  by (intro two_buffers.intro string_buf.growable_axioms memory_buf.growable_axioms)

end
