(* ===== verification/Fmt_Args.thy ===== *)
theory Fmt_Args
  imports Fmt_Format
begin

text \<open>
  How a call passes its arguments (\<open>format_arg_store\<close> and \<open>basic_format_args\<close> of \<open>logger/fmt/core.h\<close>): as an array of untagged unions and a
  64-bit descriptor with 4 bits of type for every argument if there are at most 15, as an array of tagged unions otherwise, and in both
  cases with an element in front that leads to the names if there are any. The theory shows that this represents the list
  of arguments and the table of names that \<open>Fmt_Format\<close> works on.
\<close>

unbundle bit_operations_syntax

section \<open>Values\<close>

text \<open>
  The union \<open>detail::value\<close>, with the member that was set. For a C string \<open>string.data\<close> is set and \<open>string.size\<close> is not. \<open>Named_Args_Value\<close> is the
  member \<open>named_args\<close>, with the array it points to.
\<close>

type_synonym named_arg_info = "string \<times> int"

datatype 'tm arg_value =
    Int_Value u32
  | UInt_Value u32
  | Long_Long_Value u64
  | ULong_Long_Value u64
  | Int128_Value "128 word"
  | UInt128_Value "128 word"
  | Bool_Value bool
  | Char_Value char
  | String_Data_Value u64 string
  | String_Value string
  | Pointer_Value u64
  | Custom_Value 'tm
  | Named_Args_Value "named_arg_info list"

text \<open>The constructors of \<open>value\<close>, chosen by the type of the argument.\<close>

fun make_value :: "'tm fmt_arg \<Rightarrow> 'tm arg_value" where
  "make_value (Int_Arg v) = Int_Value v"
| "make_value (UInt_Arg v) = UInt_Value v"
| "make_value (LongLong_Arg v) = Long_Long_Value v"
| "make_value (ULongLong_Arg v) = ULong_Long_Value v"
| "make_value (Int128_Arg v) = Int128_Value v"
| "make_value (UInt128_Arg v) = UInt128_Value v"
| "make_value (Bool_Arg v) = Bool_Value v"
| "make_value (Char_Arg c) = Char_Value c"
| "make_value (CString_Arg p s) = String_Data_Value p s"
| "make_value (String_Arg s) = String_Value s"
| "make_value (Pointer_Arg p) = Pointer_Value p"
| "make_value (Tm_Arg t) = Custom_Value t"

record 'tm basic_format_arg =
  arg_tag :: arg_type
  arg_held :: "'tm arg_value"

text \<open>The default constructors: \<open>none_type\<close> and the value 0.\<close>

definition no_arg :: "'tm basic_format_arg" where
  "no_arg = \<lparr>arg_tag = none_type, arg_held = Int_Value 0\<rparr>"

text \<open>What \<open>visit_format_arg\<close> hands to its visitor, \<open>None\<close> for \<open>monostate\<close>. To read a member of the union that is not set is a fault; the floating-point
  members are not modelled.\<close>

definition visit_format_arg :: "'tm basic_format_arg \<Rightarrow> fault + 'tm fmt_arg option" where
  "visit_format_arg arg =
     (case arg_tag arg of
        none_type \<Rightarrow> Inr None
      | int_type \<Rightarrow> (case arg_held arg of Int_Value x \<Rightarrow> Inr (Some (Int_Arg x)) | _ \<Rightarrow> Inl Uninitialised)
      | uint_type \<Rightarrow> (case arg_held arg of UInt_Value x \<Rightarrow> Inr (Some (UInt_Arg x)) | _ \<Rightarrow> Inl Uninitialised)
      | long_long_type \<Rightarrow> (case arg_held arg of Long_Long_Value x \<Rightarrow> Inr (Some (LongLong_Arg x)) | _ \<Rightarrow> Inl Uninitialised)
      | ulong_long_type \<Rightarrow> (case arg_held arg of ULong_Long_Value x \<Rightarrow> Inr (Some (ULongLong_Arg x)) | _ \<Rightarrow> Inl Uninitialised)
      | int128_type \<Rightarrow> (case arg_held arg of Int128_Value x \<Rightarrow> Inr (Some (Int128_Arg x)) | _ \<Rightarrow> Inl Uninitialised)
      | uint128_type \<Rightarrow> (case arg_held arg of UInt128_Value x \<Rightarrow> Inr (Some (UInt128_Arg x)) | _ \<Rightarrow> Inl Uninitialised)
      | bool_type \<Rightarrow> (case arg_held arg of Bool_Value x \<Rightarrow> Inr (Some (Bool_Arg x)) | _ \<Rightarrow> Inl Uninitialised)
      | char_type \<Rightarrow> (case arg_held arg of Char_Value x \<Rightarrow> Inr (Some (Char_Arg x)) | _ \<Rightarrow> Inl Uninitialised)
      | cstring_type \<Rightarrow> (case arg_held arg of String_Data_Value p x \<Rightarrow> Inr (Some (CString_Arg p x)) | _ \<Rightarrow> Inl Uninitialised)
      | string_type \<Rightarrow> (case arg_held arg of String_Value x \<Rightarrow> Inr (Some (String_Arg x)) | _ \<Rightarrow> Inl Uninitialised)
      | pointer_type \<Rightarrow> (case arg_held arg of Pointer_Value x \<Rightarrow> Inr (Some (Pointer_Arg x)) | _ \<Rightarrow> Inl Uninitialised)
      | custom_type \<Rightarrow> (case arg_held arg of Custom_Value x \<Rightarrow> Inr (Some (Tm_Arg x)) | _ \<Rightarrow> Inl Uninitialised)
      | _ \<Rightarrow> Inl Uninitialised)"

section \<open>The descriptor\<close>

definition packed_arg_bits :: nat where "packed_arg_bits = 4"
definition max_packed_args :: nat where "max_packed_args = 62 div packed_arg_bits"
definition is_unpacked_bit :: u64 where "is_unpacked_bit = push_bit 63 1"
definition has_named_args_bit :: u64 where "has_named_args_bit = push_bit 62 1"

text \<open>The enumeration \<open>detail::type\<close> as numbers and back.\<close>

definition types :: "arg_type list" where
  "types = [none_type, int_type, uint_type, long_long_type, ulong_long_type, int128_type, uint128_type, bool_type, char_type,
            float_type, double_type, long_double_type, cstring_type, string_type, pointer_type, custom_type]"

fun type_code :: "arg_type \<Rightarrow> u64" where
  "type_code none_type = 0"
| "type_code int_type = 1"
| "type_code uint_type = 2"
| "type_code long_long_type = 3"
| "type_code ulong_long_type = 4"
| "type_code int128_type = 5"
| "type_code uint128_type = 6"
| "type_code bool_type = 7"
| "type_code char_type = 8"
| "type_code float_type = 9"
| "type_code double_type = 10"
| "type_code long_double_type = 11"
| "type_code cstring_type = 12"
| "type_code string_type = 13"
| "type_code pointer_type = 14"
| "type_code custom_type = 15"

fun encode_types :: "arg_type list \<Rightarrow> u64" where
  "encode_types [] = 0"
| "encode_types (t # ts) = type_code t OR push_bit packed_arg_bits (encode_types ts)"

section \<open>The store of a call\<close>

text \<open>An argument of a call, with its name if it is a \<open>named_arg\<close>.\<close>

type_synonym 'tm call_arg = "string option \<times> 'tm fmt_arg"

fun count_named_args :: "'tm call_arg list \<Rightarrow> nat" where
  "count_named_args [] = 0"
| "count_named_args ((name, a) # call) = (if name \<noteq> None then 1 else 0) + count_named_args call"

text \<open>The writes go through an index into the array \<open>named_args\<close>; one past its end is a fault.\<close>

fun init_named_args :: "named_arg_info list \<Rightarrow> int \<Rightarrow> nat \<Rightarrow> 'tm call_arg list \<Rightarrow> fault + named_arg_info list" where
  "init_named_args named_args arg_count named_arg_count [] = Inr named_args"
| "init_named_args named_args arg_count named_arg_count ((None, a) # call) = init_named_args named_args (arg_count + 1) named_arg_count call"
| "init_named_args named_args arg_count named_arg_count ((Some name, a) # call) =
     (if named_arg_count < length named_args
      then init_named_args (named_args[named_arg_count := (name, arg_count)]) (arg_count + 1) (named_arg_count + 1) call
      else Inl Out_Of_Bounds)"

text \<open>
  The array \<open>args_\<close> of \<open>arg_data\<close>, packed or not, and the position in it that \<open>args()\<close> points to. The element in front has no type of its own:
  its constructor leaves \<open>type_\<close> uninitialised, and nothing reads it.
\<close>

datatype 'tm arg_array = Values "'tm arg_value list" | Args "'tm basic_format_arg list"

record 'tm basic_format_args =
  desc :: u64
  array :: "'tm arg_array"
  first :: nat

definition make_arg :: "'tm call_arg \<Rightarrow> 'tm basic_format_arg" where
  "make_arg c = \<lparr>arg_tag = type_of (snd c), arg_held = make_value (snd c)\<rparr>"

definition store_desc :: "'tm call_arg list \<Rightarrow> u64" where
  "store_desc call =
     (if length call \<le> max_packed_args then encode_types (map (type_of \<circ> snd) call) else is_unpacked_bit OR of_nat (length call)) OR
     (if count_named_args call \<noteq> 0 then has_named_args_bit else 0)"

definition make_format_args :: "'tm call_arg list \<Rightarrow> fault + 'tm basic_format_args" where
  "make_format_args call =
     (let num_named_args = count_named_args call; named = num_named_args \<noteq> 0
      in case (if named then init_named_args (replicate num_named_args ([], 0)) 0 0 call else Inr []) of
           Inl e \<Rightarrow> Inl e
         | Inr infos \<Rightarrow>
             Inr \<lparr>desc = store_desc call,
                  array =
                    (if length call \<le> max_packed_args
                     then Values ((if named then [Named_Args_Value infos] else []) @ (if call = [] then [Int_Value 0] else map (make_value \<circ> snd) call))
                     else Args ((if named then [\<lparr>arg_tag = none_type, arg_held = Named_Args_Value infos\<rparr>] else []) @ map make_arg call)),
                  first = (if named then 1 else 0)\<rparr>)"

section \<open>Access to the arguments\<close>

definition is_packed :: "'tm basic_format_args \<Rightarrow> bool" where
  "is_packed args = (desc args AND is_unpacked_bit = 0)"

definition has_named_args :: "'tm basic_format_args \<Rightarrow> bool" where
  "has_named_args args = (desc args AND has_named_args_bit \<noteq> 0)"

definition packed_type :: "'tm basic_format_args \<Rightarrow> nat \<Rightarrow> arg_type" where
  "packed_type args index =
     (let shift = index * packed_arg_bits; mask = push_bit packed_arg_bits 1 - 1
      in types ! unat (drop_bit shift (desc args) AND mask))"

text \<open>\<open>max_size\<close> is cast to \<open>int\<close>, which cuts off the bits at the top.\<close>

definition args_max_size :: "'tm basic_format_args \<Rightarrow> int" where
  "args_max_size args = sint (ucast (if is_packed args then of_nat max_packed_args else desc args AND NOT is_unpacked_bit) :: u32)"

text \<open>The elements that \<open>values_[i]\<close> and \<open>args_[i]\<close> designate; the wrong member of the union of pointers, or an index outside of the array, is a fault.\<close>

fun value_at :: "'tm basic_format_args \<Rightarrow> int \<Rightarrow> fault + 'tm arg_value" where
  "value_at args i =
     (case array args of
        Values vs \<Rightarrow> if 0 \<le> int (first args) + i \<and> int (first args) + i < int (length vs) then Inr (vs ! nat (int (first args) + i)) else Inl Out_Of_Bounds
      | Args as \<Rightarrow> Inl Out_Of_Bounds)"

fun arg_at :: "'tm basic_format_args \<Rightarrow> int \<Rightarrow> fault + 'tm basic_format_arg" where
  "arg_at args i =
     (case array args of
        Values vs \<Rightarrow> Inl Out_Of_Bounds
      | Args as \<Rightarrow> if 0 \<le> int (first args) + i \<and> int (first args) + i < int (length as) then Inr (as ! nat (int (first args) + i)) else Inl Out_Of_Bounds)"

text \<open>\<open>basic_format_args::get\<close>. A shift by a negative number is a fault.\<close>

definition get :: "'tm basic_format_args \<Rightarrow> int \<Rightarrow> fault + 'tm basic_format_arg" where
  "get args i =
     (if \<not> is_packed args then if i < args_max_size args then arg_at args i else Inr no_arg
      else if i \<ge> int max_packed_args then Inr no_arg
      else if i < 0 then Inl Out_Of_Bounds
      else let t = packed_type args (nat i)
           in if t = none_type then Inr (no_arg\<lparr>arg_tag := t\<rparr>)
              else case value_at args i of Inl e \<Rightarrow> Inl e | Inr v \<Rightarrow> Inr \<lparr>arg_tag = t, arg_held = v\<rparr>)"

fun find_name :: "named_arg_info list \<Rightarrow> string \<Rightarrow> int" where
  "find_name [] name = -1"
| "find_name ((n, i) # infos) name = (if n = name then i else find_name infos name)"

definition get_named_id :: "'tm basic_format_args \<Rightarrow> string \<Rightarrow> fault + int" where
  "get_named_id args name =
     (if \<not> has_named_args args then Inr (-1)
      else case (if is_packed args then value_at args (-1) else case arg_at args (-1) of Inl e \<Rightarrow> Inl e | Inr a \<Rightarrow> Inr (arg_held a)) of
             Inl e \<Rightarrow> Inl e
           | Inr (Named_Args_Value infos) \<Rightarrow> Inr (find_name infos name)
           | Inr _ \<Rightarrow> Inl Out_Of_Bounds)"

definition get_named :: "'tm basic_format_args \<Rightarrow> string \<Rightarrow> fault + 'tm basic_format_arg" where
  "get_named args name = (case get_named_id args name of Inl e \<Rightarrow> Inl e | Inr i \<Rightarrow> if i \<ge> 0 then get args i else Inr no_arg)"

section \<open>The descriptor holds the types\<close>

lemmas desc_defs = packed_arg_bits_def max_packed_args_def is_unpacked_bit_def has_named_args_bit_def

lemma type_code_bits: "bit (type_code t) n \<Longrightarrow> n < 4"
proof -
  assume b: "bit (type_code t) n"
  have "take_bit 4 (type_code t) = type_code t" by (cases t) simp_all
  then show "n < 4" using b by (metis bit_take_bit_iff)
qed

lemma types_type_code: "types ! unat (type_code t) = t"
  by (cases t) (simp_all add: types_def)

lemma type_code_type_of: "type_of a \<noteq> none_type"
  by (cases a) simp_all

lemma bit_encode_types:
  "bit (encode_types ts) n \<longleftrightarrow> n < 64 \<and> n div 4 < length ts \<and> bit (type_code (ts ! (n div 4))) (n mod 4)"
proof (induction ts arbitrary: n)
  case (Cons t ts)
  show ?case
  proof (cases "n < 4")
    case True
    then show ?thesis by (simp add: bit_or_iff bit_push_bit_iff packed_arg_bits_def)
  next
    case False
    then have "n div 4 = Suc ((n - 4) div 4)" "(n - 4) mod 4 = n mod 4" by (simp_all add: le_div_geq le_mod_geq)
    then show ?thesis using False type_code_bits [of t n] Cons.IH [of "n - 4"]
      by (auto simp: bit_or_iff bit_push_bit_iff packed_arg_bits_def bit_imp_le_length)
  qed
qed simp

text \<open>The fields of a descriptor of at most 15 types do not reach the two flags.\<close>

lemma encode_types_low: "length ts \<le> 15 \<Longrightarrow> bit (encode_types ts) n \<Longrightarrow> n < 60"
  by (auto simp: bit_encode_types)

lemma type_field:
  fixes fl :: u64
  assumes "i < 15" and "\<And>n. n < 60 \<Longrightarrow> \<not> bit fl n"
  shows "drop_bit (i * 4) (encode_types ts OR fl) AND 15 = (if i < length ts then type_code (ts ! i) else 0)"
proof (rule bit_word_eqI)
  fix n :: nat
  assume "n < LENGTH(64)"
  have m: "(15 :: u64) = mask 4" by (simp add: mask_eq_exp_minus_1)
  show "bit (drop_bit (i * 4) (encode_types ts OR fl) AND 15) n \<longleftrightarrow> bit (if i < length ts then type_code (ts ! i) else 0) n"
  proof (cases "n < 4")
    case True
    then have "(i * 4 + n) div 4 = i" "(i * 4 + n) mod 4 = n" "i * 4 + n < 60" using assms(1) by simp_all
    then show ?thesis using True assms(2) by (simp add: m bit_and_iff bit_drop_bit_eq bit_or_iff bit_mask_iff bit_encode_types)
  next
    case False
    then show ?thesis using type_code_bits [of "ts ! i" n] by (auto simp: m bit_and_iff bit_mask_iff)
  qed
qed

lemma test_flag: "(w :: u64) AND push_bit k 1 = 0 \<longleftrightarrow> \<not> bit w k"
  by (simp add: push_bit_of_1 and_exp_eq_0_iff_not_bit)

lemma bit_flag: "bit (push_bit k 1 :: u64) n \<longleftrightarrow> n = k \<and> k < 64"
  by (auto simp: push_bit_of_1 bit_exp_iff)

lemma flag_bits [simp]: "bit is_unpacked_bit n \<longleftrightarrow> n = 63" "bit has_named_args_bit n \<longleftrightarrow> n = 62"
  unfolding is_unpacked_bit_def has_named_args_bit_def bit_flag by auto

lemma test_flags [simp]: "w AND is_unpacked_bit = 0 \<longleftrightarrow> \<not> bit w 63" "w AND has_named_args_bit = 0 \<longleftrightarrow> \<not> bit w 62"
  unfolding is_unpacked_bit_def has_named_args_bit_def by (rule test_flag)+

lemma bit_of_nat_word: "bit (of_nat m :: 'a :: len word) n \<longleftrightarrow> n < LENGTH('a) \<and> bit m n"
  by transfer (simp add: bit_take_bit_iff bit_of_nat_iff_bit)

lemma bit_count: "c < 2 ^ 31 \<Longrightarrow> bit (of_nat c :: u64) n \<Longrightarrow> n < 31"
  by (metis bit_imp_le_length bit_take_bit_iff bit_unsigned_iff of_nat_take_bit take_bit_nat_eq_self)

lemma bit_store_desc:
  assumes "length call < 2 ^ 31"
  shows "bit (store_desc call) 63 \<longleftrightarrow> length call > max_packed_args"
    and "bit (store_desc call) 62 \<longleftrightarrow> count_named_args call \<noteq> 0"
proof -
  have e: "length call \<le> max_packed_args \<Longrightarrow> \<not> bit (encode_types (map (type_of \<circ> snd) call)) n" if "n \<ge> 60" for n
    using encode_types_low [of "map (type_of \<circ> snd) call" n] that by (auto simp: max_packed_args_def packed_arg_bits_def)
  have c: "\<not> bit (of_nat (length call) :: u64) n" if "n \<ge> 60" for n using bit_count [OF assms, of n] that by auto
  show "bit (store_desc call) 63 \<longleftrightarrow> length call > max_packed_args" "bit (store_desc call) 62 \<longleftrightarrow> count_named_args call \<noteq> 0"
    using e c by (simp_all add: store_desc_def bit_or_iff)
qed

lemma store_desc_type:
  assumes "length call \<le> max_packed_args" and "i < max_packed_args" and "desc args = store_desc call"
  shows "packed_type args i = (if i < length call then type_of (snd (call ! i)) else none_type)"
proof -
  have "drop_bit (i * 4) (store_desc call) AND 15 = (if i < length call then type_code (type_of (snd (call ! i))) else 0)"
    using assms(1,2) type_field [of i "if count_named_args call \<noteq> 0 then has_named_args_bit else 0" "map (type_of \<circ> snd) call"]
    by (auto simp: store_desc_def max_packed_args_def packed_arg_bits_def simp del: drop_bit_or)
  then show ?thesis using assms types_type_code by (simp add: packed_type_def packed_arg_bits_def push_bit_of_1 types_def)
qed

text \<open>The number of arguments survives the cast to \<open>int\<close>, although \<open>max_size\<close> removes only one of the two flags.\<close>

lemma store_desc_size:
  assumes "max_packed_args < length call" and "length call < 2 ^ 31" and "desc args = store_desc call"
  shows "args_max_size args = int (length call)"
proof -
  have u: "\<not> is_packed args" using assms bit_store_desc(1) [of call] by (simp add: is_packed_def)
  have "ucast (store_desc call AND NOT is_unpacked_bit) = (of_nat (length call) :: u32)"
  proof (rule bit_word_eqI)
    fix n :: nat
    assume "n < LENGTH(32)"
    then show "bit (ucast (store_desc call AND NOT is_unpacked_bit) :: u32) n \<longleftrightarrow> bit (of_nat (length call) :: u32) n"
      using assms(1) by (simp add: store_desc_def bit_unsigned_iff bit_and_iff bit_or_iff bit_not_iff bit_of_nat_word)
  qed
  then show ?thesis using u assms(2,3) by (simp add: args_max_size_def signed_of_nat signed_take_bit_int_eq_self)
qed

section \<open>The names\<close>

text \<open>The table of names that a call defines.\<close>

fun names_from :: "int \<Rightarrow> 'tm call_arg list \<Rightarrow> named_arg_info list" where
  "names_from i [] = []"
| "names_from i ((None, a) # call) = names_from (i + 1) call"
| "names_from i ((Some name, a) # call) = (name, i) # names_from (i + 1) call"

lemma length_names_from: "length (names_from i call) = count_named_args call"
  by (induction i call rule: names_from.induct) simp_all

lemma init_named_args_fills:
  "length named_args = k + count_named_args call \<Longrightarrow> init_named_args named_args i k call = Inr (take k named_args @ names_from i call)"
proof (induction named_args i k call rule: init_named_args.induct)
  case (3 named_args i k name a call)
  then show ?case by (simp add: take_Suc_conv_app_nth)
qed simp_all

lemma find_name_map_of: "find_name infos name = (case map_of infos name of None \<Rightarrow> -1 | Some i \<Rightarrow> i)"
  by (induction infos name rule: find_name.induct) simp_all

section \<open>The stored arguments are those of the call\<close>

definition call_args :: "'tm call_arg list \<Rightarrow> 'tm format_args" where
  "call_args call = \<lparr>arg_list = map snd call, arg_names = names_from 0 call\<rparr>"

lemma visit_make_arg: "visit_format_arg \<lparr>arg_tag = type_of a, arg_held = make_value a\<rparr> = Inr (Some a)"
  by (cases a) (simp_all add: visit_format_arg_def)

lemma visit_no_arg: "visit_format_arg no_arg = Inr None"
  by (simp add: visit_format_arg_def no_arg_def)

text \<open>What the constructor of the store leaves behind.\<close>

definition stored :: "'tm call_arg list \<Rightarrow> 'tm basic_format_args" where
  "stored call =
     (let infos = Named_Args_Value (names_from 0 call); named = count_named_args call \<noteq> 0
      in \<lparr>desc = store_desc call,
          array =
            (if length call \<le> max_packed_args
             then Values ((if named then [infos] else []) @ (if call = [] then [Int_Value 0] else map (make_value \<circ> snd) call))
             else Args ((if named then [\<lparr>arg_tag = none_type, arg_held = infos\<rparr>] else []) @ map make_arg call)),
          first = (if named then 1 else 0)\<rparr>)"

lemma make_format_args_stored: "make_format_args call = Inr (stored call)"
  using init_named_args_fills [of "replicate (count_named_args call) ([], 0)" 0 call 0]
  by (simp add: make_format_args_def stored_def Let_def)

lemma desc_stored [simp]: "desc (stored call) = store_desc call"
  by (simp add: stored_def Let_def)

lemma stored_flags:
  assumes "length call < 2 ^ 31"
  shows "is_packed (stored call) \<longleftrightarrow> length call \<le> max_packed_args" and "has_named_args (stored call) \<longleftrightarrow> count_named_args call \<noteq> 0"
  using bit_store_desc [OF assms] by (simp_all add: is_packed_def has_named_args_def not_less)

lemma value_at_stored:
  "length call \<le> max_packed_args \<Longrightarrow> 0 \<le> i \<Longrightarrow> i < int (length call) \<Longrightarrow> value_at (stored call) i = Inr (make_value (snd (call ! nat i)))"
  by (cases "call = []") (auto simp: stored_def Let_def nat_add_distrib)

lemma arg_at_stored:
  "max_packed_args < length call \<Longrightarrow> 0 \<le> i \<Longrightarrow> i < int (length call) \<Longrightarrow> arg_at (stored call) i = Inr (make_arg (call ! nat i))"
  by (auto simp: stored_def Let_def nat_add_distrib)

lemma get_stored:
  assumes "length call < 2 ^ 31" and "0 \<le> i"
  shows "bind_res (get (stored call) i) visit_format_arg = Inr (get_arg (call_args call) i)"
proof (cases "length call \<le> max_packed_args")
  case True
  then have "packed_type (stored call) (nat i) = (if i < int (length call) then type_of (snd (call ! nat i)) else none_type)" if "i < int max_packed_args"
    using that assms(2) store_desc_type [of call "nat i" "stored call"] by (simp add: nat_less_iff)
  then show ?thesis using True assms stored_flags(1) [OF assms(1)] value_at_stored [of call i]
    by (auto simp: get_def bind_res_def get_arg_def call_args_def visit_no_arg visit_no_arg [unfolded no_arg_def] visit_make_arg type_code_type_of nat_less_iff no_arg_def
        simp del: value_at.simps)
next
  case False
  then show ?thesis using assms stored_flags(1) [OF assms(1)] arg_at_stored [of call i] store_desc_size [of call "stored call"]
    by (auto simp: get_def bind_res_def get_arg_def call_args_def visit_no_arg visit_make_arg make_arg_def nat_less_iff not_le
        simp del: arg_at.simps)
qed

lemma get_named_id_stored:
  assumes "length call < 2 ^ 31"
  shows "get_named_id (stored call) name = Inr (get_id (call_args call) name)"
proof (cases "count_named_args call = 0")
  case True
  then have "names_from 0 call = []" using length_names_from [of 0 call] by simp
  then show ?thesis using True stored_flags [OF assms] by (simp add: get_named_id_def get_id_def call_args_def)
next
  case False
  then show ?thesis using stored_flags [OF assms]
    by (simp add: get_named_id_def get_id_def call_args_def stored_def Let_def find_name_map_of)
qed

text \<open>
  C28: A call with fewer than \<open>2\<^sup>3\<^sup>1\<close> arguments stores them without a fault. Its arguments are then found: \<open>get\<close> with any
  index that is not negative yields the argument of the call at this place, with its own type and value, and no argument past the end, whether the types are packed into the descriptor or not;
  \<open>get_id\<close> yields for every name the place of the first argument with this name, or -1; \<open>get\<close> with a name combines both. No element outside of the arrays and no member of
  the union that is not set is read.
\<close>

theorem stored_args_found:
  assumes "length call < 2 ^ 31"
  shows "\<exists>args. make_format_args call = Inr args \<and>
    (\<forall>i. 0 \<le> i \<longrightarrow> bind_res (get args i) visit_format_arg = Inr (get_arg (call_args call) i)) \<and>
    (\<forall>name. get_named_id args name = Inr (get_id (call_args call) name)) \<and>
    (\<forall>name. bind_res (get_named args name) visit_format_arg =
            Inr (if get_id (call_args call) name < 0 then None else get_arg (call_args call) (get_id (call_args call) name)))"
proof (intro exI conjI allI impI)
  show "make_format_args call = Inr (stored call)" by (rule make_format_args_stored)
  show "bind_res (get (stored call) i) visit_format_arg = Inr (get_arg (call_args call) i)" if "0 \<le> i" for i
    by (rule get_stored [OF assms that])
  show "get_named_id (stored call) name = Inr (get_id (call_args call) name)" for name by (rule get_named_id_stored [OF assms])
  show "bind_res (get_named (stored call) name) visit_format_arg =
        Inr (if get_id (call_args call) name < 0 then None else get_arg (call_args call) (get_id (call_args call) name))" for name
    using get_stored [OF assms, of "get_id (call_args call) name"] get_named_id_stored [OF assms, of name] visit_no_arg
    by (auto simp: get_named_def bind_res_def)
qed

text \<open>A packed call with a named argument.\<close>

definition sample_call :: "unit call_arg list" where
  "sample_call = [(None, Int_Arg 7), (Some ''w'', String_Arg ''abc''), (None, Bool_Arg True)]"

lemma stored_args_found_witness:
  "\<exists>args. make_format_args sample_call = Inr args \<and> store_desc sample_call = 0x40000000000007D1 \<and>
     bind_res (get args 1) visit_format_arg = Inr (Some (String_Arg ''abc'')) \<and> bind_res (get args 3) visit_format_arg = Inr None \<and>
     bind_res (get_named args ''w'') visit_format_arg = Inr (Some (String_Arg ''abc''))"
proof -
  obtain args where a: "make_format_args sample_call = Inr args"
    and g: "\<And>i. 0 \<le> i \<Longrightarrow> bind_res (get args i) visit_format_arg = Inr (get_arg (call_args sample_call) i)"
    and n: "bind_res (get_named args ''w'') visit_format_arg =
      Inr (if get_id (call_args sample_call) ''w'' < 0 then None else get_arg (call_args sample_call) (get_id (call_args sample_call) ''w''))"
    using stored_args_found [of sample_call] by (auto simp: sample_call_def)
  show ?thesis using a g [of 1] g [of 3] n by (simp add: sample_call_def call_args_def get_arg_def get_id_def store_desc_def desc_defs)
qed

end
