(* ===== verification/Endian.thy ===== *)
theory Endian
  imports Prelude
begin

text \<open>
  Model of \<open>encoding/binary/endian.h\<close> and \<open>endian.cpp\<close>. A \<open>platform\<close> fixes the byte order of the
  machine and whether \<open>__linux__\<close> is defined, which selects between the C library's \<open>bswap_*\<close> and
  the macros of the header. The signed and the unsigned overload of a conversion act on the same
  bit pattern, so there is one definition per width. Values of the templated integer types are bit
  patterns zero-extended to 64 bits; \<open>int_ty\<close> names the eight supported types.
\<close>

section \<open>Platform\<close>

datatype Endian = LittleEndian | BigEndian

record platform =
  byte_order :: Endian
  is_linux :: bool

text \<open>The object representation of an \<open>n\<close>-byte integer on a machine, and the value it denotes.\<close>

definition obj_bytes :: "Endian \<Rightarrow> nat \<Rightarrow> 'a::len word \<Rightarrow> bytes" where
  "obj_bytes h n w = (case h of LittleEndian \<Rightarrow> le_bytes n w | BigEndian \<Rightarrow> rev (le_bytes n w))"

definition obj_word :: "Endian \<Rightarrow> bytes \<Rightarrow> 'a::len word" where
  "obj_word h bs = le_word (case h of LittleEndian \<Rightarrow> bs | BigEndian \<Rightarrow> rev bs)"

definition SystemEndian_linux :: "platform \<Rightarrow> Endian" where
  "SystemEndian_linux p = (if byte_order p = LittleEndian then LittleEndian else BigEndian)"

text \<open>Elsewhere the first byte of the 64-bit object \<open>value = 1\<close> decides.\<close>

definition SystemEndian_probe :: "platform \<Rightarrow> Endian" where
  "SystemEndian_probe p =
     (if obj_bytes (byte_order p) 8 (1 :: u64) ! 0 \<noteq> 0 then LittleEndian else BigEndian)"

definition SystemEndian :: "platform \<Rightarrow> Endian" where
  "SystemEndian p = (if is_linux p then SystemEndian_linux p else SystemEndian_probe p)"

section \<open>Byte swapping\<close>

text \<open>The C library's byte reversal of an \<open>n\<close>-byte integer.\<close>

definition bswap :: "nat \<Rightarrow> 'a::len word \<Rightarrow> 'a word" where
  "bswap n w = le_word (rev (le_bytes n w))"

definition bswap_16 :: "u16 \<Rightarrow> u16" where "bswap_16 = bswap 2"
definition bswap_32 :: "u32 \<Rightarrow> u32" where "bswap_32 = bswap 4"
definition bswap_64 :: "u64 \<Rightarrow> u64" where "bswap_64 = bswap 8"

text \<open>The macros; the 16-bit one computes in \<open>unsigned int\<close> before the final cast.\<close>

definition ANT_BYTE_SWAP_16 :: "u16 \<Rightarrow> u16" where
  "ANT_BYTE_SWAP_16 x =
     (let y = ucast x :: u32
      in ucast (drop_bit 8 (y AND 0xff00) OR push_bit 8 (y AND 0x00ff)))"

definition ANT_BYTE_SWAP_32 :: "u32 \<Rightarrow> u32" where
  "ANT_BYTE_SWAP_32 x =
     drop_bit 24 (x AND 0xff000000) OR drop_bit 8 (x AND 0x00ff0000) OR
     push_bit 8 (x AND 0x0000ff00) OR push_bit 24 (x AND 0x000000ff)"

definition ANT_BYTE_SWAP_64 :: "u64 \<Rightarrow> u64" where
  "ANT_BYTE_SWAP_64 x =
     drop_bit 56 (x AND 0xff00000000000000) OR drop_bit 40 (x AND 0x00ff000000000000) OR
     drop_bit 24 (x AND 0x0000ff0000000000) OR drop_bit 8 (x AND 0x000000ff00000000) OR
     push_bit 8 (x AND 0x00000000ff000000) OR push_bit 24 (x AND 0x0000000000ff0000) OR
     push_bit 40 (x AND 0x000000000000ff00) OR push_bit 56 (x AND 0x00000000000000ff)"

definition ByteSwap8 :: "u8 \<Rightarrow> u8" where
  "ByteSwap8 v = v"

definition ByteSwap16 :: "platform \<Rightarrow> u16 \<Rightarrow> u16" where
  "ByteSwap16 p v = (if is_linux p then bswap_16 v else ANT_BYTE_SWAP_16 v)"

definition ByteSwap32 :: "platform \<Rightarrow> u32 \<Rightarrow> u32" where
  "ByteSwap32 p v = (if is_linux p then bswap_32 v else ANT_BYTE_SWAP_32 v)"

definition ByteSwap64 :: "platform \<Rightarrow> u64 \<Rightarrow> u64" where
  "ByteSwap64 p v = (if is_linux p then bswap_64 v else ANT_BYTE_SWAP_64 v)"

section \<open>Conversions between host and wire order\<close>

text \<open>\<open>ntohs\<close> and \<open>htons\<close> of the C library.\<close>

definition ntohs :: "platform \<Rightarrow> u16 \<Rightarrow> u16" where
  "ntohs p v = (if byte_order p = LittleEndian then bswap_16 v else v)"

definition htons :: "platform \<Rightarrow> u16 \<Rightarrow> u16" where
  "htons p v = (if byte_order p = LittleEndian then bswap_16 v else v)"

definition BigEndianToHost8 :: "u8 \<Rightarrow> u8" where
  "BigEndianToHost8 v = v"

definition BigEndianToHost16 :: "platform \<Rightarrow> u16 \<Rightarrow> u16" where
  "BigEndianToHost16 p v = ntohs p v"

definition BigEndianToHost32 :: "platform \<Rightarrow> u32 \<Rightarrow> u32" where
  "BigEndianToHost32 p v =
     (if is_linux p
      then (if SystemEndian p = LittleEndian then bswap_32 v else v)
      else (if SystemEndian p = LittleEndian then ANT_BYTE_SWAP_32 v else v))"

definition BigEndianToHost64 :: "platform \<Rightarrow> u64 \<Rightarrow> u64" where
  "BigEndianToHost64 p v =
     (if is_linux p
      then (if SystemEndian p = LittleEndian then bswap_64 v else v)
      else (if SystemEndian p = LittleEndian then ANT_BYTE_SWAP_64 v else v))"

definition HostToBigEndian8 :: "u8 \<Rightarrow> u8" where
  "HostToBigEndian8 v = v"

definition HostToBigEndian16 :: "platform \<Rightarrow> u16 \<Rightarrow> u16" where
  "HostToBigEndian16 p v = htons p v"

definition HostToBigEndian32 :: "platform \<Rightarrow> u32 \<Rightarrow> u32" where
  "HostToBigEndian32 p v =
     (if is_linux p
      then (if SystemEndian p = LittleEndian then bswap_32 v else v)
      else (if SystemEndian p = LittleEndian then ANT_BYTE_SWAP_32 v else v))"

definition HostToBigEndian64 :: "platform \<Rightarrow> u64 \<Rightarrow> u64" where
  "HostToBigEndian64 p v =
     (if is_linux p
      then (if SystemEndian p = LittleEndian then bswap_64 v else v)
      else (if SystemEndian p = LittleEndian then ANT_BYTE_SWAP_64 v else v))"

definition LittleEndianToHost8 :: "u8 \<Rightarrow> u8" where
  "LittleEndianToHost8 v = v"

definition LittleEndianToHost16 :: "platform \<Rightarrow> u16 \<Rightarrow> u16" where
  "LittleEndianToHost16 p v =
     (if is_linux p
      then (if SystemEndian p = BigEndian then bswap_16 v else v)
      else (if SystemEndian p = BigEndian then ANT_BYTE_SWAP_16 v else v))"

definition LittleEndianToHost32 :: "platform \<Rightarrow> u32 \<Rightarrow> u32" where
  "LittleEndianToHost32 p v =
     (if is_linux p
      then (if SystemEndian p = BigEndian then bswap_32 v else v)
      else (if SystemEndian p = BigEndian then ANT_BYTE_SWAP_32 v else v))"

definition LittleEndianToHost64 :: "platform \<Rightarrow> u64 \<Rightarrow> u64" where
  "LittleEndianToHost64 p v =
     (if is_linux p
      then (if SystemEndian p = BigEndian then bswap_64 v else v)
      else (if SystemEndian p = BigEndian then ANT_BYTE_SWAP_64 v else v))"

definition HostToLittleEndian8 :: "u8 \<Rightarrow> u8" where
  "HostToLittleEndian8 v = v"

definition HostToLittleEndian16 :: "platform \<Rightarrow> u16 \<Rightarrow> u16" where
  "HostToLittleEndian16 p v =
     (if is_linux p
      then (if SystemEndian p = BigEndian then bswap_16 v else v)
      else (if SystemEndian p = BigEndian then ANT_BYTE_SWAP_16 v else v))"

definition HostToLittleEndian32 :: "platform \<Rightarrow> u32 \<Rightarrow> u32" where
  "HostToLittleEndian32 p v =
     (if is_linux p
      then (if SystemEndian p = BigEndian then bswap_32 v else v)
      else (if SystemEndian p = BigEndian then ANT_BYTE_SWAP_32 v else v))"

definition HostToLittleEndian64 :: "platform \<Rightarrow> u64 \<Rightarrow> u64" where
  "HostToLittleEndian64 p v =
     (if is_linux p
      then (if SystemEndian p = BigEndian then bswap_64 v else v)
      else (if SystemEndian p = BigEndian then ANT_BYTE_SWAP_64 v else v))"

section \<open>Byte reversal: laws\<close>

lemma le_bytes_bswap [wire_simps]:
  "8 * n \<le> LENGTH('a) \<Longrightarrow> le_bytes n (bswap n w :: 'a::len word) = rev (le_bytes n w)"
  by (simp add: bswap_def wire_simps)

lemma bswap_bswap [wire_simps]:
  "8 * n = LENGTH('a) \<Longrightarrow> bswap n (bswap n w :: 'a::len word) = w"
  by (subst bswap_def) (simp add: wire_simps)

text \<open>A masked byte moved down or up, the shape of the macros' terms.\<close>

definition byte_at :: "nat \<Rightarrow> 'a::len word \<Rightarrow> 'a word" where
  "byte_at i w = take_bit 8 (drop_bit i w)"

lemma ucast_byte: "8 \<le> LENGTH('a) \<Longrightarrow> ucast (ucast (w :: 'a::len word) :: u8) = take_bit 8 w"
  by (rule bit_word_eqI) (auto simp: bit_simps)

lemma drop_masked_byte:
  "d \<le> i \<Longrightarrow> drop_bit d (w AND push_bit i (mask 8)) = push_bit (i - d) (byte_at i (w :: 'a::len word))"
  by (rule bit_word_eqI) (auto simp: bit_simps byte_at_def add.commute dest: bit_imp_le_length)

lemma push_masked_byte:
  "push_bit d (w AND push_bit i (mask 8)) = push_bit (i + d) (byte_at i (w :: 'a::len word))"
  by (rule bit_word_eqI) (auto simp: bit_simps byte_at_def)

lemma byte_masks:
  "0xff = push_bit 0 (mask 8 :: 'a::len word)" "0xff00 = push_bit 8 (mask 8 :: 'a word)"
  "0xff0000 = push_bit 16 (mask 8 :: 'a word)" "0xff000000 = push_bit 24 (mask 8 :: 'a word)"
  "0xff00000000 = push_bit 32 (mask 8 :: 'a word)" "0xff0000000000 = push_bit 40 (mask 8 :: 'a word)"
  "0xff000000000000 = push_bit 48 (mask 8 :: 'a word)"
  "0xff00000000000000 = push_bit 56 (mask 8 :: 'a word)"
  by (simp_all add: mask_eq_exp_minus_1 push_bit_eq_mult)


lemmas le_bytes_at = le_bytes_numeral le_word.simps ucast_byte byte_at_def [symmetric]

lemma bswap_16_eq: "bswap_16 x = byte_at 8 x OR push_bit 8 (take_bit 8 x)"
  by (simp add: bswap_16_def bswap_def le_bytes_at)

lemma bswap_32_eq:
  "bswap_32 x = byte_at 24 x OR push_bit 8 (byte_at 16 x) OR push_bit 16 (byte_at 8 x) OR
     push_bit 24 (take_bit 8 x)"
  by (simp add: bswap_32_def bswap_def le_bytes_at push_bit_push_bit)

lemma bswap_64_eq:
  "bswap_64 x = byte_at 56 x OR push_bit 8 (byte_at 48 x) OR push_bit 16 (byte_at 40 x) OR
     push_bit 24 (byte_at 32 x) OR push_bit 32 (byte_at 24 x) OR push_bit 40 (byte_at 16 x) OR
     push_bit 48 (byte_at 8 x) OR push_bit 56 (take_bit 8 x)"
  by (simp add: bswap_64_def bswap_def le_bytes_at push_bit_push_bit)

lemma ANT_BYTE_SWAP_32_eq: "ANT_BYTE_SWAP_32 x = bswap_32 x"
  unfolding ANT_BYTE_SWAP_32_def bswap_32_eq byte_masks
  by (simp only: drop_masked_byte push_masked_byte) (simp add: byte_at_def)

lemma ANT_BYTE_SWAP_64_eq: "ANT_BYTE_SWAP_64 x = bswap_64 x"
  unfolding ANT_BYTE_SWAP_64_def bswap_64_eq byte_masks
  by (simp only: drop_masked_byte push_masked_byte) (simp add: byte_at_def)

lemma ANT_BYTE_SWAP_16_eq: "ANT_BYTE_SWAP_16 x = bswap_16 x"
  unfolding ANT_BYTE_SWAP_16_def bswap_16_eq byte_masks Let_def
  by (rule bit_word_eqI) (auto simp: bit_simps byte_at_def)

section \<open>The templated integer types\<close>

datatype int_ty = Int8 | UInt8 | Int16 | UInt16 | Int32 | UInt32 | Int64 | UInt64

fun sizeof_int :: "int_ty \<Rightarrow> nat" where
  "sizeof_int Int8 = 1" | "sizeof_int UInt8 = 1"
| "sizeof_int Int16 = 2" | "sizeof_int UInt16 = 2"
| "sizeof_int Int32 = 4" | "sizeof_int UInt32 = 4"
| "sizeof_int Int64 = 8" | "sizeof_int UInt64 = 8"

fun is_signed_int :: "int_ty \<Rightarrow> bool" where
  "is_signed_int Int8 = True" | "is_signed_int Int16 = True"
| "is_signed_int Int32 = True" | "is_signed_int Int64 = True"
| "is_signed_int _ = False"

abbreviation int_bits :: "int_ty \<Rightarrow> nat" where
  "int_bits T \<equiv> 8 * sizeof_int T"

text \<open>\<open>static_cast<T>\<close> of an unsigned value, and the C++ value of a bit pattern of type \<open>T\<close>.\<close>

definition cast_int :: "int_ty \<Rightarrow> u64 \<Rightarrow> u64" where
  "cast_int T v = take_bit (int_bits T) v"

definition int_value :: "int_ty \<Rightarrow> u64 \<Rightarrow> int" where
  "int_value T v =
     (if is_signed_int T then signed_take_bit (int_bits T - 1) (uint v) else uint (cast_int T v))"

text \<open>Overload resolution on the width of \<open>T\<close>.\<close>

definition overload :: "(u8 \<Rightarrow> u8) \<Rightarrow> (u16 \<Rightarrow> u16) \<Rightarrow> (u32 \<Rightarrow> u32) \<Rightarrow> (u64 \<Rightarrow> u64) \<Rightarrow> int_ty \<Rightarrow> u64 \<Rightarrow> u64" where
  "overload f8 f16 f32 f64 T v =
     (if sizeof_int T = 1 then ucast (f8 (ucast v))
      else if sizeof_int T = 2 then ucast (f16 (ucast v))
      else if sizeof_int T = 4 then ucast (f32 (ucast v))
      else f64 v)"

definition BigEndianToHost :: "platform \<Rightarrow> int_ty \<Rightarrow> u64 \<Rightarrow> u64" where
  "BigEndianToHost p =
     overload BigEndianToHost8 (BigEndianToHost16 p) (BigEndianToHost32 p) (BigEndianToHost64 p)"

definition HostToBigEndian :: "platform \<Rightarrow> int_ty \<Rightarrow> u64 \<Rightarrow> u64" where
  "HostToBigEndian p =
     overload HostToBigEndian8 (HostToBigEndian16 p) (HostToBigEndian32 p) (HostToBigEndian64 p)"

definition LittleEndianToHost :: "platform \<Rightarrow> int_ty \<Rightarrow> u64 \<Rightarrow> u64" where
  "LittleEndianToHost p =
     overload LittleEndianToHost8 (LittleEndianToHost16 p) (LittleEndianToHost32 p)
       (LittleEndianToHost64 p)"

definition HostToLittleEndian :: "platform \<Rightarrow> int_ty \<Rightarrow> u64 \<Rightarrow> u64" where
  "HostToLittleEndian p =
     overload HostToLittleEndian8 (HostToLittleEndian16 p) (HostToLittleEndian32 p)
       (HostToLittleEndian64 p)"

text \<open>
  The block that the reader, the writer and the buffer share: convert a value of type \<open>T\<close> to the
  order \<open>e\<close> of the stream and store its object representation, or load one and convert it back.
  The \<open>memcpy\<close> of the builds without unaligned access copies the same bytes.
\<close>

definition encode_int :: "platform \<Rightarrow> Endian \<Rightarrow> int_ty \<Rightarrow> u64 \<Rightarrow> bytes" where
  "encode_int p e T v =
     obj_bytes (byte_order p) (sizeof_int T)
       (if e = LittleEndian then HostToLittleEndian p T v else HostToBigEndian p T v)"

definition decode_int :: "platform \<Rightarrow> Endian \<Rightarrow> int_ty \<Rightarrow> bytes \<Rightarrow> u64" where
  "decode_int p e T bs =
     (if e = LittleEndian then LittleEndianToHost p T (obj_word (byte_order p) bs)
      else BigEndianToHost p T (obj_word (byte_order p) bs))"

section \<open>Correctness of the conversions\<close>

lemma SystemEndian_eq [simp]: "SystemEndian p = byte_order p"
  by (cases "byte_order p")
    (auto simp: SystemEndian_def SystemEndian_linux_def SystemEndian_probe_def obj_bytes_def
      le_bytes_numeral)

lemmas to_wire_defs =
  HostToBigEndian8_def HostToBigEndian16_def HostToBigEndian32_def HostToBigEndian64_def
  HostToLittleEndian8_def HostToLittleEndian16_def HostToLittleEndian32_def HostToLittleEndian64_def
  htons_def

lemmas from_wire_defs =
  BigEndianToHost8_def BigEndianToHost16_def BigEndianToHost32_def BigEndianToHost64_def
  LittleEndianToHost8_def LittleEndianToHost16_def LittleEndianToHost32_def LittleEndianToHost64_def
  ntohs_def

lemmas swap_eqs =
  ANT_BYTE_SWAP_16_eq ANT_BYTE_SWAP_32_eq ANT_BYTE_SWAP_64_eq bswap_16_def bswap_32_def bswap_64_def

lemma bswap_le_word [wire_simps]:
  "length bs = n \<Longrightarrow> 8 * n \<le> LENGTH('a) \<Longrightarrow> bswap n (le_word bs :: 'a::len word) = le_word (rev bs)"
  by (simp add: bswap_def wire_simps)

lemma obj_word_obj_bytes [wire_simps]:
  "obj_word h (obj_bytes h n w) = (take_bit (8 * n) w :: 'a::len word)"
  by (simp add: obj_word_def obj_bytes_def wire_simps split: Endian.split)

lemma obj_bytes_obj_word [wire_simps]:
  "length bs = n \<Longrightarrow> 8 * n \<le> LENGTH('a) \<Longrightarrow> obj_bytes h n (obj_word h bs :: 'a::len word) = bs"
  by (simp add: obj_word_def obj_bytes_def wire_simps split: Endian.split)

lemma length_obj_bytes [simp, wire_simps]: "length (obj_bytes h n w) = n"
  by (simp add: obj_bytes_def split: Endian.split)

lemma encode_int_eq: "encode_int p e T v = obj_bytes e (sizeof_int T) v"
  by (cases T; cases e; cases "byte_order p")
    (simp_all add: encode_int_def obj_bytes_def HostToBigEndian_def HostToLittleEndian_def
      overload_def to_wire_defs swap_eqs wire_simps)

lemma decode_int_eq:
  assumes "length bs = sizeof_int T"
  shows "decode_int p e T bs = obj_word e bs"
  using assms
  by (cases T; cases e; cases "byte_order p")
    (simp_all add: decode_int_def obj_word_def BigEndianToHost_def LittleEndianToHost_def
      overload_def from_wire_defs swap_eqs wire_simps rev_singleton)

text \<open>
  The contract a codec of fixed-width integers offers to the streams built on it.
\<close>

locale int_wire =
  fixes width :: "'t \<Rightarrow> nat"
    and put :: "'t \<Rightarrow> u64 \<Rightarrow> bytes"
    and get :: "'t \<Rightarrow> bytes \<Rightarrow> u64"
  assumes length_put: "length (put T v) = width T"
    and get_put: "get T (put T v) = take_bit (8 * width T) v"
    and put_get: "length bs = width T \<Longrightarrow> put T (get T bs) = bs"
begin

lemma put_eq_iff: "put T v = put T w \<longleftrightarrow> take_bit (8 * width T) v = take_bit (8 * width T) w"
  by (metis get_put length_put put_get)

lemma put_take_bit: "put T (take_bit (8 * width T) v) = put T v"
  by (simp add: put_eq_iff)

lemma get_inj: "length bs = width T \<Longrightarrow> length cs = width T \<Longrightarrow> get T bs = get T cs \<longleftrightarrow> bs = cs"
  by (metis put_get)

end

interpretation wire: int_wire sizeof_int "encode_int p e" "decode_int p e" for p e
proof
  fix T :: int_ty and v :: u64 and bs :: bytes
  show "length (encode_int p e T v) = sizeof_int T"
    by (simp add: encode_int_eq)
  show "decode_int p e T (encode_int p e T v) = take_bit (8 * sizeof_int T) v"
    by (simp add: encode_int_eq decode_int_eq wire_simps)
  assume "length bs = sizeof_int T"
  moreover have "8 * sizeof_int T \<le> LENGTH(64)" by (cases T) auto
  ultimately show "encode_int p e T (decode_int p e T bs) = bs"
    by (simp add: encode_int_eq decode_int_eq wire_simps)
qed

text \<open>Values that fit their type survive unchanged.\<close>

lemma cast_int_idem [simp]: "cast_int T (cast_int T v) = cast_int T v"
  by (simp add: cast_int_def)

lemma decode_encode_int [simp]: "decode_int p e T (encode_int q e T v) = cast_int T v"
  using wire.get_put [of p e T v] by (simp add: encode_int_eq cast_int_def)

lemma encode_int_platform: "encode_int p e T v = encode_int q e T v"
  by (simp add: encode_int_eq)

lemma length_encode_int [simp]: "length (encode_int p e T v) = sizeof_int T"
  by (rule wire.length_put)

text \<open>
  C16: Writing an integer of any supported type in the stream's byte order produces the same bytes
  on every platform, little- or big-endian machine, library byte swap or macro: the bytes of the
  value, least significant first on a little-endian stream and most significant first on a
  big-endian one; loading them back on any other platform returns the value cast to the type.
\<close>

theorem encode_int_portable:
  "encode_int p e T v =
     (if e = LittleEndian then le_bytes (sizeof_int T) v else rev (le_bytes (sizeof_int T) v)) \<and>
   decode_int q e T (encode_int p e T v) = cast_int T v"
proof
  show "encode_int p e T v =
      (if e = LittleEndian then le_bytes (sizeof_int T) v else rev (le_bytes (sizeof_int T) v))"
    by (cases e) (simp_all add: encode_int_eq obj_bytes_def)
  show "decode_int q e T (encode_int p e T v) = cast_int T v"
    by (rule decode_encode_int)
qed

text \<open>
  The three byte-swap macros of the header compute exactly the byte reversal the C library's
  functions compute, so the overloads of \<open>ByteSwap\<close> agree on every platform, and swapping twice
  gives the value back.
\<close>

theorem ByteSwap_reverses_bytes:
  "le_bytes 2 (ByteSwap16 p a) = rev (le_bytes 2 a) \<and>
   le_bytes 4 (ByteSwap32 p b) = rev (le_bytes 4 b) \<and>
   le_bytes 8 (ByteSwap64 p c) = rev (le_bytes 8 c) \<and>
   ByteSwap16 p (ByteSwap16 q a) = a \<and> ByteSwap32 p (ByteSwap32 q b) = b \<and>
   ByteSwap64 p (ByteSwap64 q c) = c"
  by (simp add: ByteSwap16_def ByteSwap32_def ByteSwap64_def swap_eqs wire_simps)

end
