(* ===== verification/Binary_Writer.thy ===== *)
theory Binary_Writer
  imports Endian
begin

text \<open>
  Model of \<open>encoding/binary/binary_writer.h\<close>. The state of a \<open>BinaryWriter\<close> is the string it
  refers to. A \<open>(pointer, length)\<close> pair of the source is the list of bytes readable at the pointer
  together with the length; reading past it is the fault \<open>Out_Of_Bounds\<close>.
\<close>

definition WriteInteger :: "platform \<Rightarrow> Endian \<Rightarrow> int_ty \<Rightarrow> u64 \<Rightarrow> bytes \<Rightarrow> bytes" where
  "WriteInteger p e T val buf =
     (let pos = length buf; resized = buf @ replicate (sizeof_int T) 0
      in splice_at pos (encode_int p e T val) resized)"

definition WriteString :: "bytes \<Rightarrow> bytes \<Rightarrow> bytes" where
  "WriteString val buf = buf @ val"

definition WriteString_ptr :: "bytes \<Rightarrow> nat \<Rightarrow> bytes \<Rightarrow> bytes res" where
  "WriteString_ptr s len buf =
     (if len \<le> length s then Inr (buf @ take len s) else Inl Out_Of_Bounds)"

definition WriteString_len :: "platform \<Rightarrow> Endian \<Rightarrow> int_ty \<Rightarrow> bytes \<Rightarrow> bytes \<Rightarrow> bytes" where
  "WriteString_len p e T val buf =
     WriteString val (WriteInteger p e T (cast_int T (of_nat (length val))) buf)"

definition Append :: "nat \<Rightarrow> bytes \<Rightarrow> bytes" where
  "Append n buf = buf @ replicate n 0"

definition Writer_Size :: "bytes \<Rightarrow> nat" where
  "Writer_Size buf = length buf"

lemma WriteInteger_eq [wire_simps]: "WriteInteger p e T val buf = buf @ encode_int p e T val"
  by (simp add: WriteInteger_def Let_def splice_at_def)

lemma WriteString_len_eq [wire_simps]:
  "WriteString_len p e T val buf = buf @ encode_int p e T (cast_int T (of_nat (length val))) @ val"
  by (simp add: WriteString_len_def WriteString_def wire_simps)

text \<open>
  No write touches what the stream already holds, and the size grows by exactly the bytes
  written: the width of the type for an integer, the length for a string, both for a
  length-prefixed one.
\<close>

theorem writer_appends:
  "take (length buf) (WriteInteger p e T v buf) = buf \<and>
   take (length buf) (WriteString_len p e T s buf) = buf \<and>
   take (length buf) (Append n buf) = buf \<and>
   Writer_Size (WriteInteger p e T v buf) = Writer_Size buf + sizeof_int T \<and>
   Writer_Size (WriteString s buf) = Writer_Size buf + length s \<and>
   Writer_Size (WriteString_len p e T s buf) = Writer_Size buf + sizeof_int T + length s \<and>
   Writer_Size (Append n buf) = Writer_Size buf + n"
  by (simp add: wire_simps Writer_Size_def WriteString_def Append_def)

end
