(* ===== verification/Binary_Reader.thy ===== *)
theory Binary_Reader
  imports Binary_Writer
begin

text \<open>
  Model of \<open>encoding/binary/binary_reader.h\<close>. A reader holds the stream and a 64-bit position
  (\<open>std::string_view::size_type\<close>), so position arithmetic wraps as it does in the source. Output
  parameters are passed in with their old value and returned. The theory also states what the
  reader and the writer promise each other: a message written as a sequence of fields is read back.
\<close>

record reader =
  rd_buf :: bytes
  rd_pos :: u64

definition reader_of :: "bytes \<Rightarrow> reader" where
  "reader_of stream = \<lparr>rd_buf = stream, rd_pos = 0\<rparr>"

abbreviation rd_size :: "reader \<Rightarrow> u64" where
  "rd_size r \<equiv> of_nat (length (rd_buf r))"

definition ReadInteger :: "platform \<Rightarrow> Endian \<Rightarrow> int_ty \<Rightarrow> u64 \<Rightarrow> reader \<Rightarrow> bool \<times> u64 \<times> reader" where
  "ReadInteger p e T val r =
     (let finalPos = rd_pos r + of_nat (sizeof_int T)
      in if finalPos \<le> rd_size r
         then (True, decode_int p e T (window (unat (rd_pos r)) (sizeof_int T) (rd_buf r)),
               r\<lparr>rd_pos := finalPos\<rparr>)
         else (False, val, r))"

definition ReadString_rest :: "reader \<Rightarrow> bytes \<times> reader" where
  "ReadString_rest r =
     (window (unat (rd_pos r)) (unat (rd_size r - rd_pos r)) (rd_buf r), r\<lparr>rd_pos := rd_size r\<rparr>)"

text \<open>
  \<open>std::string::append(ptr, n)\<close> on a cleared string: beyond \<open>max_size()\<close> it throws, otherwise it
  copies \<open>n\<close> bytes starting at offset \<open>i\<close> of the stream.
\<close>

definition append_range :: "bytes \<Rightarrow> nat \<Rightarrow> nat \<Rightarrow> bytes res" where
  "append_range buf i n =
     (if n > max_size then Inl Length_Error
      else if i + n > length buf then Inl Out_Of_Bounds
      else Inr (window i n buf))"

definition ReadString_len ::
    "platform \<Rightarrow> Endian \<Rightarrow> int_ty \<Rightarrow> bytes \<Rightarrow> reader \<Rightarrow> (bool \<times> bytes \<times> reader) res" where
  "ReadString_len p e T val r =
     (case ReadInteger p e T 0 r of (ok, len, r1) \<Rightarrow>
        if ok \<and> int_value T len \<ge> 0
        then let n = of_int (int_value T len) :: u64; finalPos = rd_pos r1 + n
             in if finalPos \<le> rd_size r1
                then (case append_range (rd_buf r1) (unat (rd_pos r1)) (unat n) of
                        Inl f \<Rightarrow> Inl f
                      | Inr s \<Rightarrow> Inr (True, s, r1\<lparr>rd_pos := finalPos\<rparr>))
                else Inr (False, val, r1)
        else Inr (False, val, r1))"

definition RemainingData :: "reader \<Rightarrow> nat option" where
  "RemainingData r = (if rd_size r > rd_pos r then Some (unat (rd_pos r)) else None)"

definition RemainingLength :: "reader \<Rightarrow> u64" where
  "RemainingLength r = rd_size r - rd_pos r"

definition CurrentPosition :: "reader \<Rightarrow> u64" where
  "CurrentPosition r = rd_pos r"

section \<open>Invariant\<close>

definition reader_inv :: "reader \<Rightarrow> bool" where
  "reader_inv r \<longleftrightarrow> length (rd_buf r) \<le> max_size \<and> unat (rd_pos r) \<le> length (rd_buf r)"

definition unread :: "reader \<Rightarrow> bytes" where
  "unread r = drop (unat (rd_pos r)) (rd_buf r)"

text \<open>The reader after \<open>n\<close> more bytes have been consumed.\<close>

definition skip :: "nat \<Rightarrow> reader \<Rightarrow> reader" where
  "skip n r = r\<lparr>rd_pos := rd_pos r + of_nat n\<rparr>"

lemma reader_advance:
  assumes "reader_inv r" and "n \<le> max_size"
  shows "unat (rd_pos r + of_nat n) = unat (rd_pos r) + n"
    and "rd_pos r + of_nat n \<le> rd_size r \<longleftrightarrow> n \<le> length (unread r)"
proof -
  have b: "unat (rd_pos r) + n < 2 ^ LENGTH(64)"
    using assms by (simp add: reader_inv_def)
  then show 1: "unat (rd_pos r + of_nat n) = unat (rd_pos r) + n"
    by (rule unat_plus_of_nat_small)
  have "unat (rd_size r) = length (rd_buf r)"
    using assms by (intro unat_of_nat_small) (simp add: reader_inv_def)
  with 1 assms show "rd_pos r + of_nat n \<le> rd_size r \<longleftrightarrow> n \<le> length (unread r)"
    by (auto simp: word_le_nat_alt reader_inv_def unread_def)
qed

lemma sizeof_int_bounds: "0 < sizeof_int T" "sizeof_int T \<le> 8"
  by (cases T; simp)+

lemma ReadInteger_eq:
  assumes "reader_inv r"
  shows "ReadInteger p e T val r =
    (if sizeof_int T \<le> length (unread r)
     then (True, decode_int p e T (take (sizeof_int T) (unread r)),
           skip (sizeof_int T) r)
     else (False, val, r))"
proof -
  have "sizeof_int T \<le> max_size" using sizeof_int_bounds(2)[of T] by simp
  then show ?thesis
    by (simp add: ReadInteger_def Let_def skip_def reader_advance(2)[OF assms] window_def unread_def)
qed

lemma length_unread_le: "reader_inv r \<Longrightarrow> length (unread r) \<le> max_size"
  unfolding reader_inv_def unread_def length_drop by linarith

lemma reader_advance_unread:
  assumes "reader_inv r" "n \<le> length (unread r)"
  shows "unat (rd_pos r + of_nat n) = unat (rd_pos r) + n"
  using assms length_unread_le by (intro reader_advance(1)) (auto intro: order.trans)

lemma unread_advance [simp]:
  assumes "reader_inv r" "n \<le> length (unread r)"
  shows "unread (skip n r) = drop n (unread r)"
  using reader_advance_unread [OF assms] by (simp add: unread_def skip_def add.commute)

lemma reader_inv_advance [inv_intros]:
  assumes "reader_inv r" "n \<le> length (unread r)"
  shows "reader_inv (skip n r)"
  using reader_advance_unread [OF assms] assms by (auto simp: reader_inv_def unread_def skip_def)

text \<open>The value of a length prefix.\<close>
lemma int_value_cast: "int_value T (cast_int T v) = int_value T v"
  by (cases T) (simp_all add: int_value_def cast_int_def signed_take_bit_take_bit unsigned_take_bit_eq)

lemma int_value_of_nat:
  assumes "n < (if is_signed_int T then 2 ^ (int_bits T - 1) else 2 ^ int_bits T)"
  shows "int_value T (of_nat n) = int n"
proof -
  show ?thesis using assms by (cases T) (simp_all add: int_value_def cast_int_def unsigned_take_bit_eq uint_nat unat_of_nat signed_take_bit_int_eq_self take_bit_int_eq_self take_bit_nat_eq_self)
qed


lemma int_value_range: "int_value T v < 2 ^ 64" "T \<noteq> UInt64 \<Longrightarrow> int_value T v < 2 ^ 63"
proof -
  show "int_value T v < 2 ^ 64"
    using unsigned_less [of v]
    by (cases T) (auto simp: int_value_def cast_int_def unsigned_take_bit_eq take_bit_int_less_exp
       intro: order.strict_trans1 [OF less_imp_le [OF signed_take_bit_int_less_exp]] order.strict_trans2 [OF take_bit_int_less_exp])
  show "T \<noteq> UInt64 \<Longrightarrow> int_value T v < 2 ^ 63"
    by (cases T) (auto simp: int_value_def cast_int_def unsigned_take_bit_eq 
       intro: order.strict_trans2 [OF signed_take_bit_int_less_exp] order.strict_trans2 [OF take_bit_int_less_exp])
qed

lemma read_range_eq:
  assumes inv: "reader_inv r" and n: "n < 2 ^ 64"
  shows "(if rd_pos r + of_nat n \<le> rd_size r
          then (case append_range (rd_buf r) (unat (rd_pos r)) n of
                  Inl f \<Rightarrow> Inl f | Inr s \<Rightarrow> Inr (True, s, skip n r))
          else Inr (False, val, r)) =
     (if n \<le> length (unread r)
      then Inr (True, take n (unread r), skip n r)
      else if unat (rd_pos r) + n \<ge> 2 ^ 64 then Inl Length_Error
      else Inr (False, val, r))"
proof (cases "n \<le> max_size")
  case True
  have "unat (rd_pos r) \<le> max_size" using inv unfolding reader_inv_def by linarith
  with True have "unat (rd_pos r) + n < 2 ^ 64" by simp
  with True inv show ?thesis
    by (auto simp: reader_advance(2) append_range_def window_def reader_inv_def unread_def skip_def)
next
  case False
  have bounds: "length (rd_buf r) \<le> max_size" "unat (rd_pos r) \<le> length (rd_buf r)"
    using inv by (auto simp: reader_inv_def)
  have size: "unat (rd_size r) = length (rd_buf r)"
    using bounds(1) by (intro unat_of_nat_small) simp
  have sum: "unat (rd_pos r + of_nat n) =
      (if unat (rd_pos r) + n \<ge> 2 ^ 64 then unat (rd_pos r) + n - 2 ^ 64 else unat (rd_pos r) + n)"
    using bounds n by (simp add: unat_word_ariths unat_of_nat mod_if take_bit_nat_eq_self)
  have "rd_pos r + of_nat n \<le> rd_size r \<longleftrightarrow> unat (rd_pos r) + n \<ge> 2 ^ 64"
    unfolding word_le_nat_alt size sum using bounds False n by auto
  moreover have "\<not> n \<le> length (unread r)"
    using False length_unread_le [OF inv] by linarith
  ultimately show ?thesis using False by (simp add: append_range_def)
qed

lemma ReadString_len_eq:
  assumes inv: "reader_inv r"
  shows "ReadString_len p e T val r =
    (if length (unread r) < sizeof_int T then Inr (False, val, r)
     else let len = int_value T (decode_int p e T (take (sizeof_int T) (unread r)));
              r1 = skip (sizeof_int T) r
          in if len < 0 then Inr (False, val, r1)
             else if nat len \<le> length (unread r1)
               then Inr (True, take (nat len) (unread r1), skip (nat len) r1)
             else if unat (rd_pos r1) + nat len \<ge> 2 ^ 64 then Inl Length_Error
             else Inr (False, val, r1))"
proof (cases "length (unread r) < sizeof_int T")
  case True
  then show ?thesis by (simp add: ReadString_len_def ReadInteger_eq [OF inv])
next
  case False
  define len where "len = int_value T (decode_int p e T (take (sizeof_int T) (unread r)))"
  define r1 where "r1 = skip (sizeof_int T) r"
  have inv1: "reader_inv r1" using False inv by (simp add: r1_def reader_inv_advance)
  have ri: "ReadInteger p e T 0 r = (True, decode_int p e T (take (sizeof_int T) (unread r)), r1)"
    using False by (simp add: ReadInteger_eq [OF inv] r1_def)
  show ?thesis
  proof (cases "len < 0")
    case True
    then show ?thesis using False ri by (simp add: ReadString_len_def len_def r1_def Let_def)
  next
    case nn: False
    define n where "n = nat len"
    have n: "len = int n" using nn by (simp add: n_def)
    have "n < 2 ^ 64" using int_value_range(1) [of T] n by (metis len_def of_nat_less_iff of_nat_numeral of_nat_power)
    then have un: "unat (of_nat n :: u64) = n" by (intro unat_of_nat_small) simp
    have key: "ReadString_len p e T val r =
       (if rd_pos r1 + of_nat n \<le> rd_size r1
                then (case append_range (rd_buf r1) (unat (rd_pos r1)) n of
                        Inl f \<Rightarrow> Inl f
                      | Inr s \<Rightarrow> Inr (True, s, skip n r1))
                else Inr (False, val, r1))"
      unfolding skip_def [of n] using ri nn n un
      by (simp add: ReadString_len_def Let_def flip: len_def)
    note key [unfolded read_range_eq [OF inv1 \<open>n < 2 ^ 64\<close>]]
    then show ?thesis using False nn by (simp add: Let_def n_def flip: len_def r1_def)
  qed
qed


section \<open>Messages: what the writer writes, the reader reads\<close>

datatype field = FInt int_ty u64 | FStr int_ty bytes
datatype shape = SInt int_ty | SStr int_ty

fun shape_of :: "field \<Rightarrow> shape" where
  "shape_of (FInt T v) = SInt T"
| "shape_of (FStr T s) = SStr T"

fun write_field :: "platform \<Rightarrow> Endian \<Rightarrow> field \<Rightarrow> bytes \<Rightarrow> bytes" where
  "write_field p e (FInt T v) buf = WriteInteger p e T v buf"
| "write_field p e (FStr T s) buf = WriteString_len p e T s buf"

fun write_fields :: "platform \<Rightarrow> Endian \<Rightarrow> field list \<Rightarrow> bytes \<Rightarrow> bytes" where
  "write_fields p e [] buf = buf"
| "write_fields p e (f # fs) buf = write_fields p e fs (write_field p e f buf)"

fun read_field :: "platform \<Rightarrow> Endian \<Rightarrow> shape \<Rightarrow> reader \<Rightarrow> (field \<times> reader) option" where
  "read_field p e (SInt T) r =
     (case ReadInteger p e T 0 r of (ok, v, r1) \<Rightarrow> if ok then Some (FInt T v, r1) else None)"
| "read_field p e (SStr T) r =
     (case ReadString_len p e T [] r of
        Inl _ \<Rightarrow> None
      | Inr (ok, s, r1) \<Rightarrow> if ok then Some (FStr T s, r1) else None)"

fun read_fields :: "platform \<Rightarrow> Endian \<Rightarrow> shape list \<Rightarrow> reader \<Rightarrow> (field list \<times> reader) option" where
  "read_fields p e [] r = Some ([], r)"
| "read_fields p e (sh # shs) r =
     (case read_field p e sh r of
        None \<Rightarrow> None
      | Some (f, r1) \<Rightarrow>
          (case read_fields p e shs r1 of None \<Rightarrow> None | Some (fs, r2) \<Rightarrow> Some (f # fs, r2)))"

text \<open>A field its type can carry: a value of the type, a string whose length is one.\<close>

fun fits :: "field \<Rightarrow> bool" where
  "fits (FInt T v) \<longleftrightarrow> cast_int T v = v"
| "fits (FStr T s) \<longleftrightarrow>
     length s < (if is_signed_int T then 2 ^ (int_bits T - 1) else 2 ^ int_bits T)"

fun field_bytes :: "platform \<Rightarrow> Endian \<Rightarrow> field \<Rightarrow> bytes" where
  "field_bytes p e (FInt T v) = encode_int p e T v"
| "field_bytes p e (FStr T s) = encode_int p e T (cast_int T (of_nat (length s))) @ s"

lemma write_fields_eq: "write_fields p e fs buf = buf @ concat (map (field_bytes p e) fs)"
proof (induction fs arbitrary: buf)
  case (Cons f fs)
  then show ?case by (cases f) (simp_all add: wire_simps)
qed simp

lemma read_field_eq:
  assumes inv: "reader_inv r" and "fits f" and un: "unread r = field_bytes p e f @ rest"
  shows "\<exists>r1. read_field q e (shape_of f) r = Some (f, r1) \<and> reader_inv r1 \<and> unread r1 = rest"
proof (cases f)
  case (FInt T v)
  with assms show ?thesis
    by (auto simp: ReadInteger_eq reader_inv_advance)
next
  case (FStr T s)
  let ?r1 = "skip (sizeof_int T) r"
  have len: "sizeof_int T \<le> length (unread r)" using un FStr by simp
  then have un1: "unread ?r1 = s @ rest"
    using inv un FStr by (subst unread_advance) auto
  have inv1: "reader_inv ?r1" using inv len by (rule reader_inv_advance)
  have "int_value T (decode_int q e T (take (sizeof_int T) (unread r))) = int (length s)"
    using un FStr \<open>fits f\<close> by (simp add: int_value_cast int_value_of_nat)
  then have "ReadString_len q e T [] r =
      Inr (True, s, skip (length s) ?r1)"
    using len un1 by (simp add: ReadString_len_eq [OF inv] Let_def)
  moreover have "length s \<le> length (unread ?r1)" by (simp only: un1) simp
  ultimately show ?thesis
    using FStr inv1 un1 by (auto simp: reader_inv_advance)
qed

lemma read_fields_eq:
  "reader_inv r \<Longrightarrow> list_all fits fs \<Longrightarrow> unread r = concat (map (field_bytes p e) fs) @ rest \<Longrightarrow>
     \<exists>r1. read_fields q e (map shape_of fs) r = Some (fs, r1) \<and> reader_inv r1 \<and> unread r1 = rest"
proof (induction fs arbitrary: r)
  case (Cons f fs)
  then obtain r1 where "read_field q e (shape_of f) r = Some (f, r1)" "reader_inv r1"
      "unread r1 = concat (map (field_bytes p e) fs) @ rest"
    using read_field_eq [of r f p e _ q] by auto
  with Cons.IH [of r1] Cons.prems(2) show ?case by auto
qed simp

lemma reader_of_inv [inv_intros]: "length s \<le> max_size \<Longrightarrow> reader_inv (reader_of s)"
  by (simp add: reader_inv_def reader_of_def)

lemma rd_pos_reader_of: "rd_pos (reader_of s) = 0"
  by (simp add: reader_of_def)

lemma unread_reader_of [simp]: "unread (reader_of s) = s"
  by (simp add: unread_def reader_of_def)

text \<open>
  C1: A message written field by field with \<open>BinaryWriter\<close> (integers of any supported type, strings
  with a length prefix of any supported type) is read back by \<open>BinaryReader\<close> on any platform: every
  read succeeds, returns the field that was written, and leaves exactly the bytes that follow the
  message unread.
\<close>

theorem message_round_trip:
  assumes "list_all fits fs" and "length (write_fields p e fs [] @ rest) \<le> max_size"
  shows "\<exists>r. read_fields q e (map shape_of fs) (reader_of (write_fields p e fs [] @ rest)) = Some (fs, r)
    \<and> unread r = rest"
  using read_fields_eq [OF reader_of_inv [OF assms(2)] assms(1), of p e rest q]
  by (auto simp: write_fields_eq)

theorem message_round_trip_witness:
  "\<exists>r. read_fields \<lparr>byte_order = LittleEndian, is_linux = True\<rparr> BigEndian [SInt UInt16, SStr Int8]
        (reader_of (write_fields \<lparr>byte_order = BigEndian, is_linux = False\<rparr> BigEndian
           [FInt UInt16 0x1234, FStr Int8 [7, 8, 9]] [] @ [1])) =
      Some ([FInt UInt16 0x1234, FStr Int8 [7, 8, 9]], r) \<and> unread r = [1]"
  using message_round_trip [of "[FInt UInt16 0x1234, FStr Int8 [7, 8, 9]]"
      "\<lparr>byte_order = BigEndian, is_linux = False\<rparr>" BigEndian "[1]"
      "\<lparr>byte_order = LittleEndian, is_linux = True\<rparr>"]
  by (simp add: write_fields_eq cast_int_def)

text \<open>
  Reading a length-prefixed string is memory safe for every prefix type but \<open>uint64_t\<close>: from a
  well-formed reader it never faults, keeps the reader well formed, never moves the position back,
  and on success returns exactly the bytes between the prefix and the new position. On failure the
  output string is untouched.
\<close>

theorem ReadString_len_safe:
  assumes "reader_inv r" and "T \<noteq> UInt64"
  shows "\<exists>ok s r'. ReadString_len p e T val r = Inr (ok, s, r') \<and> reader_inv r' \<and>
    rd_pos r \<le> rd_pos r' \<and> (if ok then drop (sizeof_int T) (unread r) = s @ unread r' else s = val)"
proof -
  let ?r1 = "skip (sizeof_int T) r"
  let ?len = "int_value T (decode_int p e T (take (sizeof_int T) (unread r)))"
  have mono: "rd_pos q \<le> rd_pos (skip n q)" if "reader_inv q" "n \<le> length (unread q)" for q n
    using reader_advance_unread [OF that] by (simp add: skip_def word_le_nat_alt)
  show ?thesis
  proof (cases "length (unread r) < sizeof_int T")
    case True
    with assms have "ReadString_len p e T val r = Inr (False, val, r)"
      by (simp add: ReadString_len_eq)
    with assms show ?thesis by (intro exI [of _ False] exI [of _ val] exI [of _ r]) simp
  next
    case False
    then have inv1: "reader_inv ?r1" and un1: "unread ?r1 = drop (sizeof_int T) (unread r)"
      and le1: "rd_pos r \<le> rd_pos ?r1"
      using assms mono by (auto intro: reader_inv_advance)
    have "unat (rd_pos ?r1) \<le> max_size" using inv1 unfolding reader_inv_def by linarith
    moreover have "nat ?len \<le> max_size"
      using int_value_range(2) [OF assms(2), of "decode_int p e T (take (sizeof_int T) (unread r))"]
      by simp
    ultimately have nowrap: "\<not> unat (rd_pos ?r1) + nat ?len \<ge> 2 ^ 64" by simp
    show ?thesis
    proof (cases "\<not> ?len < 0 \<and> nat ?len \<le> length (unread ?r1)")
      case True
      then have "ReadString_len p e T val r = Inr (True, take (nat ?len) (unread ?r1), skip (nat ?len) ?r1)"
        using False assms(1) by (simp only: ReadString_len_eq Let_def if_False if_True)
      moreover have "rd_pos r \<le> rd_pos (skip (nat ?len) ?r1)"
        using le1 mono [OF inv1] True by (blast intro: order.trans)
      moreover have "reader_inv (skip (nat ?len) ?r1)"
        and "unread (skip (nat ?len) ?r1) = drop (nat ?len) (unread ?r1)"
        using True inv1 by (auto intro: reader_inv_advance)
      ultimately show ?thesis
        by (intro exI [of _ True] exI [of _ "take (nat ?len) (unread ?r1)"]
            exI [of _ "skip (nat ?len) ?r1"]) (simp add: un1 del: drop_drop)
    next
      case fail: False
      then have "ReadString_len p e T val r = Inr (False, val, ?r1)"
        using False assms(1) nowrap by (auto simp only: ReadString_len_eq Let_def if_False if_True split: if_split)
      then show ?thesis using inv1 le1 by (intro exI [of _ False] exI [of _ val] exI [of _ ?r1]) simp
    qed
  qed
qed

theorem ReadString_len_safe_witness:
  "\<exists>ok s r'. ReadString_len \<lparr>byte_order = LittleEndian, is_linux = True\<rparr> LittleEndian UInt8 []
      (reader_of [2, 5, 6, 7]) = Inr (ok, s, r') \<and> reader_inv r' \<and>
      rd_pos (reader_of [2, 5, 6, 7]) \<le> rd_pos r' \<and>
      (if ok then drop (sizeof_int UInt8) (unread (reader_of [2, 5, 6, 7])) = s @ unread r' else s = [])"
  by (rule ReadString_len_safe) (simp_all add: reader_of_inv)



end
