(* ===== verification/Binary_Buffer.thy ===== *)
theory Binary_Buffer
  imports Endian
begin

text \<open>
  Model of \<open>encoding/binary/binary_buffer.h\<close>. The heap block is a list of cells, \<open>None\<close> for a byte
  that \<open>new char[n]\<close> left uninitialised; \<open>head_\<close> and \<open>tail_\<close> are offsets into it. The counters keep
  their widths (\<open>uint8_t\<close>, \<open>uint32_t\<close>), a failed \<open>assert\<close> and a store outside the block are faults.
  \<open>Clear\<close> follows the source statement by statement; its wrap-around is harmless under the invariant.
\<close>

record bbuf =
  prependableBytes :: u8
  headCap :: u8
  tailCap :: u32
  block :: "u8 option list"
  head :: nat
  tail :: nat

definition BinaryBuffer :: "u32 \<Rightarrow> u8 \<Rightarrow> bbuf res" where
  "BinaryBuffer reserved prep =
     (if \<not> (prep \<le> 200 \<and> reserved > 0) then Inl Assert_Failed
      else if \<not> (ucast prep + ucast reserved \<le> (0xFFFFFFFF :: u64)) then Inl Assert_Failed
      else Inr \<lparr>prependableBytes = prep, headCap = prep, tailCap = reserved,
             block = replicate (unat (ucast prep + reserved)) None,
             head = unat prep, tail = unat prep\<rparr>)"

definition Size :: "bbuf \<Rightarrow> u32" where
  "Size b = of_nat (tail b - head b)"

definition Data :: "bbuf \<Rightarrow> u8 option list" where
  "Data b = window (head b) (tail b - head b) (block b)"

definition Clear :: "bbuf \<Rightarrow> bbuf" where
  "Clear b =
     (let size = Size b; prependedBytes = ucast (prependableBytes b) - ucast (headCap b);
          h = head b + unat prependedBytes
      in b\<lparr>head := h, tail := h, headCap := prependableBytes b,
           tailCap := size - prependedBytes + tailCap b\<rparr>)"

text \<open>A store of initialised bytes through a pointer into the block.\<close>

definition store :: "nat \<Rightarrow> bytes \<Rightarrow> bbuf \<Rightarrow> bbuf res" where
  "store i bs b =
     (if i + length bs \<le> length (block b) then Inr (b\<lparr>block := splice_at i (map Some bs) (block b)\<rparr>)
      else Inl Out_Of_Bounds)"

text \<open>\<open>head_ -= n\<close>, store, \<open>headCap_ -= n\<close>: the common part of the prepending operations.\<close>

definition prepend_raw :: "bytes \<Rightarrow> bbuf \<Rightarrow> bbuf res" where
  "prepend_raw bs b =
     (if length bs > head b then Inl Out_Of_Bounds
      else case store (head b - length bs) bs (b\<lparr>head := head b - length bs\<rparr>) of
             Inl f \<Rightarrow> Inl f
           | Inr b1 \<Rightarrow> Inr (b1\<lparr>headCap := headCap b1 - of_nat (length bs)\<rparr>))"

definition PrependInteger :: "platform \<Rightarrow> Endian \<Rightarrow> int_ty \<Rightarrow> u64 \<Rightarrow> bbuf \<Rightarrow> bbuf res" where
  "PrependInteger p e T val b =
     (if \<not> sizeof_int T \<le> unat (headCap b) then Inl Assert_Failed
      else prepend_raw (encode_int p e T val) b)"

definition PrependString :: "bytes \<Rightarrow> bbuf \<Rightarrow> bbuf res" where
  "PrependString val b =
     (if \<not> length val \<le> unat (headCap b) then Inl Assert_Failed else prepend_raw val b)"

definition PrependString_ptr :: "bytes \<Rightarrow> nat \<Rightarrow> bbuf \<Rightarrow> bbuf res" where
  "PrependString_ptr s len b =
     (if \<not> len \<le> unat (headCap b) then Inl Assert_Failed
      else if len > length s then Inl Out_Of_Bounds
      else prepend_raw (take len s) b)"

definition PrependString_len :: "platform \<Rightarrow> Endian \<Rightarrow> int_ty \<Rightarrow> bytes \<Rightarrow> bbuf \<Rightarrow> bbuf res" where
  "PrependString_len p e T val b =
     (case PrependString val b of
        Inl f \<Rightarrow> Inl f
      | Inr b1 \<Rightarrow> PrependInteger p e T (cast_int T (of_nat (length val))) b1)"

definition PrependString_ptr_len :: "platform \<Rightarrow> Endian \<Rightarrow> int_ty \<Rightarrow> bytes \<Rightarrow> nat \<Rightarrow> bbuf \<Rightarrow> bbuf res" where
  "PrependString_ptr_len p e T s len b =
     (case PrependString_ptr s len b of
        Inl f \<Rightarrow> Inl f
      | Inr b1 \<Rightarrow> PrependInteger p e T (cast_int T (of_nat len)) b1)"

definition grow :: "u32 \<Rightarrow> bbuf \<Rightarrow> bbuf res" where
  "grow appendingBytes b =
     (if tailCap b \<ge> appendingBytes then Inr b
      else let size = Size b;
               curSize = ucast (headCap b) + ucast size + ucast (tailCap b) :: u64;
               newSize = ((curSize + ucast appendingBytes) div 1024 + 1) * 1024
           in if \<not> newSize \<le> 0xFFFFFFFF then Inl Assert_Failed
              else Inr (b\<lparr>block := splice_at (unat (headCap b)) (window (head b) (unat size) (block b))
                                    (replicate (unat newSize) None),
                          head := unat (headCap b), tail := unat (headCap b) + unat size,
                          tailCap := ucast (ucast (tailCap b) + (newSize - curSize))\<rparr>))"

text \<open>Store at \<open>tail_\<close>, \<open>tail_ += n\<close>, \<open>tailCap_ -= n\<close>: the common part of the appending operations.\<close>

definition append_raw :: "bytes \<Rightarrow> bbuf \<Rightarrow> bbuf res" where
  "append_raw bs b =
     (case store (tail b) bs b of
        Inl f \<Rightarrow> Inl f
      | Inr b1 \<Rightarrow> Inr (b1\<lparr>tail := tail b1 + length bs, tailCap := tailCap b1 - of_nat (length bs)\<rparr>))"

definition AppendInteger :: "platform \<Rightarrow> Endian \<Rightarrow> int_ty \<Rightarrow> u64 \<Rightarrow> bbuf \<Rightarrow> bbuf res" where
  "AppendInteger p e T val b =
     (case grow (of_nat (sizeof_int T)) b of
        Inl f \<Rightarrow> Inl f
      | Inr b1 \<Rightarrow> append_raw (encode_int p e T val) b1)"

text \<open>\<open>grow\<close> takes a \<open>uint32_t\<close>: the \<open>size_t\<close> length is truncated on the call.\<close>

definition AppendString :: "bytes \<Rightarrow> bbuf \<Rightarrow> bbuf res" where
  "AppendString val b =
     (case grow (of_nat (length val)) b of Inl f \<Rightarrow> Inl f | Inr b1 \<Rightarrow> append_raw val b1)"

definition AppendString_ptr :: "bytes \<Rightarrow> nat \<Rightarrow> bbuf \<Rightarrow> bbuf res" where
  "AppendString_ptr s len b =
     (case grow (of_nat len) b of
        Inl f \<Rightarrow> Inl f
      | Inr b1 \<Rightarrow> if len > length s then Inl Out_Of_Bounds else append_raw (take len s) b1)"

definition AppendString_len :: "platform \<Rightarrow> Endian \<Rightarrow> int_ty \<Rightarrow> bytes \<Rightarrow> bbuf \<Rightarrow> bbuf res" where
  "AppendString_len p e T val b =
     (case AppendInteger p e T (cast_int T (of_nat (length val))) b of
        Inl f \<Rightarrow> Inl f
      | Inr b1 \<Rightarrow> AppendString val b1)"

definition AppendString_ptr_len :: "platform \<Rightarrow> Endian \<Rightarrow> int_ty \<Rightarrow> bytes \<Rightarrow> nat \<Rightarrow> bbuf \<Rightarrow> bbuf res" where
  "AppendString_ptr_len p e T s len b =
     (case AppendInteger p e T (cast_int T (of_nat len)) b of
        Inl f \<Rightarrow> Inl f
      | Inr b1 \<Rightarrow> AppendString_ptr s len b1)"

section \<open>Invariant\<close>

text \<open>
  The head room lies at the front of the block and never exceeds what was reserved for it, the
  tail room at its end, the block has a 32-bit size, and every byte of the contents is initialised.
\<close>

definition bbuf_inv :: "bbuf \<Rightarrow> bool" where
  "bbuf_inv b \<longleftrightarrow>
     head b = unat (headCap b) \<and> headCap b \<le> prependableBytes b \<and> prependableBytes b \<le> 200 \<and>
     head b \<le> tail b \<and> tail b + unat (tailCap b) = length (block b) \<and>
     unat (prependableBytes b) \<le> tail b \<and>
     length (block b) < 2 ^ 32 \<and> list_all (\<lambda>c. c \<noteq> None) (Data b)"

definition contents :: "bbuf \<Rightarrow> bytes" where
  "contents b = map the (Data b)"

section \<open>The operations under the invariant\<close>

lemma prepend_raw_ok:
  assumes inv: "bbuf_inv b" and room: "length bs \<le> unat (headCap b)"
  shows "\<exists>b'. prepend_raw bs b = Inr b' \<and> bbuf_inv b' \<and> contents b' = bs @ contents b \<and>
    unat (headCap b') = unat (headCap b) - length bs \<and> length (block b') = length (block b) \<and>
    prependableBytes b' = prependableBytes b"
proof -
  let ?h = "head b - length bs"
  let ?b' = "b\<lparr>head := ?h, block := splice_at ?h (map Some bs) (block b),
                headCap := headCap b - of_nat (length bs)\<rparr>"
  have hd: "head b = unat (headCap b)" "head b \<le> tail b" "tail b \<le> length (block b)"
    using inv by (auto simp: bbuf_inv_def)
  have lbs: "unat (of_nat (length bs) :: u8) = length bs"
    using room by (rule unat_of_nat_le)
  then have le: "of_nat (length bs) \<le> headCap b" using room by (simp add: word_le_nat_alt)
  have cap: "unat (headCap b - of_nat (length bs)) = unat (headCap b) - length bs"
    using unat_minus_small [OF le] lbs by simp
  have eq: "prepend_raw bs b = Inr ?b'"
    using hd room by (simp add: prepend_raw_def store_def)
  have data: "Data ?b' = map Some bs @ Data b"
    using hd room window_splice_before [of ?h "map Some bs" "head b" "tail b - head b" "block b"]
    by (simp add: Data_def add.commute)
  have "bbuf_inv ?b'"
    using inv hd room cap data by (auto simp: bbuf_inv_def word_le_nat_alt list_all_iff)
  with eq data cap hd room show ?thesis
    by (intro exI [of _ ?b']) (simp add: contents_def)
qed

lemma append_raw_ok:
  assumes inv: "bbuf_inv b" and room: "length bs \<le> unat (tailCap b)"
  shows "\<exists>b'. append_raw bs b = Inr b' \<and> bbuf_inv b' \<and> contents b' = contents b @ bs \<and>
    headCap b' = headCap b \<and> length (block b') = length (block b) \<and>
    prependableBytes b' = prependableBytes b"
proof -
  let ?b' = "b\<lparr>block := splice_at (tail b) (map Some bs) (block b), tail := tail b + length bs,
                tailCap := tailCap b - of_nat (length bs)\<rparr>"
  have tl: "head b \<le> tail b" "tail b + unat (tailCap b) = length (block b)"
    using inv by (auto simp: bbuf_inv_def)
  have lbs: "unat (of_nat (length bs) :: u32) = length bs"
    using room by (rule unat_of_nat_le)
  then have le: "of_nat (length bs) \<le> tailCap b" using room by (simp add: word_le_nat_alt)
  have cap: "unat (tailCap b - of_nat (length bs)) = unat (tailCap b) - length bs"
    using unat_minus_small [OF le] lbs by simp
  have eq: "append_raw bs b = Inr ?b'"
    using tl room by (simp add: append_raw_def store_def)
  have data: "Data ?b' = Data b @ map Some bs"
    using tl room window_splice_after [of "head b" "tail b - head b" "tail b" "map Some bs" "block b"]
    by (simp add: Data_def)
  have "bbuf_inv ?b'"
    using inv tl room cap data by (auto simp: bbuf_inv_def list_all_iff)
  with eq data tl room show ?thesis
    by (intro exI [of _ ?b']) (simp add: contents_def)
qed

lemma unat_Size: "bbuf_inv b \<Longrightarrow> unat (Size b) = tail b - head b"
  unfolding Size_def by (intro unat_of_nat_small) (auto simp: bbuf_inv_def)

lemma unat_widened_sum:
  "unat (d :: u64) = k \<Longrightarrow> unat (t :: u32) + k < 2 ^ 32 \<Longrightarrow>
     unat (ucast (ucast t + d) :: u32) = unat t + k"
  by (simp add: unsigned_ucast_eq unat_word_ariths unat_ucast_up take_bit_nat_eq_self)

lemma grow_ok:
  assumes inv: "bbuf_inv b" and limit: "length (block b) + unat n + 1024 < 2 ^ 32"
  shows "\<exists>b'. grow n b = Inr b' \<and> bbuf_inv b' \<and> contents b' = contents b \<and> headCap b' = headCap b \<and>
    n \<le> tailCap b' \<and> length (block b') \<le> length (block b) + unat n + 1024 \<and>
    prependableBytes b' = prependableBytes b"
proof (cases "tailCap b \<ge> n")
  case True
  then show ?thesis using inv by (simp add: grow_def)
next
  case False
  let ?L = "length (block b)"
  let ?cur = "ucast (headCap b) + ucast (Size b) + ucast (tailCap b) :: u64"
  let ?new = "((?cur + ucast n) div 1024 + 1) * 1024"
  define N where "N = ((?L + unat n) div 1024 + 1) * 1024"
  have I: "head b = unat (headCap b)" "head b \<le> tail b" "tail b + unat (tailCap b) = ?L" "?L < 2 ^ 32"
    using inv by (auto simp: bbuf_inv_def)
  have cur: "unat ?cur = ?L"
    using I by (simp add: unat_word_ariths unat_ucast_up unat_Size [OF inv])
  have N: "?L + unat n < N" "N \<le> ?L + unat n + 1024" by (auto simp: N_def)
  have new: "unat ?new = N"
    using cur limit by (simp add: unat_word_ariths unat_ucast_up unat_div N_def)
  have "unat (?new - ?cur) = N - ?L"
    using N cur new by (subst unat_minus_small) (auto simp: word_le_nat_alt)
  then have tc: "unat (ucast (ucast (tailCap b) + (?new - ?cur)) :: u32) = unat (tailCap b) + (N - ?L)"
    using N I limit by (intro unat_widened_sum) simp_all
  let ?b' = "b\<lparr>block := splice_at (unat (headCap b)) (window (head b) (unat (Size b)) (block b))
                         (replicate N None),
              head := unat (headCap b), tail := unat (headCap b) + unat (Size b),
              tailCap := ucast (ucast (tailCap b) + (?new - ?cur))\<rparr>"
  have "?new \<le> 0xFFFFFFFF" using new N limit by (simp add: word_le_nat_alt)
  then have eq: "grow n b = Inr ?b'"
    using False new by (simp add: grow_def Let_def)
  have fits: "unat (headCap b) + (tail b - head b) \<le> N" using I N by linarith
  have data: "Data ?b' = Data b"
    using I fits by (simp add: Data_def unat_Size [OF inv])
  have "bbuf_inv ?b'"
    using inv I tc N limit data fits by (simp add: bbuf_inv_def unat_Size [OF inv])
  moreover have "n \<le> tailCap ?b'"
    using tc I N by (simp add: word_le_nat_alt)
  ultimately show ?thesis
    using eq data N I fits by (intro exI [of _ ?b']) (simp add: contents_def unat_Size [OF inv])
qed

section \<open>The contract: a byte sequence that grows at both ends\<close>

text \<open>
  What users of a framing buffer rely on: appending and prepending extend the contents at the
  respective end whenever the operation is within the buffer's limits, and clearing restores the
  room in front. \<open>cap\<close> bounds the memory in use, \<open>room\<close> is what may still be prepended.
\<close>

locale framing_buffer =
  fixes inv :: "'b \<Rightarrow> bool" and data :: "'b \<Rightarrow> bytes" and room :: "'b \<Rightarrow> nat" and cap :: "'b \<Rightarrow> nat"
    and reserve :: "'b \<Rightarrow> nat"
    and append :: "bytes \<Rightarrow> 'b \<Rightarrow> 'b res" and prepend :: "bytes \<Rightarrow> 'b \<Rightarrow> 'b res" and clear :: "'b \<Rightarrow> 'b"
  assumes append_ok: "inv b \<Longrightarrow> cap b + length s + 1024 < 2 ^ 32 \<Longrightarrow>
      \<exists>b'. append s b = Inr b' \<and> inv b' \<and> data b' = data b @ s \<and> room b' = room b \<and>
        reserve b' = reserve b \<and> cap b' \<le> cap b + length s + 1024"
    and prepend_ok: "inv b \<Longrightarrow> length s \<le> room b \<Longrightarrow>
      \<exists>b'. prepend s b = Inr b' \<and> inv b' \<and> data b' = s @ data b \<and> room b' = room b - length s \<and>
        reserve b' = reserve b \<and> cap b' = cap b"
    and clear_ok: "inv b \<Longrightarrow> inv (clear b) \<and> data (clear b) = [] \<and> room (clear b) = reserve b \<and>
        reserve (clear b) = reserve b \<and> cap (clear b) = cap b"
begin

fun append_all :: "bytes list \<Rightarrow> 'b \<Rightarrow> 'b res" where
  "append_all [] b = Inr b"
| "append_all (s # ss) b = (case append s b of Inl f \<Rightarrow> Inl f | Inr b' \<Rightarrow> append_all ss b')"

lemma append_all_ok:
  "inv b \<Longrightarrow> cap b + length (concat ss) + 1024 * length ss < 2 ^ 32 \<Longrightarrow>
     \<exists>b'. append_all ss b = Inr b' \<and> inv b' \<and> data b' = data b @ concat ss \<and> room b' = room b \<and>
       reserve b' = reserve b"
proof (induction ss arbitrary: b)
  case (Cons s ss)
  then obtain b' where "append s b = Inr b'" "inv b'" "data b' = data b @ s" "room b' = room b"
    "reserve b' = reserve b" "cap b' \<le> cap b + length s + 1024"
    using append_ok [of b s] by auto
  with Cons.IH [of b'] Cons.prems show ?case by auto
qed simp

lemma frame_ok:
  assumes "inv b" and "cap b + length (concat ss) + 1024 * length ss < 2 ^ 32" and "length h \<le> reserve b"
  shows "\<exists>b1 b2. append_all ss (clear b) = Inr b1 \<and> prepend h b1 = Inr b2 \<and>
    inv b2 \<and> data b2 = h @ concat ss"
proof -
  from append_all_ok [of "clear b" ss] clear_ok [OF assms(1)] assms(2)
  obtain b1 where "append_all ss (clear b) = Inr b1" "inv b1" "data b1 = concat ss" "room b1 = reserve b"
    by auto
  with prepend_ok [of b1 h] assms(3) show ?thesis by fastforce
qed

end

lemma Clear_ok:
  assumes inv: "bbuf_inv b"
  shows "bbuf_inv (Clear b) \<and> contents (Clear b) = [] \<and> headCap (Clear b) = prependableBytes b \<and>
    prependableBytes (Clear b) = prependableBytes b \<and> length (block (Clear b)) = length (block b)"
proof -
  let ?k = "ucast (prependableBytes b) - ucast (headCap b) :: u32"
  have I: "head b = unat (headCap b)" "headCap b \<le> prependableBytes b" "prependableBytes b \<le> 200"
    "head b \<le> tail b" "tail b + unat (tailCap b) = length (block b)"
    "unat (prependableBytes b) \<le> tail b" "length (block b) < 2 ^ 32"
    using inv by (auto simp: bbuf_inv_def)
  have k: "unat ?k = unat (prependableBytes b) - unat (headCap b)"
    using I(2) by (subst unat_minus_small) (auto simp: word_le_nat_alt unat_ucast_up)
  have "?k \<le> Size b"
    using I k by (simp add: word_le_nat_alt unat_Size [OF inv])
  then have "unat (Size b - ?k + tailCap b) = tail b - head b - unat ?k + unat (tailCap b)"
    using I k by (subst unat_plus_small) (simp_all add: unat_minus_small unat_Size [OF inv])
  with I k show ?thesis
    by (simp add: Clear_def Let_def bbuf_inv_def contents_def Data_def word_le_nat_alt)
qed

lemma AppendString_ok:
  assumes "bbuf_inv b" and "length (block b) + length s + 1024 < 2 ^ 32"
  shows "\<exists>b'. AppendString s b = Inr b' \<and> bbuf_inv b' \<and> contents b' = contents b @ s \<and>
    headCap b' = headCap b \<and> prependableBytes b' = prependableBytes b \<and>
    length (block b') \<le> length (block b) + length s + 1024"
proof -
  have n: "unat (of_nat (length s) :: u32) = length s"
    using assms(2) by (intro unat_of_nat_small) simp
  then obtain b1 where "grow (of_nat (length s)) b = Inr b1" "bbuf_inv b1" "contents b1 = contents b"
    "headCap b1 = headCap b" "length s \<le> unat (tailCap b1)" "prependableBytes b1 = prependableBytes b"
    "length (block b1) \<le> length (block b) + length s + 1024"
    using grow_ok [OF assms(1), of "of_nat (length s)"] assms(2) by (auto simp: word_le_nat_alt)
  with append_raw_ok [of b1 s] show ?thesis by (auto simp: AppendString_def)
qed

interpretation bb: framing_buffer bbuf_inv contents "\<lambda>b. unat (headCap b)" "\<lambda>b. length (block b)"
  "\<lambda>b. unat (prependableBytes b)" AppendString PrependString Clear
proof
  fix b :: bbuf and s :: bytes
  assume inv: "bbuf_inv b"
  show "length (block b) + length s + 1024 < 2 ^ 32 \<Longrightarrow>
      \<exists>b'. AppendString s b = Inr b' \<and> bbuf_inv b' \<and> contents b' = contents b @ s \<and>
        unat (headCap b') = unat (headCap b) \<and>
        unat (prependableBytes b') = unat (prependableBytes b) \<and>
        length (block b') \<le> length (block b) + length s + 1024"
    using AppendString_ok [OF inv] by metis
  show "length s \<le> unat (headCap b) \<Longrightarrow>
      \<exists>b'. PrependString s b = Inr b' \<and> bbuf_inv b' \<and> contents b' = s @ contents b \<and>
        unat (headCap b') = unat (headCap b) - length s \<and>
        unat (prependableBytes b') = unat (prependableBytes b) \<and> length (block b') = length (block b)"
    using prepend_raw_ok [OF inv, of s] by (auto simp: PrependString_def)
  show "bbuf_inv (Clear b) \<and> contents (Clear b) = [] \<and>
      unat (headCap (Clear b)) = unat (prependableBytes b) \<and>
      unat (prependableBytes (Clear b)) = unat (prependableBytes b) \<and>
      length (block (Clear b)) = length (block b)"
    using Clear_ok [OF inv] by simp
qed

lemma BinaryBuffer_inv [inv_intros]: "BinaryBuffer r k = Inr b \<Longrightarrow> bbuf_inv b \<and> contents b = []"
proof -
  assume ok: "BinaryBuffer r k = Inr b"
  have "unat (ucast k + ucast r :: u64) = unat k + unat r"
    using unsigned_less [of k, where ?'a = nat] unsigned_less [of r, where ?'a = nat]
    by (subst unat_plus_small) (simp_all add: unat_ucast_up)
  with ok have c: "k \<le> 200" "unat k + unat r < 2 ^ 32"
    by (auto simp: BinaryBuffer_def word_le_nat_alt unat_plus_small unat_ucast_up split: if_splits)
  then have "unat (ucast k + r) = unat k + unat r"
    by (subst unat_plus_small) (simp_all add: unat_ucast_up)
  with ok c show ?thesis
    by (auto simp: BinaryBuffer_def bbuf_inv_def contents_def Data_def split: if_splits)
qed

lemma AppendInteger_ok:
  assumes "bbuf_inv b" and "length (block b) + 8 + 1024 < 2 ^ 32"
  shows "\<exists>b'. AppendInteger p e T v b = Inr b' \<and> bbuf_inv b' \<and>
    contents b' = contents b @ encode_int p e T v \<and> headCap b' = headCap b"
proof -
  have n: "unat (of_nat (sizeof_int T) :: u32) = sizeof_int T" by (cases T) auto
  moreover have "sizeof_int T \<le> 8" by (cases T) auto
  ultimately obtain b1 where "grow (of_nat (sizeof_int T)) b = Inr b1" "bbuf_inv b1"
      "contents b1 = contents b" "headCap b1 = headCap b" "sizeof_int T \<le> unat (tailCap b1)"
    using grow_ok [OF assms(1), of "of_nat (sizeof_int T)"] assms(2) by (auto simp: word_le_nat_alt)
  with append_raw_ok [of b1 "encode_int p e T v"] show ?thesis by (auto simp: AppendInteger_def)
qed

lemma PrependInteger_ok:
  assumes "bbuf_inv b" and "sizeof_int T \<le> unat (headCap b)"
  shows "\<exists>b'. PrependInteger p e T v b = Inr b' \<and> bbuf_inv b' \<and>
    contents b' = encode_int p e T v @ contents b \<and>
    unat (headCap b') = unat (headCap b) - sizeof_int T"
  using prepend_raw_ok [OF assms(1), of "encode_int p e T v"] assms(2)
  by (auto simp: PrependInteger_def)

section \<open>Properties\<close>



text \<open>
  Prepending a length-prefixed string succeeds exactly when the prefix and the string fit the
  remaining head room. It then puts the prefix bytes and the string in front of the contents, keeps
  the invariant and uses up exactly that much room; otherwise the assertion fails and nothing else.
\<close>

theorem PrependString_len_spec:
  assumes "bbuf_inv b"
  shows "if sizeof_int T + length s \<le> unat (headCap b)
    then \<exists>b'. PrependString_len p e T s b = Inr b' \<and> bbuf_inv b' \<and>
      contents b' = encode_int p e T (of_nat (length s)) @ s @ contents b \<and>
      unat (headCap b') = unat (headCap b) - (sizeof_int T + length s)
    else PrependString_len p e T s b = Inl Assert_Failed"
proof (cases "length s \<le> unat (headCap b)")
  case True
  with bb.prepend_ok [OF assms True]
  obtain b1 where "PrependString s b = Inr b1" "bbuf_inv b1" "contents b1 = s @ contents b"
    "unat (headCap b1) = unat (headCap b) - length s" by auto
  with PrependInteger_ok [of b1 T p e "cast_int T (of_nat (length s))"] True show ?thesis
    by (auto simp: PrependString_len_def PrependInteger_def wire.put_take_bit cast_int_def)
next
  case False
  then show ?thesis by (simp add: PrependString_len_def PrependString_def)
qed

theorem PrependString_len_spec_witness:
  "\<exists>b b'. BinaryBuffer 4 3 = Inr b \<and>
     PrependString_len \<lparr>byte_order = BigEndian, is_linux = True\<rparr> LittleEndian UInt8 [8, 9] b = Inr b' \<and>
     contents b' = [2, 8, 9]"
proof -
  let ?p = "\<lparr>byte_order = BigEndian, is_linux = True\<rparr>"
  obtain b where b: "BinaryBuffer 4 3 = Inr b" "headCap b = 3"
    by (simp add: BinaryBuffer_def)
  have "encode_int ?p LittleEndian UInt8 2 = [2]"
    by (simp add: encode_int_eq obj_bytes_def)
  with PrependString_len_spec [of b UInt8 "[8, 9]" ?p LittleEndian] BinaryBuffer_inv [OF b(1)] b
  show ?thesis by auto
qed

text \<open>
  \<open>AppendString\<close> passes its \<open>size_t\<close> length to \<open>grow(uint32_t)\<close>. For a string of 4 GiB or more
  whose truncated length fits the tail room, \<open>grow\<close> returns at once and the copy runs out of the
  block: the assertion on the new size is never reached.
\<close>

theorem AppendString_truncates_length:
  assumes "bbuf_inv b" and "2 ^ 32 \<le> length s" and "length s mod 2 ^ 32 \<le> unat (tailCap b)"
  shows "AppendString s b = Inl Out_Of_Bounds"
proof -
  have "of_nat (length s) \<le> tailCap b"
    using assms(3) by (simp add: word_le_nat_alt unat_of_nat)
  moreover have "length (block b) < length s"
    using assms(1,2) by (simp add: bbuf_inv_def)
  ultimately show ?thesis
    by (simp add: AppendString_def grow_def append_raw_def store_def)
qed

theorem AppendString_truncates_length_witness:
  "\<exists>b. BinaryBuffer 4 3 = Inr b \<and> AppendString (replicate (2 ^ 32) 0) b = Inl Out_Of_Bounds"
proof -
  obtain b where b: "BinaryBuffer 4 3 = Inr b"
    by (simp add: BinaryBuffer_def)
  with AppendString_truncates_length [of b "replicate (2 ^ 32) 0"] BinaryBuffer_inv [OF b]
  show ?thesis by auto
qed

end
