(* ===== verification/Hex.thy ===== *)
theory Hex
  imports Prelude
begin

text \<open>
  Model of \<open>encoding/hex/hex.h\<close>. Characters are bytes read as signed \<open>char\<close> where the source
  compares them; the loops write into a destination block cell by cell, and an access outside the
  source or the destination is the fault \<open>Out_Of_Bounds\<close>.
\<close>

definition hexMap :: bytes where
  "hexMap = ascii ''0123456789ABCDEF''"

definition hexMapLower :: bytes where
  "hexMapLower = ascii ''0123456789abcdef''"

definition hex_digit :: "u8 \<Rightarrow> int" where
  "hex_digit c = (if sint c \<ge> 65 then sint c - 65 + 10 else sint c - 48)"

definition HexCharsToByte :: "u8 \<Rightarrow> u8 \<Rightarrow> u8" where
  "HexCharsToByte first second =
     word_of_int (hex_digit (c_toupper first) * 16) + word_of_int (hex_digit (c_toupper second))"

definition ByteToHexString :: "u8 \<Rightarrow> bytes" where
  "ByteToHexString val = [hexMap ! (unat val div 16), hexMap ! (unat val mod 16)]"

definition ByteToLowerHexString :: "u8 \<Rightarrow> bytes" where
  "ByteToLowerHexString val = [hexMapLower ! (unat val div 16), hexMapLower ! (unat val mod 16)]"

text \<open>The loop of the four conversions to hex: \<open>k\<close> iterations are left, the next one is \<open>i\<close>.\<close>

fun to_hex_loop :: "(u8 \<Rightarrow> bytes) \<Rightarrow> bytes \<Rightarrow> nat \<Rightarrow> nat \<Rightarrow> bytes \<Rightarrow> bytes res" where
  "to_hex_loop conv source 0 i dest = Inr dest"
| "to_hex_loop conv source (Suc k) i dest =
     (if i < length source \<and> i * 2 + 2 \<le> length dest
      then to_hex_loop conv source k (Suc i) (splice_at (i * 2) (conv (source ! i)) dest)
      else Inl Out_Of_Bounds)"

definition ToHexString_to :: "bytes \<Rightarrow> nat \<Rightarrow> bytes \<Rightarrow> bytes res" where
  "ToHexString_to src srcLen dst =
     (case to_hex_loop ByteToHexString src srcLen 0 dst of
        Inl f \<Rightarrow> Inl f
      | Inr d \<Rightarrow> if srcLen * 2 < length d then Inr (d[srcLen * 2 := 0]) else Inl Out_Of_Bounds)"

definition ToHexString :: "bytes \<Rightarrow> nat \<Rightarrow> bytes res" where
  "ToHexString src srcLen = to_hex_loop ByteToHexString src srcLen 0 (replicate (srcLen * 2) 0)"

definition ToLowerHexString_to :: "bytes \<Rightarrow> nat \<Rightarrow> bytes \<Rightarrow> bytes res" where
  "ToLowerHexString_to src srcLen dst =
     (case to_hex_loop ByteToLowerHexString src srcLen 0 dst of
        Inl f \<Rightarrow> Inl f
      | Inr d \<Rightarrow> if srcLen * 2 < length d then Inr (d[srcLen * 2 := 0]) else Inl Out_Of_Bounds)"

definition ToLowerHexString :: "bytes \<Rightarrow> nat \<Rightarrow> bytes res" where
  "ToLowerHexString src srcLen =
     to_hex_loop ByteToLowerHexString src srcLen 0 (replicate (srcLen * 2) 0)"

text \<open>\<open>k\<close> pairs are left, the loop variable is \<open>2 * i\<close>.\<close>

fun from_hex_loop :: "bytes \<Rightarrow> nat \<Rightarrow> nat \<Rightarrow> bytes \<Rightarrow> bytes res" where
  "from_hex_loop source 0 i dest = Inr dest"
| "from_hex_loop source (Suc k) i dest =
     (if i * 2 + 1 < length source \<and> i < length dest
      then from_hex_loop source k (Suc i)
             (dest[i := HexCharsToByte (source ! (i * 2)) (source ! (i * 2 + 1))])
      else Inl Out_Of_Bounds)"

definition HexStringToBinary_to :: "bytes \<Rightarrow> nat \<Rightarrow> bytes \<Rightarrow> bytes res" where
  "HexStringToBinary_to src srcLen dst =
     (if \<not> srcLen mod 2 = 0 then Inl Assert_Failed else from_hex_loop src (srcLen div 2) 0 dst)"

definition HexStringToBinary :: "bytes \<Rightarrow> nat \<Rightarrow> bytes res" where
  "HexStringToBinary src srcLen = HexStringToBinary_to src srcLen (replicate (srcLen div 2) 0)"

section \<open>One byte\<close>

lemma c_toupper_idem: "c_toupper (c_toupper c) = c_toupper c"
  by (auto simp: c_toupper_def word_le_nat_alt unat_minus_small unat_sub_if')

lemma c_toupper_c_tolower: "c_toupper (c_tolower c) = c_toupper c"
  by (auto simp: c_toupper_def c_tolower_def word_le_nat_alt unat_plus_small)

lemma hex_tables: "hexMap = [48, 49, 50, 51, 52, 53, 54, 55, 56, 57, 65, 66, 67, 68, 69, 70]"
  "hexMapLower = [48, 49, 50, 51, 52, 53, 54, 55, 56, 57, 97, 98, 99, 100, 101, 102]"
  by (simp_all add: hexMap_def hexMapLower_def ascii_def)

lemma hex_digit_table:
  assumes "n < 16"
  shows "hex_digit (c_toupper (hexMap ! n)) = int n" "hex_digit (c_toupper (hexMapLower ! n)) = int n"
proof -
  have "n \<in> set [0 ..< 16]" using assms by simp
  then have "hex_digit (c_toupper (hexMap ! n)) = int n \<and> hex_digit (c_toupper (hexMapLower ! n)) = int n"
    unfolding hex_tables by (auto simp: upt_rec hex_digit_def c_toupper_def nth_Cons')
  then show "hex_digit (c_toupper (hexMap ! n)) = int n" "hex_digit (c_toupper (hexMapLower ! n)) = int n"
    by auto
qed

lemma byte_nibbles: "(word_of_nat (unat v div 16) * 16 + word_of_nat (unat v mod 16) :: u8) = v"
proof -
  have "(word_of_nat (unat v div 16 * 16 + unat v mod 16) :: u8) = v"
    by (simp only: div_mult_mod_eq of_nat_unat ucast_id)
  then show ?thesis by (simp only: of_nat_add of_nat_mult of_nat_numeral)
qed

lemma HexCharsToByte_nibbles:
  "tbl \<in> {hexMap, hexMapLower} \<Longrightarrow> tbl' \<in> {hexMap, hexMapLower} \<Longrightarrow>
     HexCharsToByte (tbl ! (unat v div 16)) (tbl' ! (unat v mod 16)) = v"
  using unsigned_less [of v, where ?'a = nat]
  by (auto simp: HexCharsToByte_def hex_digit_table byte_nibbles less_mult_imp_div_less)

lemma hex_pair [simp]: "length (ByteToHexString v) = 2" "length (ByteToLowerHexString v) = 2"
  by (simp_all add: ByteToHexString_def ByteToLowerHexString_def)

section \<open>The loops\<close>

lemma from_hex_loop_fault:
  "i + k > length dst \<Longrightarrow> i \<le> length dst \<Longrightarrow> from_hex_loop src k i dst = Inl Out_Of_Bounds"
  by (induction k arbitrary: i dst) (auto simp: not_less Suc_le_eq)

text \<open>The text of a run of bytes: two digits per byte.\<close>

definition hex_text :: "(u8 \<Rightarrow> bytes) \<Rightarrow> bytes \<Rightarrow> bytes" where
  "hex_text conv bs = concat (map conv bs)"

lemma from_hex_loop_fault_0: "k > length dst \<Longrightarrow> from_hex_loop src k 0 dst = Inl Out_Of_Bounds"
  using from_hex_loop_fault [of dst 0 k src] by simp

locale byte_text =
  fixes conv :: "u8 \<Rightarrow> bytes"
  assumes conv_length: "length (conv b) = 2"
    and conv_inverse: "HexCharsToByte (conv b ! 0) (conv b ! 1) = b"
begin

lemma length_hex_text: "length (hex_text conv bs) = 2 * length bs"
  by (induction bs) (auto simp: hex_text_def conv_length)

lemma hex_text_nth:
  "i < length bs \<Longrightarrow> hex_text conv bs ! (i * 2) = conv (bs ! i) ! 0 \<and>
     hex_text conv bs ! (i * 2 + 1) = conv (bs ! i) ! 1"
proof (induction bs arbitrary: i)
  case (Cons b bs)
  then show ?case
    by (cases i) (auto simp: hex_text_def nth_append conv_length)
qed simp

lemma to_hex_loop_eq:
  "i + k \<le> length src \<Longrightarrow> (i + k) * 2 \<le> length dst \<Longrightarrow>
     to_hex_loop conv src k i dst = Inr (splice_at (i * 2) (hex_text conv (window i k src)) dst)"
proof (induction k arbitrary: i dst)
  case 0
  then show ?case by (simp add: hex_text_def splice_at_def)
next
  case (Suc k)
  have w: "window i (Suc k) src = src ! i # window (Suc i) k src"
    using Suc.prems by (simp add: window_def Cons_nth_drop_Suc [symmetric])
  have "splice_at (Suc i * 2) ys (splice_at (i * 2) (conv b) dst) = splice_at (i * 2) (conv b @ ys) dst"
    for b ys using Suc.prems by (simp add: splice_at_def conv_length min_def ac_simps)
  with Suc show ?case by (simp add: w conv_length hex_text_def)
qed

lemma to_hex_loop_fault:
  "i + k > length src \<or> (i + k) * 2 > length dst \<Longrightarrow> i \<le> length src \<Longrightarrow> i * 2 \<le> length dst \<Longrightarrow>
     to_hex_loop conv src k i dst = Inl Out_Of_Bounds"
  by (induction k arbitrary: i dst) (auto simp: conv_length)

lemma from_hex_loop_text:
  "i + k \<le> length bs \<Longrightarrow> i + k \<le> length dst \<Longrightarrow>
     from_hex_loop (hex_text conv bs @ rest) k i dst = Inr (splice_at i (window i k bs) dst)"
proof (induction k arbitrary: i dst)
  case 0
  then show ?case by (simp add: splice_at_def)
next
  case (Suc k)
  have w: "window i (Suc k) bs = bs ! i # window (Suc i) k bs"
    using Suc.prems by (simp add: window_def Cons_nth_drop_Suc [symmetric])
  have "splice_at (Suc i) ys (dst[i := b]) = splice_at i (b # ys) dst" for b ys
    using Suc.prems by (simp add: splice_at_def take_Suc_conv_app_nth)
  moreover have "i < length bs" using Suc.prems by simp
  ultimately show ?case
    using Suc hex_text_nth [of i bs] conv_inverse [of "bs ! i"]
    by (auto simp: w length_hex_text nth_append)
qed

lemma from_hex_text:
  "HexStringToBinary (hex_text conv bs) (2 * length bs) = Inr bs"
  using from_hex_loop_text [of 0 "length bs" bs "replicate (length bs) 0" "[]"]
  by (simp add: HexStringToBinary_def HexStringToBinary_to_def splice_at_def window_def)

lemma to_hex_text:
  "to_hex_loop conv bs (length bs) 0 (replicate (length bs * 2) 0) = Inr (hex_text conv bs)"
  by (simp add: to_hex_loop_eq window_def splice_at_def length_hex_text)

end

interpretation upper: byte_text ByteToHexString
  by unfold_locales (simp, simp add: ByteToHexString_def HexCharsToByte_nibbles)

interpretation lower: byte_text ByteToLowerHexString
  by unfold_locales (simp, simp add: ByteToLowerHexString_def HexCharsToByte_nibbles)

interpretation upper_codec: codec "\<lambda>_. True" "hex_text ByteToHexString"
    "\<lambda>t. HexStringToBinary t (length t)"
  by unfold_locales (simp add: upper.from_hex_text upper.length_hex_text)

interpretation lower_codec: codec "\<lambda>_. True" "hex_text ByteToLowerHexString"
    "\<lambda>t. HexStringToBinary t (length t)"
  by unfold_locales (simp add: lower.from_hex_text lower.length_hex_text)

text \<open>
  Hex round trip. Both the upper-case and the lower-case text of a byte sequence are produced
  (no out-of-bounds access), have two characters per byte, and \<open>HexStringToBinary\<close> of either
  gives the bytes back; two different byte sequences never have the same text.
\<close>

theorem hex_round_trip:
  "\<exists>u l. ToHexString bs (length bs) = Inr u \<and> ToLowerHexString bs (length bs) = Inr l \<and>
     length u = 2 * length bs \<and> length l = 2 * length bs \<and>
     HexStringToBinary u (length u) = Inr bs \<and> HexStringToBinary l (length l) = Inr bs \<and>
     (\<forall>bs'. ToHexString bs' (length bs') = Inr u \<longleftrightarrow> bs' = bs) \<and>
     (\<forall>bs'. ToLowerHexString bs' (length bs') = Inr l \<longleftrightarrow> bs' = bs)"
  by (intro exI [of _ "hex_text ByteToHexString bs"] exI [of _ "hex_text ByteToLowerHexString bs"])
    (simp add: ToHexString_def ToLowerHexString_def upper.to_hex_text lower.to_hex_text
       upper.length_hex_text lower.length_hex_text upper.from_hex_text lower.from_hex_text
       upper_codec.enc_eq_iff lower_codec.enc_eq_iff)

text \<open>
  The caller's buffer. \<open>ToHexString(src, srcLen, dst)\<close> needs exactly \<open>2 * srcLen + 1\<close>
  bytes at \<open>dst\<close> (the text and its terminating zero): with a smaller block it writes out of
  bounds, and with a larger one it leaves the bytes after the terminator untouched. Converting the
  written text back into a block of at least \<open>srcLen\<close> bytes restores the source there, again
  without touching what follows.
\<close>

theorem ToHexString_exact_space:
  assumes "n \<le> length src"
  shows "ToHexString_to src n dst =
           (if 2 * n + 1 \<le> length dst
            then Inr (hex_text ByteToHexString (take n src) @ 0 # drop (2 * n + 1) dst)
            else Inl Out_Of_Bounds) \<and>
         HexStringToBinary_to (hex_text ByteToHexString (take n src) @ rest) (2 * n) out =
           (if n \<le> length out then Inr (take n src @ drop n out) else Inl Out_Of_Bounds)"
proof
  have len: "length (hex_text ByteToHexString (take n src)) = 2 * n"
    using assms by (simp add: upper.length_hex_text)
  show "ToHexString_to src n dst = (if 2 * n + 1 \<le> length dst
          then Inr (hex_text ByteToHexString (take n src) @ 0 # drop (2 * n + 1) dst)
          else Inl Out_Of_Bounds)"
  proof (cases "2 * n \<le> length dst")
    case True
    then have "to_hex_loop ByteToHexString src n 0 dst =
        Inr (hex_text ByteToHexString (take n src) @ drop (2 * n) dst)"
      using assms upper.to_hex_loop_eq [of 0 n src dst] len
      by (simp add: window_def splice_at_def)
    with True len show ?thesis
      by (auto simp: ToHexString_to_def list_update_append Cons_nth_drop_Suc [symmetric])
  next
    case False
    then show ?thesis
      using assms by (simp add: ToHexString_to_def upper.to_hex_loop_fault)
  qed
  show "HexStringToBinary_to (hex_text ByteToHexString (take n src) @ rest) (2 * n) out =
          (if n \<le> length out then Inr (take n src @ drop n out) else Inl Out_Of_Bounds)"
  proof (cases "n \<le> length out")
    case True
    then show ?thesis
      using assms upper.from_hex_loop_text [of 0 n "take n src" out rest]
      by (simp add: HexStringToBinary_to_def splice_at_def window_def)
  next
    case False
    then show ?thesis by (simp add: HexStringToBinary_to_def from_hex_loop_fault_0)
  qed
qed

theorem ToHexString_exact_space_witness:
  "ToHexString_to [0xab, 7] 2 [1, 1, 1, 1, 1, 9] = Inr (ascii ''AB07'' @ [0, 9]) \<and>
   ToHexString_to [0xab, 7] 2 [1, 1, 1, 1] = Inl Out_Of_Bounds \<and>
   HexStringToBinary_to (ascii ''AB07'') 4 [1, 1, 1] = Inr [0xab, 7, 1]"
proof -
  have t: "hex_text ByteToHexString [0xab, 7] = ascii ''AB07''"
    by (simp add: hex_text_def ByteToHexString_def hex_tables ascii_def)
  show ?thesis
    using ToHexString_exact_space [of 2 "[0xab, 7]" "[1, 1, 1, 1, 1, 9]" "[]" "[1, 1, 1]"]
      ToHexString_exact_space [of 2 "[0xab, 7]" "[1, 1, 1, 1]"]
    by (simp add: t)
qed

text \<open>
  Hex digits are case-insensitive. The upper-case and the lower-case form of every character
  denote the same byte in either position, and a text of odd length is refused by the assertion.
\<close>

theorem HexStringToBinary_case_insensitive:
  "HexStringToBinary (map c_tolower t) (length t) = HexStringToBinary t (length t) \<and>
   HexStringToBinary (map c_toupper t) (length t) = HexStringToBinary t (length t) \<and>
   (HexStringToBinary t (length t) = Inl Assert_Failed \<longleftrightarrow> odd (length t))"
proof -
  have "from_hex_loop (map f t) k i dst = from_hex_loop t k i dst"
    if "\<And>c. c_toupper (f c) = c_toupper c" for f k i dst
    by (induction k arbitrary: i dst) (auto simp: HexCharsToByte_def that)
  moreover have "from_hex_loop t k i dst \<noteq> Inl Assert_Failed" for k i dst
    by (induction k arbitrary: i dst) auto
  ultimately show ?thesis
    by (simp add: HexStringToBinary_def HexStringToBinary_to_def c_toupper_c_tolower
        c_toupper_idem odd_iff_mod_2_eq_one)
qed

end
