(* ===== verification/Bits.thy ===== *)
theory Bits
  imports Prelude
begin

text \<open>
  Model of \<open>bits/bits.h\<close>: the two 64-entry mask tables and the six bit operations, three on an
  array \<open>T (&arr)[N]\<close> and three on a value of type \<open>T\<close>. \<open>T\<close> is an integer type of \<open>'a\<close> bits,
  signed or unsigned as \<open>sg\<close> says; it is widened to \<open>uint64_t\<close> to meet the table entry and
  truncated back when it is stored. Positions start from 1.
\<close>

definition bit64_table :: "u64 list" where
  "bit64_table = map (\<lambda>k. push_bit k 1) [0 ..< 64]"

definition bit64_not_table :: "u64 list" where
  "bit64_not_table = map (\<lambda>k. NOT (push_bit k 1)) [0 ..< 64]"

text \<open>The conversion of an operand of type \<open>T\<close> to \<open>uint64_t\<close>: a signed one is sign-extended.\<close>

definition to_uint64 :: "bool \<Rightarrow> 'a::len word \<Rightarrow> u64" where
  "to_uint64 sg v = (if sg then scast v else ucast v)"

definition SetOn_array :: "bool \<Rightarrow> 'a::len word list \<Rightarrow> nat \<Rightarrow> 'a word list res" where
  "SetOn_array sg arr pos =
     (if \<not> (pos > 0 \<and> pos \<le> length arr * LENGTH('a)) then Inl Assert_Failed
      else let p = pos - 1; i = p div LENGTH('a)
           in Inr (arr[i := ucast (to_uint64 sg (arr ! i) OR bit64_table ! (p mod LENGTH('a)))]))"

definition SetOff_array :: "bool \<Rightarrow> 'a::len word list \<Rightarrow> nat \<Rightarrow> 'a word list res" where
  "SetOff_array sg arr pos =
     (if \<not> (pos > 0 \<and> pos \<le> length arr * LENGTH('a)) then Inl Assert_Failed
      else let p = pos - 1; i = p div LENGTH('a)
           in Inr (arr[i := ucast (to_uint64 sg (arr ! i) AND bit64_not_table ! (p mod LENGTH('a)))]))"

definition Test_array :: "bool \<Rightarrow> 'a::len word list \<Rightarrow> nat \<Rightarrow> bool res" where
  "Test_array sg arr pos =
     (if \<not> (pos > 0 \<and> pos \<le> length arr * LENGTH('a)) then Inl Assert_Failed
      else let p = pos - 1; i = p div LENGTH('a)
           in Inr (to_uint64 sg (arr ! i) AND bit64_table ! (p mod LENGTH('a)) \<noteq> 0))"

definition SetOn :: "bool \<Rightarrow> 'a::len word \<Rightarrow> nat \<Rightarrow> 'a word res" where
  "SetOn sg val pos =
     (if \<not> (pos > 0 \<and> pos \<le> LENGTH('a)) then Inl Assert_Failed
      else Inr (ucast (to_uint64 sg val OR bit64_table ! (pos - 1))))"

definition SetOff :: "bool \<Rightarrow> 'a::len word \<Rightarrow> nat \<Rightarrow> 'a word res" where
  "SetOff sg val pos =
     (if \<not> (pos > 0 \<and> pos \<le> LENGTH('a)) then Inl Assert_Failed
      else Inr (ucast (to_uint64 sg val AND bit64_not_table ! (pos - 1))))"

definition Test :: "bool \<Rightarrow> 'a::len word \<Rightarrow> nat \<Rightarrow> bool res" where
  "Test sg val pos =
     (if \<not> (pos > 0 \<and> pos \<le> LENGTH('a)) then Inl Assert_Failed
      else Inr (to_uint64 sg val AND bit64_table ! (pos - 1) \<noteq> 0))"

section \<open>One word\<close>

text \<open>The integer types of the source have at most 64 bits, so every mask fits its table.\<close>

lemma table_nth: "k < 64 \<Longrightarrow> bit64_table ! k = push_bit k 1" "k < 64 \<Longrightarrow> bit64_not_table ! k = NOT (push_bit k 1)"
  by (simp_all add: bit64_table_def bit64_not_table_def)

lemma bit_to_uint64:
  "LENGTH('a) \<le> 64 \<Longrightarrow> k < LENGTH('a) \<Longrightarrow> bit (to_uint64 sg (v :: 'a::len word)) k = bit v k"
  by (auto simp: to_uint64_def bit_simps)

lemma word_set_on:
  assumes "LENGTH('a) \<le> 64" and "k < LENGTH('a)"
  shows "ucast (to_uint64 sg (v :: 'a::len word) OR bit64_table ! k) = (set_bit k v :: 'a word)"
  using assms by (intro bit_word_eqI) (auto simp: table_nth bit_simps bit_to_uint64)

lemma word_set_off:
  assumes "LENGTH('a) \<le> 64" and "k < LENGTH('a)"
  shows "ucast (to_uint64 sg (v :: 'a::len word) AND bit64_not_table ! k) = (unset_bit k v :: 'a word)"
  using assms by (intro bit_word_eqI) (auto simp: table_nth bit_simps bit_to_uint64)

lemma word_test:
  assumes "LENGTH('a) \<le> 64" and "k < LENGTH('a)"
  shows "(to_uint64 sg (v :: 'a::len word) AND bit64_table ! k \<noteq> 0) = bit v k"
  using assms by (simp add: table_nth and_exp_eq_0_iff_not_bit bit_to_uint64)

section \<open>Arrays as bit vectors\<close>

text \<open>The specification: bit \<open>pos\<close> of the array, counting from 1, low bits first.\<close>

definition bit_at :: "'a::len word list \<Rightarrow> nat \<Rightarrow> bool" where
  "bit_at arr pos = bit (arr ! ((pos - 1) div LENGTH('a))) ((pos - 1) mod LENGTH('a))"

definition in_range :: "'a::len word list \<Rightarrow> nat \<Rightarrow> bool" where
  "in_range arr pos \<longleftrightarrow> 0 < pos \<and> pos \<le> length arr * LENGTH('a)"

lemma in_range_index:
  "in_range (arr :: 'a::len word list) pos \<Longrightarrow> (pos - 1) div LENGTH('a) < length arr"
  by (auto simp: in_range_def div_less_iff_less_mult)

lemma position_eq:
  "0 < p \<Longrightarrow> 0 < q \<Longrightarrow> (q - 1) div n = (p - 1) div n \<and> (q - 1) mod n = (p - 1) mod n \<longleftrightarrow> q = (p :: nat)"
  by (metis Suc_pred' div_mult_mod_eq)

lemma bit_at_update:
  assumes "i < length (arr :: 'a::len word list)"
  shows "bit_at (arr[i := set_bit k (arr ! i)]) q \<longleftrightarrow>
           (q - 1) div LENGTH('a) = i \<and> (q - 1) mod LENGTH('a) = k \<or> bit_at arr q"
    and "bit_at (arr[i := unset_bit k (arr ! i)]) q \<longleftrightarrow>
           \<not> ((q - 1) div LENGTH('a) = i \<and> (q - 1) mod LENGTH('a) = k) \<and> bit_at arr q"
  using assms by (auto simp: bit_at_def nth_list_update bit_simps)

text \<open>
  An array is a vector of independent bits. For every position in range, \<open>SetOn\<close> and
  \<open>SetOff\<close> succeed, keep the length, change exactly the bit at that position, and \<open>Test\<close> reads
  back the new value there and the old one everywhere else; outside the range all three stop at
  the assertion. This holds for signed and for unsigned element types of up to 64 bits.
\<close>

theorem bit_array_spec:
  assumes "LENGTH('a::len) \<le> 64"
  shows "if in_range (arr :: 'a word list) pos
         then \<exists>on off. SetOn_array sg arr pos = Inr on \<and> SetOff_array sg arr pos = Inr off \<and>
                length on = length arr \<and> length off = length arr \<and>
                (\<forall>q. in_range arr q \<longrightarrow>
                   Test_array sg on q = Inr (q = pos \<or> bit_at arr q) \<and>
                   Test_array sg off q = Inr (q \<noteq> pos \<and> bit_at arr q) \<and>
                   Test_array sg arr q = Inr (bit_at arr q))
         else SetOn_array sg arr pos = Inl Assert_Failed \<and>
              SetOff_array sg arr pos = Inl Assert_Failed \<and>
              Test_array sg arr pos = Inl Assert_Failed"
proof (cases "in_range arr pos")
  case True
  have test: "Test_array sg xs q = Inr (bit_at xs q)" if "in_range xs q" for xs :: "'a word list" and q
    using that assms by (simp add: Test_array_def in_range_def Let_def word_test bit_at_def)
  let ?i = "(pos - 1) div LENGTH('a)" and ?k = "(pos - 1) mod LENGTH('a)"
  have r: "in_range (arr[?i := x]) q = in_range arr q" for x q by (simp add: in_range_def)
  let ?on = "arr[?i := set_bit ?k (arr ! ?i)]" and ?off = "arr[?i := unset_bit ?k (arr ! ?i)]"
  have ops: "SetOn_array sg arr pos = Inr ?on" "SetOff_array sg arr pos = Inr ?off"
    using True assms
    by (simp_all add: SetOn_array_def SetOff_array_def in_range_def Let_def word_set_on word_set_off)
  have upd: "bit_at ?on q = (q = pos \<or> bit_at arr q)" "bit_at ?off q = (q \<noteq> pos \<and> bit_at arr q)"
    if "in_range arr q" for q
    using True that position_eq [of pos q "LENGTH('a)"]
    unfolding bit_at_update [OF in_range_index [OF True]] in_range_def by blast+
  have "\<forall>q. in_range arr q \<longrightarrow> Test_array sg ?on q = Inr (q = pos \<or> bit_at arr q) \<and>
      Test_array sg ?off q = Inr (q \<noteq> pos \<and> bit_at arr q) \<and> Test_array sg arr q = Inr (bit_at arr q)"
    by (intro allI impI conjI) (simp_all only: test r upd)
  then show ?thesis
    unfolding if_P [OF True] ops by (intro exI [of _ ?on] exI [of _ ?off]) (simp only: length_list_update simp_thms)
next
  case False
  then show ?thesis
    unfolding if_not_P [OF False]
    by (simp add: in_range_def SetOn_array_def SetOff_array_def Test_array_def)
qed

theorem bit_array_spec_witness:
  "\<exists>on. SetOn_array True [0, 0 :: u8] 10 = Inr on \<and> Test_array True on 10 = Inr True \<and>
     Test_array True on 9 = Inr False"
proof -
  have "in_range [0, 0 :: u8] 10" "in_range [0, 0 :: u8] 9" "\<not> bit_at [0, 0 :: u8] 9"
    by (simp_all add: in_range_def bit_at_def)
  then show ?thesis
    using bit_array_spec [where ?'a = 8, of "[0, 0]" 10 True] by auto
qed

text \<open>
  The value overloads. For a position of the type, \<open>SetOn(val, pos)\<close> is
  \<open>val | 1 << (pos - 1)\<close> and \<open>SetOff(val, pos)\<close> is \<open>val & ~(1 << (pos - 1))\<close>, as their
  documentation says, and they agree with the array overloads on an array of one element.
\<close>

theorem bit_value_spec:
  assumes "LENGTH('a::len) \<le> 64" and "0 < pos" and "pos \<le> LENGTH('a)"
  shows "SetOn sg (val :: 'a word) pos = Inr (val OR push_bit (pos - 1) 1) \<and>
         SetOff sg val pos = Inr (val AND NOT (push_bit (pos - 1) 1)) \<and>
         Test sg val pos = Inr (bit val (pos - 1)) \<and>
         SetOn_array sg [val] pos = Inr [val OR push_bit (pos - 1) 1] \<and>
         SetOff_array sg [val] pos = Inr [val AND NOT (push_bit (pos - 1) 1)] \<and>
         Test_array sg [val] pos = Test sg val pos"
proof -
  from assms have k: "pos - 1 < LENGTH('a)" by simp
  with assms show ?thesis
    by (simp add: SetOn_def SetOff_def Test_def SetOn_array_def SetOff_array_def Test_array_def
        word_set_on word_set_off word_test set_bit_eq_or unset_bit_eq_and_not Let_def)
qed

theorem bit_value_spec_witness:
  "SetOn True (0x10 :: u8) 8 = Inr 0x90 \<and> SetOff False (0xff :: u8) 1 = Inr 0xfe"
  using bit_value_spec [where ?'a = 8, of 8 True "0x10"] bit_value_spec [where ?'a = 8, of 1 False "0xff"]
  by simp

end
