(* ===== verification/Xxtea.thy ===== *)
theory Xxtea
  imports Endian
begin

text \<open>
  Model of \<open>crypto/xxtea.h\<close> and \<open>crypto/xxtea.cpp\<close> (class \<open>XXTeaCipher\<close>). The private
  \<open>encrypt\<close>/\<open>decrypt\<close> work on an array of \<open>uint32_t\<close>; the public operations work on the
  bytes of a \<open>std::string\<close> that is reinterpreted as such an array with the byte order \<open>h\<close> of
  the host. All counters and lengths are 32-bit words, as in the source.
\<close>

record cipher = cipher_key :: "u32 list"

definition kKeySize :: nat where
  "kKeySize = 16"

section \<open>Bytes reinterpreted as words\<close>

fun words_of :: "Endian \<Rightarrow> bytes \<Rightarrow> u32 list" where
  "words_of h bs = (if length bs < 4 then [] else obj_word h (take 4 bs) # words_of h (drop 4 bs))"

declare words_of.simps [simp del]

definition bytes_of :: "Endian \<Rightarrow> u32 list \<Rightarrow> bytes" where
  "bytes_of h ws = concat (map (obj_bytes h 4) ws)"

text \<open>Writing through the \<open>uint32_t*\<close> leaves the trailing bytes that fill no word alone.\<close>

definition store_words :: "Endian \<Rightarrow> u32 list \<Rightarrow> bytes \<Rightarrow> bytes" where
  "store_words h ws bs = bytes_of h ws @ drop (4 * length ws) bs"

section \<open>The block cipher\<close>

definition XXTeaCipher_words :: "u32 list \<Rightarrow> cipher" where
  "XXTeaCipher_words key = \<lparr>cipher_key = take 4 key\<rparr>"

definition XXTeaCipher :: "Endian \<Rightarrow> bytes \<Rightarrow> cipher" where
  "XXTeaCipher h key =
     \<lparr>cipher_key = words_of h (if length key < kKeySize then key @ replicate (kKeySize - length key) 0
                          else take kKeySize key)\<rparr>"

definition DELTA :: u32 where
  "DELTA = 0x9e3779b9"

definition MX :: "cipher \<Rightarrow> u32 \<Rightarrow> u32 \<Rightarrow> u32 \<Rightarrow> nat \<Rightarrow> u32 \<Rightarrow> u32" where
  "MX c z y sm p e =
     ((drop_bit 5 z XOR push_bit 2 y) + (drop_bit 3 y XOR push_bit 4 z)) XOR
     ((sm XOR y) + (cipher_key c ! unat ((of_nat p AND 3) XOR e :: u32) XOR z))"

text \<open>
  \<open>for (p = 0; p < n; p++)\<close> of a round of \<open>encrypt\<close>: \<open>k\<close> iterations are left. The state is
  \<open>z\<close> and the array.
\<close>

fun encrypt_for :: "cipher \<Rightarrow> u32 \<Rightarrow> u32 \<Rightarrow> nat \<Rightarrow> nat \<Rightarrow> u32 \<times> u32 list \<Rightarrow> u32 \<times> u32 list" where
  "encrypt_for c sm e 0 p (z, data) = (z, data)"
| "encrypt_for c sm e (Suc k) p (z, data) =
     (let y = data ! (p + 1); v = data ! p + MX c z y sm p e
      in encrypt_for c sm e k (p + 1) (v, data[p := v]))"

text \<open>\<open>while (0 < q--)\<close>.\<close>

fun encrypt_while :: "cipher \<Rightarrow> nat \<Rightarrow> nat \<Rightarrow> u32 \<Rightarrow> u32 \<times> u32 list \<Rightarrow> u32 list" where
  "encrypt_while c n 0 sm (z, data) = data"
| "encrypt_while c n (Suc q) sm (z, data) =
     (let sm = sm + DELTA; e = drop_bit 2 sm AND 3;
          (z, data) = encrypt_for c sm e n 0 (z, data);
          y = data ! 0; v = data ! n + MX c z y sm n e
      in encrypt_while c n q sm (v, data[n := v]))"

definition encrypt :: "cipher \<Rightarrow> u32 list \<Rightarrow> u32 \<Rightarrow> u32 list res" where
  "encrypt c data len =
     (let n = len - 1 in
      if \<not> n \<ge> 1 then Inr data
      else if unat n \<ge> length data then Inl Out_Of_Bounds
      else if n + 1 = 0 then Inl Div_By_Zero
      else Inr (encrypt_while c (unat n) (unat (6 + 52 div (n + 1))) 0 (data ! unat n, data)))"

text \<open>\<open>for (p = n; p > 0; p--)\<close> of a round of \<open>decrypt\<close>.\<close>

fun decrypt_for :: "cipher \<Rightarrow> u32 \<Rightarrow> u32 \<Rightarrow> nat \<Rightarrow> u32 \<times> u32 list \<Rightarrow> u32 \<times> u32 list" where
  "decrypt_for c sm e 0 (y, data) = (y, data)"
| "decrypt_for c sm e (Suc p) (y, data) =
     (let z = data ! p; v = data ! Suc p - MX c z y sm (Suc p) e
      in decrypt_for c sm e p (v, data[Suc p := v]))"

text \<open>
  \<open>while (sum != 0)\<close>. It ends whatever \<open>sum\<close> is at the start: \<open>DELTA\<close> is odd, so it has an
  inverse modulo \<open>2\<^sup>3\<^sup>2\<close>, and the number of rounds left is \<open>sum\<close> times that inverse.
\<close>

definition DELTA_inverse :: u32 where
  "DELTA_inverse = 340573321"

lemma DELTA_times_inverse: "DELTA * DELTA_inverse = 1"
  by (simp add: DELTA_def DELTA_inverse_def)

lemma rounds_left:
  assumes "sm \<noteq> 0"
  shows "unat ((sm - DELTA) * DELTA_inverse) < unat (sm * DELTA_inverse)"
proof -
  have "sm * DELTA_inverse \<noteq> 0"
  proof
    assume "sm * DELTA_inverse = 0"
    then have "sm * DELTA_inverse * DELTA = 0" by simp
    then have "sm * (DELTA * DELTA_inverse) = 0" by (simp only: ac_simps)
    with assms show False by (simp add: DELTA_times_inverse)
  qed
  moreover have "(sm - DELTA) * DELTA_inverse = sm * DELTA_inverse - 1"
    by (simp add: left_diff_distrib DELTA_times_inverse)
  moreover have "0 < unat (sm * DELTA_inverse)"
    using calculation(1) by (metis unsigned_eq_0_iff neq0_conv)
  ultimately show ?thesis
    by (simp add: unat_minus_one)
qed

function decrypt_while :: "cipher \<Rightarrow> nat \<Rightarrow> u32 \<Rightarrow> u32 \<times> u32 list \<Rightarrow> u32 list" where
  "decrypt_while c n sm (y, data) =
     (if sm = 0 then data
      else let e = drop_bit 2 sm AND 3;
               (y, data) = decrypt_for c sm e n (y, data);
               z = data ! n; v = data ! 0 - MX c z y sm 0 e
           in decrypt_while c n (sm - DELTA) (v, data[0 := v]))"
  by pat_completeness auto

termination decrypt_while
  by (relation "measure (\<lambda>(c, n, sm, s). unat (sm * DELTA_inverse))") (auto simp: rounds_left)

declare decrypt_while.simps [simp del]

definition decrypt :: "cipher \<Rightarrow> u32 list \<Rightarrow> u32 \<Rightarrow> u32 list res" where
  "decrypt c data len =
     (let n = len - 1 in
      if \<not> n \<ge> 1 then Inr data
      else if unat n \<ge> length data then Inl Out_Of_Bounds
      else if n + 1 = 0 then Inl Div_By_Zero
      else let q = 6 + 52 div (n + 1) in Inr (decrypt_while c (unat n) (q * DELTA) (data ! 0, data)))"

section \<open>Operations on strings\<close>

definition resize :: "nat \<Rightarrow> bytes \<Rightarrow> bytes" where
  "resize n bs = (if n \<le> length bs then take n bs else bs @ replicate (n - length bs) 0)"

definition FastEncrypt :: "Endian \<Rightarrow> cipher \<Rightarrow> bytes \<Rightarrow> bytes res" where
  "FastEncrypt h c inOut =
     (let inLen = of_nat (length inOut) :: u32; remainder = inLen mod 4;
          (lenIdx, inOut) =
            (if remainder \<noteq> 0
             then ((inLen + 4 - remainder) div 4, resize (length inOut + 8 - unat remainder) inOut)
             else (inLen div 4, resize (length inOut + 4) inOut));
          data = words_of h inOut
      in if unat lenIdx \<ge> length data then Inl Out_Of_Bounds
         else case encrypt c (data[unat lenIdx := inLen]) (lenIdx + 1) of
                Inl f \<Rightarrow> Inl f
              | Inr data \<Rightarrow> Inr (store_words h data inOut))"

definition Encrypt_ptr :: "Endian \<Rightarrow> cipher \<Rightarrow> bytes \<Rightarrow> u32 \<Rightarrow> bytes res" where
  "Encrypt_ptr h c data dataLen =
     (if unat dataLen > length data then Inl Out_Of_Bounds
      else FastEncrypt h c (take (unat dataLen) data))"

definition Encrypt :: "Endian \<Rightarrow> cipher \<Rightarrow> bytes \<Rightarrow> bytes res" where
  "Encrypt h c data = FastEncrypt h c data"

definition FastDecrypt :: "Endian \<Rightarrow> cipher \<Rightarrow> bytes \<Rightarrow> (bool \<times> bytes) res" where
  "FastDecrypt h c inOut =
     (let dataLen = of_nat (length inOut) :: u32; dataNum = dataLen div 4 in
      case decrypt c (words_of h inOut) dataNum of
        Inl f \<Rightarrow> Inl f
      | Inr data \<Rightarrow>
          (if unat (dataNum - 1) \<ge> length data then Inl Out_Of_Bounds
           else let inOut = store_words h data inOut; decryptedLen = data ! unat (dataNum - 1)
                in if decryptedLen \<le> dataLen - 4 \<and> decryptedLen \<ge> dataLen - 7
                   then Inr (True, resize (unat decryptedLen) inOut)
                   else Inr (False, inOut)))"

definition Decrypt :: "Endian \<Rightarrow> cipher \<Rightarrow> bytes \<Rightarrow> bytes \<Rightarrow> (bool \<times> bytes) res" where
  "Decrypt h c data out =
     (case FastDecrypt h c data of
        Inl f \<Rightarrow> Inl f
      | Inr (ok, inOut) \<Rightarrow> if ok then Inr (True, inOut) else Inr (False, out))"

definition Decrypt_ptr :: "Endian \<Rightarrow> cipher \<Rightarrow> bytes \<Rightarrow> u32 \<Rightarrow> bytes \<Rightarrow> (bool \<times> bytes) res" where
  "Decrypt_ptr h c data dataLen out =
     (if unat dataLen > length data then Inl Out_Of_Bounds
      else Decrypt h c (take (unat dataLen) data) out)"

section \<open>Every update is an invertible step\<close>

text \<open>
  The word at \<open>p\<close> is changed by an amount that depends on its two neighbours on the ring
  \<open>0 .. n\<close>, the round sum and the key, never on the word itself.
\<close>

definition prv :: "nat \<Rightarrow> nat \<Rightarrow> nat" where
  "prv n p = (if p = 0 then n else p - 1)"

definition nxt :: "nat \<Rightarrow> nat \<Rightarrow> nat" where
  "nxt n p = (if p = n then 0 else p + 1)"

definition mix :: "cipher \<Rightarrow> nat \<Rightarrow> u32 \<times> nat \<Rightarrow> u32 list \<Rightarrow> u32" where
  "mix c n i data =
     MX c (data ! prv n (snd i)) (data ! nxt n (snd i)) (fst i) (snd i) (drop_bit 2 (fst i) AND 3)"

definition tea_step :: "cipher \<Rightarrow> nat \<Rightarrow> u32 \<times> nat \<Rightarrow> u32 list \<Rightarrow> u32 list" where
  "tea_step c n i data = data[snd i := data ! snd i + mix c n i data]"

definition tea_unstep :: "cipher \<Rightarrow> nat \<Rightarrow> u32 \<times> nat \<Rightarrow> u32 list \<Rightarrow> u32 list" where
  "tea_unstep c n i data = data[snd i := data ! snd i - mix c n i data]"

text \<open>The schedule of \<open>q\<close> rounds that start from the sum \<open>sm\<close>.\<close>

fun schedule :: "nat \<Rightarrow> nat \<Rightarrow> u32 \<Rightarrow> (u32 \<times> nat) list" where
  "schedule n 0 sm = []"
| "schedule n (Suc q) sm = map (Pair (sm + DELTA)) [0 ..< Suc n] @ schedule n q (sm + DELTA)"

lemma schedule_snoc:
  "schedule n (Suc q) sm = schedule n q sm @ map (Pair (sm + of_nat (Suc q) * DELTA)) [0 ..< Suc n]"
proof (induction q arbitrary: sm)
  case (Suc q)
  have "schedule n (Suc (Suc q)) sm = map (Pair (sm + DELTA)) [0 ..< Suc n] @ schedule n (Suc q) (sm + DELTA)"
    by simp
  also have "\<dots> = schedule n (Suc q) sm @
      map (Pair ((sm + DELTA) + of_nat (Suc q) * DELTA)) [0 ..< Suc n]"
    by (subst Suc.IH) simp
  finally show ?case by (simp add: algebra_simps)
qed simp

lemma schedule_range: "i \<in> set (schedule n q sm) \<Longrightarrow> snd i \<le> n"
  by (induction n q sm rule: schedule.induct) auto

lemma mix_update:
  "0 < n \<Longrightarrow> p \<le> n \<Longrightarrow> n < length data \<Longrightarrow> mix c n (sm, p) (data[p := v]) = mix c n (sm, p) data"
  by (auto simp: mix_def prv_def nxt_def)

interpretation enc: invertible_steps "\<lambda>(c, n) data. 0 < n \<and> n < length data"
    "\<lambda>(c, n) i. snd i \<le> n" "\<lambda>(c, n). tea_step c n" "\<lambda>(c, n). tea_unstep c n"
  by unfold_locales (auto simp: tea_step_def tea_unstep_def mix_update)

interpretation dec: invertible_steps "\<lambda>(c, n) data. 0 < n \<and> n < length data"
    "\<lambda>(c, n) i. snd i \<le> n" "\<lambda>(c, n). tea_unstep c n" "\<lambda>(c, n). tea_step c n"
  by unfold_locales (auto simp: tea_step_def tea_unstep_def mix_update)

section \<open>The loops run the schedule\<close>

lemma length_tea [simp]:
  "length (tea_step c n i data) = length data" "length (tea_unstep c n i data) = length data"
  by (simp_all add: tea_step_def tea_unstep_def)

lemma length_fold_tea [simp]:
  "length (fold (tea_step c n) is data) = length data" "length (fold (tea_unstep c n) is data) = length data"
  by (induction "is" arbitrary: data) auto

lemma encrypt_for_eq:
  "p + k \<le> n \<Longrightarrow> n < length data \<Longrightarrow> z = data ! prv n p \<Longrightarrow>
     encrypt_for c sm (drop_bit 2 sm AND 3) k p (z, data) =
       (let d = fold (tea_step c n) (map (Pair sm) [p ..< p + k]) data in (d ! prv n (p + k), d))"
proof (induction k arbitrary: p z data)
  case (Suc k)
  let ?d = "tea_step c n (sm, p) data"
  have "?d = data[p := data ! p + MX c z (data ! (p + 1)) sm p (drop_bit 2 sm AND 3)]"
    using Suc.prems by (simp add: tea_step_def mix_def nxt_def)
  moreover have "[p ..< p + Suc k] = p # [Suc p ..< Suc p + k]" using upt_conv_Cons by simp
  moreover have "?d ! p = ?d ! prv n (Suc p)" by (simp add: prv_def)
  moreover have "length ?d = length data" "p < length data" using Suc.prems by (auto simp: tea_step_def)
  ultimately show ?case
    using Suc.prems Suc.IH [of "Suc p" ?d "?d ! p"]
    by (simp add: Let_def tea_step_def)
qed simp

lemma encrypt_while_eq:
  "n < length data \<Longrightarrow>
     encrypt_while c n q sm (data ! n, data) = fold (tea_step c n) (schedule n q sm) data"
proof (induction q arbitrary: sm data)
  case (Suc q)
  let ?s = "sm + DELTA"
  let ?d = "fold (tea_step c n) (map (Pair ?s) [0 ..< n]) data"
  have r: "encrypt_for c ?s (drop_bit 2 ?s AND 3) n 0 (data ! n, data) = (?d ! prv n n, ?d)"
    using Suc.prems encrypt_for_eq [of 0 n n data "data ! n" c ?s] by (simp add: prv_def Let_def)
  have l: "?d[n := ?d ! n + MX c (?d ! prv n n) (?d ! 0) ?s n (drop_bit 2 ?s AND 3)] =
      fold (tea_step c n) (map (Pair ?s) [0 ..< Suc n]) data"
    by (simp add: tea_step_def mix_def nxt_def)
  have "(fold (tea_step c n) (map (Pair ?s) [0 ..< Suc n]) data) ! n =
      ?d ! n + MX c (?d ! prv n n) (?d ! 0) ?s n (drop_bit 2 ?s AND 3)"
    using Suc.prems unfolding l [symmetric] by simp
  with Suc.IH [of "fold (tea_step c n) (map (Pair ?s) [0 ..< Suc n]) data" ?s] Suc.prems
  show ?case
    by (simp add: Let_def r l del: upt_Suc)
qed simp

lemma decrypt_for_eq:
  "p \<le> n \<Longrightarrow> n < length data \<Longrightarrow> y = data ! nxt n p \<Longrightarrow>
     decrypt_for c sm (drop_bit 2 sm AND 3) p (y, data) =
       (let d = fold (tea_unstep c n) (map (Pair sm) (rev [1 ..< Suc p])) data in (d ! nxt n 0, d))"
proof (induction p arbitrary: y data)
  case (Suc p)
  let ?d = "tea_unstep c n (sm, Suc p) data"
  have "?d = data[Suc p := data ! Suc p - MX c (data ! p) y sm (Suc p) (drop_bit 2 sm AND 3)]"
    using Suc.prems by (simp add: tea_unstep_def mix_def prv_def)
  moreover have "?d ! Suc p = ?d ! nxt n p" using Suc.prems by (simp add: nxt_def)
  moreover have "length ?d = length data" "Suc p < length data" using Suc.prems by (auto simp: tea_unstep_def)
  ultimately show ?case
    using Suc.prems Suc.IH [of ?d "?d ! Suc p"] by (simp add: Let_def)
qed simp

lemma decrypt_while_eq:
  "q < 2 ^ 32 \<Longrightarrow> n < length data \<Longrightarrow> 0 < n \<Longrightarrow>
     decrypt_while c n (of_nat q * DELTA) (data ! 0, data) =
       fold (tea_unstep c n) (rev (schedule n q 0)) data"
proof (induction q arbitrary: data)
  case 0
  then show ?case by (simp add: decrypt_while.simps)
next
  case (Suc q)
  let ?s = "of_nat (Suc q) * DELTA"
  let ?d = "fold (tea_unstep c n) (map (Pair ?s) (rev [1 ..< Suc n])) data"
  let ?d' = "fold (tea_unstep c n) (rev (map (Pair ?s) [0 ..< Suc n])) data"
  have nz: "?s \<noteq> 0"
  proof
    assume "?s = 0"
    then have "of_nat (Suc q) * (DELTA * DELTA_inverse) = (0 :: u32)"
      by (simp only: mult.assoc [symmetric] mult_zero_left)
    then have "(of_nat (Suc q) :: u32) = 0" by (simp only: DELTA_times_inverse mult_1_right)
    then have "unat (of_nat (Suc q) :: u32) = 0" by (simp only: unsigned_0)
    with Suc.prems show False by (simp add: unat_of_nat_small del: of_nat_Suc)
  qed
  have r: "decrypt_for c ?s (drop_bit 2 ?s AND 3) n (data ! 0, data) = (?d ! nxt n 0, ?d)"
    using Suc.prems decrypt_for_eq [of n n data "data ! 0" c ?s] by (simp add: nxt_def Let_def)
  have "rev [0 ..< Suc n] = rev [1 ..< Suc n] @ [0]" by (simp add: upt_rec)
  then have l: "?d' = ?d[0 := ?d ! 0 - MX c (?d ! n) (?d ! nxt n 0) ?s 0 (drop_bit 2 ?s AND 3)]"
    by (simp only: rev_map map_append fold_append list.map fold_simps comp_def)
      (simp add: tea_unstep_def mix_def prv_def)
  have e: "?s - DELTA = of_nat q * DELTA" by (simp add: algebra_simps)
  have d0: "?d' ! 0 = ?d ! 0 - MX c (?d ! n) (?d ! nxt n 0) ?s 0 (drop_bit 2 ?s AND 3)"
    unfolding l using Suc.prems by (subst nth_list_update) (auto simp del: upt_Suc simp: length_fold_tea)
  have "decrypt_while c n ?s (data ! 0, data) = decrypt_while c n (of_nat q * DELTA) (?d' ! 0, ?d')"
    unfolding d0 unfolding l by (subst decrypt_while.simps) (simp only: nz if_False Let_def r prod.case e)
  also have "\<dots> = fold (tea_unstep c n) (rev (schedule n q 0)) ?d'"
    using Suc.prems by (intro Suc.IH) auto
  finally show ?case
    unfolding schedule_snoc by (simp add: rev_map del: upt_Suc)
qed

section \<open>Block round trip\<close>

lemma block_length_bounds:
  assumes "2 \<le> unat (len :: u32)"
  shows "unat (len - 1) = unat len - 1" "\<not> \<not> len - 1 \<ge> 1" "len - 1 + 1 \<noteq> 0"
proof -
  show u: "unat (len - 1) = unat len - 1"
    using assms by (intro unat_minus_one) auto
  show "\<not> \<not> len - 1 \<ge> 1" using assms u by (simp add: word_le_nat_alt)
  show "len - 1 + 1 \<noteq> 0" using assms by auto
qed

lemma encrypt_eq:
  assumes "2 \<le> unat len" and "unat len \<le> length data"
  shows "encrypt c data len =
    Inr (fold (tea_step c (unat len - 1)) (schedule (unat len - 1) (unat (6 + 52 div len)) 0) data)"
  using assms block_length_bounds [OF assms(1)] encrypt_while_eq [of "unat len - 1" data c _ 0]
  by (simp add: encrypt_def Let_def)

lemma decrypt_eq:
  assumes "2 \<le> unat len" and "unat len \<le> length data"
  shows "decrypt c data len =
    Inr (fold (tea_unstep c (unat len - 1)) (rev (schedule (unat len - 1) (unat (6 + 52 div len)) 0)) data)"
  using assms block_length_bounds [OF assms(1)]
    decrypt_while_eq [of "unat (6 + 52 div len)" "unat len - 1" data c]
    unsigned_less [of "6 + 52 div len", where ?'a = nat]
  by (simp add: decrypt_def Let_def)

lemma block_inverse:
  assumes "2 \<le> unat len" and "unat len \<le> length data"
  shows "\<exists>e d. encrypt c data len = Inr e \<and> decrypt c data len = Inr d \<and>
           length e = length data \<and> length d = length data \<and>
           drop (unat len) e = drop (unat len) data \<and> drop (unat len) d = drop (unat len) data \<and>
           decrypt c e len = Inr data \<and> encrypt c d len = Inr data"
proof -
  let ?n = "unat len - 1" and ?s = "schedule (unat len - 1) (unat (6 + 52 div len)) 0"
  let ?e = "fold (tea_step c ?n) ?s data" and ?d = "fold (tea_unstep c ?n) (rev ?s) data"
  have frame: "drop (unat len) (fold (tea_step c ?n) is xs) = drop (unat len) xs"
    "drop (unat len) (fold (tea_unstep c ?n) is xs) = drop (unat len) xs"
    if "\<forall>i \<in> set is. snd i \<le> ?n" for "is" xs
    using that assms(1)
    by (induction "is" arbitrary: xs) (auto simp: tea_step_def tea_unstep_def)
  have range: "snd i \<le> ?n" if "i \<in> set ?s" for i using that by (rule schedule_range)
  have "fold (tea_unstep c ?n) (rev ?s) ?e = data"
    using assms range enc.fold_unstep [of ?s "(c, ?n)" data] by simp
  then have "decrypt c ?e len = Inr data" using assms by (simp add: decrypt_eq)
  moreover have "fold (tea_step c ?n) ?s ?d = data"
    using assms range dec.fold_unstep [of "rev ?s" "(c, ?n)" data] by simp
  then have "encrypt c ?d len = Inr data" using assms by (simp add: encrypt_eq)
  moreover have "drop (unat len) ?e = drop (unat len) data" "drop (unat len) ?d = drop (unat len) data"
    by (rule frame, use range in simp)+
  ultimately show ?thesis
    unfolding encrypt_eq [OF assms] decrypt_eq [OF assms]
    by - (rule exI [of _ ?e], rule exI [of _ ?d], simp)
qed

text \<open>
  C15: XXTEA is a permutation of blocks. For every key and every block of at least two words,
  \<open>encrypt\<close> and \<open>decrypt\<close> stay inside the block, terminate, leave the words after the block
  alone, and undo each other in both orders.
\<close>

theorem xxtea_block_inverse:
  assumes "2 \<le> unat len" and "unat len \<le> length data"
  shows "\<exists>e d. encrypt c data len = Inr e \<and> decrypt c data len = Inr d \<and>
           length e = length data \<and> length d = length data \<and>
           drop (unat len) e = drop (unat len) data \<and> drop (unat len) d = drop (unat len) data \<and>
           decrypt c e len = Inr data \<and> encrypt c d len = Inr data"
  using assms by (rule block_inverse)

theorem xxtea_block_inverse_witness:
  "\<exists>e. encrypt \<lparr>cipher_key = [1, 2, 3, 4]\<rparr> [5, 6, 7] 2 = Inr e \<and> drop 2 e = [7] \<and>
     decrypt \<lparr>cipher_key = [1, 2, 3, 4]\<rparr> e 2 = Inr [5, 6, 7]"
  using xxtea_block_inverse [of 2 "[5, 6, 7]" "\<lparr>cipher_key = [1, 2, 3, 4]\<rparr>"] by auto

section \<open>Strings and word arrays\<close>

lemma length_words_of [simp]: "length (words_of h bs) = length bs div 4"
proof (induction h bs rule: words_of.induct)
  case (1 h bs)
  then show ?case
    by (subst words_of.simps) (auto simp: not_less le_div_geq)
qed

lemma words_of_Nil [simp]: "length bs < 4 \<Longrightarrow> words_of h bs = []"
  by (subst words_of.simps) simp

lemma bytes_of_simps [simp]: "bytes_of h [] = []" "bytes_of h (w # ws) = obj_bytes h 4 w @ bytes_of h ws"
  "bytes_of h (ws @ vs) = bytes_of h ws @ bytes_of h vs"
  by (simp_all add: bytes_of_def)

lemma length_bytes_of [simp]: "length (bytes_of h ws) = 4 * length ws"
  by (induction ws) simp_all

lemma words_of_bytes_of [simp]: "words_of h (bytes_of h ws @ bs) = ws @ words_of h bs"
proof (induction ws)
  case (Cons w ws)
  then show ?case
    by (subst words_of.simps) (simp add: wire_simps)
qed simp

lemma bytes_of_words_of: "bytes_of h (words_of h bs) @ drop (4 * (length bs div 4)) bs = bs"
proof (induction h bs rule: words_of.induct)
  case (1 h bs)
  show ?case
  proof (cases "length bs < 4")
    case False
    then have e: "4 * (length bs div 4) = 4 * (length (drop 4 bs) div 4) + 4"
      by (simp add: not_less le_div_geq)
    have "words_of h bs = obj_word h (take 4 bs) # words_of h (drop 4 bs)"
      using False by (subst words_of.simps) simp
    then show ?thesis
      using False 1 unfolding e by (simp add: wire_simps drop_drop [symmetric] del: drop_drop)
  qed simp
qed

lemma bytes_of_words_full: "length bs = 4 * m \<Longrightarrow> bytes_of h (words_of h bs) = bs"
  using bytes_of_words_of [of h bs] by simp

lemma take_bytes_of: "take (4 * m) (bytes_of h ws) = bytes_of h (take m ws)"
proof (induction ws arbitrary: m)
  case (Cons w ws)
  then show ?case by (cases m) auto
qed simp

section \<open>The string operations\<close>

text \<open>The number of words the data of \<open>n\<close> bytes takes; the length word comes after them.\<close>

definition word_count :: "nat \<Rightarrow> nat" where
  "word_count n = (n + 3) div 4"

definition frame_words :: "Endian \<Rightarrow> bytes \<Rightarrow> u32 list" where
  "frame_words h s =
     words_of h (s @ replicate (4 * word_count (length s) - length s) 0) @ [of_nat (length s)]"

lemma word_count_bounds: "n \<le> 4 * word_count n" "4 * word_count n \<le> n + 3" "0 < n \<Longrightarrow> 0 < word_count n"
  by (auto simp: word_count_def)

lemma length_frame_words [simp]: "length (frame_words h s) = word_count (length s) + 1"
  using word_count_bounds(1) [of "length s"] by (simp add: frame_words_def)

lemma frame_words_nth: "frame_words h s ! word_count (length s) = of_nat (length s)"
  using word_count_bounds(1) [of "length s"] by (simp add: frame_words_def nth_append)

lemma take_frame_words: "take (length s) (bytes_of h (frame_words h s)) = s"
proof -
  have "length (s @ replicate (4 * word_count (length s) - length s) 0) = 4 * word_count (length s)"
    using word_count_bounds(1) [of "length s"] by simp
  then show ?thesis by (simp add: frame_words_def bytes_of_words_full)
qed

lemma word_count_eq: "word_count n = n div 4 + (if n mod 4 = 0 then 0 else 1)"
proof -
  have "word_count n = (4 * (n div 4) + (n mod 4 + 3)) div 4" by (simp add: word_count_def)
  also have "\<dots> = n div 4 + (n mod 4 + 3) div 4" by (simp only: div_mult_self4 add.commute)
  moreover have "n mod 4 \<in> {0, 1, 2, 3}" by auto
  ultimately show ?thesis by auto
qed

lemma framing_size:
  "(if n mod 4 \<noteq> 0 then n + 8 - n mod 4 else n + 4) = 4 * (word_count n + 1)"
proof -
  define k r where kr: "k = n div 4" "r = n mod 4"
  have n: "n = 4 * k + r" "r < 4" by (simp_all add: kr)
  then have "n + 8 - r = 4 * (k + 2)" "r = 0 \<Longrightarrow> n + 4 = 4 * (k + 1)" by simp_all
  then show ?thesis unfolding word_count_eq kr [symmetric] by simp
qed

lemma framing_index:
  "n mod 4 \<noteq> 0 \<Longrightarrow> (n + 4 - n mod 4) div 4 = word_count n"
  using framing_size [of n] by simp

lemma framing_words:
  assumes "n + 8 \<le> 2 ^ 32"
  shows "unat (of_nat n mod 4 :: u32) = n mod 4"
    and "n mod 4 \<noteq> 0 \<Longrightarrow> (of_nat n + 4 - of_nat n mod 4 :: u32) div 4 = of_nat (word_count n)"
    and "n mod 4 = 0 \<Longrightarrow> (of_nat n :: u32) div 4 = of_nat (word_count n)"
proof -
  have n: "unat (of_nat n :: u32) = n" using assms by (simp add: unat_of_nat_small)
  show m: "unat (of_nat n mod 4 :: u32) = n mod 4" by (simp add: unat_mod_distrib n)
  have wc: "unat (of_nat (word_count n) :: u32) = word_count n"
    using assms word_count_bounds(2) [of n] by (intro unat_of_nat_small) simp
  have p: "unat (of_nat n + 4 :: u32) = n + 4"
    using assms n by (subst unat_plus_small) auto
  have "unat (of_nat n + 4 - of_nat n mod 4 :: u32) = n + 4 - n mod 4"
    using p m by (subst unat_minus_small) (auto simp: word_le_nat_alt intro: mod_less_eq_dividend le_trans)
  then show "(of_nat n + 4 - of_nat n mod 4 :: u32) div 4 = of_nat (word_count n)" if "n mod 4 \<noteq> 0"
    using that wc by (intro unsigned_word_eqI [where ?'a = nat]) (simp add: unat_div_distrib framing_index)
  show "(of_nat n :: u32) div 4 = of_nat (word_count n)" if "n mod 4 = 0"
    using that wc n by (intro unsigned_word_eqI [where ?'a = nat]) (simp add: unat_div_distrib word_count_eq)
qed

lemma frame_words_resize:
  "(words_of h (resize (4 * (word_count (length s) + 1)) s))[word_count (length s) := of_nat (length s)] =
     frame_words h s"
proof -
  let ?m = "word_count (length s)"
  let ?p = "s @ replicate (4 * ?m - length s) 0"
  have le: "length s \<le> 4 * ?m" by (rule word_count_bounds)
  then have "resize (4 * (?m + 1)) s = ?p @ replicate 4 0"
    by (simp add: resize_def replicate_add [symmetric])
  also have "?p = bytes_of h (words_of h ?p)"
    using le by (intro bytes_of_words_full [symmetric, of _ ?m]) simp
  finally have "words_of h (resize (4 * (?m + 1)) s) = words_of h ?p @ words_of h (replicate 4 0)"
    by (simp only: words_of_bytes_of)
  moreover have "length (words_of h ?p) = ?m" using le by simp
  moreover have "words_of h (replicate 4 0) = [obj_word h (replicate 4 0)]"
    by (subst words_of.simps) simp
  ultimately show ?thesis by (simp add: frame_words_def list_update_append)
qed

lemma FastEncrypt_eq:
  assumes "length s + 8 \<le> 2 ^ 32"
  shows "FastEncrypt h c s =
     (case encrypt c (frame_words h s) (of_nat (word_count (length s) + 1)) of
        Inl f \<Rightarrow> Inl f
      | Inr data \<Rightarrow> Inr (store_words h data (resize (4 * (word_count (length s) + 1)) s)))"
proof -
  let ?m = "word_count (length s)"
  have m: "unat (of_nat ?m :: u32) = ?m"
    using assms word_count_bounds(2) [of "length s"] by (intro unat_of_nat_small) simp
  have "length (resize (4 * (?m + 1)) s) = 4 * (?m + 1)"
    using word_count_bounds(1) [of "length s"] by (simp add: resize_def)
  moreover have "(if of_nat (length s) mod 4 \<noteq> (0 :: u32)
      then ((of_nat (length s) + 4 - of_nat (length s) mod 4) div 4 :: u32,
            resize (length s + 8 - unat (of_nat (length s) mod 4 :: u32)) s)
      else (of_nat (length s) div 4, resize (length s + 4) s)) = (of_nat ?m, resize (4 * (?m + 1)) s)"
  proof (cases "length s mod 4 = 0")
    case True
    then have "of_nat (length s) mod 4 = (0 :: u32)"
      using framing_words(1) [OF assms] by (simp add: unsigned_eq_0_iff)
    with True framing_words(3) [OF assms] framing_size [of "length s"] show ?thesis
      by (simp add: add.commute)
  next
    case False
    then have "of_nat (length s) mod 4 \<noteq> (0 :: u32)"
      using framing_words(1) [OF assms] by (metis unsigned_0)
    with False framing_words(1,2) [OF assms] framing_size [of "length s"] show ?thesis by simp
  qed
  ultimately show ?thesis
    unfolding FastEncrypt_def Let_def
    by (simp add: m frame_words_resize [simplified] add.commute split: sum.split)
qed

lemma store_words_full: "length bs = 4 * length ws \<Longrightarrow> store_words h ws bs = bytes_of h ws"
  by (simp add: store_words_def)

text \<open>One word is not changed at all, so that the general case is two words or more.\<close>

lemma encrypt_frame:
  assumes "length s + 8 \<le> 2 ^ 32" and "s \<noteq> []"
  shows "\<exists>e. encrypt c (frame_words h s) (of_nat (word_count (length s) + 1)) = Inr e \<and>
           length e = word_count (length s) + 1 \<and>
           decrypt c e (of_nat (word_count (length s) + 1)) = Inr (frame_words h s)"
proof -
  let ?m = "word_count (length s)"
  have "unat (of_nat (?m + 1) :: u32) = ?m + 1"
    using assms word_count_bounds(2) [of "length s"] by (intro unat_of_nat_small) simp
  moreover have "0 < ?m" using assms(2) by (simp add: word_count_bounds)
  ultimately show ?thesis
    using block_inverse [of "of_nat (?m + 1)" "frame_words h s" c] by auto
qed

lemma FastEncrypt_FastDecrypt:
  assumes "length s + 8 \<le> 2 ^ 32" and "s \<noteq> []"
  shows "\<exists>e. FastEncrypt h c s = Inr e \<and> length e = 4 * (word_count (length s) + 1) \<and>
           FastDecrypt h c e = Inr (True, s)"
proof -
  let ?m = "word_count (length s)" and ?w = "of_nat (word_count (length s) + 1) :: u32"
  have b: "length s \<le> 4 * ?m" "4 * ?m \<le> length s + 3" "0 < ?m"
    using assms(2) by (auto intro: word_count_bounds)
  obtain e where e: "encrypt c (frame_words h s) ?w = Inr e" "length e = ?m + 1"
    "decrypt c e ?w = Inr (frame_words h s)"
    using encrypt_frame [OF assms] by blast
  have enc: "FastEncrypt h c s = Inr (bytes_of h e)"
    using b unfolding FastEncrypt_eq [OF assms(1)] e(1)
    by (simp add: e(2) store_words_full resize_def)
  have w: "words_of h (bytes_of h e) = e" using words_of_bytes_of [of h e "[]"] by simp
  have l: "unat (of_nat (4 * (?m + 1)) :: u32) = 4 * (?m + 1)"
    by (rule unat_of_nat_small) (use assms b in simp)
  have lw: "unat ?w = ?m + 1"
    by (rule unat_of_nat_small) (use assms b in simp)
  have ls: "unat (of_nat (length s) :: u32) = length s"
    by (rule unat_of_nat_small) (use assms b in simp)
  have num: "(of_nat (4 * (?m + 1)) :: u32) div 4 = ?w"
    by (rule unsigned_word_eqI [where ?'a = nat]) (simp only: unat_div_distrib l lw, simp)
  have last: "unat (?w - 1) = ?m"
    using lw by (subst unat_minus_one) (metis unsigned_0 add_is_0 one_neq_zero, simp)
  have sub: "unat ((of_nat (4 * (?m + 1)) :: u32) - k) = 4 * (?m + 1) - unat k" if "unat k \<le> 8" for k
    using that b l by (subst unat_minus_small) (auto simp: word_le_nat_alt simp del: of_nat_mult of_nat_add)
  have ok: "of_nat (length s) \<le> (of_nat (4 * (?m + 1)) :: u32) - 4 \<and>
      of_nat (length s) \<ge> (of_nat (4 * (?m + 1)) :: u32) - 7"
    using b sub [of 4] sub [of 7] unfolding word_le_nat_alt ls
    by (simp del: of_nat_mult of_nat_add of_nat_Suc)
  have "length (bytes_of h e) = 4 * (?m + 1)" by (simp add: e(2))
  then have "FastDecrypt h c (bytes_of h e) = Inr (True, resize (length s) (bytes_of h (frame_words h s)))"
    unfolding FastDecrypt_def Let_def
    by (simp only: num w e(3) sum.case last length_frame_words frame_words_nth ok ls simp_thms if_True)
      (simp add: store_words_full)
  moreover have "resize (length s) (bytes_of h (frame_words h s)) = s"
    using b by (simp add: resize_def take_frame_words)
  ultimately show ?thesis using enc by (simp add: e(2))
qed

interpretation xxtea: codec "\<lambda>(h, c, s). s \<noteq> [] \<and> length s + 8 \<le> 2 ^ 32"
    "\<lambda>(h, c, s). (h, c, FastEncrypt h c s)"
    "\<lambda>(h, c, e). case e of Inl f \<Rightarrow> Inl f | Inr e \<Rightarrow>
       (case FastDecrypt h c e of Inl f \<Rightarrow> Inl f | Inr (ok, s) \<Rightarrow> Inr (h, c, s))"
proof (unfold_locales, clarsimp)
  fix h c and s :: bytes assume "s \<noteq> []" and "length s \<le> 4294967288"
  then show "(case FastEncrypt h c s of Inl f \<Rightarrow> Inl f | Inr e \<Rightarrow>
      (case FastDecrypt h c e of Inl f \<Rightarrow> Inl f | Inr (ok, s) \<Rightarrow> Inr (h, c, s))) = Inr (h, c, s)"
    using FastEncrypt_FastDecrypt [of s h c] by auto
qed

text \<open>
  String round trip. For every key and every non-empty string short enough for the 32-bit
  length word, \<open>Encrypt\<close> succeeds, its result is the padded text plus the encrypted length word,
  and \<open>Decrypt\<close> with the same cipher reports success and stores the original string in
  \<open>out\<close>, whatever \<open>out\<close> held before.
\<close>

theorem xxtea_string_round_trip:
  assumes "s \<noteq> []" and "length s + 8 \<le> 2 ^ 32"
  shows "\<exists>e. Encrypt h c s = Inr e \<and> length e = 4 * ((length s + 3) div 4) + 4 \<and>
           Decrypt h c e out = Inr (True, s)"
  using FastEncrypt_FastDecrypt [of s h c] assms
  by (auto simp: Encrypt_def Decrypt_def word_count_def)

theorem xxtea_string_round_trip_witness:
  "\<exists>e. Encrypt LittleEndian (XXTeaCipher LittleEndian (ascii ''secret'')) (ascii ''hello'') = Inr e \<and>
     length e = 12 \<and>
     Decrypt LittleEndian (XXTeaCipher LittleEndian (ascii ''secret'')) e [] = Inr (True, ascii ''hello'')"
  using xxtea_string_round_trip [of "ascii ''hello''" LittleEndian "XXTeaCipher LittleEndian (ascii ''secret'')" "[]"]
  by (simp add: ascii_def)

text \<open>
  The shortest ciphertexts are not accepted. The check
  \<open>decryptedLen >= dataLen - 7\<close> is done in \<open>uint32_t\<close>; for a \<open>dataLen\<close> of 4 to 6 the
  subtraction wraps around, so \<open>FastDecrypt\<close> reports failure for every input of that size. The
  ciphertext of the empty string has four bytes: it can be encrypted but never decrypted.
\<close>

theorem xxtea_empty_string_lost:
  "(length bs \<in> {4, 5, 6} \<longrightarrow> FastDecrypt h c bs = Inr (False, bs)) \<and>
   (\<exists>e. Encrypt h c [] = Inr e \<and> length e = 4 \<and> Decrypt h c e out = Inr (False, out))"
proof -
  have short: "FastDecrypt h c bs = Inr (False, bs)" if "length bs \<in> {4, 5, 6}" for bs
  proof -
    have "length bs div 4 = 1" using that by auto
    then have "store_words h (words_of h bs) bs = bs"
      using bytes_of_words_of [of h bs] by (simp add: store_words_def)
    moreover have "(of_nat (length bs) :: u32) div 4 = 1" using that by auto
    moreover have "\<not> (x \<le> (of_nat (length bs) :: u32) - 4 \<and> x \<ge> of_nat (length bs) - 7)" for x
      using that by (auto simp: word_le_nat_alt unsigned_minus_1_eq_mask mask_eq_exp_minus_1)
    ultimately show ?thesis
      using \<open>length bs div 4 = 1\<close> by (simp add: FastDecrypt_def Let_def decrypt_def)
  qed
  have "FastEncrypt h c [] = Inr (store_words h (frame_words h []) (resize 4 []))"
    unfolding FastEncrypt_eq [of "[]", simplified] by (simp add: encrypt_def word_count_def)
  moreover have "length (store_words h (frame_words h []) (resize 4 [])) = 4"
    by (simp add: store_words_def resize_def word_count_def)
  ultimately show ?thesis
    using short by (auto simp: Encrypt_def Decrypt_def)
qed

theorem xxtea_empty_string_lost_witness:
  "FastDecrypt LittleEndian \<lparr>cipher_key = [1, 2, 3, 4]\<rparr> [1, 0, 0, 0, 9] = Inr (False, [1, 0, 0, 0, 9])"
  using xxtea_empty_string_lost [of "[1, 0, 0, 0, 9]" LittleEndian "\<lparr>cipher_key = [1, 2, 3, 4]\<rparr>"] by simp

end
