(* ===== verification/Chacha20.thy ===== *)
theory Chacha20
  imports Prelude
begin

text \<open>
  Model of \<open>crypto/chacha20.h\<close> and \<open>crypto/chacha20.cpp\<close> (class \<open>ChaCha20Cipher\<close> and the
  function \<open>ChaCha20\<close>). Source and destination are offsets into one memory block, so that the
  in-place use and overlapping buffers are covered; the member \<open>input_\<close> with its block counter
  in word 12 is part of the state that \<open>Encrypt\<close> changes.
\<close>

record chacha =
  counter :: u32
  input :: "u32 list"

definition sigma :: bytes where
  "sigma = ascii ''expand 32-byte k''"

definition U32TO8_LITTLE :: "u32 \<Rightarrow> bytes" where
  "U32TO8_LITTLE v = [ucast (drop_bit 0 v AND 0xff), ucast (drop_bit 8 v AND 0xff),
                      ucast (drop_bit 16 v AND 0xff), ucast (drop_bit 24 v AND 0xff)]"

definition U8TO32_LITTLE :: "bytes \<Rightarrow> nat \<Rightarrow> u32" where
  "U8TO32_LITTLE bs p =
     ucast (bs ! p) OR push_bit 8 (ucast (bs ! (p + 1))) OR
     push_bit 16 (ucast (bs ! (p + 2))) OR push_bit 24 (ucast (bs ! (p + 3)))"

definition ROTATE :: "u32 \<Rightarrow> nat \<Rightarrow> u32" where
  "ROTATE v n = push_bit n v OR drop_bit (32 - n) v"

definition QUARTERROUND :: "nat \<Rightarrow> nat \<Rightarrow> nat \<Rightarrow> nat \<Rightarrow> u32 list \<Rightarrow> u32 list" where
  "QUARTERROUND a b c d x0 =
     (let x1 = x0[a := x0 ! a + x0 ! b];
          x2 = x1[d := ROTATE (x1 ! d XOR x1 ! a) 16];
          x3 = x2[c := x2 ! c + x2 ! d];
          x4 = x3[b := ROTATE (x3 ! b XOR x3 ! c) 12];
          x5 = x4[a := x4 ! a + x4 ! b];
          x6 = x5[d := ROTATE (x5 ! d XOR x5 ! a) 8];
          x7 = x6[c := x6 ! c + x6 ! d]
      in x7[b := ROTATE (x7 ! b XOR x7 ! c) 7])"

text \<open>One iteration of the loop of \<open>chacha_core\<close>: four column and four diagonal quarter rounds.\<close>

definition double_round :: "u32 list \<Rightarrow> u32 list" where
  "double_round x =
     QUARTERROUND 3 4 9 14 (QUARTERROUND 2 7 8 13 (QUARTERROUND 1 6 11 12 (QUARTERROUND 0 5 10 15
     (QUARTERROUND 3 7 11 15 (QUARTERROUND 2 6 10 14 (QUARTERROUND 1 5 9 13 (QUARTERROUND 0 4 8 12 x)))))))"

definition chacha_core :: "u32 list \<Rightarrow> bytes" where
  "chacha_core inp =
     (let x = (double_round ^^ 10) inp; x = map2 (+) x inp in concat (map U32TO8_LITTLE x))"

text \<open>The constructor does not initialise \<open>input_[12]\<close>: \<open>junk\<close> is what the memory held.\<close>

definition ChaCha20Cipher :: "u32 \<Rightarrow> bytes \<Rightarrow> bytes \<Rightarrow> u32 \<Rightarrow> chacha res" where
  "ChaCha20Cipher junk key nonce ctr =
     (if length key < 32 \<or> length nonce < 12 then Inl Out_Of_Bounds
      else Inr \<lparr>counter = ctr,
        input = [U8TO32_LITTLE sigma 0, U8TO32_LITTLE sigma 4, U8TO32_LITTLE sigma 8, U8TO32_LITTLE sigma 12,
                 U8TO32_LITTLE key 0, U8TO32_LITTLE key 4, U8TO32_LITTLE key 8, U8TO32_LITTLE key 12,
                 U8TO32_LITTLE key 16, U8TO32_LITTLE key 20, U8TO32_LITTLE key 24, U8TO32_LITTLE key 28,
                 junk,
                 U8TO32_LITTLE nonce 0, U8TO32_LITTLE nonce 4, U8TO32_LITTLE nonce 8]\<rparr>)"

text \<open>\<open>for (i = 0; i < todo; i++) out[i] = in[i] ^ buf[i];\<close> with \<open>k\<close> iterations left.\<close>

fun xor_for :: "bytes \<Rightarrow> nat \<Rightarrow> nat \<Rightarrow> nat \<Rightarrow> nat \<Rightarrow> bytes \<Rightarrow> bytes res" where
  "xor_for buf 0 i out inp mem = Inr mem"
| "xor_for buf (Suc k) i out inp mem =
     (if inp + i < length mem \<and> out + i < length mem
      then xor_for buf k (Suc i) out inp (mem[out + i := mem ! (inp + i) XOR buf ! i])
      else Inl Out_Of_Bounds)"

function chacha_while :: "chacha \<Rightarrow> nat \<Rightarrow> nat \<Rightarrow> nat \<Rightarrow> bytes \<Rightarrow> (chacha \<times> bytes) res" where
  "chacha_while c out inp len mem =
     (if len = 0 then Inr (c, mem)
      else let todo = (if len < 64 then len else 64) in
        case xor_for (chacha_core (input c)) todo 0 out inp mem of
          Inl f \<Rightarrow> Inl f
        | Inr mem \<Rightarrow> chacha_while (c\<lparr>input := (input c)[12 := input c ! 12 + 1]\<rparr>)
                      (out + todo) (inp + todo) (len - todo) mem)"
  by pat_completeness auto

termination chacha_while
  by (relation "measure (\<lambda>(c, out, inp, len, mem). len)") auto

declare chacha_while.simps [simp del]

definition Encrypt :: "chacha \<Rightarrow> nat \<Rightarrow> nat \<Rightarrow> nat \<Rightarrow> bytes \<Rightarrow> (chacha \<times> bytes) res" where
  "Encrypt c dst src len mem = chacha_while (c\<lparr>input := (input c)[12 := counter c]\<rparr>) dst src len mem"

definition Decrypt :: "chacha \<Rightarrow> nat \<Rightarrow> nat \<Rightarrow> nat \<Rightarrow> bytes \<Rightarrow> (chacha \<times> bytes) res" where
  "Decrypt c dst src len mem = Encrypt c dst src len mem"

definition ChaCha20 :: "u32 \<Rightarrow> nat \<Rightarrow> nat \<Rightarrow> nat \<Rightarrow> bytes \<Rightarrow> bytes \<Rightarrow> u32 \<Rightarrow> bytes \<Rightarrow> bytes res" where
  "ChaCha20 junk out inp len key nonce ctr mem =
     (case ChaCha20Cipher junk key nonce ctr of
        Inl f \<Rightarrow> Inl f
      | Inr cc20 \<Rightarrow> (case Encrypt cc20 out inp len mem of Inl f \<Rightarrow> Inl f | Inr (cc20, mem) \<Rightarrow> Inr mem))"

section \<open>The key stream\<close>

text \<open>
  The specification of the stream cipher: byte \<open>i\<close> of the key stream comes from block
  \<open>i div 64\<close>, whose counter is the initial one plus the block number, modulo \<open>2\<^sup>3\<^sup>2\<close>.
\<close>

definition keystream :: "u32 list \<Rightarrow> u32 \<Rightarrow> nat \<Rightarrow> u8" where
  "keystream inp ctr i = chacha_core (inp[12 := ctr + of_nat (i div 64)]) ! (i mod 64)"

definition xor_stream :: "(nat \<Rightarrow> u8) \<Rightarrow> bytes \<Rightarrow> bytes" where
  "xor_stream ks bs = map2 (XOR) bs (map ks [0 ..< length bs])"

lemma length_xor_stream [simp]: "length (xor_stream ks bs) = length bs"
  by (simp add: xor_stream_def)

lemma nth_xor_stream: "i < length bs \<Longrightarrow> xor_stream ks bs ! i = bs ! i XOR ks i"
  by (simp add: xor_stream_def)

lemma xor_stream_append:
  "xor_stream ks (xs @ ys) = xor_stream ks xs @ xor_stream (\<lambda>i. ks (length xs + i)) ys"
  by (rule nth_equalityI) (auto simp: nth_xor_stream nth_append)

lemma xor_stream_Cons: "xor_stream ks (x # xs) = (x XOR ks 0) # xor_stream (\<lambda>i. ks (Suc i)) xs"
  using xor_stream_append [of ks "[x]" xs] by (simp add: xor_stream_def)

lemma xor_stream_cancel [simp]: "xor_stream ks (xor_stream ks bs) = bs"
  by (rule nth_equalityI) (auto simp: nth_xor_stream xor.assoc)

lemma xor_stream_cong:
  "(\<And>i. i < length bs \<Longrightarrow> f i = g i) \<Longrightarrow> xor_stream f bs = xor_stream g bs"
  by (rule nth_equalityI) (auto simp: nth_xor_stream)

text \<open>Buffers that may not overlap the wrong way: the loop reads ahead of what it writes.\<close>

definition reads_ahead :: "nat \<Rightarrow> nat \<Rightarrow> nat \<Rightarrow> bool" where
  "reads_ahead dst src len \<longleftrightarrow> dst \<le> src \<or> src + len \<le> dst"

lemma xor_for_eq:
  "inp + i + k \<le> length mem \<Longrightarrow> out + i + k \<le> length mem \<Longrightarrow> reads_ahead out inp (i + k) \<Longrightarrow>
     xor_for buf k i out inp mem =
       Inr (splice_at (out + i) (xor_stream (\<lambda>j. buf ! (i + j)) (window (inp + i) k mem)) mem)"
proof (induction k arbitrary: i mem)
  case 0
  then show ?case by (simp add: xor_stream_def)
next
  case (Suc k)
  let ?m = "mem[out + i := mem ! (inp + i) XOR buf ! i]"
  have "window (inp + Suc i) k ?m = window (inp + Suc i) k mem"
    using Suc.prems by (intro window_update_outside) (auto simp: reads_ahead_def)
  moreover have "xor_stream (\<lambda>j. buf ! (i + j)) (window (inp + i) (Suc k) mem) =
      (mem ! (inp + i) XOR buf ! i) # xor_stream (\<lambda>j. buf ! (Suc i + j)) (window (inp + Suc i) k mem)"
    using Suc.prems by (simp add: window_Suc xor_stream_Cons)
  ultimately show ?case
    using Suc.prems Suc.IH [of "Suc i" ?m] by (simp add: splice_at_Cons)
qed

lemma keystream_shift:
  "keystream inp ctr (64 + i) = keystream inp (ctr + 1) i"
proof -
  have "(64 + i) div 64 = Suc (i div 64)" by simp
  then show ?thesis by (simp only: keystream_def) (simp add: ac_simps)
qed

lemma keystream_upd [simp]: "keystream (inp[12 := w]) ctr = keystream inp ctr"
  by (simp add: keystream_def fun_eq_iff)

lemma keystream_first: "i < 64 \<Longrightarrow> keystream inp ctr i = chacha_core (inp[12 := ctr]) ! i"
  by (simp add: keystream_def)

lemma chacha_while_eq:
  assumes "inp + len \<le> length mem" and "out + len \<le> length mem" and "reads_ahead out inp len"
    and "12 < length (input c)"
  shows "\<exists>c'. chacha_while c out inp len mem =
     Inr (c', splice_at out (xor_stream (keystream (input c) (input c ! 12)) (window inp len mem)) mem) \<and>
     counter c' = counter c \<and> (\<exists>w. input c' = (input c)[12 := w])"
  using assms
proof (induction c out inp len mem rule: chacha_while.induct)
  case (1 c out inp len mem)
  show ?case
  proof (cases "len = 0")
    case True
    then show ?thesis
      by (subst chacha_while.simps) (auto simp: xor_stream_def intro: exI [of _ "input c ! 12"])
  next
    case False
    define todo where "todo = (if len < 64 then len else 64)"
    let ?ks = "keystream (input c) (input c ! 12)" and ?c = "c\<lparr>input := (input c)[12 := input c ! 12 + 1]\<rparr>"
    define m where "m = splice_at out (xor_stream ?ks (window inp todo mem)) mem"
    have todo: "todo \<le> len" "todo \<le> 64" "0 < todo" "todo < 64 \<Longrightarrow> len = todo"
      using False by (auto simp: todo_def)
    have x: "xor_for (chacha_core (input c)) todo 0 out inp mem = Inr m"
      using "1.prems" todo xor_for_eq [of inp 0 todo mem out "chacha_core (input c)"]
      by (auto simp: m_def reads_ahead_def keystream_first intro!: arg_cong [where f = "\<lambda>z. splice_at out z mem"] xor_stream_cong)
    have lm: "length m = length mem" using "1.prems" todo by (simp add: m_def)
    have "reads_ahead (out + todo) (inp + todo) (len - todo)"
      using "1.prems"(3) by (auto simp: reads_ahead_def)
    then obtain c' where c': "chacha_while ?c (out + todo) (inp + todo) (len - todo) m =
        Inr (c', splice_at (out + todo) (xor_stream (keystream (input ?c) (input ?c ! 12))
          (window (inp + todo) (len - todo) m)) m)" "counter c' = counter ?c" "\<exists>w. input c' = (input ?c)[12 := w]"
      using "1.IH" [OF False todo_def x] "1.prems" todo lm by auto
    have w: "window (inp + todo) (len - todo) m = window (inp + todo) (len - todo) mem"
      unfolding m_def using "1.prems" todo by (intro window_splice_disjoint) (auto simp: reads_ahead_def)
    have "xor_stream (keystream (input ?c) (input ?c ! 12)) (window (inp + todo) (len - todo) mem) =
        xor_stream (\<lambda>i. ?ks (todo + i)) (window (inp + todo) (len - todo) mem)"
      using "1.prems" todo by (cases "todo = 64") (auto simp: keystream_shift intro!: xor_stream_cong)
    then have "splice_at (out + todo) (xor_stream (keystream (input ?c) (input ?c ! 12))
          (window (inp + todo) (len - todo) m)) m = splice_at out (xor_stream ?ks (window inp len mem)) mem"
      using "1.prems" todo window_append_window [of inp todo "len - todo" mem]
      unfolding w by (simp add: m_def splice_at_append xor_stream_append)
    with c' x False show ?thesis
      by (subst chacha_while.simps) (simp add: todo_def [symmetric] Let_def)
  qed
qed

section \<open>Properties\<close>

lemma Encrypt_eq:
  assumes "src + len \<le> length mem" and "dst + len \<le> length mem" and "reads_ahead dst src len"
    and "length (input c) = 16"
  shows "\<exists>c'. Encrypt c dst src len mem =
           Inr (c', splice_at dst (xor_stream (keystream (input c) (counter c)) (window src len mem)) mem) \<and>
         counter c' = counter c \<and> length (input c') = 16 \<and>
         keystream (input c') = keystream (input c)"
  using assms chacha_while_eq [of src len mem dst "c\<lparr>input := (input c)[12 := counter c]\<rparr>"]
  by (fastforce simp: Encrypt_def fun_eq_iff)

text \<open>
  C17: \<open>ChaCha20Cipher::Encrypt\<close> is the stream cipher of its key stream. For buffers that do not
  overlap, for the in-place call and for a destination below the source, exactly the \<open>len\<close> bytes
  at \<open>dst\<close> change: byte \<open>i\<close> becomes the old source byte \<open>i\<close> xor byte \<open>i\<close> of the key stream
  that starts at the counter given to the constructor. The key stream of the object is the same
  after the call, so every call on one object uses it from its beginning.
\<close>

theorem chacha20_keystream:
  assumes "src + len \<le> length mem" and "dst + len \<le> length mem"
    and "dst \<le> src \<or> src + len \<le> dst" and "length (input c) = 16"
  shows "\<exists>c' mem'. Encrypt c dst src len mem = Inr (c', mem') \<and> length mem' = length mem \<and>
           (\<forall>i < len. mem' ! (dst + i) = mem ! (src + i) XOR keystream (input c) (counter c) i) \<and>
           (\<forall>j < length mem. j < dst \<or> dst + len \<le> j \<longrightarrow> mem' ! j = mem ! j) \<and>
           counter c' = counter c \<and> keystream (input c') = keystream (input c)"
proof -
  have "reads_ahead dst src len" using assms(3) by (simp add: reads_ahead_def)
  from Encrypt_eq [OF assms(1,2) this assms(4)] assms show ?thesis
    by (auto simp: nth_splice_at nth_xor_stream)
qed

theorem chacha20_keystream_witness:
  "\<exists>c' mem'. Encrypt \<lparr>counter = 7, input = replicate 16 5\<rparr> 0 0 3 [1, 2, 3, 4] = Inr (c', mem') \<and>
     mem' ! 1 = 2 XOR keystream (replicate 16 5) 7 1 \<and> mem' ! 3 = 4"
  using chacha20_keystream [of 0 3 "[1, 2, 3, 4]" 0 "\<lparr>counter = 7, input = replicate 16 5\<rparr>"]
  by fastforce

text \<open>
  Decryption restores the data. After \<open>Encrypt\<close> of the bytes at \<open>src\<close> into \<open>dst\<close>,
  \<open>Decrypt\<close> on the same object, or on another one made from the same key, nonce and counter, of
  the bytes at \<open>dst\<close> into \<open>plain\<close> leaves the original source bytes at \<open>plain\<close>.
\<close>

theorem chacha20_round_trip:
  assumes "src + len \<le> length mem" and "dst + len \<le> length mem" and "plain + len \<le> length mem"
    and "dst \<le> src \<or> src + len \<le> dst" and "plain \<le> dst \<or> dst + len \<le> plain"
    and "ChaCha20Cipher junk key nonce ctr = Inr c" and "ChaCha20Cipher junk' key nonce ctr = Inr d"
  shows "\<exists>c' m m' m''. Encrypt c dst src len mem = Inr (c', m) \<and>
           map_sum id snd (Decrypt c' plain dst len m) = Inr m' \<and>
           window plain len m' = window src len mem \<and>
           map_sum id snd (Decrypt d plain dst len m) = Inr m'' \<and> m'' = m'"
proof -
  have c: "length (input c) = 16" "length (input d) = 16" "keystream (input d) = keystream (input c)"
    "counter d = counter c"
    using assms(6,7) by (auto simp: ChaCha20Cipher_def keystream_def fun_eq_iff split: if_splits)
  have r: "reads_ahead dst src len" "reads_ahead plain dst len"
    using assms(4,5) by (simp_all add: reads_ahead_def)
  let ?m = "splice_at dst (xor_stream (keystream (input c) (counter c)) (window src len mem)) mem"
  obtain c' where c': "Encrypt c dst src len mem = Inr (c', ?m)" "counter c' = counter c"
    "length (input c') = 16" "keystream (input c') = keystream (input c)"
    using Encrypt_eq [OF assms(1,2) r(1) c(1)] by blast
  have l: "length ?m = length mem" "window dst len ?m = xor_stream (keystream (input c) (counter c)) (window src len mem)"
    using assms by simp_all
  let ?m' = "splice_at plain (window src len mem) ?m"
  have "\<exists>x. Decrypt e plain dst len ?m = Inr (x, ?m')"
    if "length (input e) = 16" "keystream (input e) = keystream (input c)" "counter e = counter c" for e
    using Encrypt_eq [of dst len ?m plain e] assms l r that by (auto simp: Decrypt_def)
  note decr = this
  from decr [of c'] decr [of d] c c' have "map_sum id snd (Decrypt c' plain dst len ?m) = Inr ?m'"
    "map_sum id snd (Decrypt d plain dst len ?m) = Inr ?m'" by auto
  moreover have "window plain len ?m' = window src len mem" using assms by simp
  ultimately show ?thesis using c'(1) by blast
qed

theorem chacha20_round_trip_witness:
  "\<exists>c c' m m'. ChaCha20Cipher 0 (replicate 32 1) (replicate 12 2) 1 = Inr c \<and>
     Encrypt c 0 0 3 [7, 8, 9] = Inr (c', m) \<and>
     map_sum id snd (Decrypt c' 0 0 3 m) = Inr m' \<and> window 0 3 m' = [7, 8, 9]"
proof -
  obtain c where c: "ChaCha20Cipher 0 (replicate 32 1) (replicate 12 2) 1 = Inr c"
    by (simp add: ChaCha20Cipher_def)
  show ?thesis
    using chacha20_round_trip [OF _ _ _ _ _ c c, of 0 3 "[7, 8, 9]" 0 0] c by fastforce
qed

section \<open>The test vector of RFC 7539, section 2.3.2\<close>

text \<open>The state before the rounds and after each of the ten double rounds.\<close>

definition rfc_states :: "u32 list list" where
  "rfc_states = [
     [0x61707865, 0x3320646e, 0x79622d32, 0x6b206574, 0x03020100, 0x07060504, 0x0b0a0908, 0x0f0e0d0c,
      0x13121110, 0x17161514, 0x1b1a1918, 0x1f1e1d1c, 0x00000001, 0x09000000, 0x4a000000, 0x00000000],
     [0xcd52e917, 0x85ab03b4, 0xb3457395, 0xf96de7dd, 0xc4b7cd22, 0x5c2e187a, 0xc95eb461, 0x316c801a,
      0x7bf7d740, 0x7eddd644, 0xf1a1bdf5, 0x761246ca, 0x6b0d58a3, 0x6798471a, 0xd737f167, 0xf173888d],
     [0xcf1a7584, 0x048927ec, 0x54051fda, 0xc244ff28, 0x901d2f40, 0x7974b81c, 0x378dcfb4, 0xcd47fd0e,
      0x2dafb216, 0x27c89cd6, 0xcd3c9aa0, 0x79fc89c7, 0x10aef18d, 0x16218765, 0x68f76705, 0x04d6ee22],
     [0x03a14032, 0x66b15927, 0x9d6b6b42, 0xb84c4109, 0xa7143ae0, 0xa09b33dd, 0xa5daaf88, 0x2fd91a73,
      0xc90c6b18, 0x5a202413, 0xc20e01b6, 0x72cd6b74, 0xba35d777, 0xb360f1bf, 0x8178315b, 0x2cd11b1a],
     [0x9a2d3589, 0x0b23fc4e, 0x40af3b6b, 0xceea8144, 0x0a1bffc6, 0x5e5993f7, 0x9904c2e7, 0x0d334718,
      0xe46c6354, 0xc9503229, 0x04fef5aa, 0xf8933f72, 0x2687d476, 0x54e65231, 0x3594ffc5, 0x2b3bb2ca],
     [0xc53318c5, 0xca325d96, 0x7e7d11cb, 0x3404e2ca, 0x26d7cf73, 0x6088d379, 0xc0f0e9bd, 0xe310cdb9,
      0xae2ca8db, 0x42f67c72, 0x71669aca, 0x975c171d, 0x9e5ec228, 0x7d85a9f3, 0x201d0756, 0x63fa6953],
     [0x04a3131a, 0x66176309, 0x0415bab1, 0x61b880a2, 0x36cc86c7, 0xbf8a4465, 0xf77dd720, 0xfc0bdc90,
      0x07d13aca, 0xeb0be9af, 0x61599491, 0x918512dc, 0x33b6686d, 0x795cc671, 0xc0049972, 0xa0a81bde],
     [0x9b70f51f, 0x7ea8ac11, 0x21e54da9, 0xca393b2f, 0x93b08686, 0x6a4c50ae, 0x19212a5a, 0x9b032958,
      0xd839165e, 0x4c06e28a, 0xd3fde99e, 0x26acc13d, 0xa609f555, 0x2c246549, 0x95151853, 0x2c847a0d],
     [0xca5c85dd, 0x93a4f90e, 0xd9f0df58, 0x26dd82dd, 0x982563f8, 0x712aa9ff, 0x279a61e8, 0x970f72bd,
      0x1c25931a, 0x5180bb10, 0x779c27e7, 0x54077e08, 0xa9b751fb, 0x382f3ce2, 0x8db1757d, 0xcc38080b],
     [0xb6b87de6, 0x9a016148, 0x93859815, 0x4915e6cc, 0xdc33c122, 0x98e18fa3, 0x5ffbe8fc, 0xf7154b8b,
      0x28c1fcb3, 0xc4b38f9d, 0x83e2f5d7, 0x7d24b98b, 0x21078b22, 0xb193e7a3, 0xb2f49389, 0x6cde6026],
     [0x837778ab, 0xe238d763, 0xa67ae21e, 0x5950bb2f, 0xc4f2d0c7, 0xfc62bb2f, 0x8fa018fc, 0x3f5ec7b7,
      0x335271c2, 0xf29489f3, 0xeabda8fc, 0x82e46ebd, 0xd19c12b4, 0xb04e16de, 0x9e83d0cb, 0x4e3c50a2]]"

lemma rfc_double_round:
  assumes "i < 10"
  shows "double_round (rfc_states ! i) = rfc_states ! Suc i"
proof -
  have r0: "double_round (rfc_states ! 0) = rfc_states ! 1" by code_simp
  have r1: "double_round (rfc_states ! 1) = rfc_states ! 2" by code_simp
  have r2: "double_round (rfc_states ! 2) = rfc_states ! 3" by code_simp
  have r3: "double_round (rfc_states ! 3) = rfc_states ! 4" by code_simp
  have r4: "double_round (rfc_states ! 4) = rfc_states ! 5" by code_simp
  have r5: "double_round (rfc_states ! 5) = rfc_states ! 6" by code_simp
  have r6: "double_round (rfc_states ! 6) = rfc_states ! 7" by code_simp
  have r7: "double_round (rfc_states ! 7) = rfc_states ! 8" by code_simp
  have r8: "double_round (rfc_states ! 8) = rfc_states ! 9" by code_simp
  have r9: "double_round (rfc_states ! 9) = rfc_states ! 10" by code_simp
  have "i \<in> set [0 ..< 10]" using assms by simp
  then have "i = 0 \<or> i = 1 \<or> i = 2 \<or> i = 3 \<or> i = 4 \<or> i = 5 \<or> i = 6 \<or> i = 7 \<or> i = 8 \<or> i = 9"
    by auto
  then show ?thesis using r0 r1 r2 r3 r4 r5 r6 r7 r8 r9 by (elim disjE) (simp_all add: eval_nat_numeral)
qed

lemma rfc_double_rounds: "n \<le> 10 \<Longrightarrow> (double_round ^^ n) (rfc_states ! 0) = rfc_states ! n"
  by (induction n) (simp_all add: rfc_double_round)

lemma rfc_input:
  "ChaCha20Cipher junk (map of_nat [0 ..< 32]) [0, 0, 0, 9, 0, 0, 0, 0x4a, 0, 0, 0, 0] 1 =
     Inr \<lparr>counter = 1, input = (rfc_states ! 0)[12 := junk]\<rparr>"
  by (simp add: ChaCha20Cipher_def U8TO32_LITTLE_def sigma_def ascii_def rfc_states_def upt_rec)

text \<open>
  The block function is the one of RFC 7539. On the key, nonce and counter of the test
  vector in section 2.3.2 of the RFC, the constructor and \<open>chacha_core\<close> yield the 64 bytes of
  key stream that the RFC lists, whatever the uninitialised word of the object held.
\<close>

theorem chacha_core_rfc7539:
  "map_sum id (\<lambda>c. map (keystream (input c) (counter c)) [0 ..< 64])
     (ChaCha20Cipher junk (map of_nat [0 ..< 32]) [0, 0, 0, 9, 0, 0, 0, 0x4a, 0, 0, 0, 0] 1) =
   Inr [0x10, 0xf1, 0xe7, 0xe4, 0xd1, 0x3b, 0x59, 0x15, 0x50, 0x0f, 0xdd, 0x1f, 0xa3, 0x20, 0x71, 0xc4,
        0xc7, 0xd1, 0xf4, 0xc7, 0x33, 0xc0, 0x68, 0x03, 0x04, 0x22, 0xaa, 0x9a, 0xc3, 0xd4, 0x6c, 0x4e,
        0xd2, 0x82, 0x64, 0x46, 0x07, 0x9f, 0xaa, 0x09, 0x14, 0xc2, 0xd7, 0x05, 0xd9, 0x8b, 0x02, 0xa2,
        0xb5, 0x12, 0x9c, 0xd1, 0xde, 0x16, 0x4e, 0xb9, 0xcb, 0xd0, 0x83, 0xe8, 0xa2, 0x50, 0x3c, 0x4e]"
proof -
  let ?out = "concat (map U32TO8_LITTLE (map2 (+) (rfc_states ! 10) (rfc_states ! 0)))"
  have s: "(rfc_states ! 0)[12 := w] ! 12 = w" "(rfc_states ! 0)[12 := 1] = rfc_states ! 0" for w
    by (simp_all add: rfc_states_def)
  have "chacha_core (rfc_states ! 0) = ?out"
    by (simp add: chacha_core_def rfc_double_rounds Let_def)
  then have "map (keystream ((rfc_states ! 0)[12 := junk]) 1) [0 ..< 64] = map ((!) ?out) [0 ..< 64]"
    by (intro map_cong) (simp_all add: keystream_first s)
  moreover have "length ?out = 64" by (simp add: rfc_states_def U32TO8_LITTLE_def)
  then have "map ((!) ?out) [0 ..< 64] = ?out" by (metis map_nth)
  ultimately have "map (keystream ((rfc_states ! 0)[12 := junk]) 1) [0 ..< 64] = ?out" by (simp only:)
  moreover have "?out = [0x10, 0xf1, 0xe7, 0xe4, 0xd1, 0x3b, 0x59, 0x15, 0x50, 0x0f, 0xdd, 0x1f, 0xa3, 0x20, 0x71, 0xc4,
        0xc7, 0xd1, 0xf4, 0xc7, 0x33, 0xc0, 0x68, 0x03, 0x04, 0x22, 0xaa, 0x9a, 0xc3, 0xd4, 0x6c, 0x4e,
        0xd2, 0x82, 0x64, 0x46, 0x07, 0x9f, 0xaa, 0x09, 0x14, 0xc2, 0xd7, 0x05, 0xd9, 0x8b, 0x02, 0xa2,
        0xb5, 0x12, 0x9c, 0xd1, 0xde, 0x16, 0x4e, 0xb9, 0xcb, 0xd0, 0x83, 0xe8, 0xa2, 0x50, 0x3c, 0x4e]"
    by code_simp
  ultimately show ?thesis by (simp only: rfc_input map_sum.simps chacha.simps)
qed

end
