(* ===== verification/Checksum.thy ===== *)
theory Checksum
  imports Endian
begin

text \<open>
  Model of \<open>checksum/checksum.h\<close> and \<open>checksum/checksum.cpp\<close>. \<open>data\<close> stands for the
  \<open>dataLen\<close> bytes at the pointer; they are read as 32-bit and 16-bit words with the byte order
  \<open>h\<close> of the host. Where unaligned access is not allowed the source copies the data first, which
  does not change the bytes that are read.
\<close>

fun AddChecksum :: "Endian \<Rightarrow> u64 \<Rightarrow> bytes \<Rightarrow> u64" where
  "AddChecksum h currentChecksum data =
     (if length data > 3
      then AddChecksum h (currentChecksum + ucast (obj_word h (take 4 data) :: u32)) (drop 4 data)
      else let (currentChecksum, data) =
                 (if length data > 1
                  then (currentChecksum + ucast (obj_word h (take 2 data) :: u16), drop 2 data)
                  else (currentChecksum, data))
           in if data \<noteq> [] then currentChecksum + ucast (hd data) else currentChecksum)"

declare AddChecksum.simps [simp del]

text \<open>One iteration of the folding loops: \<open>(c >> k) + (c & (2\<^sup>k - 1))\<close>.\<close>

lemma fold_step:
  assumes "0 < k" and "k < 64"
  shows "unat (drop_bit k c + (c AND mask k) :: u64) = unat c div 2 ^ k + unat c mod 2 ^ k"
proof -
  have "unat c div 2 ^ k + unat c mod 2 ^ k \<le> unat c"
    by (metis add_le_mono1 div_mult_mod_eq mult.right_neutral mult_le_mono2 one_le_numeral one_le_power)
  then have "unat c div 2 ^ k + unat c mod 2 ^ k < 2 ^ 64"
    using unsigned_less [of c, where ?'a = nat] by simp
  moreover have "unat (drop_bit k c) = unat c div 2 ^ k" "unat (c AND mask k) = unat c mod 2 ^ k"
    by (simp_all only: unat_drop_bit_eq drop_bit_eq_div [of k "unat c"] take_bit_eq_mask [symmetric]
        unsigned_take_bit_eq take_bit_eq_mod [of k "unat c"])
  ultimately show ?thesis by (subst unat_plus_small) simp_all
qed

lemma fold_step_less:
  assumes "0 < k" and "k < 64" and "2 ^ k \<le> unat c"
  shows "unat (drop_bit k c + (c AND mask k) :: u64) < unat c"
proof -
  have "0 < unat c div 2 ^ k" using assms(3) by (simp add: div_greater_zero_iff)
  moreover have "2 ^ 1 \<le> (2 :: nat) ^ k" using assms(1) by (intro power_increasing) auto
  ultimately have "unat c div 2 ^ k * 1 < unat c div 2 ^ k * 2 ^ k" by (intro mult_strict_left_mono) auto
  then have "unat c div 2 ^ k + unat c mod 2 ^ k < unat c div 2 ^ k * 2 ^ k + unat c mod 2 ^ k" by simp
  then have "unat c div 2 ^ k + unat c mod 2 ^ k < unat c" by (simp only: div_mult_mod_eq)
  then show ?thesis using assms by (simp add: fold_step)
qed

lemma gt_mask:
  "0xFFFFFFFF < c \<longleftrightarrow> 2 ^ 32 \<le> unat (c :: u64)" "0xFFFF < c \<longleftrightarrow> 2 ^ 16 \<le> unat (c :: u64)"
  by (auto simp: word_less_nat_alt)

lemma mask_words: "(0xFFFFFFFF :: u64) = mask 32" "(0xFFFF :: u64) = mask 16"
  by (simp_all add: mask_eq_exp_minus_1)

lemma fold_step_less_loops:
  "0xFFFFFFFF < c \<Longrightarrow> unat (drop_bit 32 c + (c AND 0xFFFFFFFF) :: u64) < unat c"
  "0xFFFF < c \<Longrightarrow> unat (drop_bit 16 c + (c AND 0xFFFF) :: u64) < unat c"
  using fold_step_less [of 32 c] fold_step_less [of 16 c] by (simp_all add: gt_mask mask_words [symmetric])

text \<open>The two \<open>while\<close> loops.\<close>

function fold32 :: "u64 \<Rightarrow> u64" where
  "fold32 currentChecksum =
     (if currentChecksum > 0xFFFFFFFF
      then fold32 (drop_bit 32 currentChecksum + (currentChecksum AND 0xFFFFFFFF))
      else currentChecksum)"
  by pat_completeness auto

termination fold32
  by (relation "measure unat") (auto dest: fold_step_less_loops)

function fold16 :: "u64 \<Rightarrow> u64" where
  "fold16 currentChecksum =
     (if currentChecksum > 0xFFFF
      then fold16 (drop_bit 16 currentChecksum + (currentChecksum AND 0xFFFF))
      else currentChecksum)"
  by pat_completeness auto

termination fold16
  by (relation "measure unat") (auto dest: fold_step_less_loops)

declare fold32.simps [simp del] fold16.simps [simp del]

definition FinishChecksum32 :: "u64 \<Rightarrow> u32" where
  "FinishChecksum32 currentChecksum = ucast (fold32 currentChecksum)"

definition FinishChecksum16 :: "u64 \<Rightarrow> u16" where
  "FinishChecksum16 currentChecksum = ucast (fold16 (fold32 currentChecksum))"

definition Checksum32 :: "Endian \<Rightarrow> bytes \<Rightarrow> u32" where
  "Checksum32 h data = FinishChecksum32 (AddChecksum h 0 data)"

definition Checksum16 :: "Endian \<Rightarrow> bytes \<Rightarrow> u16" where
  "Checksum16 h data = FinishChecksum16 (AddChecksum h 0 data)"

section \<open>Folding\<close>

text \<open>
  The specification of folding to \<open>k\<close> bits: the residue modulo \<open>2\<^sup>k - 1\<close>, with the residue 0 of
  a non-zero sum represented by \<open>2\<^sup>k - 1\<close> (the two zeros of one's complement).
\<close>

definition ones_sum :: "nat \<Rightarrow> nat \<Rightarrow> nat" where
  "ones_sum k n = (if n = 0 then 0 else if n mod (2 ^ k - 1) = 0 then 2 ^ k - 1 else n mod (2 ^ k - 1))"

lemma ones_sum_step:
  assumes "1 < k" shows "ones_sum k (n div 2 ^ k + n mod 2 ^ k) = ones_sum k n"
proof -
  have "(n div 2 ^ k * (2 ^ k - 1) + (n div 2 ^ k + n mod 2 ^ k)) mod (2 ^ k - 1) = (n div 2 ^ k + n mod 2 ^ k) mod (2 ^ k - 1)"
    by (rule mod_mult_self3)
  moreover have "n div 2 ^ k * (2 ^ k - 1) + (n div 2 ^ k + n mod 2 ^ k) = n"
    by (metis (no_types, lifting) add.assoc add.commute add_mult_distrib2 div_mult_mod_eq le_add_diff_inverse2 mult.right_neutral one_le_numeral one_le_power)
  ultimately have "n mod (2 ^ k - 1) = (n div 2 ^ k + n mod 2 ^ k) mod (2 ^ k - 1)" by (simp only:)
  moreover have "n div 2 ^ k + n mod 2 ^ k = 0 \<longleftrightarrow> n = 0"
    by (metis add_is_0 div_mult_mod_eq div_0 mod_0 mult_is_0)
  ultimately show ?thesis by (simp add: ones_sum_def)
qed

lemma ones_sum_small: "1 < k \<Longrightarrow> n < 2 ^ k \<Longrightarrow> ones_sum k n = n"
  by (cases "n = 2 ^ k - 1") (auto simp: ones_sum_def)

lemma unat_fold32: "unat (fold32 c) = ones_sum 32 (unat c)"
proof (induction c rule: fold32.induct)
  case (1 c)
  show ?case
  proof (cases "0xFFFFFFFF < c")
    case True
    then have "unat (fold32 c) = ones_sum 32 (unat (drop_bit 32 c + (c AND 0xFFFFFFFF)))"
      by (subst fold32.simps) (simp only: if_True "1.IH")
    also have "\<dots> = ones_sum 32 (unat c)"
      unfolding mask_words by (simp only: fold_step ones_sum_step)
    finally show ?thesis .
  next
    case False
    then show ?thesis by (subst fold32.simps) (simp add: gt_mask ones_sum_small)
  qed
qed

lemma unat_fold16: "unat (fold16 c) = ones_sum 16 (unat c)"
proof (induction c rule: fold16.induct)
  case (1 c)
  show ?case
  proof (cases "0xFFFF < c")
    case True
    then have "unat (fold16 c) = ones_sum 16 (unat (drop_bit 16 c + (c AND 0xFFFF)))"
      by (subst fold16.simps) (simp only: if_True "1.IH")
    also have "\<dots> = ones_sum 16 (unat c)"
      unfolding mask_words by (simp only: fold_step ones_sum_step)
    finally show ?thesis .
  next
    case False
    then show ?thesis by (subst fold16.simps) (simp add: gt_mask ones_sum_small)
  qed
qed

lemma ones_sum_less: "1 < k \<Longrightarrow> ones_sum k n < 2 ^ k"
proof -
  assume "1 < k"
  then have "1 < (2 :: nat) ^ k" by (intro one_less_power) auto
  then have "n mod (2 ^ k - 1) < 2 ^ k - 1" by (intro mod_less_divisor) simp
  then have "n mod (2 ^ k - 1) < 2 ^ k" by linarith
  with \<open>1 < (2 :: nat) ^ k\<close> show ?thesis by (simp add: ones_sum_def)
qed

lemma ones_sum_32_16: "ones_sum 16 (ones_sum 32 n) = ones_sum 16 n"
proof -
  have "n mod 4294967295 mod 65535 = n mod 65535" by (simp add: mod_mod_cancel)
  then show ?thesis by (auto simp: ones_sum_def)
qed

lemma ones_sum_cong:
  "m mod (2 ^ k - 1) = n mod (2 ^ k - 1) \<Longrightarrow> (m = 0 \<longleftrightarrow> n = 0) \<Longrightarrow> ones_sum k m = ones_sum k n"
  by (simp add: ones_sum_def)

lemma unat_FinishChecksum16: "unat (FinishChecksum16 c) = ones_sum 16 (unat c)"
proof -
  have "unat (fold16 (fold32 c)) = ones_sum 16 (unat c)"
    by (simp only: unat_fold16 unat_fold32 ones_sum_32_16)
  moreover have "ones_sum 16 (unat c) < 2 ^ 16" by (rule ones_sum_less) simp
  ultimately show ?thesis
    by (simp add: FinishChecksum16_def unsigned_ucast_eq take_bit_nat_eq_self)
qed

lemma unat_FinishChecksum32: "unat (FinishChecksum32 c) = ones_sum 32 (unat c)"
proof -
  have "ones_sum 32 (unat c) < 2 ^ 32" by (rule ones_sum_less) simp
  then show ?thesis
    by (simp add: FinishChecksum32_def unsigned_ucast_eq take_bit_nat_eq_self unat_fold32)
qed

section \<open>Summing\<close>

fun le_nat :: "bytes \<Rightarrow> nat" where
  "le_nat [] = 0"
| "le_nat (b # bs) = unat b + 256 * le_nat bs"

lemma le_nat_less: "le_nat bs < 256 ^ length bs"
proof (induction bs)
  case (Cons b bs)
  have "unat b < 256" using unsigned_less [of b, where ?'a = nat] by simp
  with Cons show ?case by simp
qed simp

lemma unat_le_word:
  "8 * length bs \<le> LENGTH('a) \<Longrightarrow> unat (le_word bs :: 'a::len word) = le_nat bs"
proof (induction bs)
  case (Cons b bs)
  have fits: "256 * le_nat bs + unat b < 2 ^ LENGTH('a)"
  proof -
    have "le_nat (b # bs) < 2 ^ (8 * length (b # bs))"
      using le_nat_less [of "b # bs"] by (simp add: power_mult power_add)
    also have "\<dots> \<le> 2 ^ LENGTH('a)" using Cons.prems by (intro power_increasing) auto
    finally show ?thesis by simp
  qed
  have b: "unat (ucast b :: 'a word) = unat b" using Cons.prems by (intro unat_ucast_up) simp
  have p: "unat (push_bit 8 (le_word bs) :: 'a word) = 256 * le_nat bs"
  proof -
    have "unat (push_bit 8 (le_word bs) :: 'a word) = take_bit LENGTH('a) (push_bit 8 (le_nat bs))"
      using Cons by (simp only: unsigned_push_bit_eq) simp
    also have "\<dots> = 256 * le_nat bs"
      using fits by (simp add: push_bit_eq_mult take_bit_nat_eq_self mult.commute)
    finally show ?thesis .
  qed
  have "le_word (b # bs) = (ucast b + push_bit 8 (le_word bs) :: 'a word)"
  proof -
    have "\<not> bit b n" if "8 \<le> n" for n using bit_imp_le_length [of b n] that by auto
    then show ?thesis by (auto simp: bit_simps intro!: disjunctive_add [symmetric])
  qed
  then show ?case using fits by (simp add: unat_plus_small b p)
qed simp

text \<open>The reference: the sum of the 16-bit words of the data, an odd last byte added as it is.\<close>

fun sum16 :: "Endian \<Rightarrow> bytes \<Rightarrow> nat" where
  "sum16 h [] = 0"
| "sum16 h [a] = unat a"
| "sum16 h (a # b # bs) = unat (obj_word h [a, b] :: u16) + sum16 h bs"

lemma unat_obj_word2: "unat (obj_word h [a, b] :: u16) =
    (case h of LittleEndian \<Rightarrow> unat a + 256 * unat b | BigEndian \<Rightarrow> unat b + 256 * unat a)"
  by (simp add: obj_word_def unat_le_word split: Endian.split)

lemma unat_obj_word4: "unat (obj_word h [a, b, c, d] :: u32) =
    (case h of LittleEndian \<Rightarrow> unat (obj_word h [a, b] :: u16) + 65536 * unat (obj_word h [c, d] :: u16)
     | BigEndian \<Rightarrow> unat (obj_word h [c, d] :: u16) + 65536 * unat (obj_word h [a, b] :: u16))"
  by (simp add: obj_word_def unat_le_word split: Endian.split del: le_word.simps)

text \<open>What \<open>AddChecksum\<close> adds, as a natural number.\<close>

fun added :: "Endian \<Rightarrow> bytes \<Rightarrow> nat" where
  "added h (a # b # c # d # bs) = unat (obj_word h [a, b, c, d] :: u32) + added h bs"
| "added h bs = sum16 h bs"

lemma u8_le: "unat (b :: u8) \<le> 255" and u16_le: "unat (w :: u16) \<le> 65535"
  using unsigned_less [of b, where ?'a = nat] unsigned_less [of w, where ?'a = nat] by simp_all

lemma added_bound: "added h bs \<le> length bs * 2 ^ 32"
proof (induction h bs rule: added.induct)
  case (1 h a b c d bs)
  have "unat (obj_word h [a, b, c, d] :: u32) < 2 ^ 32"
    using unsigned_less [of "obj_word h [a, b, c, d] :: u32", where ?'a = nat] by simp
  with 1 show ?case by simp
qed (auto intro!: order_trans [OF u8_le] order_trans [OF u16_le] order_trans [OF add_mono [OF u16_le u8_le]])

lemma AddChecksum_4:
  "AddChecksum h cur (a # b # c # d # bs) = AddChecksum h (cur + ucast (obj_word h [a, b, c, d] :: u32)) bs"
  by (subst AddChecksum.simps) simp

lemma AddChecksum_short:
  "AddChecksum h cur [] = cur" "AddChecksum h cur [a] = cur + ucast a"
  "AddChecksum h cur [a, b] = cur + ucast (obj_word h [a, b] :: u16)"
  "AddChecksum h cur [a, b, c] = cur + ucast (obj_word h [a, b] :: u16) + ucast c"
  by (subst AddChecksum.simps, simp)+

lemma unat_AddChecksum:
  "unat cur + added h bs < 2 ^ 64 \<Longrightarrow> unat (AddChecksum h cur bs) = unat cur + added h bs"
proof (induction h bs arbitrary: cur rule: added.induct)
  case (1 h a b c d bs)
  let ?w = "ucast (obj_word h [a, b, c, d] :: u32) :: u64"
  have "unat (cur + ?w) = unat cur + unat (obj_word h [a, b, c, d] :: u32)"
    using "1.prems" by (subst unat_plus_small) (auto simp: unat_ucast_up)
  with 1 show ?case by (simp add: AddChecksum_4)
qed (auto simp: AddChecksum_short unat_ucast_up unat_plus_small)

lemma obj_word4_mod: "unat (obj_word h [a, b, c, d] :: u32) mod 65535 =
    (unat (obj_word h [a, b] :: u16) + unat (obj_word h [c, d] :: u16)) mod 65535"
proof -
  have "(x + 65536 * y) mod 65535 = (x + y) mod (65535 :: nat)" for x y
    using mod_mult_self2 [of "x + y" 65535 y] by (simp add: algebra_simps)
  then show ?thesis by (simp add: unat_obj_word4 add.commute split: Endian.split)
qed

lemma added_mod: "added h bs mod 65535 = sum16 h bs mod 65535"
proof (induction h bs rule: added.induct)
  case (1 h a b c d bs)
  then show ?case
    using mod_add_cong [OF obj_word4_mod [of h a b c d] 1] by (simp add: ac_simps)
qed simp_all

lemma added_zero: "added h bs = 0 \<longleftrightarrow> sum16 h bs = 0"
proof (induction h bs rule: added.induct)
  case (1 h a b c d bs)
  then show ?case by (cases h) (auto simp: unat_obj_word4)
qed simp_all

lemma Finish_Add:
  assumes "unat cur + length bs * 2 ^ 32 < 2 ^ 64"
  shows "unat (FinishChecksum16 (AddChecksum h cur bs)) = ones_sum 16 (unat cur + sum16 h bs)"
proof -
  have "unat (AddChecksum h cur bs) = unat cur + added h bs"
    using assms added_bound [of h bs] by (intro unat_AddChecksum) simp
  moreover have "ones_sum 16 (unat cur + added h bs) = ones_sum 16 (unat cur + sum16 h bs)"
    using mod_add_cong [OF refl added_mod [of h bs], of "unat cur"] added_zero [of h bs]
    by (intro ones_sum_cong) auto
  ultimately show ?thesis by (simp add: unat_FinishChecksum16)
qed

section \<open>Properties\<close>

lemma sum16_append: "even (length xs) \<Longrightarrow> sum16 h (xs @ ys) = sum16 h xs + sum16 h ys"
  by (induction h xs rule: sum16.induct) auto

lemma sum16_obj_bytes: "sum16 h (obj_bytes h 2 (w :: u16)) = unat w"
proof -
  obtain a b where ab: "obj_bytes h 2 w = [a, b]"
    using length_obj_bytes [of h 2 w] by (metis (no_types, lifting) One_nat_def Suc_1 length_0_conv length_Suc_conv)
  have "obj_word h (obj_bytes h 2 w) = w" by (simp add: wire_simps)
  then show ?thesis by (simp add: ab)
qed

lemma sum16_bound: "sum16 h bs \<le> length bs * 2 ^ 32"
  by (induction h bs rule: sum16.induct)
    (auto intro!: order_trans [OF u8_le] order_trans [OF add_mono [OF u16_le]])

text \<open>
  Folding is reduction. \<open>FinishChecksum32\<close> and \<open>FinishChecksum16\<close> terminate for every
  64-bit sum, and return its one's complement representative: 0 only for the sum 0, otherwise
  the residue modulo \<open>2\<^sup>3\<^sup>2 - 1\<close> or \<open>2\<^sup>1\<^sup>6 - 1\<close>, with all bits set in the place of residue 0.
\<close>

theorem FinishChecksum_folds:
  "unat (FinishChecksum32 c) = ones_sum 32 (unat c) \<and> unat (FinishChecksum16 c) = ones_sum 16 (unat c)"
  by (simp add: unat_FinishChecksum32 unat_FinishChecksum16)

text \<open>
  The optimised sum is the Internet checksum. Adding 32 bits at a time and folding gives the
  one's complement sum of the 16-bit words of the data, for every length below \<open>2\<^sup>3\<^sup>1\<close>; and a
  sum may be computed piecewise, as long as every piece but the last has an even length.
\<close>

theorem Checksum16_reference:
  assumes "length xs + length ys < 2 ^ 31" and "even (length xs)"
  shows "unat (Checksum16 h (xs @ ys)) = ones_sum 16 (sum16 h xs + sum16 h ys) \<and>
         FinishChecksum16 (AddChecksum h (AddChecksum h 0 xs) ys) = Checksum16 h (xs @ ys)"
proof -
  have a: "unat (AddChecksum h 0 xs) = added h xs"
    using assms(1) added_bound [of h xs] unat_AddChecksum [of 0 h xs] by simp
  have one: "unat (Checksum16 h (xs @ ys)) = ones_sum 16 (sum16 h xs + sum16 h ys)"
    using assms by (simp add: Checksum16_def Finish_Add sum16_append)
  have "unat (FinishChecksum16 (AddChecksum h (AddChecksum h 0 xs) ys)) = ones_sum 16 (added h xs + sum16 h ys)"
    using assms(1) added_bound [of h xs] a by (subst Finish_Add) auto
  also have "\<dots> = ones_sum 16 (sum16 h xs + sum16 h ys)"
    using mod_add_cong [OF added_mod [of h xs] refl, of "sum16 h ys"] added_zero [of h xs]
    by (intro ones_sum_cong) auto
  finally have "unat (FinishChecksum16 (AddChecksum h (AddChecksum h 0 xs) ys)) = unat (Checksum16 h (xs @ ys))"
    by (simp only: one)
  then have "FinishChecksum16 (AddChecksum h (AddChecksum h 0 xs) ys) = Checksum16 h (xs @ ys)"
    by (rule unsigned_word_eqI)
  with one show ?thesis by blast
qed

theorem Checksum16_reference_witness:
  "unat (Checksum16 LittleEndian [1, 2, 3, 4, 5]) = 0x060a - 1"
  using Checksum16_reference [of "[1, 2]" "[3, 4, 5]" LittleEndian]
  by (simp add: unat_obj_word2 ones_sum_def)

lemma unat_NOT16: "unat (NOT (w :: u16)) = 65535 - unat w"
proof -
  have "NOT w = - 1 - w" by (simp add: not_eq_complement)
  also have "unat (- 1 - w) = unat (- 1 :: u16) - unat w" by (rule unat_minus_small) simp
  finally show ?thesis by (simp add: unsigned_minus_1_eq_mask mask_eq_exp_minus_1)
qed

lemma ones_sum_complement: "ones_sum 16 (n + (65535 - ones_sum 16 n)) = 65535"
proof (cases "n mod 65535 = 0")
  case True
  then show ?thesis by (simp add: ones_sum_def)
next
  case False
  then have o: "ones_sum 16 n = n mod 65535" "n \<noteq> 0" by (auto simp: ones_sum_def)
  define q r where qr: "q = n div 65535" "r = n mod 65535"
  have "n = q * 65535 + r" "r < 65535" by (simp_all add: qr)
  then have "n + (65535 - r) = (q + 1) * 65535" by simp
  then have "n + (65535 - n mod 65535) = (q + 1) * 65535" by (simp only: qr(2))
  then have "(n + (65535 - n mod 65535)) mod 65535 = 0" by simp
  then show ?thesis unfolding o(1) by (simp add: ones_sum_def)
qed

lemma checksum_field:
  assumes "length pre + length rest + 2 < 2 ^ 31" and "even (length pre)"
  shows "Checksum16 h (pre @ obj_bytes h 2 (NOT (Checksum16 h (pre @ [0, 0] @ rest))) @ rest) = 0xFFFF"
proof -
  let ?S = "sum16 h pre + sum16 h rest"
  let ?c = "Checksum16 h (pre @ [0, 0] @ rest)"
  have z: "sum16 h ([0, 0] @ rest) = sum16 h rest"
    by (simp add: unat_obj_word2 split: Endian.split)
  have c: "unat ?c = ones_sum 16 ?S"
    using assms z by (simp add: Checksum16_def Finish_Add sum16_append)
  have n: "unat (NOT ?c) = 65535 - ones_sum 16 ?S"
    by (simp only: unat_NOT16 c)
  have le: "ones_sum 16 ?S \<le> 65535" using ones_sum_less [of 16 ?S] by simp
  have "unat (Checksum16 h (pre @ obj_bytes h 2 (NOT ?c) @ rest)) =
      ones_sum 16 (sum16 h pre + (unat (NOT ?c) + sum16 h rest))"
    using assms by (simp add: Checksum16_def Finish_Add sum16_append sum16_obj_bytes)
  also have "\<dots> = ones_sum 16 (?S + (65535 - ones_sum 16 ?S))" by (simp only: n ac_simps)
  also have "\<dots> = 65535" by (rule ones_sum_complement)
  finally show ?thesis by (intro unsigned_word_eqI [where ?'a = nat]) simp
qed

text \<open>
  The receiver's check. When the 16-bit checksum field of a message, at an even offset, holds
  the complement of \<open>Checksum16\<close> of the message with the field zeroed, then \<open>Checksum16\<close> of
  the whole message is \<open>0xFFFF\<close>.
\<close>

theorem checksum_field_verifies:
  assumes "length pre + length rest + 2 < 2 ^ 31" and "even (length pre)"
  shows "Checksum16 h (pre @ obj_bytes h 2 (NOT (Checksum16 h (pre @ [0, 0] @ rest))) @ rest) = 0xFFFF"
  using assms by (rule checksum_field)

theorem checksum_field_verifies_witness:
  "Checksum16 BigEndian ([9, 8] @ obj_bytes BigEndian 2 (NOT (Checksum16 BigEndian [9, 8, 0, 0, 7])) @ [7]) = 0xFFFF"
  using checksum_field_verifies [of "[9, 8]" "[7]" BigEndian] by simp

end
