(* ===== verification/Net_Packets.thy ===== *)
theory Net_Packets
  imports Endian
begin

text \<open>
  Model of the packet inspection of \<open>net/\<close>: ports and headers of IPv4 packets (\<open>ip4.cpp\<close>,
  \<open>udp4.cpp\<close>), the walk over the IPv6 extension headers (\<open>ip6.cpp\<close>, \<open>tcp6.cpp\<close>,
  \<open>udp6.cpp\<close>) and the address helpers of \<open>addr6.h\<close>. A packet is the list of bytes at the
  pointer, a header is an offset into it; a read beyond the bytes is the fault \<open>Out_Of_Bounds\<close>.
  Field offsets and sizes are those of \<open>struct ip\<close>, \<open>ip6_hdr\<close>, \<open>ip6_ext\<close>, \<open>udphdr\<close> and
  \<open>tcphdr\<close>.
\<close>

abbreviation "sizeof_ip \<equiv> 20 :: u32"
abbreviation "sizeof_ip6_hdr \<equiv> 40 :: u32"
abbreviation "sizeof_udphdr \<equiv> 8 :: u32"
abbreviation "sizeof_tcphdr \<equiv> 20 :: u32"

abbreviation "IPPROTO_HOPOPTS \<equiv> 0 :: u8"
abbreviation "IPPROTO_ICMP \<equiv> 1 :: u8"
abbreviation "IPPROTO_TCP \<equiv> 6 :: u8"
abbreviation "IPPROTO_UDP \<equiv> 17 :: u8"
abbreviation "IPPROTO_ROUTING \<equiv> 43 :: u8"
abbreviation "IPPROTO_AH \<equiv> 51 :: u8"
abbreviation "IPPROTO_DSTOPTS \<equiv> 60 :: u8"

definition read8 :: "bytes \<Rightarrow> nat \<Rightarrow> u8 res" where
  "read8 pkt i = (if i < length pkt then Inr (pkt ! i) else Inl Out_Of_Bounds)"

text \<open>A 16-bit field as it stands in memory: a value in network byte order is not converted.\<close>

definition read16 :: "Endian \<Rightarrow> bytes \<Rightarrow> nat \<Rightarrow> u16 res" where
  "read16 h pkt i = (if i + 2 \<le> length pkt then Inr (obj_word h (window i 2 pkt)) else Inl Out_Of_Bounds)"

section \<open>IPv4\<close>

text \<open>\<open>static_cast<uint32_t>(packet->ip_hl) << 2\<close>\<close>

definition ip_header_len :: "u8 \<Rightarrow> u32" where
  "ip_header_len b = push_bit 2 (ucast (b AND 0xf))"

lemma unat_ip_header_len: "unat (ip_header_len b) = 4 * (unat b mod 16)"
proof -
  have "b AND 0xf = take_bit 4 b" by (simp add: take_bit_eq_mask mask_eq_exp_minus_1)
  then have "unat (ucast (b AND 0xf) :: u32) = unat b mod 16"
    by (simp add: unat_ucast_up take_bit_eq_mod unat_mod_distrib)
  moreover have "unat b mod 16 < 16" by simp
  ultimately have "unat (ucast (b AND 0xf) * 4 :: u32) = unat b mod 16 * 4"
    by (simp add: unat_mult_lem [THEN iffD1])
  then show ?thesis by (simp add: ip_header_len_def push_bit_eq_mult)
qed

text \<open>\<open>field\<close> is the offset of the port in the UDP and in the TCP header.\<close>

definition get_port4 :: "nat \<Rightarrow> Endian \<Rightarrow> bytes \<Rightarrow> u32 \<Rightarrow> u16 res" where
  "get_port4 field h packet packetLen =
     (if packetLen \<le> sizeof_ip then Inr 0
      else bind_res (read8 packet 0) (\<lambda>b.
        let ipHeaderLen = ip_header_len b in
        if packetLen \<le> ipHeaderLen then Inr 0
        else bind_res (read8 packet 9) (\<lambda>ip_p.
          if ip_p = IPPROTO_UDP then
            (if packetLen \<ge> ipHeaderLen + sizeof_udphdr then read16 h packet (unat ipHeaderLen + field) else Inr 0)
          else if ip_p = IPPROTO_TCP then
            (if packetLen \<ge> ipHeaderLen + sizeof_tcphdr then read16 h packet (unat ipHeaderLen + field) else Inr 0)
          else Inr 0)))"

definition GetSourcePort4 :: "Endian \<Rightarrow> bytes \<Rightarrow> u32 \<Rightarrow> u16 res" where
  "GetSourcePort4 = get_port4 0"

definition GetDestinationPort4 :: "Endian \<Rightarrow> bytes \<Rightarrow> u32 \<Rightarrow> u16 res" where
  "GetDestinationPort4 = get_port4 2"

text \<open>
  \<open>UdpPacket\<close>, \<open>ConstUdpPacket\<close>, \<open>TcpPacket\<close> and \<open>ConstTcpPacket\<close>: a header pointer, here
  the offset of the header or \<open>None\<close> for \<open>nullptr\<close>, and the length.
\<close>

record located =
  Header :: "nat option"
  Length :: u32

definition not_located :: located where
  "not_located = \<lparr>Header = None, Length = 0\<rparr>"

definition LocateUdpHeader4 :: "bytes \<Rightarrow> u32 \<Rightarrow> located res" where
  "LocateUdpHeader4 ipPacket ipPacketLen =
     (if ipPacketLen \<le> sizeof_ip then Inr not_located
      else bind_res (read8 ipPacket 9) (\<lambda>ip_p.
        if ip_p \<noteq> IPPROTO_UDP then Inr not_located
        else bind_res (read8 ipPacket 0) (\<lambda>b.
          let ipHeaderLen = ip_header_len b in
          Inr (if ipPacketLen \<ge> ipHeaderLen + sizeof_udphdr
               then \<lparr>Header = Some (unat ipHeaderLen), Length = ipPacketLen - ipHeaderLen\<rparr>
               else not_located))))"

section \<open>IPv6\<close>

text \<open>The unit of the length field of an extension header the walk can skip.\<close>

definition ext_unit :: "u8 \<Rightarrow> u32 option" where
  "ext_unit nextHeader =
     (if nextHeader = IPPROTO_HOPOPTS \<or> nextHeader = IPPROTO_ROUTING \<or> nextHeader = IPPROTO_DSTOPTS then Some 8
      else if nextHeader = IPPROTO_AH then Some 4 else None)"

text \<open>
  The loop \<open>for (;;)\<close> that the four IPv6 functions share. \<open>wanted\<close> gives the protocols at which
  the function stops, with the least size of their header; the result is where that header is and
  how many bytes are left there, or \<open>None\<close> where the function gives up.
\<close>

lemma ext_len_pos: "8 \<le> unat (ucast (b :: u8) * k + 8 :: u32)" if "k = 8 \<or> k = 4" for k
proof -
  have "unat (ucast b :: u32) < 256"
    using unsigned_less [of b, where ?'a = nat] by (simp add: unat_ucast_up)
  moreover have "unat (ucast b * k :: u32) = unat (ucast b :: u32) * unat k"
    using calculation that by (auto simp: unat_mult_lem [THEN iffD1])
  ultimately have "unat (ucast b * k + 8 :: u32) = unat (ucast b :: u32) * unat k + 8"
    using that by (subst unat_plus_small) auto
  then show ?thesis by simp
qed

function walk :: "(u8 \<Rightarrow> u32 option) \<Rightarrow> bytes \<Rightarrow> u8 \<Rightarrow> nat \<Rightarrow> u32 \<Rightarrow> (nat \<times> u32) option res" where
  "walk wanted pkt nextHeader base len =
     (case wanted nextHeader of
        Some least \<Rightarrow> Inr (if len \<ge> least then Some (base, len) else None)
      | None \<Rightarrow>
          (case ext_unit nextHeader of
             None \<Rightarrow> Inr None
           | Some k \<Rightarrow>
               if \<not> len > 8 then Inr None
               else if \<not> base + 1 < length pkt then Inl Out_Of_Bounds
               else let extLen = ucast (pkt ! (base + 1)) * k + 8 in
                    if len > extLen then walk wanted pkt (pkt ! base) (base + unat extLen) (len - extLen)
                    else Inr None))"
  by pat_completeness auto

termination walk
proof (relation "measure (\<lambda>(wanted, pkt, nh, base, len). unat len)")
  fix wanted :: "u8 \<Rightarrow> u32 option" and pkt :: bytes and nextHeader :: u8 and base :: nat and len k extLen :: u32
  assume "ext_unit nextHeader = Some k" "extLen = ucast (pkt ! (base + 1)) * k + 8" "extLen < len"
  then have "8 \<le> unat extLen" "unat extLen < unat len"
    by (auto simp: ext_unit_def word_less_nat_alt intro!: ext_len_pos split: if_splits)
  then show "((wanted, pkt, pkt ! base, base + unat extLen, len - extLen), wanted, pkt, nextHeader, base, len)
      \<in> measure (\<lambda>(wanted, pkt, nh, base, len). unat len)"
    by (simp add: unat_minus_small word_le_nat_alt)
qed simp

declare walk.simps [simp del]

definition walk_packet :: "(u8 \<Rightarrow> u32 option) \<Rightarrow> bytes \<Rightarrow> u32 \<Rightarrow> (nat \<times> u32) option res" where
  "walk_packet wanted packet packetLen =
     (if packetLen \<le> sizeof_ip6_hdr then Inr None
      else bind_res (read8 packet 6)
             (\<lambda>ip6_nxt. walk wanted packet ip6_nxt (unat sizeof_ip6_hdr) (packetLen - sizeof_ip6_hdr)))"

definition wanted_tcp :: "u8 \<Rightarrow> u32 option" where
  "wanted_tcp p = (if p = IPPROTO_TCP then Some sizeof_tcphdr else None)"

definition wanted_udp :: "u8 \<Rightarrow> u32 option" where
  "wanted_udp p = (if p = IPPROTO_UDP then Some sizeof_udphdr else None)"

definition wanted_transport :: "u8 \<Rightarrow> u32 option" where
  "wanted_transport p =
     (if p = IPPROTO_TCP then Some sizeof_tcphdr else if p = IPPROTO_UDP then Some sizeof_udphdr else None)"

definition GetSourcePort6 :: "Endian \<Rightarrow> bytes \<Rightarrow> u32 \<Rightarrow> u16 res" where
  "GetSourcePort6 h packet packetLen =
     bind_res (walk_packet wanted_transport packet packetLen)
       (\<lambda>r. case r of None \<Rightarrow> Inr 0 | Some (basePtr, _) \<Rightarrow> read16 h packet basePtr)"

definition GetDestinationPort6 :: "Endian \<Rightarrow> bytes \<Rightarrow> u32 \<Rightarrow> u16 res" where
  "GetDestinationPort6 h packet packetLen =
     bind_res (walk_packet wanted_transport packet packetLen)
       (\<lambda>r. case r of None \<Rightarrow> Inr 0 | Some (basePtr, _) \<Rightarrow> read16 h packet (basePtr + 2))"

definition LocateTcpHeader6 :: "bytes \<Rightarrow> u32 \<Rightarrow> located res" where
  "LocateTcpHeader6 ipPacket ipPacketLen =
     bind_res (walk_packet wanted_tcp ipPacket ipPacketLen)
       (\<lambda>r. Inr (case r of None \<Rightarrow> not_located | Some (b, l) \<Rightarrow> \<lparr>Header = Some b, Length = l\<rparr>))"

definition LocateUdpHeader6 :: "bytes \<Rightarrow> u32 \<Rightarrow> located res" where
  "LocateUdpHeader6 ipPacket ipPacketLen =
     bind_res (walk_packet wanted_udp ipPacket ipPacketLen)
       (\<lambda>r. Inr (case r of None \<Rightarrow> not_located | Some (b, l) \<Rightarrow> \<lparr>Header = Some b, Length = l\<rparr>))"

section \<open>IPv6 addresses\<close>

type_synonym in6_addr = bytes

definition in6_addr_eq :: "in6_addr \<Rightarrow> in6_addr \<Rightarrow> bool" where
  "in6_addr_eq lhs rhs = (take 16 lhs = take 16 rhs)"

definition in6_addr_hash :: "Endian \<Rightarrow> in6_addr \<Rightarrow> u64" where
  "in6_addr_hash h k = obj_word h (window 8 8 k)"

definition IsV4Mapped :: "in6_addr \<Rightarrow> bool" where
  "IsV4Mapped addr =
     (addr ! 0 = 0 \<and> addr ! 1 = 0 \<and> addr ! 2 = 0 \<and> addr ! 3 = 0 \<and> addr ! 4 = 0 \<and>
      addr ! 5 = 0 \<and> addr ! 6 = 0 \<and> addr ! 7 = 0 \<and> addr ! 8 = 0 \<and> addr ! 9 = 0 \<and>
      addr ! 10 = 0xff \<and> addr ! 11 = 0xff)"

text \<open>\<open>inet_ntop\<close> belongs to the C library: it is a parameter, \<open>None\<close> for a null result.\<close>

definition ToString_addr :: "(in6_addr \<Rightarrow> bytes option) \<Rightarrow> in6_addr \<Rightarrow> bytes" where
  "ToString_addr inet_ntop addr = (case inet_ntop addr of Some buf \<Rightarrow> buf | None \<Rightarrow> [])"

section \<open>The chain of headers\<close>

text \<open>
  The specification of the walk: in a packet of \<open>n\<close> bytes, from the header of type \<open>p\<close> at
  offset \<open>b\<close>, skipping extension headers that lie strictly inside the packet leads to a header of
  type \<open>q\<close> at offset \<open>c\<close>.
\<close>

inductive ext_chain :: "bytes \<Rightarrow> nat \<Rightarrow> u8 \<Rightarrow> nat \<Rightarrow> u8 \<Rightarrow> nat \<Rightarrow> bool" for pkt n where
  here: "ext_chain pkt n p b p b"
| skip: "ext_unit p = Some k \<Longrightarrow> b + 8 < n \<Longrightarrow> e = unat (pkt ! (b + 1)) * unat k + 8 \<Longrightarrow> b + e < n \<Longrightarrow>
    ext_chain pkt n (pkt ! b) (b + e) q c \<Longrightarrow> ext_chain pkt n p b q c"

inductive_simps ext_chain_iff: "ext_chain pkt n p b q c"

lemma unat_ext_len: "ext_unit p = Some k \<Longrightarrow> unat (ucast (b :: u8) * k + 8 :: u32) = unat b * unat k + 8"
proof -
  assume "ext_unit p = Some k"
  then have k: "k = 8 \<or> k = 4" by (auto simp: ext_unit_def split: if_splits)
  have b: "unat (ucast b :: u32) = unat b" "unat b < 256"
    using unsigned_less [of b, where ?'a = nat] by (simp_all add: unat_ucast_up)
  have "unat (ucast b * k :: u32) = unat b * unat k"
    using b k by (auto simp: unat_mult_lem [THEN iffD1])
  with b k show ?thesis by (subst unat_plus_small) auto
qed

definition stops :: "(u8 \<Rightarrow> u32 option) \<Rightarrow> bool" where
  "stops wanted \<longleftrightarrow> (\<forall>p. wanted p \<noteq> None \<longrightarrow> ext_unit p = None)"

lemma stops_wanted: "stops wanted_tcp" "stops wanted_udp" "stops wanted_transport"
  by (auto simp: stops_def wanted_tcp_def wanted_udp_def wanted_transport_def ext_unit_def)

text \<open>What the walk must return: the header of a wanted protocol at the end of the chain.\<close>

definition reaches :: "(u8 \<Rightarrow> u32 option) \<Rightarrow> bytes \<Rightarrow> nat \<Rightarrow> u8 \<Rightarrow> nat \<Rightarrow> nat \<Rightarrow> u32 \<Rightarrow> bool" where
  "reaches wanted pkt n nh base b l \<longleftrightarrow>
     (\<exists>p least. wanted p = Some least \<and> ext_chain pkt n nh base p b \<and> b + unat l = n \<and> least \<le> l)"

lemma reaches_wanted:
  "wanted nh = Some least \<Longrightarrow> stops wanted \<Longrightarrow>
     reaches wanted pkt n nh base b l \<longleftrightarrow> b = base \<and> b + unat l = n \<and> least \<le> l"
  by (auto simp: reaches_def stops_def ext_chain_iff [of pkt n nh base])

lemma reaches_other:
  "wanted nh = None \<Longrightarrow> ext_unit nh = None \<Longrightarrow> \<not> reaches wanted pkt n nh base b l"
  by (auto simp: reaches_def ext_chain_iff [of pkt n nh base])

lemma reaches_skip:
  "wanted nh = None \<Longrightarrow> ext_unit nh = Some k \<Longrightarrow>
     reaches wanted pkt n nh base b l \<longleftrightarrow>
       base + 8 < n \<and> base + (unat (pkt ! (base + 1)) * unat k + 8) < n \<and>
       reaches wanted pkt n (pkt ! base) (base + (unat (pkt ! (base + 1)) * unat k + 8)) b l"
  by (auto simp: reaches_def ext_chain_iff [of pkt n nh base])

lemma walk_spec:
  assumes "stops wanted" and "base + unat len = n" and "n \<le> length pkt"
  shows "\<exists>r. walk wanted pkt nh base len = Inr r \<and>
           (\<forall>b l. r = Some (b, l) \<longleftrightarrow> reaches wanted pkt n nh base b l)"
  using assms
proof (induction wanted pkt nh base len rule: walk.induct)
  case (1 wanted pkt nh base len)
  show ?case
  proof (cases "wanted nh")
    case (Some least)
    then have "walk wanted pkt nh base len = Inr (if len \<ge> least then Some (base, len) else None)"
      by (subst walk.simps) simp
    with Some 1 show ?thesis by (auto simp: reaches_wanted dest!: unsigned_word_eqI)
  next
    case None
    show ?thesis
    proof (cases "ext_unit nh")
      case None
      with \<open>wanted nh = None\<close> show ?thesis by (subst walk.simps) (simp add: reaches_other)
    next
      case (Some k)
      define x where "x = ucast (pkt ! (base + 1)) * k + 8"
      have x: "unat x = unat (pkt ! (base + 1)) * unat k + 8"
        using Some by (simp add: x_def unat_ext_len)
      show ?thesis
      proof (cases "len > 8 \<and> len > x")
        case True
        then have l: "8 < unat len" "unat x < unat len" by (simp_all add: word_less_nat_alt)
        with "1.prems" have in_pkt: "base + 1 < length pkt" by linarith
        have "walk wanted pkt nh base len = walk wanted pkt (pkt ! base) (base + unat x) (len - x)"
          using \<open>wanted nh = None\<close> Some True in_pkt by (subst walk.simps) (simp add: x_def Let_def)
        moreover have "base + unat x + unat (len - x) = n"
          using l "1.prems" by (simp add: unat_minus_small word_le_nat_alt)
        ultimately show ?thesis
          using "1.IH" [OF \<open>wanted nh = None\<close> Some _ _ x_def] True in_pkt "1.prems" l
          by (simp add: reaches_skip [of wanted nh k, OF \<open>wanted nh = None\<close> Some] x)
      next
        case False
        then have l: "unat len \<le> 8 \<or> unat len \<le> unat x" by (auto simp: word_less_nat_alt)
        have "len > 8 \<Longrightarrow> base + 1 < length pkt" using "1.prems" by (simp add: word_less_nat_alt)
        then have "walk wanted pkt nh base len = Inr None"
          using \<open>wanted nh = None\<close> Some False by (subst walk.simps) (auto simp: x_def Let_def)
        moreover have "\<not> reaches wanted pkt n nh base b l'" for b l'
          using l "1.prems" by (auto simp: reaches_skip [of wanted nh k, OF \<open>wanted nh = None\<close> Some] x)
        ultimately show ?thesis by simp
      qed
    qed
  qed
qed

lemma walk_packet_spec:
  assumes "stops wanted" and "unat len \<le> length pkt"
  shows "\<exists>r. walk_packet wanted pkt len = Inr r \<and>
    (\<forall>b l. r = Some (b, l) \<longleftrightarrow> 40 < unat len \<and> reaches wanted pkt (unat len) (pkt ! 6) 40 b l)"
proof (cases "len \<le> 40")
  case True
  then show ?thesis by (simp add: walk_packet_def word_le_nat_alt)
next
  case False
  then have "40 < unat len" by (simp add: word_le_nat_alt)
  then have "40 + unat (len - 40) = unat len" by (simp add: unat_minus_small word_le_nat_alt)
  from walk_spec [OF assms(1) this assms(2), of "pkt ! 6"] \<open>40 < unat len\<close> False assms show ?thesis
    by (simp add: walk_packet_def read8_def)
qed

text \<open>The header of protocol \<open>q\<close>, of at least \<open>least\<close> bytes, that a packet of \<open>n\<close> bytes carries.\<close>

definition transport_at :: "bytes \<Rightarrow> nat \<Rightarrow> u8 \<Rightarrow> nat \<Rightarrow> nat \<Rightarrow> bool" where
  "transport_at pkt n q least off \<longleftrightarrow>
     40 < n \<and> ext_chain pkt n (pkt ! 6) 40 q off \<and> off + least \<le> n"

lemma reaches_transport:
  assumes "n < 2 ^ 32" and "40 < n"
  shows "(\<exists>l. reaches wanted pkt n (pkt ! 6) 40 b l) \<longleftrightarrow>
           (\<exists>q least. wanted q = Some least \<and> transport_at pkt n q (unat least) b)"
proof
  assume "\<exists>q least. wanted q = Some least \<and> transport_at pkt n q (unat least) b"
  then obtain q least where q: "wanted q = Some least" "transport_at pkt n q (unat least) b" by blast
  have "unat (of_nat (n - b) :: u32) = n - b" using assms by (intro unat_of_nat_small) simp
  with q have "reaches wanted pkt n (pkt ! 6) 40 b (of_nat (n - b))"
    unfolding reaches_def transport_at_def word_le_nat_alt
    by (intro exI [of _ q] exI [of _ least]) linarith
  then show "\<exists>l. reaches wanted pkt n (pkt ! 6) 40 b l" ..
qed (use assms in \<open>fastforce simp: reaches_def transport_at_def word_le_nat_alt\<close>)

text \<open>
  C36: locating the transport header of an IPv6 packet. For every packet whose \<open>ipPacketLen\<close>
  bytes are readable, \<open>LocateTcpHeader\<close> and \<open>LocateUdpHeader\<close> terminate without reading
  outside the packet; they return a header exactly if the chain of extension headers that starts
  at \<open>ip6_nxt\<close> leads to one that fits into the packet, and then the length is all that is left
  of the packet from there on.
\<close>

theorem locate_headers6:
  assumes "unat len \<le> length pkt"
  shows "\<exists>t u. LocateTcpHeader6 pkt len = Inr t \<and> LocateUdpHeader6 pkt len = Inr u \<and>
     (\<forall>off. Header t = Some off \<longleftrightarrow> transport_at pkt (unat len) IPPROTO_TCP 20 off) \<and>
     (\<forall>off. Header u = Some off \<longleftrightarrow> transport_at pkt (unat len) IPPROTO_UDP 8 off) \<and>
     (\<forall>off. Header t = Some off \<longrightarrow> off + unat (Length t) = unat len) \<and>
     (\<forall>off. Header u = Some off \<longrightarrow> off + unat (Length u) = unat len)"
proof -
  have one: "\<exists>t. bind_res (walk_packet wanted pkt len)
      (\<lambda>r. Inr (case r of None \<Rightarrow> not_located | Some (b, l) \<Rightarrow> \<lparr>Header = Some b, Length = l\<rparr>)) = Inr t \<and>
     (\<forall>off. Header t = Some off \<longleftrightarrow> (\<exists>q least. wanted q = Some least \<and> transport_at pkt (unat len) q (unat least) off)) \<and>
     (\<forall>off. Header t = Some off \<longrightarrow> off + unat (Length t) = unat len)"
    if st: "stops wanted" for wanted
  proof -
    obtain r where r: "walk_packet wanted pkt len = Inr r"
      "\<And>b l. r = Some (b, l) \<longleftrightarrow> 40 < unat len \<and> reaches wanted pkt (unat len) (pkt ! 6) 40 b l"
      using walk_packet_spec [OF st assms] by blast
    define t where "t = (case r of None \<Rightarrow> not_located | Some (b, l) \<Rightarrow> \<lparr>Header = Some b, Length = l\<rparr>)"
    have h: "Header t = Some off \<longleftrightarrow> (\<exists>l. r = Some (off, l))" for off
      by (auto simp: t_def not_located_def split: option.split)
    have "off + unat (Length t) = unat len" if "Header t = Some off" for off
    proof -
      from that obtain l where l: "r = Some (off, l)" using h by blast
      with r(2) [of off l] show ?thesis by (auto simp: t_def reaches_def)
    qed
    moreover have "Header t = Some off \<longleftrightarrow>
        (\<exists>q least. wanted q = Some least \<and> transport_at pkt (unat len) q (unat least) off)" for off
      using reaches_transport [of "unat len" wanted pkt off] unsigned_less [of len, where ?'a = nat]
      unfolding h r(2) by (cases "40 < unat len") (auto simp: transport_at_def)
    ultimately show ?thesis using r(1) t_def by auto
  qed
  from one [OF stops_wanted(1)] one [OF stops_wanted(2)] show ?thesis
    by (simp add: LocateTcpHeader6_def LocateUdpHeader6_def wanted_tcp_def wanted_udp_def split: if_splits)
qed

theorem locate_headers6_witness:
  "\<exists>u. LocateUdpHeader6 (replicate 6 0 @ [60] @ replicate 33 0 @ [17, 0] @ replicate 14 0) 56 = Inr u \<and>
     Header u = Some 48"
proof -
  let ?p = "replicate 6 0 @ [60] @ replicate 33 0 @ [17, 0] @ replicate 14 0 :: bytes"
  have "ext_chain ?p 56 60 40 17 48"
    by (rule ext_chain.skip [of _ 8 _ _ 8]) (simp_all add: ext_unit_def nth_append nth_Cons' ext_chain.here)
  then have "transport_at ?p 56 IPPROTO_UDP 8 48" by (simp add: transport_at_def nth_append)
  then show ?thesis using locate_headers6 [of 56 ?p] by auto
qed

text \<open>
  Ports of an IPv6 packet. For every readable packet both port functions stay inside the
  packet and return the first and the second 16-bit field, in network byte order, of the TCP or UDP
  header at the end of its extension headers, and 0 if there is none that fits.
\<close>

theorem ports6:
  assumes "unat len \<le> length pkt"
  defines "carries \<equiv> \<lambda>off. transport_at pkt (unat len) IPPROTO_TCP 20 off \<or> transport_at pkt (unat len) IPPROTO_UDP 8 off"
  shows "\<exists>sp dp. GetSourcePort6 h pkt len = Inr sp \<and> GetDestinationPort6 h pkt len = Inr dp \<and>
     (\<forall>off. carries off \<longrightarrow> sp = obj_word h (window off 2 pkt) \<and> dp = obj_word h (window (off + 2) 2 pkt)) \<and>
     ((\<nexists>off. carries off) \<longrightarrow> sp = 0 \<and> dp = 0)"
proof -
  obtain r where r: "walk_packet wanted_transport pkt len = Inr r"
    "\<And>b l. r = Some (b, l) \<longleftrightarrow> 40 < unat len \<and> reaches wanted_transport pkt (unat len) (pkt ! 6) 40 b l"
    using walk_packet_spec [OF stops_wanted(3) assms(1)] by blast
  have w: "(\<exists>q least. wanted_transport q = Some least \<and> P q (unat least)) \<longleftrightarrow> P IPPROTO_TCP 20 \<or> P IPPROTO_UDP 8"
    for P :: "u8 \<Rightarrow> nat \<Rightarrow> bool"
  proof
    show "\<exists>q least. wanted_transport q = Some least \<and> P q (unat least)" if "P IPPROTO_TCP 20 \<or> P IPPROTO_UDP 8"
      using that
      by (elim disjE) (rule exI [of _ IPPROTO_TCP] exI [of _ IPPROTO_UDP], simp add: wanted_transport_def)+
  qed (auto simp: wanted_transport_def split: if_splits)
  have n: "unat len < 2 ^ 32" using unsigned_less [of len, where ?'a = nat] by simp
  have c: "(\<exists>l. r = Some (off, l)) \<longleftrightarrow> carries off" for off
  proof (cases "40 < unat len")
    case True
    show ?thesis unfolding r(2) carries_def using True reaches_transport [OF n True] w by simp
  next
    case False
    then show ?thesis unfolding r(2) carries_def by (simp add: transport_at_def)
  qed
  show ?thesis
  proof (cases r)
    case None
    with c r(1) show ?thesis by (simp add: GetSourcePort6_def GetDestinationPort6_def)
  next
    case (Some x)
    obtain off l where x: "x = (off, l)" by force
    have "carries off" using c Some x by blast
    then have "off + 4 \<le> length pkt" using assms(1) by (auto simp: carries_def transport_at_def)
    moreover have "carries off' \<longleftrightarrow> off' = off" for off'
      using c [of off'] Some x by auto
    ultimately show ?thesis
      using r(1) Some x by (simp add: GetSourcePort6_def GetDestinationPort6_def read16_def)
  qed
qed

theorem ports6_witness:
  "\<exists>sp dp. GetSourcePort6 BigEndian (replicate 6 0 @ [17] @ replicate 33 0 @ [0x12, 0x34, 0, 53, 0, 0, 0, 0]) 48 = Inr sp \<and>
     GetDestinationPort6 BigEndian (replicate 6 0 @ [17] @ replicate 33 0 @ [0x12, 0x34, 0, 53, 0, 0, 0, 0]) 48 = Inr dp \<and>
     sp = 0x1234 \<and> dp = 53"
proof -
  let ?p = "replicate 6 0 @ [17] @ replicate 33 0 @ [0x12, 0x34, 0, 53, 0, 0, 0, 0] :: bytes"
  have "transport_at ?p (unat (48 :: u32)) IPPROTO_UDP 8 40"
    by (simp add: transport_at_def ext_chain.here nth_append)
  moreover have "obj_word BigEndian (window 40 2 ?p) = (0x1234 :: u16)"
    "obj_word BigEndian (window (40 + 2) 2 ?p) = (53 :: u16)"
    by (simp_all add: window_def obj_word_def)
  ultimately show ?thesis using ports6 [of 48 ?p BigEndian] by auto
qed

text \<open>
  IPv4 packets. For every readable packet the two port functions and \<open>LocateUdpHeader\<close> stay
  inside the packet. The header length is four times the low half of the first byte; a port is
  read at that offset exactly if a UDP or TCP header fits there, and the UDP header is located
  exactly if the packet is a UDP packet of sufficient length.
\<close>

theorem headers4:
  assumes "unat len \<le> length pkt"
  defines "hl \<equiv> 4 * (unat (pkt ! 0) mod 16)"
  shows "(if 20 < unat len \<and> hl < unat len \<and>
             (pkt ! 9 = IPPROTO_UDP \<and> hl + 8 \<le> unat len \<or> pkt ! 9 = IPPROTO_TCP \<and> hl + 20 \<le> unat len)
          then GetSourcePort4 h pkt len = Inr (obj_word h (window hl 2 pkt)) \<and>
               GetDestinationPort4 h pkt len = Inr (obj_word h (window (hl + 2) 2 pkt))
          else GetSourcePort4 h pkt len = Inr 0 \<and> GetDestinationPort4 h pkt len = Inr 0) \<and>
         LocateUdpHeader4 pkt len =
           Inr (if 20 < unat len \<and> pkt ! 9 = IPPROTO_UDP \<and> hl + 8 \<le> unat len
                then \<lparr>Header = Some hl, Length = len - of_nat hl\<rparr> else not_located)"
proof -
  let ?w = "ip_header_len (pkt ! 0)"
  have w: "unat ?w = hl" unfolding hl_def by (rule unat_ip_header_len)
  have "hl < 64" by (simp add: hl_def)
  have sums: "unat (?w + 8) = hl + 8" "unat (?w + 20) = hl + 20"
    using w \<open>hl < 64\<close> by (simp_all add: unat_plus_small)
  have "of_nat hl = ?w" using w by (metis of_nat_unat ucast_id)
  then show ?thesis
    using assms(1) w sums
    by (auto simp: GetSourcePort4_def GetDestinationPort4_def get_port4_def LocateUdpHeader4_def
        read8_def read16_def Let_def word_le_nat_alt)
qed

theorem headers4_witness:
  "GetSourcePort4 BigEndian ([0x45] @ replicate 8 0 @ [17] @ replicate 10 0 @ [1, 2, 3, 4, 0, 0, 0, 0]) 28 = Inr 0x0102"
  using headers4 [of 28 "[0x45] @ replicate 8 0 @ [17] @ replicate 10 0 @ [1, 2, 3, 4, 0, 0, 0, 0]" BigEndian]
  by (simp add: nth_append window_def obj_word_def)

end
