(* ===== verification/Net_Checksum.thy ===== *)
theory Net_Checksum
  imports Net_Packets Checksum
begin

text \<open>
  Model of \<open>net/checksum4.cpp\<close> and \<open>net/checksum6.cpp\<close>: the checksums of IPv4 packets and of
  the transport headers over IPv4 and IPv6. Header pointers are offsets into one memory block, so
  that a transport header may follow its IP header as it does in a packet.
\<close>

abbreviation "sizeof_icmp \<equiv> 28 :: u32"

definition htonl :: "platform \<Rightarrow> u32 \<Rightarrow> u32" where
  "htonl p v = (if byte_order p = LittleEndian then bswap_32 v else v)"

definition read32 :: "Endian \<Rightarrow> bytes \<Rightarrow> nat \<Rightarrow> u32 res" where
  "read32 h mem i = (if i + 4 \<le> length mem then Inr (obj_word h (window i 4 mem)) else Inl Out_Of_Bounds)"

definition store16 :: "Endian \<Rightarrow> bytes \<Rightarrow> nat \<Rightarrow> u16 \<Rightarrow> bytes res" where
  "store16 h mem i v = (if i + 2 \<le> length mem then Inr (splice_at i (obj_bytes h 2 v) mem) else Inl Out_Of_Bounds)"

definition read_block :: "bytes \<Rightarrow> nat \<Rightarrow> nat \<Rightarrow> bytes res" where
  "read_block mem i n = (if i + n \<le> length mem then Inr (window i n mem) else Inl Out_Of_Bounds)"

text \<open>
  \<open>header->sum = 0; header->sum = ~FinishChecksum16(AddChecksum(sum, block, n));\<close> with the field
  at \<open>field\<close> and the block of \<open>n\<close> bytes at \<open>block\<close>.
\<close>

definition set_checksum :: "Endian \<Rightarrow> bytes \<Rightarrow> nat \<Rightarrow> u64 \<Rightarrow> nat \<Rightarrow> nat \<Rightarrow> bytes res" where
  "set_checksum h mem field s block n =
     bind_res (store16 h mem field 0) (\<lambda>mem.
     bind_res (read_block mem block n) (\<lambda>bs.
       store16 h mem field (NOT (FinishChecksum16 (AddChecksum h s bs)))))"

definition ComputeAndSetChecksum_tcp4 :: "platform \<Rightarrow> bytes \<Rightarrow> nat \<Rightarrow> nat \<Rightarrow> u32 \<Rightarrow> (bool \<times> bytes) res" where
  "ComputeAndSetChecksum_tcp4 p mem ipHeader tcpHeader tcpPacketLen =
     (let h = byte_order p in
      if tcpPacketLen < sizeof_tcphdr then Inr (False, mem)
      else
        bind_res (read32 h mem (ipHeader + 12)) (\<lambda>ip_src.
        bind_res (read32 h mem (ipHeader + 16)) (\<lambda>ip_dst.
        let tmp = [0, IPPROTO_TCP] @ obj_bytes h 2 (htons p (ucast tcpPacketLen));
            s = ucast ip_src + ucast ip_dst + ucast (obj_word h tmp :: u32)
        in bind_res (set_checksum h mem (tcpHeader + 16) s tcpHeader (unat tcpPacketLen))
             (\<lambda>mem. Inr (True, mem)))))"

definition ComputeAndSetChecksum_ip :: "platform \<Rightarrow> bytes \<Rightarrow> u32 \<Rightarrow> (bool \<times> bytes) res" where
  "ComputeAndSetChecksum_ip p packet packetLen =
     (let h = byte_order p in
      if packetLen < sizeof_ip then Inr (False, packet)
      else
        bind_res (read8 packet 0) (\<lambda>b.
        bind_res (read16 h packet 2) (\<lambda>ip_len.
        let ipHeaderLen = ip_header_len b; ipPacketLen = ucast (ntohs p ip_len) in
        if packetLen < ipHeaderLen \<or> packetLen \<noteq> ipPacketLen then Inr (False, packet)
        else
          bind_res (set_checksum h packet 10 0 0 (unat ipHeaderLen)) (\<lambda>packet.
          bind_res (read8 packet 9) (\<lambda>ip_p.
          let base = unat ipHeaderLen in
          if ip_p = IPPROTO_ICMP then
            (if packetLen \<ge> ipHeaderLen + sizeof_icmp
             then bind_res (set_checksum h packet (base + 2) 0 0 (unat packetLen)) (\<lambda>packet. Inr (True, packet))
             else Inr (False, packet))
          else if ip_p = IPPROTO_UDP then
            (if packetLen \<ge> ipHeaderLen + sizeof_udphdr
             then bind_res (store16 h packet (base + 6) 0) (\<lambda>packet. Inr (True, packet))
             else Inr (False, packet))
          else if ip_p = IPPROTO_TCP then
            ComputeAndSetChecksum_tcp4 p packet 0 base (packetLen - ipHeaderLen)
          else Inr (False, packet))))))"

text \<open>The loops over the four words of an IPv6 address.\<close>

fun add_words :: "Endian \<Rightarrow> bytes \<Rightarrow> nat \<Rightarrow> nat \<Rightarrow> u64 \<Rightarrow> u64 res" where
  "add_words h mem 0 i s = Inr s"
| "add_words h mem (Suc k) i s = bind_res (read32 h mem i) (\<lambda>w. add_words h mem k (i + 4) (s + ucast w))"

text \<open>The body the two IPv6 functions share but for the protocol and the place of the field.\<close>

definition transport_checksum6 ::
  "u8 \<Rightarrow> u32 \<Rightarrow> nat \<Rightarrow> platform \<Rightarrow> bytes \<Rightarrow> nat \<Rightarrow> nat \<Rightarrow> u32 \<Rightarrow> (bool \<times> bytes) res" where
  "transport_checksum6 proto least field p mem ipHeader header packetLen =
     (let h = byte_order p in
      if packetLen < least then Inr (False, mem)
      else
        bind_res (add_words h mem 4 (ipHeader + 8) 0) (\<lambda>s.
        bind_res (add_words h mem 4 (ipHeader + 24) s) (\<lambda>s.
        let s = s + ucast (htonl p packetLen); s = s + ucast (htonl p (ucast proto))
        in bind_res (set_checksum h mem (header + field) s header (unat packetLen))
             (\<lambda>mem. Inr (True, mem)))))"

definition ComputeAndSetChecksum_tcp6 :: "platform \<Rightarrow> bytes \<Rightarrow> nat \<Rightarrow> nat \<Rightarrow> u32 \<Rightarrow> (bool \<times> bytes) res" where
  "ComputeAndSetChecksum_tcp6 = transport_checksum6 IPPROTO_TCP sizeof_tcphdr 16"

definition ComputeAndSetChecksum_udp6 :: "platform \<Rightarrow> bytes \<Rightarrow> nat \<Rightarrow> nat \<Rightarrow> u32 \<Rightarrow> (bool \<times> bytes) res" where
  "ComputeAndSetChecksum_udp6 = transport_checksum6 IPPROTO_UDP sizeof_udphdr 6"

section \<open>Patching a checksum field\<close>

lemma window_splice_inside:
  assumes "j \<le> i" and "i + length ys \<le> j + n" and "j + n \<le> length xs"
  shows "window j n (splice_at i ys xs) =
    window j (i - j) xs @ ys @ window (i + length ys) (j + n - (i + length ys)) xs"
  by (rule nth_equalityI) (use assms in \<open>auto simp: nth_splice_at nth_append ac_simps\<close>)

lemma obj_bytes_0: "obj_bytes h 2 (0 :: u16) = [0, 0]"
  by (simp add: obj_bytes_def le_bytes_numeral split: Endian.split)

lemma AddChecksum_word:
  "length xs = 4 \<Longrightarrow> AddChecksum h c (xs @ ys) = AddChecksum h (c + ucast (obj_word h xs :: u32)) ys"
  by (subst AddChecksum.simps) simp

text \<open>\<open>ps\<close> is the pseudo header whose words have been summed before.\<close>

lemma set_checksum_verifies:
  assumes "block + n \<le> length mem" and "block \<le> field" and "field + 2 \<le> block + n"
    and "even (field - block)" and "even (length ps)" and "length ps + n < 2 ^ 31"
    and "\<And>bs. AddChecksum h s bs = AddChecksum h 0 (ps @ bs)"
  shows "\<exists>c. set_checksum h mem field s block n = Inr (splice_at field (obj_bytes h 2 c) mem) \<and>
    c = NOT (Checksum16 h (ps @ window block n (splice_at field [0, 0] mem))) \<and>
    Checksum16 h (ps @ window block n (splice_at field (obj_bytes h 2 c) mem)) = 0xFFFF"
proof -
  let ?pre = "ps @ window block (field - block) mem" and ?rest = "window (field + 2) (block + n - (field + 2)) mem"
  define m0 where "m0 = splice_at field [0, 0] mem"
  have l: "length m0 = length mem" using assms by (simp add: m0_def)
  have w: "window block n (splice_at field [a, b] mem) = window block (field - block) mem @ [a, b] @ ?rest" for a b
    using assms by (subst window_splice_inside) auto
  have w': "window block n (splice_at field (obj_bytes h 2 v) mem) =
      window block (field - block) mem @ obj_bytes h 2 v @ ?rest" for v :: u16
    using assms by (subst window_splice_inside) auto
  let ?c = "NOT (Checksum16 h (ps @ window block n m0))"
  have "splice_at field (obj_bytes h 2 v) m0 = splice_at field (obj_bytes h 2 v) mem" for v :: u16
    using assms by (simp add: m0_def splice_at_def)
  then have "set_checksum h mem field s block n = Inr (splice_at field (obj_bytes h 2 ?c) mem)"
    using assms l by (simp add: set_checksum_def store16_def read_block_def obj_bytes_0 m0_def [symmetric] Checksum16_def)
  moreover have "Checksum16 h (ps @ window block n (splice_at field (obj_bytes h 2 ?c) mem)) = 0xFFFF"
    using assms checksum_field [of ?pre ?rest h] unfolding w' m0_def w by simp
  ultimately show ?thesis unfolding m0_def by blast
qed

section \<open>Pseudo headers\<close>

definition pseudo4 :: "bytes \<Rightarrow> nat \<Rightarrow> u32 \<Rightarrow> bytes" where
  "pseudo4 mem ip len = window (ip + 12) 4 mem @ window (ip + 16) 4 mem @ [0, IPPROTO_TCP] @
     obj_bytes BigEndian 2 (ucast len :: u16)"

definition pseudo6 :: "bytes \<Rightarrow> nat \<Rightarrow> u8 \<Rightarrow> u32 \<Rightarrow> bytes" where
  "pseudo6 mem ip proto len = window (ip + 8) 16 mem @ window (ip + 24) 16 mem @
     obj_bytes BigEndian 4 len @ obj_bytes BigEndian 4 (ucast proto :: u32)"

lemma obj_bytes_htons: "obj_bytes (byte_order p) 2 (htons p v) = obj_bytes BigEndian 2 v"
  by (cases "byte_order p") (simp_all add: htons_def obj_bytes_def bswap_16_def wire_simps)

lemma obj_word_htonl: "obj_word (byte_order p) (obj_bytes BigEndian 4 v) = htonl p v"
  by (cases "byte_order p") (simp_all add: htonl_def obj_bytes_def obj_word_def bswap_32_def bswap_def wire_simps)

lemma ntohs_obj_word:
  "length bs = 2 \<Longrightarrow> ntohs p (obj_word (byte_order p) bs) = obj_word BigEndian bs"
  by (cases "byte_order p") (simp_all add: ntohs_def obj_word_def bswap_16_def bswap_def wire_simps)

lemma tcp4_spec:
  assumes "ip + 20 \<le> length mem" and "tcp + unat len \<le> length mem" and "20 \<le> unat len" and "unat len < 2 ^ 31 - 12"
  shows "\<exists>c :: u16. ComputeAndSetChecksum_tcp4 p mem ip tcp len = Inr (True, splice_at (tcp + 16) (obj_bytes (byte_order p) 2 c) mem) \<and>
    Checksum16 (byte_order p) (pseudo4 mem ip len @
      window tcp (unat len) (splice_at (tcp + 16) (obj_bytes (byte_order p) 2 c) mem)) = 0xFFFF"
proof -
  let ?h = "byte_order p"
  let ?s = "ucast (obj_word ?h (window (ip + 12) 4 mem) :: u32) + ucast (obj_word ?h (window (ip + 16) 4 mem) :: u32) +
    ucast (obj_word ?h ([0, IPPROTO_TCP] @ obj_bytes BigEndian 2 (ucast len :: u16)) :: u32) :: u64"
  have add: "AddChecksum ?h ?s bs = AddChecksum ?h 0 (pseudo4 mem ip len @ bs)" for bs
    using assms AddChecksum_word [of "[0, IPPROTO_TCP] @ obj_bytes BigEndian 2 (ucast len :: u16)" ?h]
    by (simp add: pseudo4_def AddChecksum_word)
  have side: "tcp + unat len \<le> length mem" "tcp \<le> tcp + 16" "tcp + 16 + 2 \<le> tcp + unat len"
    "even (tcp + 16 - tcp)" "even (length (pseudo4 mem ip len))" "length (pseudo4 mem ip len) + unat len < 2 ^ 31"
    using assms by (simp_all add: pseudo4_def)
  obtain c :: u16 where c: "set_checksum ?h mem (tcp + 16) ?s tcp (unat len) =
        Inr (splice_at (tcp + 16) (obj_bytes ?h 2 c) mem)"
      "Checksum16 ?h (pseudo4 mem ip len @ window tcp (unat len) (splice_at (tcp + 16) (obj_bytes ?h 2 c) mem)) = 0xFFFF"
    using set_checksum_verifies [OF side add] by blast
  have "ComputeAndSetChecksum_tcp4 p mem ip tcp len =
      bind_res (set_checksum ?h mem (tcp + 16) ?s tcp (unat len)) (\<lambda>mem. Inr (True, mem))"
    using assms by (simp add: ComputeAndSetChecksum_tcp4_def Let_def read32_def obj_bytes_htons word_less_nat_alt)
  with c show ?thesis by auto
qed

lemma add_words_4:
  assumes "i + 16 \<le> length mem"
  shows "\<exists>r. add_words h mem (Suc (Suc (Suc (Suc 0)))) i s = Inr r \<and> (\<forall>bs. AddChecksum h r bs = AddChecksum h s (window i 16 mem @ bs))"
proof -
  have w: "window i 16 mem = window i 4 mem @ window (i + 4) 4 mem @ window (i + 8) 4 mem @ window (i + 12) 4 mem"
    using assms window_append_window [of i 4 12 mem] window_append_window [of "i + 4" 4 8 mem]
      window_append_window [of "i + 8" 4 4 mem] by (simp add: ac_simps)
  show ?thesis
    using assms unfolding w
    by (simp add: read32_def AddChecksum_word add.commute [of i])
qed

lemma numeral_4_eq: "4 = Suc (Suc (Suc (Suc 0)))"
  by simp

lemma transport6_spec:
  assumes "ip + 40 \<le> length mem" and "hdr + unat len \<le> length mem" and "unat least \<le> unat len"
    and "unat len < 2 ^ 31 - 40" and "even field" and "field + 2 \<le> unat least"
  shows "\<exists>c :: u16. transport_checksum6 proto least field p mem ip hdr len =
      Inr (True, splice_at (hdr + field) (obj_bytes (byte_order p) 2 c) mem) \<and>
    Checksum16 (byte_order p) (pseudo6 mem ip proto len @
      window hdr (unat len) (splice_at (hdr + field) (obj_bytes (byte_order p) 2 c) mem)) = 0xFFFF"
proof -
  let ?h = "byte_order p"
  obtain s1 where s1: "add_words ?h mem 4 (ip + 8) 0 = Inr s1"
    "\<And>bs. AddChecksum ?h s1 bs = AddChecksum ?h 0 (window (ip + 8) 16 mem @ bs)"
    using add_words_4 [folded numeral_4_eq, of "ip + 8" mem ?h 0] assms by auto
  obtain s2 where s2: "add_words ?h mem 4 (ip + 24) s1 = Inr s2"
    "\<And>bs. AddChecksum ?h s2 bs = AddChecksum ?h s1 (window (ip + 24) 16 mem @ bs)"
    using add_words_4 [folded numeral_4_eq, of "ip + 24" mem ?h s1] assms by auto
  let ?s = "s2 + ucast (htonl p len) + ucast (htonl p (ucast proto))"
  have add: "AddChecksum ?h ?s bs = AddChecksum ?h 0 (pseudo6 mem ip proto len @ bs)" for bs
  proof -
    have "AddChecksum ?h ?s bs =
        AddChecksum ?h s2 (obj_bytes BigEndian 4 len @ obj_bytes BigEndian 4 (ucast proto :: u32) @ bs)"
      by (simp add: AddChecksum_word obj_word_htonl)
    then show ?thesis by (simp only: s1(2) s2(2) pseudo6_def append_assoc)
  qed
  have side: "hdr + unat len \<le> length mem" "hdr \<le> hdr + field" "hdr + field + 2 \<le> hdr + unat len"
    "even (hdr + field - hdr)" "even (length (pseudo6 mem ip proto len))"
    "length (pseudo6 mem ip proto len) + unat len < 2 ^ 31"
    using assms by (simp_all add: pseudo6_def)
  obtain c :: u16 where c: "set_checksum ?h mem (hdr + field) ?s hdr (unat len) =
        Inr (splice_at (hdr + field) (obj_bytes ?h 2 c) mem)"
      "Checksum16 ?h (pseudo6 mem ip proto len @ window hdr (unat len) (splice_at (hdr + field) (obj_bytes ?h 2 c) mem)) = 0xFFFF"
    using set_checksum_verifies [OF side add] by blast
  have "transport_checksum6 proto least field p mem ip hdr len =
      bind_res (set_checksum ?h mem (hdr + field) ?s hdr (unat len)) (\<lambda>mem. Inr (True, mem))"
    using assms s1(1) s2(1) by (simp add: transport_checksum6_def Let_def word_less_nat_alt)
  with c show ?thesis by auto
qed

section \<open>Properties\<close>

text \<open>
  Transport checksums over IPv6. For every readable packet whose transport segment is long
  enough, \<open>ComputeAndSetChecksum\<close> for TCP and for UDP succeeds, changes only the two bytes of
  the checksum field, and afterwards the one's complement sum of the pseudo header (addresses,
  length and protocol) and the segment is \<open>0xFFFF\<close>, as the receiver demands; a segment shorter
  than its header is refused and left alone.
\<close>

theorem checksum6_valid:
  assumes "ip + 40 \<le> hdr" and "hdr + unat len \<le> length mem" and "unat len < 2 ^ 31 - 40"
  shows "(if 20 \<le> unat len
          then \<exists>c :: u16. ComputeAndSetChecksum_tcp6 p mem ip hdr len =
                 Inr (True, splice_at (hdr + 16) (obj_bytes (byte_order p) 2 c) mem) \<and>
               (let mem' = splice_at (hdr + 16) (obj_bytes (byte_order p) 2 c) mem in
                Checksum16 (byte_order p) (pseudo6 mem' ip IPPROTO_TCP len @ window hdr (unat len) mem') = 0xFFFF)
          else ComputeAndSetChecksum_tcp6 p mem ip hdr len = Inr (False, mem)) \<and>
         (if 8 \<le> unat len
          then \<exists>c :: u16. ComputeAndSetChecksum_udp6 p mem ip hdr len =
                 Inr (True, splice_at (hdr + 6) (obj_bytes (byte_order p) 2 c) mem) \<and>
               (let mem' = splice_at (hdr + 6) (obj_bytes (byte_order p) 2 c) mem in
                Checksum16 (byte_order p) (pseudo6 mem' ip IPPROTO_UDP len @ window hdr (unat len) mem') = 0xFFFF)
          else ComputeAndSetChecksum_udp6 p mem ip hdr len = Inr (False, mem))"
proof -
  have ps: "pseudo6 (splice_at (hdr + f) (obj_bytes h 2 c) mem) ip proto len = pseudo6 mem ip proto len"
    if "f + 2 \<le> unat len" for f h proto and c :: u16
    using assms that unfolding pseudo6_def by (auto simp: window_splice_disjoint)
  have short: "transport_checksum6 proto least field p mem ip hdr len = Inr (False, mem)"
    if "\<not> unat least \<le> unat len" for proto least field
    using that by (simp add: transport_checksum6_def Let_def word_less_nat_alt)
  have tcp: "if 20 \<le> unat len
    then \<exists>c :: u16. ComputeAndSetChecksum_tcp6 p mem ip hdr len =
           Inr (True, splice_at (hdr + 16) (obj_bytes (byte_order p) 2 c) mem) \<and>
         (let mem' = splice_at (hdr + 16) (obj_bytes (byte_order p) 2 c) mem in
          Checksum16 (byte_order p) (pseudo6 mem' ip IPPROTO_TCP len @ window hdr (unat len) mem') = 0xFFFF)
    else ComputeAndSetChecksum_tcp6 p mem ip hdr len = Inr (False, mem)"
    using assms ps [of 16] short [of 20]
      transport6_spec [of ip mem hdr len sizeof_tcphdr 16 IPPROTO_TCP p]
    by (simp add: ComputeAndSetChecksum_tcp6_def Let_def)
  have udp: "if 8 \<le> unat len
    then \<exists>c :: u16. ComputeAndSetChecksum_udp6 p mem ip hdr len =
           Inr (True, splice_at (hdr + 6) (obj_bytes (byte_order p) 2 c) mem) \<and>
         (let mem' = splice_at (hdr + 6) (obj_bytes (byte_order p) 2 c) mem in
          Checksum16 (byte_order p) (pseudo6 mem' ip IPPROTO_UDP len @ window hdr (unat len) mem') = 0xFFFF)
    else ComputeAndSetChecksum_udp6 p mem ip hdr len = Inr (False, mem)"
    using assms ps [of 6] short [of 8]
      transport6_spec [of ip mem hdr len sizeof_udphdr 6 IPPROTO_UDP p]
    by (simp add: ComputeAndSetChecksum_udp6_def Let_def)
  from tcp udp show ?thesis ..
qed

theorem checksum6_valid_witness:
  "\<exists>c :: u16. ComputeAndSetChecksum_udp6 \<lparr>byte_order = LittleEndian, is_linux = True\<rparr> (replicate 50 1) 0 40 10 =
     Inr (True, splice_at 46 (obj_bytes LittleEndian 2 c) (replicate 50 1))"
  using checksum6_valid [of 0 40 10 "replicate 50 1" "\<lparr>byte_order = LittleEndian, is_linux = True\<rparr>"]
  by (auto simp: Let_def)

section \<open>IPv4 packets\<close>

text \<open>The header length of a packet, and the packets that \<open>ComputeAndSetChecksum\<close> accepts.\<close>

definition hlen :: "bytes \<Rightarrow> nat" where
  "hlen pkt = 4 * (unat (pkt ! 0) mod 16)"

definition least_payload :: "u8 \<Rightarrow> nat option" where
  "least_payload proto =
     (if proto = IPPROTO_ICMP then Some 28 else if proto = IPPROTO_UDP then Some 8
      else if proto = IPPROTO_TCP then Some 20 else None)"

definition accepted4 :: "bytes \<Rightarrow> u32 \<Rightarrow> bool" where
  "accepted4 pkt len \<longleftrightarrow>
     20 \<le> unat len \<and> unat len = unat (obj_word BigEndian (window 2 2 pkt) :: u16) \<and>
     (\<exists>n. least_payload (pkt ! 9) = Some n \<and> hlen pkt + n \<le> unat len)"

lemma ip_lengths:
  "unat (ip_header_len (pkt ! 0)) = hlen pkt" "hlen pkt < 64" "even (hlen pkt)"
  by (simp_all add: hlen_def unat_ip_header_len)

text \<open>The packet after the header checksum has been set.\<close>

lemma header_step:
  assumes "unat len \<le> length pkt" and "20 \<le> unat len" and "hlen pkt \<le> unat len"
    and "20 \<le> hlen pkt"
  obtains c :: u16 where
    "set_checksum h pkt 10 0 0 (hlen pkt) = Inr (splice_at 10 (obj_bytes h 2 c) pkt)"
    "Checksum16 h (window 0 (hlen pkt) (splice_at 10 (obj_bytes h 2 c) pkt)) = 0xFFFF"
proof -
  have "hlen pkt < 64" by (rule ip_lengths)
  with assms have side: "0 + hlen pkt \<le> length pkt" "0 \<le> (10 :: nat)" "10 + 2 \<le> 0 + hlen pkt"
    "even (10 - 0 :: nat)" "even (length ([] :: bytes))" "length ([] :: bytes) + hlen pkt < 2 ^ 31" by simp_all
  show ?thesis using set_checksum_verifies [OF side, of h 0] that by auto
qed

lemma ip_step:
  assumes "unat len \<le> length pkt" and "20 \<le> unat len" and "hlen pkt \<le> unat len"
    and "unat len = unat (obj_word BigEndian (window 2 2 pkt) :: u16)"
    and "set_checksum (byte_order p) pkt 10 0 0 (hlen pkt) = Inr (splice_at 10 (obj_bytes (byte_order p) 2 c) pkt)"
  defines "pkt1 \<equiv> splice_at 10 (obj_bytes (byte_order p) 2 (c :: u16)) pkt"
  shows "ComputeAndSetChecksum_ip p pkt len =
    (if pkt ! 9 = IPPROTO_ICMP then
       (if hlen pkt + 28 \<le> unat len
        then bind_res (set_checksum (byte_order p) pkt1 (hlen pkt + 2) 0 0 (unat len)) (\<lambda>packet. Inr (True, packet))
        else Inr (False, pkt1))
     else if pkt ! 9 = IPPROTO_UDP then
       (if hlen pkt + 8 \<le> unat len
        then bind_res (store16 (byte_order p) pkt1 (hlen pkt + 6) 0) (\<lambda>packet. Inr (True, packet))
        else Inr (False, pkt1))
     else if pkt ! 9 = IPPROTO_TCP then
       ComputeAndSetChecksum_tcp4 p pkt1 0 (hlen pkt) (len - of_nat (hlen pkt))
     else Inr (False, pkt1))"
proof -
  have l: "length pkt1 = length pkt" using assms by (simp add: pkt1_def)
  have nine: "pkt1 ! 9 = pkt ! 9" using assms by (simp add: pkt1_def nth_splice_at)
  let ?w = "ip_header_len (pkt ! 0)"
  note w = ip_lengths(1) [of pkt]
  have s: "unat (?w + 28) = hlen pkt + 28" "unat (?w + 8) = hlen pkt + 8"
    using w ip_lengths(2) [of pkt] by (simp_all add: unat_plus_small)
  have of: "of_nat (hlen pkt) = ?w" using w by (metis of_nat_unat ucast_id)
  have "len = ucast (ntohs p (obj_word (byte_order p) (window 2 2 pkt)))"
    using assms by (intro unsigned_word_eqI [where ?'a = nat]) (simp add: ntohs_obj_word unat_ucast_up)
  then have cond: "(len < ?w \<or> len \<noteq> ucast (ntohs p (obj_word (byte_order p) (window 2 2 pkt)))) = False"
    using assms(3) w by (simp add: word_less_nat_alt)
  have reads: "\<not> len < sizeof_ip" "read8 pkt 0 = Inr (pkt ! 0)" "read16 (byte_order p) pkt 2 = Inr (obj_word (byte_order p) (window 2 2 pkt))"
    "read8 pkt1 9 = Inr (pkt ! 9)"
    using assms(1,2) l nine by (auto simp: read8_def read16_def word_less_nat_alt)
  have cmp: "(?w + sizeof_icmp \<le> len) = (hlen pkt + 28 \<le> unat len)" "(?w + sizeof_udphdr \<le> len) = (hlen pkt + 8 \<le> unat len)"
    by (simp_all add: word_le_nat_alt s)
  show ?thesis
    unfolding ComputeAndSetChecksum_ip_def Let_def
    by (simp only: reads bind_res_simps cond if_False w assms(5) pkt1_def [symmetric] cmp of)
qed

text \<open>The sum of a verified header does not change the checksum of what follows it.\<close>

lemma ones_sum_header:
  assumes "ones_sum 16 a = 65535" shows "ones_sum 16 (a + b) = (if b = 0 then 65535 else ones_sum 16 b)"
proof -
  have "a mod 65535 = 0" using assms mod_less_divisor [of 65535 a]
    by (auto simp: ones_sum_def split: if_splits)
  then have "(a + b) mod 65535 = b mod 65535" by (metis add_0 mod_add_left_eq)
  with assms show ?thesis by (auto simp: ones_sum_def split: if_splits)
qed

lemma Checksum16_after_header:
  assumes "Checksum16 h hs = 0xFFFF" and "even (length hs)" and "length hs + length bs < 2 ^ 31"
  shows "Checksum16 h (hs @ bs) = (if sum16 h bs = 0 then 0xFFFF else Checksum16 h bs)"
proof -
  have "ones_sum 16 (sum16 h hs) = unat (Checksum16 h hs)"
    using assms(3) by (simp add: Checksum16_def Finish_Add)
  then have hs: "ones_sum 16 (sum16 h hs) = 65535" using assms(1) by simp
  have "unat (Checksum16 h (hs @ bs)) = ones_sum 16 (sum16 h hs + sum16 h bs)"
    using assms by (simp add: Checksum16_def Finish_Add sum16_append)
  also have "\<dots> = (if sum16 h bs = 0 then 65535 else unat (Checksum16 h bs))"
    using assms(3) by (simp add: ones_sum_header [OF hs] Checksum16_def Finish_Add)
  finally show ?thesis by (intro unsigned_word_eqI [where ?'a = nat]) simp
qed

text \<open>
  The ICMP branch: the field is computed over the whole packet, which is the checksum of the ICMP
  message unless that message consists of zeros only.
\<close>

lemma icmp_step:
  assumes "n \<le> length pkt1" and "hl + 28 \<le> n" and "even hl" and "n < 2 ^ 31"
    and "Checksum16 h (window 0 hl pkt1) = 0xFFFF"
  obtains c :: u16 where
    "set_checksum h pkt1 (hl + 2) 0 0 n = Inr (splice_at (hl + 2) (obj_bytes h 2 c) pkt1)"
    "Checksum16 h (window hl (n - hl) (splice_at (hl + 2) (obj_bytes h 2 c) pkt1)) =
       (if sum16 h (window hl (n - hl) (splice_at (hl + 2) [0, 0] pkt1)) = 0 then 0 else 0xFFFF)"
proof -
  let ?z = "splice_at (hl + 2) [0, 0] pkt1"
  let ?m = "window hl (n - hl) ?z"
  have side: "0 + n \<le> length pkt1" "0 \<le> hl + 2" "hl + 2 + 2 \<le> 0 + n" "even (hl + 2 - 0)"
    "even (length ([] :: bytes))" "length ([] :: bytes) + n < 2 ^ 31" using assms by simp_all
  have side': "hl + (n - hl) \<le> length pkt1" "hl \<le> hl + 2" "hl + 2 + 2 \<le> hl + (n - hl)" "even (hl + 2 - hl)"
    "even (length ([] :: bytes))" "length ([] :: bytes) + (n - hl) < 2 ^ 31" using assms by simp_all
  obtain c :: u16 where c: "set_checksum h pkt1 (hl + 2) 0 0 n = Inr (splice_at (hl + 2) (obj_bytes h 2 c) pkt1)"
    "c = NOT (Checksum16 h (window 0 n ?z))"
    using set_checksum_verifies [OF side, of h 0] by auto
  have v: "Checksum16 h (window hl (n - hl) (splice_at (hl + 2) (obj_bytes h 2 (NOT (Checksum16 h ?m))) pkt1)) = 0xFFFF"
    using set_checksum_verifies [OF side', of h 0] by auto
  have "window 0 n ?z = window 0 hl pkt1 @ ?m"
    using assms window_append_window [of 0 hl "n - hl" ?z] by (simp add: window_splice_disjoint)
  then have whole: "Checksum16 h (window 0 n ?z) = (if sum16 h ?m = 0 then 0xFFFF else Checksum16 h ?m)"
    using assms Checksum16_after_header [of h "window 0 hl pkt1" ?m] by simp
  show ?thesis
  proof (cases "sum16 h ?m = 0")
    case True
    then have "c = 0" using c(2) whole by simp
    moreover have "unat (Checksum16 h ?m) = 0"
      using True assms by (simp add: Checksum16_def Finish_Add ones_sum_def)
    ultimately show ?thesis using that [OF c(1)] True by (simp add: obj_bytes_0 unsigned_eq_0_iff)
  next
    case False
    then show ?thesis using that [OF c(1)] v whole c(2) by simp
  qed
qed

lemma accepted4_cases:
  assumes "accepted4 pkt len"
  shows "20 \<le> unat len" "hlen pkt \<le> unat len" "unat len = unat (obj_word BigEndian (window 2 2 pkt) :: u16)"
    "unat len < 2 ^ 16"
  using assms unsigned_less [of "obj_word BigEndian (window 2 2 pkt) :: u16", where ?'a = nat]
  by (auto simp: accepted4_def)

lemma checksum4_accepted:
  fixes p :: platform and pkt :: bytes and len :: u32
  assumes "unat len \<le> length pkt" and "20 \<le> hlen pkt" and "accepted4 pkt len"
  defines "hl \<equiv> hlen pkt" and "h \<equiv> byte_order p"
  shows "\<exists>pkt'. ComputeAndSetChecksum_ip p pkt len = Inr (True, pkt') \<and> length pkt' = length pkt \<and>
     Checksum16 h (window 0 hl pkt') = 0xFFFF \<and>
     (pkt ! 9 = IPPROTO_TCP \<longrightarrow>
        Checksum16 h (pseudo4 pkt' 0 (len - of_nat hl) @ window hl (unat len - hl) pkt') = 0xFFFF) \<and>
     (pkt ! 9 = IPPROTO_UDP \<longrightarrow> window (hl + 6) 2 pkt' = [0, 0]) \<and>
     (pkt ! 9 = IPPROTO_ICMP \<longrightarrow>
        Checksum16 h (window hl (unat len - hl) pkt') =
          (if sum16 h (window hl (unat len - hl) (splice_at (hl + 2) [0, 0] pkt)) = 0 then 0 else 0xFFFF))"
proof -
  note acc = accepted4_cases [OF assms(3)]
  have hl: "20 \<le> hl" "hl \<le> unat len" "even hl" using assms(2) acc(2) ip_lengths(3) by (simp_all add: hl_def)
  obtain c :: u16 where c: "set_checksum h pkt 10 0 0 hl = Inr (splice_at 10 (obj_bytes h 2 c) pkt)"
    "Checksum16 h (window 0 hl (splice_at 10 (obj_bytes h 2 c) pkt)) = 0xFFFF"
    using header_step [OF assms(1) acc(1,2) assms(2), of h] unfolding hl_def by blast
  define pkt1 where "pkt1 = splice_at 10 (obj_bytes h 2 c) pkt"
  have l1: "length pkt1 = length pkt" using assms(1) acc(1) by (simp add: pkt1_def)
  note step = ip_step [OF assms(1) acc(1,2,3) c(1) [unfolded h_def hl_def], folded h_def hl_def pkt1_def]
  have hdr: "window 0 hl (splice_at i ys pkt1) = window 0 hl pkt1" if "hl \<le> i" "i + length ys \<le> length pkt" for i ys
    using that l1 by (intro window_splice_disjoint) auto
  consider "pkt ! 9 = IPPROTO_ICMP" "hl + 28 \<le> unat len" | "pkt ! 9 = IPPROTO_UDP" "hl + 8 \<le> unat len"
    | "pkt ! 9 = IPPROTO_TCP" "hl + 20 \<le> unat len"
    using assms(3) by (auto simp: accepted4_def least_payload_def hl_def split: if_splits)
  then show ?thesis
  proof cases
    case 1
    have swap: "window hl (unat len - hl) (splice_at (hl + 2) [0, 0] pkt1) =
        window hl (unat len - hl) (splice_at (hl + 2) [0, 0] pkt)"
      using 1 hl assms(1) l1
      by (subst (1 2) window_splice_inside) (auto simp: pkt1_def window_splice_disjoint)
    obtain d :: u16 where d: "set_checksum h pkt1 (hl + 2) 0 0 (unat len) = Inr (splice_at (hl + 2) (obj_bytes h 2 d) pkt1)"
      "Checksum16 h (window hl (unat len - hl) (splice_at (hl + 2) (obj_bytes h 2 d) pkt1)) =
       (if sum16 h (window hl (unat len - hl) (splice_at (hl + 2) [0, 0] pkt)) = 0 then 0 else 0xFFFF)"
      using icmp_step [of "unat len" pkt1 hl h] 1 hl acc(4) assms(1) l1 c(2) unfolding swap pkt1_def [symmetric]
      by auto
    with 1 hl l1 assms(1) c(2) step hdr show ?thesis
      by (simp add: pkt1_def [symmetric])
  next
    case 2
    with hl l1 assms(1) c(2) step hdr show ?thesis
      by (simp add: store16_def pkt1_def [symmetric] obj_bytes_0)
  next
    case 3
    let ?t = "len - of_nat hl"
    have "unat (of_nat hl :: u32) = hl" using acc(4) hl by (intro unat_of_nat_small) simp
    then have t: "unat ?t = unat len - hl" using hl by (subst unat_minus_small) (simp_all add: word_le_nat_alt)
    obtain d :: u16 where d: "ComputeAndSetChecksum_tcp4 p pkt1 0 hl ?t = Inr (True, splice_at (hl + 16) (obj_bytes h 2 d) pkt1)"
      "Checksum16 h (pseudo4 pkt1 0 ?t @ window hl (unat ?t) (splice_at (hl + 16) (obj_bytes h 2 d) pkt1)) = 0xFFFF"
    proof -
      have "0 + 20 \<le> length pkt1" "hl + unat ?t \<le> length pkt1" "20 \<le> unat ?t" "unat ?t < 2 ^ 31 - 12"
        using 3 hl t acc(4) assms(1) l1 by (simp_all add: t)
      from tcp4_spec [OF this, of p] that show ?thesis unfolding h_def by blast
    qed
    moreover have "pseudo4 (splice_at (hl + 16) (obj_bytes h 2 d) pkt1) 0 ?t = pseudo4 pkt1 0 ?t"
      using 3 hl assms(1) l1 by (auto simp: pseudo4_def window_splice_disjoint)
    ultimately show ?thesis
      using 3 hl l1 assms(1) c(2) step hdr by (simp add: pkt1_def [symmetric] t)
  qed
qed

lemma checksum4_refused:
  assumes "unat len \<le> length pkt" and "20 \<le> hlen pkt" and "\<not> accepted4 pkt len"
  shows "\<exists>pkt'. ComputeAndSetChecksum_ip p pkt len = Inr (False, pkt')"
proof -
  let ?ipl = "obj_word BigEndian (window 2 2 pkt) :: u16"
  consider "unat len < 20" | "20 \<le> unat len" "unat len < hlen pkt \<or> unat len \<noteq> unat ?ipl"
    | "20 \<le> unat len" "hlen pkt \<le> unat len" "unat len = unat ?ipl"
    by linarith
  then show ?thesis
  proof cases
    case 1
    then show ?thesis by (simp add: ComputeAndSetChecksum_ip_def Let_def word_less_nat_alt)
  next
    case 2
    then have "len < ip_header_len (pkt ! 0) \<or> len \<noteq> ucast (ntohs p (obj_word (byte_order p) (window 2 2 pkt)))"
      using assms(1) by (auto simp: word_less_nat_alt ip_lengths ntohs_obj_word unat_ucast_up)
    moreover have "0 < length pkt" "4 \<le> length pkt" using 2 assms(1) by auto
    ultimately show ?thesis
      using 2 by (simp add: ComputeAndSetChecksum_ip_def Let_def word_less_nat_alt read8_def read16_def)
  next
    case 3
    obtain c :: u16 where c: "set_checksum (byte_order p) pkt 10 0 0 (hlen pkt) =
        Inr (splice_at 10 (obj_bytes (byte_order p) 2 c) pkt)"
      using header_step [OF assms(1) 3(1,2) assms(2)] by blast
    have "unat (of_nat (hlen pkt) :: u32) = hlen pkt"
      using ip_lengths(2) [of pkt] by (intro unat_of_nat_small) simp
    then have "unat (len - of_nat (hlen pkt)) = unat len - hlen pkt"
      using 3(2) by (subst unat_minus_small) (simp_all add: word_le_nat_alt)
    then show ?thesis
      using assms(3) 3 unfolding ip_step [OF assms(1) 3 c]
      by (auto simp: accepted4_def least_payload_def ComputeAndSetChecksum_tcp4_def Let_def word_less_nat_alt)
  qed
qed



end
