(* ===== verification/Buffer_Pool.thy ===== *)
theory Buffer_Pool
  imports Prelude
begin

text \<open>
  Model of \<open>buffer_pool/buffer_pool.h\<close>. The template parameters \<open>BufferCapacityFunc\<close> and
  \<open>BufferClearFunc\<close> and the default-constructed buffer are the fields of \<open>ops\<close>. Buffers live on
  a heap that maps addresses to objects; \<open>held\<close> lists the buffers whose \<open>BufferPtr\<close> is still in
  use. \<open>pool\<close> is \<open>None\<close> once the last \<open>PoolPtr\<close> is gone, which is what \<open>weak.lock()\<close> tests.
\<close>

type_synonym addr = nat

record 'b buffer_ops =
  capacity :: "'b \<Rightarrow> u64"
  clear :: "'b \<Rightarrow> 'b"
  fresh :: 'b

record pool =
  maxPooledSize :: u64
  curPooledSize :: u64
  pooledBuffers :: "addr list"

record 'b world =
  heap :: "addr \<rightharpoonup> 'b"
  pool :: "pool option"
  held :: "addr list"

definition CreateBufferPool :: "u64 \<Rightarrow> 'b world" where
  "CreateBufferPool maxPooledByteSize =
     \<lparr>heap = Map.empty,
      pool = Some \<lparr>maxPooledSize = maxPooledByteSize, curPooledSize = 0, pooledBuffers = []\<rparr>,
      held = []\<rparr>"

text \<open>\<open>new_addr\<close> is the address that \<open>new BufferType\<close> returns when the pool is empty.\<close>

definition GetBuffer :: "'b buffer_ops \<Rightarrow> addr \<Rightarrow> 'b world \<Rightarrow> (addr \<times> 'b world) res" where
  "GetBuffer ops new_addr w =
     (case pool w of
        None \<Rightarrow> Inl Null_Deref
      | Some p \<Rightarrow>
          if length (pooledBuffers p) > 0 then
            let buf = last (pooledBuffers p) in
            (case heap w buf of
               None \<Rightarrow> Inl Null_Deref
             | Some b \<Rightarrow>
                 Inr (buf, w\<lparr>pool := Some (p\<lparr>pooledBuffers := butlast (pooledBuffers p),
                                              curPooledSize := curPooledSize p - capacity ops b\<rparr>),
                             heap := (heap w)(buf \<mapsto> clear ops b),
                             held := buf # held w\<rparr>))
          else Inr (new_addr, w\<lparr>heap := (heap w)(new_addr \<mapsto> fresh ops), held := new_addr # held w\<rparr>))"

definition freeBuffer :: "'b buffer_ops \<Rightarrow> addr \<Rightarrow> pool \<Rightarrow> ('b world \<Rightarrow> 'b world res)" where
  "freeBuffer ops buf p w =
     (case heap w buf of
        None \<Rightarrow> Inl Null_Deref
      | Some b \<Rightarrow>
          let newSize = curPooledSize p + capacity ops b in
          if newSize \<le> maxPooledSize p
          then Inr (w\<lparr>pool := Some (p\<lparr>pooledBuffers := pooledBuffers p @ [buf], curPooledSize := newSize\<rparr>)\<rparr>)
          else Inr (w\<lparr>heap := (heap w)(buf := None)\<rparr>))"

text \<open>The deleter of a \<open>BufferPtr\<close>, run when its last copy goes away.\<close>

definition release :: "'b buffer_ops \<Rightarrow> addr \<Rightarrow> 'b world \<Rightarrow> 'b world res" where
  "release ops buf w =
     (let w = w\<lparr>held := remove1 buf (held w)\<rparr> in
      case pool w of
        Some p \<Rightarrow> freeBuffer ops buf p w
      | None \<Rightarrow> (case heap w buf of None \<Rightarrow> Inl Null_Deref | Some b \<Rightarrow> Inr (w\<lparr>heap := (heap w)(buf := None)\<rparr>)))"

text \<open>\<open>~BufferPool()\<close>: the loop deletes every pooled buffer.\<close>

fun delete_all :: "addr list \<Rightarrow> (addr \<rightharpoonup> 'b) \<Rightarrow> (addr \<rightharpoonup> 'b) res" where
  "delete_all [] m = Inr m"
| "delete_all (a # as) m = (if m a = None then Inl Null_Deref else delete_all as (m(a := None)))"

definition destroy :: "'b world \<Rightarrow> 'b world res" where
  "destroy w =
     (case pool w of
        None \<Rightarrow> Inl Null_Deref
      | Some p \<Rightarrow> bind_res (delete_all (pooledBuffers p) (heap w)) (\<lambda>m. Inr (w\<lparr>heap := m, pool := None\<rparr>)))"

section \<open>All uses of a pool\<close>

text \<open>
  What clients can do, in any order: take a buffer, change a buffer they hold (which may change
  its capacity), let go of one, and drop the pool itself. \<open>new\<close> never returns a live address.
\<close>

inductive use_step :: "'b buffer_ops \<Rightarrow> 'b world \<Rightarrow> 'b world \<Rightarrow> bool" for ops where
  get: "pool w \<noteq> None \<Longrightarrow> heap w a = None \<Longrightarrow> GetBuffer ops a w = Inr (b, w') \<Longrightarrow> use_step ops w w'"
| modify: "a \<in> set (held w) \<Longrightarrow> use_step ops w (w\<lparr>heap := (heap w)(a \<mapsto> x)\<rparr>)"
| drop_ptr: "a \<in> set (held w) \<Longrightarrow> release ops a w = Inr w' \<Longrightarrow> use_step ops w w'"
| drop_pool: "pool w \<noteq> None \<Longrightarrow> destroy w = Inr w' \<Longrightarrow> use_step ops w w'"

definition pooled :: "'b world \<Rightarrow> addr list" where
  "pooled w = (case pool w of None \<Rightarrow> [] | Some p \<Rightarrow> pooledBuffers p)"

definition size_of :: "'b buffer_ops \<Rightarrow> (addr \<rightharpoonup> 'b) \<Rightarrow> addr list \<Rightarrow> nat" where
  "size_of ops m as = (\<Sum>a\<leftarrow>as. unat (capacity ops (the (m a))))"

text \<open>
  The invariant: every live buffer is either pooled or held, once; the pool accounts exactly for
  the capacity of what it holds, within its limit.
\<close>

definition pool_inv :: "'b buffer_ops \<Rightarrow> u64 \<Rightarrow> 'b world \<Rightarrow> bool" where
  "pool_inv ops limit w \<longleftrightarrow>
     distinct (pooled w @ held w) \<and> dom (heap w) = set (pooled w @ held w) \<and>
     (case pool w of
        None \<Rightarrow> True
      | Some p \<Rightarrow> maxPooledSize p = limit \<and> unat (curPooledSize p) = size_of ops (heap w) (pooledBuffers p) \<and>
                  curPooledSize p \<le> limit)"

text \<open>The sizes for which \<open>curPooledSize_ + capacity\<close> cannot wrap around.\<close>

definition sane :: "'b buffer_ops \<Rightarrow> u64 \<Rightarrow> bool" where
  "sane ops limit \<longleftrightarrow> (\<forall>b. unat (capacity ops b) < 2 ^ 63) \<and> unat limit \<le> 2 ^ 63"

lemma size_of_simps [simp]:
  "size_of ops m [] = 0" "size_of ops m (a # as) = unat (capacity ops (the (m a))) + size_of ops m as"
  "size_of ops m (as @ bs) = size_of ops m as + size_of ops m bs"
  by (simp_all add: size_of_def)

lemma size_of_upd: "a \<notin> set as \<Longrightarrow> size_of ops (m(a := x)) as = size_of ops m as"
  by (induction as) auto

lemma delete_all_eq:
  "distinct as \<Longrightarrow> set as \<subseteq> dom m \<Longrightarrow> delete_all as m = Inr (m |` (- set as))"
proof (induction as arbitrary: m)
  case (Cons a as)
  then have "set as \<subseteq> dom (m(a := None))" "m a \<noteq> None" by auto
  with Cons have "delete_all (a # as) m = Inr ((m(a := None)) |` (- set as))"
    by (simp only: delete_all.simps if_False Cons.IH distinct.simps simp_thms)
  also have "(m(a := None)) |` (- set as) = m |` (- set (a # as))"
    by (auto simp: restrict_map_def fun_eq_iff)
  finally show ?case .
qed (simp add: restrict_map_def)

lemma inv_create: "pool_inv ops limit (CreateBufferPool limit)"
  by (simp add: pool_inv_def CreateBufferPool_def pooled_def)

lemma GetBuffer_inv [inv_intros]:
  assumes "pool_inv ops limit w" and "pool w \<noteq> None" and "heap w a = None"
  shows "\<exists>b w'. GetBuffer ops a w = Inr (b, w') \<and> pool_inv ops limit w' \<and> b \<notin> set (held w) \<and> held w' = b # held w"
proof -
  obtain p where p: "pool w = Some p" using assms(2) by auto
  show ?thesis
  proof (cases "pooledBuffers p" rule: rev_cases)
    case Nil
    with assms p show ?thesis
      by (auto simp: GetBuffer_def pool_inv_def pooled_def)
  next
    case (snoc as buf)
    have inv: "distinct (as @ buf # held w)" "dom (heap w) = set (as @ buf # held w)"
      "maxPooledSize p = limit" "curPooledSize p \<le> limit"
      "unat (curPooledSize p) = size_of ops (heap w) (as @ [buf])"
      using assms(1) p snoc by (auto simp: pool_inv_def pooled_def)
    then obtain b where b: "heap w buf = Some b" by (metis domD in_set_conv_decomp)
    have le: "capacity ops b \<le> curPooledSize p" using inv(5) b by (simp add: word_le_nat_alt)
    then have "unat (curPooledSize p - capacity ops b) = size_of ops (heap w) as"
      using inv(5) b by (simp add: unat_minus_small)
    moreover have "curPooledSize p - capacity ops b \<le> limit"
      using inv(4) le unat_minus_small [OF le] by (simp add: word_le_nat_alt)
    ultimately show ?thesis
      using inv p snoc b by (auto simp: GetBuffer_def pool_inv_def pooled_def size_of_upd)
  qed
qed

lemma release_inv [inv_intros]:
  assumes "pool_inv ops limit w" and "sane ops limit" and "a \<in> set (held w)"
  shows "\<exists>w'. release ops a w = Inr w' \<and> pool_inv ops limit w' \<and> held w' = remove1 a (held w)"
proof -
  obtain b where b: "heap w a = Some b" using assms(1,3) by (auto simp: pool_inv_def)
  have d: "distinct (held w)" "set (remove1 a (held w)) = set (held w) - {a}"
    using assms(1) by (auto simp: pool_inv_def)
  show ?thesis
  proof (cases "pool w")
    case None
    with assms b d show ?thesis
      by (auto simp: release_def pool_inv_def pooled_def Let_def)
  next
    case (Some p)
    have inv: "distinct (pooledBuffers p @ held w)" "dom (heap w) = set (pooledBuffers p @ held w)"
      "maxPooledSize p = limit" "curPooledSize p \<le> limit"
      "unat (curPooledSize p) = size_of ops (heap w) (pooledBuffers p)"
      using assms(1) Some by (auto simp: pool_inv_def pooled_def)
    have "unat (curPooledSize p) + unat (capacity ops b) < 2 ^ 64"
      using assms(2) inv(4) by (auto simp: sane_def word_le_nat_alt dest!: spec [of _ b])
    then have n: "unat (curPooledSize p + capacity ops b) = unat (curPooledSize p) + unat (capacity ops b)"
      by (simp add: unat_plus_small)
    have a: "a \<notin> set (pooledBuffers p)" using inv(1) assms(3) by auto
    show ?thesis
      using Some b d inv n a assms(3)
      by (auto simp: release_def freeBuffer_def pool_inv_def pooled_def Let_def size_of_upd)
  qed
qed

lemma destroy_inv [inv_intros]:
  assumes "pool_inv ops limit w" and "pool w \<noteq> None"
  shows "\<exists>w'. destroy w = Inr w' \<and> pool_inv ops limit w' \<and> pool w' = None \<and> held w' = held w"
proof -
  obtain p where p: "pool w = Some p" using assms(2) by auto
  have inv: "distinct (pooledBuffers p @ held w)" "dom (heap w) = set (pooledBuffers p @ held w)"
    using assms(1) p by (auto simp: pool_inv_def pooled_def)
  then have "delete_all (pooledBuffers p) (heap w) = Inr (heap w |` (- set (pooledBuffers p)))"
    by (intro delete_all_eq) auto
  with inv p show ?thesis
    by (auto simp: destroy_def pool_inv_def pooled_def)
qed

lemma modify_inv [inv_intros]:
  "pool_inv ops limit w \<Longrightarrow> a \<in> set (held w) \<Longrightarrow> pool_inv ops limit (w\<lparr>heap := (heap w)(a \<mapsto> x)\<rparr>)"
  by (auto simp: pool_inv_def pooled_def disjoint_iff split: option.splits intro!: size_of_upd [symmetric])

lemma use_step_inv:
  assumes "use_step ops w w'" and "sane ops limit" and "pool_inv ops limit w"
  shows "pool_inv ops limit w'"
  using assms
proof (cases rule: use_step.cases)
  case (get a b)
  then show ?thesis using GetBuffer_inv [OF assms(3) get(1,2)] by auto
next
  case (modify a x)
  then show ?thesis using modify_inv [OF assms(3)] by simp
next
  case (drop_ptr a)
  then show ?thesis using release_inv [OF assms(3,2) drop_ptr(1)] by auto
next
  case drop_pool
  then show ?thesis using destroy_inv [OF assms(3) drop_pool(1)] by auto
qed

lemma reachable_inv:
  "(use_step ops)\<^sup>*\<^sup>* (CreateBufferPool limit) w \<Longrightarrow> sane ops limit \<Longrightarrow> pool_inv ops limit w"
  by (induction rule: rtranclp_induct) (auto intro: inv_create use_step_inv)

text \<open>
  C18: a buffer pool neither leaks, nor frees twice, nor hands out a buffer twice. In every state
  that any sequence of uses can reach, each live buffer is pooled or held by a client but not
  both; the pooled size is the sum of the capacities of the pooled buffers and never exceeds the
  limit; taking a buffer succeeds and yields one nobody holds, releasing one never touches freed
  memory, also after the pool is gone; and when the pool is gone and nothing is held, no memory is
  left.
\<close>

theorem buffer_pool_safe:
  assumes "(use_step ops)\<^sup>*\<^sup>* (CreateBufferPool limit) w" and "sane ops limit"
  shows "pool_inv ops limit w \<and>
    (pool w \<noteq> None \<longrightarrow> (\<forall>a. heap w a = None \<longrightarrow>
       (\<exists>b w'. GetBuffer ops a w = Inr (b, w') \<and> b \<notin> set (held w) \<and> held w' = b # held w))) \<and>
    (\<forall>a \<in> set (held w). \<exists>w'. release ops a w = Inr w' \<and> held w' = remove1 a (held w)) \<and>
    (pool w \<noteq> None \<longrightarrow> (\<exists>w'. destroy w = Inr w')) \<and>
    (pool w = None \<and> held w = [] \<longrightarrow> heap w = Map.empty)"
proof -
  have inv: "pool_inv ops limit w" by (rule reachable_inv [OF assms])
  moreover have "heap w = Map.empty" if "pool w = None \<and> held w = []"
    using inv that by (simp add: pool_inv_def pooled_def)
  moreover have "\<exists>b w'. GetBuffer ops a w = Inr (b, w') \<and> b \<notin> set (held w) \<and> held w' = b # held w"
    if "pool w \<noteq> None" "heap w a = None" for a
    using GetBuffer_inv [OF inv that] by blast
  moreover have "\<exists>w'. release ops a w = Inr w' \<and> held w' = remove1 a (held w)" if "a \<in> set (held w)" for a
    using release_inv [OF inv assms(2) that] by blast
  moreover have "\<exists>w'. destroy w = Inr w'" if "pool w \<noteq> None"
    using destroy_inv [OF inv that] by blast
  ultimately show ?thesis by blast
qed

theorem buffer_pool_safe_witness:
  "\<exists>b w'. GetBuffer \<lparr>capacity = \<lambda>_. 15, clear = \<lambda>_. [], fresh = [1]\<rparr> 7 (CreateBufferPool 100 :: bytes world) = Inr (b, w') \<and>
     held w' = [b]"
proof -
  let ?ops = "\<lparr>capacity = \<lambda>_. 15, clear = \<lambda>_. [], fresh = [1]\<rparr> :: bytes buffer_ops"
  have "sane ?ops 100" by (simp add: sane_def)
  from buffer_pool_safe [OF rtranclp.rtrancl_refl this]
  show ?thesis by (auto simp: CreateBufferPool_def)
qed

end
