(* ===== verification/String_Utils.thy ===== *)
theory String_Utils
  imports Prelude "HOL-Library.Sublist"
begin

text \<open>
  Model of \<open>utils/string_utils.h\<close> and \<open>utils/string_utils.cpp\<close>: printing of vectors, the two
  splitting functions, trimming and case conversion. A \<open>std::string\<close> is its list of bytes; a C
  string is what precedes the first zero byte.
\<close>

definition c_str :: "bytes \<Rightarrow> bytes" where
  "c_str s = takeWhile (\<lambda>c. c \<noteq> 0) s"

section \<open>ToString\<close>

text \<open>\<open>std::to_string\<close> depends on the element type: it is the parameter \<open>to_string\<close>.\<close>

fun append_each :: "('a \<Rightarrow> bytes) \<Rightarrow> 'a list \<Rightarrow> bytes \<Rightarrow> bytes" where
  "append_each f [] s = s"
| "append_each f (vv # v) s = append_each f v (s @ f vv)"

definition close_list :: "bytes \<Rightarrow> bytes" where
  "close_list s = (if length s > 1 then s[length s - 1 := 0x5d] else s @ ascii '']'')"

definition ToString :: "('a \<Rightarrow> bytes) \<Rightarrow> 'a list \<Rightarrow> bytes" where
  "ToString to_string v = close_list (append_each (\<lambda>vv. to_string vv @ ascii '' '') v (ascii ''[''))"

definition quoted :: "bytes \<Rightarrow> bytes" where
  "quoted vv = [0x22] @ vv @ [0x22, 0x20]"

definition ToString_cstr :: "bytes list \<Rightarrow> bytes" where
  "ToString_cstr v = close_list (append_each (\<lambda>vv. quoted (c_str vv)) v (ascii ''[''))"

definition ToString_string :: "bytes list \<Rightarrow> bytes" where
  "ToString_string v = close_list (append_each quoted v (ascii ''[''))"

section \<open>SplitString\<close>

text \<open>\<open>strstr\<close>: the offset of the first occurrence.\<close>

fun strstr :: "bytes \<Rightarrow> bytes \<Rightarrow> nat option" where
  "strstr hay needle =
     (if prefix needle hay then Some 0
      else case hay of [] \<Rightarrow> None | _ # hs \<Rightarrow> map_option Suc (strstr hs needle))"

declare strstr.simps [simp del]

text \<open>
  The loop of \<open>SplitString(src, sep, sepLen)\<close>; \<open>rest\<close> is the C string at \<open>prePos\<close>. The value
  \<open>None\<close> means that the loop does not end. A \<open>sepLen\<close> that leads behind the terminating zero
  makes the next \<open>strstr\<close> read outside the string.
\<close>

partial_function (option) split_while :: "bytes \<Rightarrow> bytes \<Rightarrow> nat \<Rightarrow> bytes list \<Rightarrow> bytes list res option" where
  "split_while rest target sepLen result =
     (case strstr rest target of
        None \<Rightarrow> Some (Inr (result @ [rest]))
      | Some k \<Rightarrow>
          if k + sepLen > length rest then Some (Inl Out_Of_Bounds)
          else split_while (drop (k + sepLen) rest) target sepLen (result @ [take k rest]))"

definition SplitString_ptr :: "bytes \<Rightarrow> bytes \<Rightarrow> nat \<Rightarrow> bytes list res option" where
  "SplitString_ptr src sep sepLen = split_while (c_str src) (c_str sep) sepLen []"

definition SplitString :: "bytes \<Rightarrow> bytes \<Rightarrow> bytes list res option" where
  "SplitString src sep = SplitString_ptr src sep (length sep)"

text \<open>\<open>std::string::find_first_of(c, pos)\<close>; \<open>None\<close> is \<open>npos\<close>.\<close>

definition find_first_of :: "bytes \<Rightarrow> u8 \<Rightarrow> nat \<Rightarrow> nat option" where
  "find_first_of s c pos =
     (let k = length (takeWhile (\<lambda>x. x \<noteq> c) (drop pos s)) in
      if pos + k < length s then Some (pos + k) else None)"

lemma find_first_of_Some:
  "find_first_of s c pos = Some k \<Longrightarrow> pos \<le> k \<and> k < length s"
  by (auto simp: find_first_of_def Let_def split: if_splits)

function split_char_while :: "bytes \<Rightarrow> u8 \<Rightarrow> nat \<Rightarrow> bytes list \<Rightarrow> bytes list" where
  "split_char_while src sep prePos result =
     (case find_first_of src sep prePos of
        None \<Rightarrow> result @ [drop prePos src]
      | Some curPos \<Rightarrow> split_char_while src sep (curPos + 1) (result @ [window prePos (curPos - prePos) src]))"
  by pat_completeness auto

termination split_char_while
  by (relation "measure (\<lambda>(src, sep, prePos, result). length src - prePos)") (auto dest: find_first_of_Some)

declare split_char_while.simps [simp del]

definition SplitString_char :: "bytes \<Rightarrow> u8 \<Rightarrow> bytes list" where
  "SplitString_char src sep = split_char_while src sep 0 []"

section \<open>Trimming and case\<close>

text \<open>\<open>isspace\<close> of the C locale.\<close>

definition isspace :: "u8 \<Rightarrow> bool" where
  "isspace c = (c = 0x20 \<or> 0x09 \<le> c \<and> c \<le> 0x0d)"

definition TrimStringLeft :: "bytes \<Rightarrow> bytes" where
  "TrimStringLeft s = dropWhile isspace s"

definition TrimStringRight :: "bytes \<Rightarrow> bytes" where
  "TrimStringRight s = rev (dropWhile isspace (rev s))"

definition TrimString :: "bytes \<Rightarrow> bytes" where
  "TrimString s = TrimStringRight (TrimStringLeft s)"

definition ToUpper :: "bytes \<Rightarrow> bytes" where
  "ToUpper s = map c_toupper s"

definition ToUpperCopy :: "bytes \<Rightarrow> bytes" where
  "ToUpperCopy s = map c_toupper s"

definition ToLower :: "bytes \<Rightarrow> bytes" where
  "ToLower s = map c_tolower s"

definition ToLowerCopy :: "bytes \<Rightarrow> bytes" where
  "ToLowerCopy s = map c_tolower s"

section \<open>Joining\<close>

fun join :: "bytes \<Rightarrow> bytes list \<Rightarrow> bytes" where
  "join sep [] = []"
| "join sep [x] = x"
| "join sep (x # y # xs) = x @ sep @ join sep (y # xs)"

lemma join_Cons: "xs \<noteq> [] \<Longrightarrow> join sep (x # xs) = x @ sep @ join sep xs"
  by (cases xs) auto

lemma join_snoc: "xs \<noteq> [] \<Longrightarrow> join sep (xs @ [x]) = join sep xs @ sep @ x"
  by (induction sep xs rule: join.induct) auto

lemma strstr_Some:
  "strstr hay needle = Some k \<Longrightarrow> k + length needle \<le> length hay \<and> window k (length needle) hay = needle \<and>
     (\<forall>j < k. \<not> prefix needle (drop j hay))"
proof (induction hay arbitrary: k)
  case Nil
  then show ?case by (auto simp: strstr.simps window_def split: if_splits)
next
  case (Cons x hay)
  show ?case
  proof (cases "prefix needle (x # hay)")
    case True
    with Cons.prems have "k = 0" by (simp add: strstr.simps)
    with True show ?thesis using prefix_length_le [OF True] by (auto simp: window_def prefix_def)
  next
    case False
    with Cons.prems obtain k' where k': "strstr hay needle = Some k'" "k = Suc k'"
      by (auto simp: strstr.simps [of "x # hay"] split: if_splits)
    from Cons.IH [OF k'(1)] False k'(2) show ?thesis
      by (auto simp: window_def less_Suc_eq_0_disj)
  qed
qed

lemma strstr_None: "strstr hay needle = None \<longleftrightarrow> \<not> sublist needle hay"
proof (induction hay)
  case (Cons x hay)
  then show ?case by (auto simp: strstr.simps [of "x # hay"] sublist_Cons_right)
qed (auto simp: strstr.simps)

lemma sublist_drop: "sublist t (take k xs) \<Longrightarrow> t \<noteq> [] \<Longrightarrow> \<exists>j < k. prefix t (drop j xs)"
proof -
  assume "sublist t (take k xs)" and "t \<noteq> []"
  then obtain ps ss where d: "take k xs = ps @ t @ ss" by (auto simp: sublist_def)
  have "length ps < k"
  proof -
    have "length (ps @ t @ ss) \<le> k" unfolding d [symmetric] by simp
    with \<open>t \<noteq> []\<close> show ?thesis by (cases t) auto
  qed
  moreover have "xs = ps @ t @ ss @ drop k xs" using d by (metis append.assoc append_take_drop_id)
  then have "drop (length ps) xs = t @ ss @ drop k xs" by (metis append_eq_conv_conj)
  ultimately show ?thesis by (auto simp: prefix_def)
qed

lemma split_while_parts:
  "target \<noteq> [] \<Longrightarrow> \<exists>parts. split_while rest target (length target) acc = Some (Inr (acc @ parts)) \<and>
     parts \<noteq> [] \<and> join target parts = rest \<and> (\<forall>p \<in> set parts. \<not> sublist target p)"
proof (induction "length rest" arbitrary: rest acc rule: less_induct)
  case less
  show ?case
  proof (cases "strstr rest target")
    case None
    then have "split_while rest target (length target) acc = Some (Inr (acc @ [rest]))"
      by (subst split_while.simps) simp
    moreover have "\<not> sublist target rest" using None strstr_None by blast
    ultimately show ?thesis by (intro exI [of _ "[rest]"]) simp
  next
    case (Some k)
    note k = strstr_Some [OF Some]
    let ?rest = "drop (k + length target) rest"
    have "length ?rest < length rest" using less.prems k by (cases target) auto
    from less.hyps [OF this less.prems, of "acc @ [take k rest]"] obtain parts where
      parts: "split_while ?rest target (length target) (acc @ [take k rest]) = Some (Inr ((acc @ [take k rest]) @ parts))"
      "parts \<noteq> []" "join target parts = ?rest" "\<forall>p \<in> set parts. \<not> sublist target p" by blast
    have "rest = take k rest @ target @ ?rest"
      using k by (metis append_take_drop_id drop_drop add.commute window_def)
    moreover have "\<not> sublist target (take k rest)" using k less.prems sublist_drop by blast
    moreover have "split_while rest target (length target) acc = Some (Inr (acc @ take k rest # parts))"
      using Some k parts(1) by (subst split_while.simps) simp
    ultimately show ?thesis
      using parts by (intro exI [of _ "take k rest # parts"]) (simp add: join_Cons)
  qed
qed

lemma split_while_empty: "split_while rest [] 0 acc = None"
proof -
  have no: "\<not> (target = [] \<and> sepLen = 0)" if "split_while rest target sepLen acc = Some y" for rest target sepLen acc y
    using that
    by (rule split_while.raw_induct [where P = "\<lambda>rest target sepLen result y. \<not> (target = [] \<and> sepLen = 0)", rotated])
      (auto simp: strstr.simps split: option.splits if_splits)
  show ?thesis by (cases "split_while rest [] 0 acc") (use no in blast)+
qed

lemma c_str_id: "0 \<notin> set s \<Longrightarrow> c_str s = s"
  by (induction s) (auto simp: c_str_def)

lemma find_first_of_None: "find_first_of s c pos = None \<Longrightarrow> c \<notin> set (drop pos s)"
proof -
  assume "find_first_of s c pos = None"
  then have "length (takeWhile (\<lambda>x. x \<noteq> c) (drop pos s)) \<ge> length (drop pos s)"
    by (auto simp: find_first_of_def Let_def split: if_splits)
  then have "takeWhile (\<lambda>x. x \<noteq> c) (drop pos s) = drop pos s"
    using length_takeWhile_le [of "\<lambda>x. x \<noteq> c" "drop pos s"] by (metis le_antisym take_all_iff takeWhile_eq_take)
  then show ?thesis using set_takeWhileD by (metis (mono_tags, lifting))
qed

lemma find_first_of_split:
  assumes "find_first_of s c pos = Some k"
  shows "drop pos s = window pos (k - pos) s @ c # drop (k + 1) s" "c \<notin> set (window pos (k - pos) s)"
proof -
  define t where "t = takeWhile (\<lambda>x. x \<noteq> c) (drop pos s)"
  have k: "k = pos + length t" "k < length s"
    using assms by (auto simp: find_first_of_def Let_def t_def split: if_splits)
  have d: "drop pos s = t @ drop (length t) (drop pos s)"
    unfolding t_def by (metis takeWhile_dropWhile_id dropWhile_eq_drop)
  have "window pos (k - pos) s = take (length t) (drop pos s)" by (simp add: window_def k(1))
  also have "\<dots> = t" by (subst d) simp
  finally have w: "window pos (k - pos) s = t" .
  have "length t < length (drop pos s)" using k by simp
  then have "drop pos s ! length t = c"
    using nth_length_takeWhile [of "\<lambda>x. x \<noteq> c" "drop pos s"] unfolding t_def [symmetric] by simp
  then have "s ! k = c" using k by simp
  then have "drop k s = c # drop (k + 1) s" using k(2) by (simp add: Cons_nth_drop_Suc [symmetric])
  moreover have "drop (length t) (drop pos s) = drop k s" by (simp add: k(1) add.commute)
  ultimately show "drop pos s = window pos (k - pos) s @ c # drop (k + 1) s"
    unfolding w by (subst d) (simp only:)
  show "c \<notin> set (window pos (k - pos) s)" unfolding w t_def by (auto dest: set_takeWhileD)
qed

lemma split_char_parts:
  "prePos \<le> length src \<Longrightarrow> \<exists>parts. split_char_while src sep prePos result = result @ parts \<and> parts \<noteq> [] \<and>
     join [sep] parts = drop prePos src \<and> (\<forall>p \<in> set parts. sep \<notin> set p)"
proof (induction src sep prePos result rule: split_char_while.induct)
  case (1 src sep prePos result)
  show ?case
  proof (cases "find_first_of src sep prePos")
    case None
    then show ?thesis
      by (intro exI [of _ "[drop prePos src]"]) (simp add: split_char_while.simps find_first_of_None)
  next
    case (Some k)
    have "k + 1 \<le> length src" using find_first_of_Some [OF Some] by simp
    from "1.IH" [OF Some this] obtain parts where parts: "parts \<noteq> []" "join [sep] parts = drop (k + 1) src"
      "\<forall>p \<in> set parts. sep \<notin> set p"
      "split_char_while src sep (k + 1) (result @ [window prePos (k - prePos) src]) =
         (result @ [window prePos (k - prePos) src]) @ parts" by blast
    then show ?thesis
      using find_first_of_split [OF Some] Some
      by (intro exI [of _ "window prePos (k - prePos) src # parts"])
        (simp add: split_char_while.simps [of src sep prePos] join_Cons)
  qed
qed

lemma split_first: "a @ c # b = a' @ c # b' \<Longrightarrow> c \<notin> set a \<Longrightarrow> c \<notin> set a' \<Longrightarrow> a = a' \<and> b = b'"
proof (induction a arbitrary: a')
  case Nil
  then show ?case by (cases a') auto
next
  case (Cons x a)
  then show ?case by (cases a') auto
qed

text \<open>Splitting at a character is determined by what it must satisfy.\<close>

lemma join_char_unique:
  "xs \<noteq> [] \<Longrightarrow> ys \<noteq> [] \<Longrightarrow> (\<forall>p \<in> set xs. c \<notin> set p) \<Longrightarrow> (\<forall>p \<in> set ys. c \<notin> set p) \<Longrightarrow>
     join [c] xs = join [c] ys \<Longrightarrow> xs = ys"
proof (induction xs arbitrary: ys)
  case (Cons x xs)
  obtain y ys' where ys: "ys = y # ys'" using Cons.prems by (cases ys) auto
  show ?case
  proof (cases "xs = []"; cases "ys' = []")
    assume "xs \<noteq> []" "ys' \<noteq> []"
    then have "x @ c # join [c] xs = y @ c # join [c] ys'" using Cons.prems(5) ys by (simp add: join_Cons)
    then have "x = y" "join [c] xs = join [c] ys'" using split_first [of x c _ y] Cons.prems ys by auto
    then show ?thesis using Cons.IH [of ys'] Cons.prems ys \<open>xs \<noteq> []\<close> \<open>ys' \<noteq> []\<close> by auto
  qed (use Cons.prems ys in \<open>auto simp: join_Cons\<close>)
qed simp

text \<open>
  Splitting is the inverse of joining. \<open>SplitString\<close> with a non-empty separator terminates
  and yields at least one part; joining the parts with the separator gives the source back, and no
  part contains the separator. \<open>SplitString\<close> at a character does the same for every string, and
  returns exactly the parts that were joined.
\<close>

theorem SplitString_join:
  assumes "sep \<noteq> []" and "0 \<notin> set sep" and "0 \<notin> set src" and "ps \<noteq> []" and "\<forall>p \<in> set ps. c \<notin> set p"
  shows "(\<exists>parts. SplitString src sep = Some (Inr parts) \<and> parts \<noteq> [] \<and> join sep parts = src \<and>
            (\<forall>p \<in> set parts. \<not> sublist sep p)) \<and>
         join [c] (SplitString_char s c) = s \<and> (\<forall>p \<in> set (SplitString_char s c). c \<notin> set p) \<and>
         SplitString_char (join [c] ps) c = ps"
proof -
  have char: "SplitString_char t c \<noteq> [] \<and> join [c] (SplitString_char t c) = t \<and> (\<forall>p \<in> set (SplitString_char t c). c \<notin> set p)"
    for t using split_char_parts [of 0 t c "[]"] by (auto simp: SplitString_char_def)
  have "SplitString_char (join [c] ps) c = ps"
    using char [of "join [c] ps"] assms(4,5) by (intro join_char_unique [of _ _ c]) auto
  with char [of s] split_while_parts [OF assms(1), of src "[]"] assms(2,3) show ?thesis
    by (simp add: SplitString_def SplitString_ptr_def c_str_id)
qed

theorem SplitString_join_witness:
  "(\<exists>parts. SplitString (ascii ''a, b, c'') (ascii '', '') = Some (Inr parts) \<and> join (ascii '', '') parts = ascii ''a, b, c'') \<and>
   SplitString_char (join [44] [ascii ''x'', [], ascii ''yz'']) 44 = [ascii ''x'', [], ascii ''yz'']"
  using SplitString_join [of "ascii '', ''" "ascii ''a, b, c''" "[ascii ''x'', [], ascii ''yz'']" 44 "[]"]
  by (auto simp: ascii_def)

text \<open>
  An empty separator never returns. \<open>strstr\<close> finds the empty string at every position and
  \<open>prePos\<close> does not move, so \<open>SplitString\<close> loops forever for every source.
\<close>

theorem SplitString_empty_separator: "SplitString src [] = None"
  by (simp add: SplitString_def SplitString_ptr_def c_str_def split_while_empty)

lemma append_each_eq: "append_each f v s = s @ concat (map f v)"
  by (induction v arbitrary: s) auto

lemma close_list_spaced:
  assumes "\<And>x. x \<in> set v \<Longrightarrow> f x = g x @ [0x20]"
  shows "close_list (append_each f v (ascii ''['')) = [0x5b] @ join [0x20] (map g v) @ [0x5d]"
proof (cases v rule: rev_cases)
  case Nil
  then show ?thesis by (simp add: close_list_def ascii_def)
next
  case (snoc xs x)
  have "concat (map f xs) @ g x = join [0x20] (map g (xs @ [x]))" if "\<And>x. x \<in> set xs \<Longrightarrow> f x = g x @ [0x20]" for xs x
    using that by (induction xs) (auto simp: join_Cons)
  then have "[0x5b] @ concat (map f v) = ([0x5b] @ join [0x20] (map g v)) @ [0x20]"
    using assms snoc by simp
  then show ?thesis
    unfolding close_list_def append_each_eq ascii_def
    by (simp add: list_update_append)
qed

text \<open>
  Printed vectors and trimmed strings. A vector is printed as its elements separated by single
  blanks in brackets, the string versions quote each element. \<open>TrimString\<close> removes exactly the
  white space at the two ends: what remains neither begins nor ends with white space, and only
  white space has been cut off.
\<close>

theorem ToString_Trim_spec:
  "ToString to_string v = [0x5b] @ join [0x20] (map to_string v) @ [0x5d] \<and>
   ToString_string w = [0x5b] @ join [0x20] (map (\<lambda>x. [0x22] @ x @ [0x22]) w) @ [0x5d] \<and>
   ToString_cstr w = [0x5b] @ join [0x20] (map (\<lambda>x. [0x22] @ c_str x @ [0x22]) w) @ [0x5d] \<and>
   (\<exists>l r. s = l @ TrimString s @ r \<and> (\<forall>c \<in> set (l @ r). isspace c) \<and>
      (TrimString s \<noteq> [] \<longrightarrow> \<not> isspace (hd (TrimString s)) \<and> \<not> isspace (last (TrimString s))))"
proof -
  define l m where lm: "l = takeWhile isspace s" "m = dropWhile isspace s"
  define r t where rt: "r = rev (takeWhile isspace (rev m))" "t = rev (dropWhile isspace (rev m))"
  have "m = rev (rev m)" by simp
  also have "\<dots> = t @ r" unfolding rt by (metis rev_append takeWhile_dropWhile_id)
  finally have m: "m = t @ r" .
  have s: "s = l @ t @ r" using m lm by (metis takeWhile_dropWhile_id)
  have t: "TrimString s = t" by (simp add: TrimString_def TrimStringLeft_def TrimStringRight_def lm rt)
  have white: "\<forall>c \<in> set (l @ r). isspace c" by (auto simp: lm rt dest: set_takeWhileD)
  have "\<not> isspace (hd t) \<and> \<not> isspace (last t)" if "t \<noteq> []"
  proof
    have "hd m = hd t" using that m by simp
    then show "\<not> isspace (hd t)" using that m lm(2) hd_dropWhile [of isspace s] by auto
    have "last t = hd (dropWhile isspace (rev m))" using that by (simp add: rt(2) last_rev)
    then show "\<not> isspace (last t)" using that rt(2) hd_dropWhile [of isspace "rev m"] by auto
  qed
  with s t white have "\<exists>l r. s = l @ TrimString s @ r \<and> (\<forall>c \<in> set (l @ r). isspace c) \<and>
      (TrimString s \<noteq> [] \<longrightarrow> \<not> isspace (hd (TrimString s)) \<and> \<not> isspace (last (TrimString s)))" by metis
  moreover have "ToString to_string v = [0x5b] @ join [0x20] (map to_string v) @ [0x5d]"
    unfolding ToString_def by (rule close_list_spaced) (simp add: ascii_def)
  moreover have "ToString_string w = [0x5b] @ join [0x20] (map (\<lambda>x. [0x22] @ x @ [0x22]) w) @ [0x5d]"
    unfolding ToString_string_def by (rule close_list_spaced) (simp add: quoted_def)
  moreover have "ToString_cstr w = [0x5b] @ join [0x20] (map (\<lambda>x. [0x22] @ c_str x @ [0x22]) w) @ [0x5d]"
    unfolding ToString_cstr_def by (rule close_list_spaced) (simp add: quoted_def)
  ultimately show ?thesis by blast
qed

theorem ToString_Trim_spec_witness:
  "TrimString [0x20, 0x61, 0x20] \<noteq> [] \<and> \<not> isspace (hd (TrimString [0x20, 0x61, 0x20])) \<and>
   ToString_string [[0x61], [0x62]] = [0x5b, 0x22, 0x61, 0x22, 0x20, 0x22, 0x62, 0x22, 0x5d]"
proof -
  have "TrimString [0x20, 0x61, 0x20] = [0x61]" by code_simp
  with ToString_Trim_spec [of "\<lambda>_. []" "[]" "[[0x61], [0x62]]" "[0x20, 0x61, 0x20]"] show ?thesis by auto
qed

end
