(* ===== verification/Hash_Random.thy ===== *)
theory Hash_Random
  imports Prelude
begin

text \<open>
  Model of \<open>hash/hash.h\<close> (\<open>BKDRHash\<close> and the two \<open>R5Hash\<close>) and of \<open>random/random.h\<close>
  (\<open>RandomString\<close>, \<open>RandomBytes\<close>). A random engine is the caller's: a function that from its
  state returns a number and the next state.
\<close>

section \<open>Hash functions\<close>

fun BKDR_loop :: "bytes \<Rightarrow> u64 \<Rightarrow> u64" where
  "BKDR_loop [] val = val"
| "BKDR_loop (p # ps) val = BKDR_loop ps (val * 131 + ucast p)"

definition BKDRHash :: "bytes \<Rightarrow> nat \<Rightarrow> u64 res" where
  "BKDRHash data dataLen =
     (if dataLen > length data then Inl Out_Of_Bounds else Inr (BKDR_loop (take dataLen data) 0))"

text \<open>\<open>(c << 4) + (c >> 4)\<close> of a \<open>char\<close> that is promoted to \<open>int\<close>, as it is added to a \<open>uint32_t\<close>.\<close>

definition R5_mix :: "u32 \<Rightarrow> u8 \<Rightarrow> u32" where
  "R5_mix h c = h * 11 + word_of_int (push_bit 4 (sint c)) + word_of_int (drop_bit 4 (sint c))"

text \<open>\<open>R5Hash(const char* p)\<close>: the loop runs up to the terminating zero, which must be there.\<close>

fun R5_while :: "bytes \<Rightarrow> u32 \<Rightarrow> u32 res" where
  "R5_while [] h = Inl Out_Of_Bounds"
| "R5_while (c # p) h = (if c \<noteq> 0 then R5_while p (R5_mix h c) else Inr h)"

definition R5Hash_cstr :: "bytes \<Rightarrow> u32 res" where
  "R5Hash_cstr p = R5_while p 0"

fun R5_for :: "bytes \<Rightarrow> u32 \<Rightarrow> u32" where
  "R5_for [] h = h"
| "R5_for (c # s) h = R5_for s (R5_mix h c)"

definition R5Hash :: "bytes \<Rightarrow> u32" where
  "R5Hash s = R5_for s 0"

section \<open>Random strings\<close>

definition printableChars :: bytes where
  "printableChars = ascii ''0123456789ABCDEFGHIJKLMNOPQRSTUVWXYZabcdefghijklmnopqrstuvwxyz!'' @ [0x5c, 0x22] @
     ascii ''#$%&'' @ [0x27] @ ascii ''()*+,-./:;<=>?@['' @ [0x5c, 0x5c] @ ascii '']^_'' @ [0x60] @ ascii ''{|}~''"

fun random_for :: "(nat \<Rightarrow> u8) \<Rightarrow> ('s \<Rightarrow> nat \<times> 's) \<Rightarrow> nat \<Rightarrow> nat \<Rightarrow> bytes \<Rightarrow> 's \<Rightarrow> bytes \<times> 's" where
  "random_for pick engine 0 i s st = (s, st)"
| "random_for pick engine (Suc k) i s st =
     (let (x, st) = engine st in random_for pick engine k (Suc i) (s[i := pick x]) st)"

definition RandomString :: "nat \<Rightarrow> ('s \<Rightarrow> nat \<times> 's) \<Rightarrow> 's \<Rightarrow> bytes \<times> 's" where
  "RandomString len engine st =
     random_for (\<lambda>x. printableChars ! (x mod length printableChars)) engine len 0 (replicate len 0) st"

definition RandomBytes :: "nat \<Rightarrow> ('s \<Rightarrow> nat \<times> 's) \<Rightarrow> 's \<Rightarrow> bytes \<times> 's" where
  "RandomBytes len engine st = random_for (\<lambda>x. of_nat (x mod 256)) engine len 0 (replicate len 0) st"

section \<open>Properties\<close>

lemma BKDR_loop_append: "BKDR_loop (xs @ ys) val = BKDR_loop ys (BKDR_loop xs val)"
  by (induction xs arbitrary: val) auto

lemma BKDR_loop_start: "BKDR_loop xs val = val * 131 ^ length xs + BKDR_loop xs 0"
proof (induction xs arbitrary: val)
  case (Cons x xs)
  from Cons [of "val * 131 + ucast x"] Cons [of "ucast x"] show ?case by (simp add: algebra_simps)
qed simp

lemma R5_while_eq: "R5_while (s @ 0 # rest) h = Inr (R5_for s h)" if "0 \<notin> set s"
  using that by (induction s arbitrary: h) auto

text \<open>
  The hash functions. \<open>BKDRHash\<close> of a concatenation is the polynomial combination of the
  hashes of the pieces (the value of the bytes in base 131, modulo \<open>2\<^sup>6\<^sup>4\<close>), and it reads exactly
  \<open>dataLen\<close> bytes. The two \<open>R5Hash\<close> overloads agree on every C string; the pointer version
  needs the terminating zero and ignores what follows it.
\<close>

theorem hash_spec:
  assumes "0 \<notin> set s"
  shows "R5Hash_cstr (s @ 0 # rest) = Inr (R5Hash s) \<and> R5Hash_cstr s = Inl Out_Of_Bounds \<and>
         BKDRHash (xs @ ys @ zs) (length xs + length ys) =
           Inr (BKDR_loop xs 0 * 131 ^ length ys + BKDR_loop ys 0) \<and>
         (BKDRHash data n = Inl Out_Of_Bounds \<longleftrightarrow> length data < n)"
proof -
  have "R5_while s h = Inl Out_Of_Bounds" for h using assms by (induction s arbitrary: h) auto
  moreover have "BKDR_loop (xs @ ys) 0 = BKDR_loop xs 0 * 131 ^ length ys + BKDR_loop ys 0"
    unfolding BKDR_loop_append by (rule BKDR_loop_start)
  ultimately show ?thesis
    using assms by (auto simp: R5Hash_cstr_def R5Hash_def R5_while_eq BKDRHash_def)
qed

theorem hash_spec_witness:
  "R5Hash_cstr [0x61, 0x62, 0, 7] = Inr (R5Hash [0x61, 0x62]) \<and> BKDRHash [1, 2] (Suc (Suc 0)) = Inr 133"
  using hash_spec [of "[0x61, 0x62]" "[7]" "[1]" "[2]" "[]"] by simp

lemma random_for_eq:
  "i + k \<le> length s \<Longrightarrow> \<exists>xs. length xs = k \<and> fst (random_for pick engine k i s st) = splice_at i (map pick xs) s"
proof (induction k arbitrary: i s st)
  case (Suc k)
  obtain x st' where x: "engine st = (x, st')" by force
  obtain xs where "length xs = k"
    "fst (random_for pick engine k (Suc i) (s[i := pick x]) st') = splice_at (Suc i) (map pick xs) (s[i := pick x])"
    using Suc.IH [of "Suc i" "s[i := pick x]" st'] Suc.prems by auto
  with x Suc.prems show ?case
    by (intro exI [of _ "x # xs"]) (simp add: splice_at_Cons)
qed simp

text \<open>
  Random strings. For every engine, \<open>RandomString\<close> returns \<open>len\<close> characters that are all
  printable ASCII other than the blank, and \<open>RandomBytes\<close> returns \<open>len\<close> bytes.
\<close>

theorem RandomString_printable:
  "length (fst (RandomString len engine st)) = len \<and>
   (\<forall>c \<in> set (fst (RandomString len engine st)). 0x21 \<le> c \<and> c \<le> 0x7e) \<and>
   length (fst (RandomBytes len engine st)) = len"
proof -
  obtain xs where xs: "length xs = len" "fst (RandomString len engine st) =
      map (\<lambda>x. printableChars ! (x mod length printableChars)) xs"
    using random_for_eq [of 0 len "replicate len 0" "\<lambda>x. printableChars ! (x mod length printableChars)" engine st]
    by (auto simp: RandomString_def splice_at_def)
  obtain ys where ys: "length ys = len" "fst (RandomBytes len engine st) = map (\<lambda>x. of_nat (x mod 256)) ys"
    using random_for_eq [of 0 len "replicate len 0" "\<lambda>x. of_nat (x mod 256)" engine st]
    by (auto simp: RandomBytes_def splice_at_def)
  have "\<forall>c \<in> set printableChars. 0x21 \<le> c \<and> c \<le> 0x7e"
    by (simp add: printableChars_def ascii_def)
  moreover have "printableChars ! (x mod length printableChars) \<in> set printableChars" for x
    by (intro nth_mem mod_less_divisor) (simp add: printableChars_def)
  ultimately show ?thesis using xs ys by auto
qed

end
