(* ===== verification/Timer.thy ===== *)
theory Timer
  imports Prelude
begin

text \<open>
  Model of \<open>timer/timer.h\<close> (class \<open>TimerManager\<close>). The multimap \<open>timers_\<close> is the list of its
  entries in iteration order: ascending time, entries of equal time in the order of insertion. A
  callback may add timers while \<open>Update\<close> runs it; \<open>run c now\<close> is the list of \<open>AddTimer\<close> calls that
  callback \<open>c\<close> makes.
\<close>

type_synonym 'c timers = "(int \<times> 'c) list"

text \<open>\<open>std::multimap::emplace\<close> puts a new entry behind the entries that are not greater.\<close>

definition upper_bound :: "int \<Rightarrow> 'c timers \<Rightarrow> nat" where
  "upper_bound t ts = length (takeWhile (\<lambda>e. fst e \<le> t) ts)"

definition AddTimer :: "int \<Rightarrow> 'c \<Rightarrow> 'c timers \<Rightarrow> 'c timers" where
  "AddTimer expiringTimeMS cb ts =
     (let k = upper_bound expiringTimeMS ts in take k ts @ (expiringTimeMS, cb) # drop k ts)"

definition Clear :: "'c timers \<Rightarrow> 'c timers" where
  "Clear ts = []"

text \<open>
  A callback's \<open>AddTimer\<close> calls, while the loop's iterator stands at index \<open>i\<close>: an insertion
  before the iterator moves its index.
\<close>

fun add_calls :: "(int \<times> 'c) list \<Rightarrow> nat \<Rightarrow> 'c timers \<Rightarrow> nat \<times> 'c timers" where
  "add_calls [] i ts = (i, ts)"
| "add_calls ((t, c) # cs) i ts =
     add_calls cs (if upper_bound t ts \<le> i then Suc i else i) (AddTimer t c ts)"

text \<open>
  The loop of \<open>Update\<close>: \<open>i\<close> is the iterator, \<open>fired\<close> the callbacks run so far. A callback that
  keeps adding expired timers makes the loop run forever, which is the value \<open>None\<close>.
\<close>

partial_function (option) update_for ::
  "('c \<Rightarrow> int \<Rightarrow> (int \<times> 'c) list) \<Rightarrow> int \<Rightarrow> nat \<Rightarrow> 'c timers \<Rightarrow> 'c list \<Rightarrow> ('c timers \<times> 'c list) option" where
  "update_for run curTimeMS i ts fired =
     (if i < length ts
      then if fst (ts ! i) > curTimeMS then Some (ts, fired)
           else let (j, ts') = add_calls (run (snd (ts ! i)) curTimeMS) i ts
                in update_for run curTimeMS j (take j ts' @ drop (Suc j) ts') (fired @ [snd (ts ! i)])
      else Some (ts, fired))"

definition Update :: "('c \<Rightarrow> int \<Rightarrow> (int \<times> 'c) list) \<Rightarrow> int \<Rightarrow> 'c timers \<Rightarrow> ('c timers \<times> 'c list) option" where
  "Update run curTimeMS ts = update_for run curTimeMS 0 ts []"

section \<open>The multimap\<close>

definition timers_inv :: "'c timers \<Rightarrow> bool" where
  "timers_inv ts = sorted (map fst ts)"

lemma AddTimer_inv [inv_intros]: "timers_inv ts \<Longrightarrow> timers_inv (AddTimer t c ts)"
proof -
  assume s: "timers_inv ts"
  let ?k = "upper_bound t ts"
  have "\<forall>e \<in> set (take ?k ts). fst e \<le> t"
    by (auto simp: upper_bound_def takeWhile_eq_take [symmetric] dest: set_takeWhileD)
  moreover have "\<forall>e \<in> set (drop ?k ts). t \<le> fst e"
  proof (cases "?k < length ts")
    case True
    then have "\<not> fst (ts ! ?k) \<le> t" unfolding upper_bound_def by (rule nth_length_takeWhile)
    moreover have "fst (ts ! ?k) \<le> fst e" if "e \<in> set (drop ?k ts)" for e
      using that True s unfolding timers_inv_def
      by (auto simp: in_set_conv_nth sorted_iff_nth_mono)
    ultimately show ?thesis by fastforce
  qed simp
  moreover have "sorted (map fst (take ?k ts)) \<and> sorted (map fst (drop ?k ts)) \<and>
      (\<forall>x \<in> set (take ?k ts). \<forall>y \<in> set (drop ?k ts). fst x \<le> fst y)"
    using s sorted_append [of "map fst (take ?k ts)" "map fst (drop ?k ts)"]
    by (simp add: timers_inv_def flip: map_append)
  ultimately show ?thesis
    by (auto simp: timers_inv_def AddTimer_def Let_def sorted_append)
qed

text \<open>Adding later timers behind an expired prefix leaves that prefix and the iterator alone.\<close>

lemma AddTimer_prefix:
  assumes "\<forall>e \<in> set xs. fst e \<le> t"
  shows "upper_bound t (xs @ ys) = length xs + upper_bound t ys" "AddTimer t c (xs @ ys) = xs @ AddTimer t c ys"
  using assms by (simp_all add: upper_bound_def AddTimer_def Let_def takeWhile_append2)

lemma add_calls_later:
  assumes "\<forall>e \<in> set xs. fst e \<le> now" and "\<forall>e \<in> set cs. now < fst e" and "i < length xs"
  shows "add_calls cs i (xs @ ys) = (i, xs @ fold (\<lambda>e. AddTimer (fst e) (snd e)) cs ys)"
  using assms
proof (induction cs arbitrary: ys)
  case (Cons e cs)
  obtain t c where e: "e = (t, c)" by force
  have "\<forall>e \<in> set xs. fst e \<le> t" using Cons.prems e by fastforce
  with Cons e show ?case by (simp add: AddTimer_prefix)
qed simp

lemma fold_AddTimer_later:
  "\<forall>e \<in> set (cs @ ys). now < fst e \<Longrightarrow> \<forall>e \<in> set (fold (\<lambda>e. AddTimer (fst e) (snd e)) cs ys). now < fst e"
proof (induction cs arbitrary: ys)
  case (Cons e cs)
  have "\<forall>x \<in> set (AddTimer (fst e) (snd e) ys). now < fst x"
    using Cons.prems by (auto simp: AddTimer_def Let_def dest: in_set_takeD in_set_dropD)
  then show ?case using Cons.IH [of "AddTimer (fst e) (snd e) ys"] Cons.prems by auto
qed simp

lemma fold_AddTimer_inv: "timers_inv ys \<Longrightarrow> timers_inv (fold (\<lambda>e. AddTimer (fst e) (snd e)) cs ys)"
  by (induction cs arbitrary: ys) (auto intro: inv_intros)

lemma update_for_eq:
  assumes "\<forall>e \<in> set xs. fst e \<le> now" and "\<forall>e \<in> set ys. now < fst e"
    and "\<forall>e \<in> set xs. \<forall>a \<in> set (run (snd e) now). now < fst a"
  shows "update_for run now 0 (xs @ ys) fired =
    Some (fold (\<lambda>e. AddTimer (fst e) (snd e)) (concat (map (\<lambda>e. run (snd e) now) xs)) ys, fired @ map snd xs)"
  using assms
proof (induction xs arbitrary: ys fired)
  case Nil
  then show ?case by (cases ys) (simp_all add: update_for.simps)
next
  case (Cons x xs)
  let ?ys = "fold (\<lambda>e. AddTimer (fst e) (snd e)) (run (snd x) now) ys"
  have a: "add_calls (run (snd x) now) 0 ((x # xs) @ ys) = (0, (x # xs) @ ?ys)"
    using Cons.prems by (intro add_calls_later [of _ now]) auto
  have "\<forall>e \<in> set ?ys. now < fst e" using Cons.prems by (intro fold_AddTimer_later) auto
  with Cons have "update_for run now 0 (xs @ ?ys) (fired @ [snd x]) =
      Some (fold (\<lambda>e. AddTimer (fst e) (snd e)) (concat (map (\<lambda>e. run (snd e) now) xs)) ?ys, (fired @ [snd x]) @ map snd xs)"
    by simp
  moreover have "update_for run now 0 ((x # xs) @ ys) fired = update_for run now 0 (xs @ ?ys) (fired @ [snd x])"
    using Cons.prems a by (subst update_for.simps) simp
  ultimately show ?case by simp
qed

lemma expired_prefix:
  "timers_inv ts \<Longrightarrow> ts = filter (\<lambda>e. fst e \<le> now) ts @ filter (\<lambda>e. now < fst e) ts"
proof (induction ts)
  case (Cons e ts)
  show ?case
  proof (cases "fst e \<le> now")
    case False
    then have "\<forall>x \<in> set ts. now < fst x" using Cons.prems by (force simp: timers_inv_def)
    then have "filter (\<lambda>e. fst e \<le> now) ts = []" "filter (\<lambda>e. now < fst e) ts = ts"
      by (auto simp: filter_empty_conv)
    with False show ?thesis by simp
  qed (use Cons in \<open>auto simp: timers_inv_def\<close>)
qed simp

lemma self_adding_never_ends:
  assumes "t \<le> now" shows "update_for (\<lambda>c now. [(now, c)]) now 0 [(t, c)] fired = None"
proof -
  have no: "\<not> (run = (\<lambda>c now. [(now, c)]) \<and> i = 0 \<and> (\<exists>t c. t \<le> now \<and> ts = [(t, c)]))"
    if "update_for run now i ts fired = Some y" for run now i ts fired and y :: "'a timers \<times> 'a list"
    using that
    by (rule update_for.raw_induct [where P = "\<lambda>run now i ts fired y. \<not> (run = (\<lambda>c now. [(now, c)]) \<and> i = 0 \<and> (\<exists>t c. t \<le> now \<and> ts = [(t, c)]))", rotated])
      (auto simp: upper_bound_def AddTimer_def Let_def split: if_splits prod.splits, blast)
  show ?thesis
    using assms no by (cases "update_for (\<lambda>c now. [(now, c)]) now 0 [(t, c)] fired") blast+
qed

text \<open>
  C38: \<open>Update\<close> fires the expired timers. When the callbacks add only timers that are not yet due,
  \<open>Update\<close> returns, has run exactly the callbacks of the timers with a time not after the current
  one, once each, in the order of their times and of insertion among equal times; what remains
  are the other timers plus the ones the callbacks added, again in order. A callback that adds
  itself again at a time already reached makes \<open>Update\<close> run forever.
\<close>

theorem Update_fires_expired:
  assumes "timers_inv ts" and "\<And>e a. e \<in> set ts \<Longrightarrow> a \<in> set (run (snd e) now) \<Longrightarrow> now < fst a" and "t \<le> now"
  shows "\<exists>rest. Update run now ts = Some (rest, map snd (filter (\<lambda>e. fst e \<le> now) ts)) \<and> timers_inv rest \<and>
     rest = fold (\<lambda>e. AddTimer (fst e) (snd e)) (concat (map (\<lambda>e. run (snd e) now) (filter (\<lambda>e. fst e \<le> now) ts)))
              (filter (\<lambda>e. now < fst e) ts) \<and>
     Update (\<lambda>c now. [(now, c)]) now [(t, c)] = None"
proof -
  let ?xs = "filter (\<lambda>e. fst e \<le> now) ts" and ?ys = "filter (\<lambda>e. now < fst e) ts"
  have "update_for run now 0 (?xs @ ?ys) [] =
      Some (fold (\<lambda>e. AddTimer (fst e) (snd e)) (concat (map (\<lambda>e. run (snd e) now) ?xs)) ?ys, [] @ map snd ?xs)"
    using assms(2) by (intro update_for_eq) auto
  moreover have "timers_inv ?ys" using assms(1) by (simp add: timers_inv_def sorted_filter)
  then have "timers_inv (fold (\<lambda>e. AddTimer (fst e) (snd e)) (concat (map (\<lambda>e. run (snd e) now) ?xs)) ?ys)"
    by (rule fold_AddTimer_inv)
  moreover have "update_for run now 0 ts [] = update_for run now 0 (?xs @ ?ys) []"
    using expired_prefix [OF assms(1), of now] by simp
  ultimately show ?thesis
    using self_adding_never_ends [OF assms(3), of c "[]"] by (simp add: Update_def)
qed

theorem Update_fires_expired_witness:
  "\<exists>rest. Update (\<lambda>c now. []) 10 [(3, ''a''), (9, ''b''), (11, ''c'')] = Some (rest, [''a'', ''b'']) \<and> rest = [(11, ''c'')]"
  using Update_fires_expired [of "[(3, ''a''), (9, ''b''), (11, ''c'')]" "\<lambda>c now. []" 10 5 "''x''"]
  by (simp add: timers_inv_def)

end
