(* ===== verification/Shm_Queue.thy ===== *)
theory Shm_Queue
  imports Endian
begin

text \<open>
  Model of \<open>interprocess/containers/shm_circular_buf_queue.h\<close> and its \<open>.cpp\<close>. The shared
  segment is the header \<open>ShmCQ\<close> (a record) and the bytes of the whole segment, of which the first
  \<open>sizeof(ShmCQ)\<close> belong to the header; blocks are written into those bytes with the host's byte
  order \<open>h\<close>. Each operation is one step: the polling loops see the positions they find at their
  start; \<open>Shm_Concurrent\<close> has the steps inside of a call. Calls of the operating system are parameters.
\<close>

abbreviation "sizeof_ShmCQ \<equiv> 80 :: u32"
abbreviation "sizeof_ShmBlock \<equiv> 4 :: u32"

definition kShmNameSz :: nat where "kShmNameSz = 64"
definition kShmCircularQueueMaxSz :: u32 where "kShmCircularQueueMaxSz = 2000000000"

record ShmCQ =
  Head :: u32
  Tail :: u32
  ShmSize :: u32
  ElemMaxSize :: u32
  Name :: bytes
  area :: bytes

text \<open>The object: \<open>cq_\<close>, and whether the memory it points to is still mapped.\<close>

record shm_obj =
  cq :: "ShmCQ option"
  mapped :: bool

definition ShmCircularBufQueue :: shm_obj where
  "ShmCircularBufQueue = \<lparr>cq = None, mapped = False\<rparr>"

definition Empty :: "ShmCQ \<Rightarrow> bool" where
  "Empty q \<longleftrightarrow> Head q = Tail q"

text \<open>\<open>Len\<close> of the block at an offset, and writing it.\<close>

definition block_len :: "Endian \<Rightarrow> ShmCQ \<Rightarrow> u32 \<Rightarrow> u32 res" where
  "block_len h q pos =
     (if unat pos + 4 \<le> length (area q) then Inr (obj_word h (window (unat pos) 4 (area q))) else Inl Out_Of_Bounds)"

definition set_block_len :: "Endian \<Rightarrow> ShmCQ \<Rightarrow> u32 \<Rightarrow> u32 \<Rightarrow> ShmCQ res" where
  "set_block_len h q pos v =
     (if unat pos + 4 \<le> length (area q)
      then Inr (q\<lparr>area := splice_at (unat pos) (obj_bytes h 4 v) (area q)\<rparr>) else Inl Out_Of_Bounds)"

fun push_poll :: "nat \<Rightarrow> ShmCQ \<Rightarrow> u32 \<Rightarrow> u32 \<Rightarrow> bool" where
  "push_poll 0 q tail len = False"
| "push_poll (Suc cnt) q tail len =
     (let head = Head q in
      if head \<le> tail \<or> head \<ge> tail + len + ElemMaxSize q then True else push_poll cnt q tail len)"

definition pushWait :: "ShmCQ \<Rightarrow> u32 \<Rightarrow> bool" where
  "pushWait q len = push_poll 10 q (Tail q) len"

fun align_poll :: "nat \<Rightarrow> ShmCQ \<Rightarrow> u32 \<Rightarrow> bool" where
  "align_poll 0 q tail = False"
| "align_poll (Suc cnt) q tail =
     (let head = Head q in
      if head > sizeof_ShmCQ \<and> head \<le> tail then True else align_poll cnt q tail)"

definition tailAlignWait :: "ShmCQ \<Rightarrow> bool" where
  "tailAlignWait q = align_poll 10 q (Tail q)"

definition alignHead :: "Endian \<Rightarrow> ShmCQ \<Rightarrow> ShmCQ res" where
  "alignHead h q =
     (if Head q < Tail q then Inr q
      else if ShmSize q - Head q < sizeof_ShmBlock then Inr (q\<lparr>Head := sizeof_ShmCQ\<rparr>)
      else bind_res (block_len h q (Head q)) (\<lambda>len.
             Inr (if len = 0xFFFFFFFF then q\<lparr>Head := sizeof_ShmCQ\<rparr> else q)))"

definition alignTail :: "Endian \<Rightarrow> ShmCQ \<Rightarrow> u32 \<Rightarrow> (bool \<times> ShmCQ) res" where
  "alignTail h q len =
     (let surplus = ShmSize q - Tail q in
      if surplus \<ge> len then Inr (pushWait q len, q)
      else if tailAlignWait q then
        bind_res (if surplus \<ge> sizeof_ShmBlock then set_block_len h q (Tail q) 0xFFFFFFFF else Inr q) (\<lambda>q.
          let q = q\<lparr>Tail := sizeof_ShmCQ\<rparr> in Inr (pushWait q len, q))
      else Inr (False, q))"

text \<open>\<open>Pop\<close> returns the length and, for a non-zero length, the offset that \<open>*data\<close> points to.\<close>

definition Pop :: "Endian \<Rightarrow> ShmCQ \<Rightarrow> (u32 \<times> nat \<times> ShmCQ) res" where
  "Pop h q =
     (if Empty q then Inr (0, 0, q)
      else bind_res (alignHead h q) (\<lambda>q.
        if Empty q then Inr (0, 0, q)
        else bind_res (block_len h q (Head q)) (\<lambda>len.
          if \<not> len \<le> ElemMaxSize q then Inl Assert_Failed
          else Inr (len - sizeof_ShmBlock, unat (Head q) + 4, q\<lparr>Head := Head q + len\<rparr>))))"

text \<open>\<open>data\<close> is the list of the \<open>len\<close> bytes at the pointer.\<close>

definition Push :: "Endian \<Rightarrow> bytes \<Rightarrow> ShmCQ \<Rightarrow> (bool \<times> ShmCQ) res" where
  "Push h data q =
     (let len = of_nat (length data) :: u32 in
      if \<not> (len > 0 \<and> len \<le> ElemMaxSize q - sizeof_ShmBlock) then Inl Assert_Failed
      else let elemLen = len + sizeof_ShmBlock in
        bind_res (alignTail h q elemLen) (\<lambda>(ok, q).
          if ok then
            bind_res (set_block_len h q (Tail q) elemLen) (\<lambda>q.
              if unat (Tail q) + 4 + length data \<le> length (area q)
              then Inr (True, q\<lparr>area := splice_at (unat (Tail q) + 4) data (area q), Tail := Tail q + elemLen\<rparr>)
              else Inl Out_Of_Bounds)
          else Inr (False, q)))"

text \<open>
  \<open>Create\<close>, \<open>Attach\<close>, \<open>Detach\<close> and \<open>Destroy\<close>: each system call is given by its result;
  \<open>mmap\<close> yields the bytes of the new mapping, or \<open>None\<close> for \<open>MAP_FAILED\<close>.
\<close>

definition Create :: "bool \<Rightarrow> bool \<Rightarrow> (u32 \<Rightarrow> bytes option) \<Rightarrow> bytes \<Rightarrow> u32 \<Rightarrow> u32 \<Rightarrow> shm_obj \<Rightarrow> (bool \<times> shm_obj) res" where
  "Create shm_open_ok ftruncate_ok mmap name cqSize dataMaxSz ob =
     (if \<not> (cqSize < kShmCircularQueueMaxSz \<and> unat cqSize \<ge> unat dataMaxSz + 4) then Inl Assert_Failed
      else if length name \<ge> kShmNameSz then Inr (False, ob)
      else let size = cqSize + sizeof_ShmCQ in
        if \<not> shm_open_ok then Inr (False, ob)
        else if \<not> ftruncate_ok then Inr (False, ob)
        else case mmap size of
               None \<Rightarrow> Inr (False, ob)
             | Some bs \<Rightarrow>
                 Inr (True, \<lparr>cq = Some \<lparr>Head = sizeof_ShmCQ, Tail = sizeof_ShmCQ, ShmSize = size,
                                      ElemMaxSize = dataMaxSz + sizeof_ShmBlock, Name = name, area = bs\<rparr>,
                             mapped = True\<rparr>))"

text \<open>\<open>seg\<close> is the segment of that name that \<open>shm_open\<close> finds, \<open>None\<close> if it fails.\<close>

definition Attach :: "ShmCQ option \<Rightarrow> bool \<Rightarrow> bool \<Rightarrow> shm_obj \<Rightarrow> bool \<times> shm_obj" where
  "Attach seg mmap_ok mmap2_ok ob =
     (case seg of
        None \<Rightarrow> (False, ob)
      | Some q \<Rightarrow> if \<not> mmap_ok \<or> \<not> mmap2_ok then (False, ob) else (True, \<lparr>cq = Some q, mapped = True\<rparr>))"

text \<open>\<open>Detach\<close> reads \<open>cq_->ShmSize\<close> and leaves \<open>cq_\<close> as it is.\<close>

definition Detach :: "bool \<Rightarrow> shm_obj \<Rightarrow> (bool \<times> shm_obj) res" where
  "Detach munmap_ok ob =
     (case cq ob of
        None \<Rightarrow> Inr (True, ob)
      | Some q \<Rightarrow> if \<not> mapped ob then Inl Null_Deref
                  else Inr (munmap_ok, if munmap_ok then ob\<lparr>mapped := False\<rparr> else ob))"

definition Destroy :: "bool \<Rightarrow> bool \<Rightarrow> shm_obj \<Rightarrow> (bool \<times> shm_obj) res" where
  "Destroy shm_unlink_ok munmap_ok ob =
     (case cq ob of
        None \<Rightarrow> Inl Null_Deref
      | Some q \<Rightarrow> if \<not> mapped ob then Inl Null_Deref
                  else if shm_unlink_ok then Detach munmap_ok ob else Inr (False, ob))"

text \<open>\<open>~ShmCircularBufQueue()\<close>\<close>

definition destructor :: "bool \<Rightarrow> shm_obj \<Rightarrow> unit res" where
  "destructor munmap_ok ob = bind_res (Detach munmap_ok ob) (\<lambda>_. Inr ())"

section \<open>Blocks in the segment\<close>

text \<open>At offset \<open>p\<close> lies the block of the element \<open>d\<close>.\<close>

definition block_at :: "Endian \<Rightarrow> bytes \<Rightarrow> nat \<Rightarrow> bytes \<Rightarrow> bool" where
  "block_at h bs p d \<longleftrightarrow> p + 4 + length d \<le> length bs \<and>
     window p 4 bs = obj_bytes h 4 (of_nat (length d + 4) :: u32) \<and> window (p + 4) (length d) bs = d"

text \<open>From offset \<open>p\<close> to offset \<open>e\<close> lie the blocks of the elements \<open>ds\<close>, each within \<open>m\<close> bytes.\<close>

fun chain :: "Endian \<Rightarrow> nat \<Rightarrow> bytes \<Rightarrow> nat \<Rightarrow> bytes list \<Rightarrow> nat \<Rightarrow> bool" where
  "chain h m bs p [] e \<longleftrightarrow> p = e \<and> p \<le> length bs"
| "chain h m bs p (d # ds) e \<longleftrightarrow>
     d \<noteq> [] \<and> length d + 4 \<le> m \<and> block_at h bs p d \<and> chain h m bs (p + 4 + length d) ds e"

lemma block_at_frame:
  assumes "block_at h bs p d" and "length bs' = length bs"
    and "\<And>i. p \<le> i \<Longrightarrow> i < p + 4 + length d \<Longrightarrow> bs' ! i = bs ! i"
  shows "block_at h bs' p d"
proof -
  have "window p 4 bs' = window p 4 bs" "window (p + 4) (length d) bs' = window (p + 4) (length d) bs"
    by (rule window_cong; use assms in \<open>auto simp: block_at_def\<close>)+
  with assms show ?thesis by (simp add: block_at_def)
qed

lemma chain_bounds: "chain h m bs p ds e \<Longrightarrow> p \<le> e \<and> e \<le> length bs \<and> (p = e \<longleftrightarrow> ds = [])"
proof (induction ds arbitrary: p)
  case (Cons d ds)
  then have "p + 4 + length d \<le> e \<and> e \<le> length bs" using Cons.IH [of "p + 4 + length d"] by auto
  then show ?case by simp
qed auto

lemma chain_frame:
  "chain h m bs p ds e \<Longrightarrow> length bs' = length bs \<Longrightarrow> (\<And>i. p \<le> i \<Longrightarrow> i < e \<Longrightarrow> bs' ! i = bs ! i) \<Longrightarrow>
     chain h m bs' p ds e"
proof (induction ds arbitrary: p)
  case (Cons d ds)
  have e: "p + 4 + length d \<le> e" using chain_bounds [of h m bs "p + 4 + length d" ds e] Cons.prems(1) by simp
  have "block_at h bs' p d"
    by (rule block_at_frame [of h bs]) (use Cons.prems e in auto)
  moreover have "chain h m bs' (p + 4 + length d) ds e"
    by (rule Cons.IH) (use Cons.prems in auto)
  ultimately show ?case using Cons.prems(1) by simp
qed auto

lemma chain_snoc:
  assumes "chain h m bs p ds e" and "d \<noteq> []" and "length d + 4 \<le> m" and "block_at h bs e d"
  shows "chain h m bs p (ds @ [d]) (e + 4 + length d)"
  using assms(1)
proof (induction ds arbitrary: p)
  case Nil
  then show ?case using assms(2,3,4) by (simp add: block_at_def)
qed simp

section \<open>What a segment represents\<close>

definition sizes_ok :: "ShmCQ \<Rightarrow> bool" where
  "sizes_ok q \<longleftrightarrow> length (area q) = unat (ShmSize q) \<and> 80 + unat (ElemMaxSize q) \<le> unat (ShmSize q) \<and>
     unat (ShmSize q) < 2000000080 \<and> 4 \<le> unat (ElemMaxSize q)"

definition padded :: "Endian \<Rightarrow> bytes \<Rightarrow> nat \<Rightarrow> bool" where
  "padded h bs p \<longleftrightarrow> p \<le> length bs \<and> (length bs < p + 4 \<or> window p 4 bs = obj_bytes h 4 (0xFFFFFFFF :: u32))"

text \<open>
  The elements of a queue, oldest first. Either the head is not behind the tail and the blocks lie
  between them, or the producer has wrapped around: blocks from the head to a padding mark, then
  blocks from the start of the area to the tail.
\<close>

definition rep :: "Endian \<Rightarrow> ShmCQ \<Rightarrow> bytes list \<Rightarrow> bool" where
  "rep h q ds \<longleftrightarrow> sizes_ok q \<and> 80 \<le> unat (Head q) \<and> 80 \<le> unat (Tail q) \<and>
     (if unat (Head q) \<le> unat (Tail q)
      then chain h (unat (ElemMaxSize q)) (area q) (unat (Head q)) ds (unat (Tail q))
      else \<exists>d1 d2 p. ds = d1 @ d2 \<and> chain h (unat (ElemMaxSize q)) (area q) (unat (Head q)) d1 p \<and> padded h (area q) p \<and>
             chain h (unat (ElemMaxSize q)) (area q) 80 d2 (unat (Tail q)))"

lemma rep_straightI:
  "sizes_ok q \<Longrightarrow> 80 \<le> unat (Head q) \<Longrightarrow> unat (Head q) \<le> unat (Tail q) \<Longrightarrow>
     chain h (unat (ElemMaxSize q)) (area q) (unat (Head q)) ds (unat (Tail q)) \<Longrightarrow> rep h q ds"
  by (simp add: rep_def)

lemma rep_wrappedI:
  "sizes_ok q \<Longrightarrow> 80 \<le> unat (Tail q) \<Longrightarrow> unat (Tail q) < unat (Head q) \<Longrightarrow>
     chain h (unat (ElemMaxSize q)) (area q) (unat (Head q)) d1 p \<Longrightarrow> padded h (area q) p \<Longrightarrow>
     chain h (unat (ElemMaxSize q)) (area q) 80 d2 (unat (Tail q)) \<Longrightarrow> ds = d1 @ d2 \<Longrightarrow> rep h q ds"
  unfolding rep_def by auto

lemma rep_sizes: "rep h q ds \<Longrightarrow> sizes_ok q \<and> 80 \<le> unat (Head q) \<and> 80 \<le> unat (Tail q)"
  by (simp add: rep_def)

lemma rep_straightD:
  "rep h q ds \<Longrightarrow> unat (Head q) \<le> unat (Tail q) \<Longrightarrow>
     chain h (unat (ElemMaxSize q)) (area q) (unat (Head q)) ds (unat (Tail q))"
  by (simp add: rep_def)

lemma rep_wrappedE:
  assumes "rep h q ds" and "unat (Tail q) < unat (Head q)"
  obtains d1 d2 p where "ds = d1 @ d2" "chain h (unat (ElemMaxSize q)) (area q) (unat (Head q)) d1 p"
    "padded h (area q) p" "chain h (unat (ElemMaxSize q)) (area q) 80 d2 (unat (Tail q))"
  using assms by (auto simp: rep_def)

lemma sizes_ok_update: "sizes_ok q \<Longrightarrow> length a = length (area q) \<Longrightarrow> sizes_ok (q\<lparr>area := a, Tail := t\<rparr>)"
  "sizes_ok q \<Longrightarrow> sizes_ok (q\<lparr>Head := t\<rparr>)"
  by (simp_all add: sizes_ok_def)

lemma push_poll_eq: "push_poll n q tail len \<longleftrightarrow> 0 < n \<and> (Head q \<le> tail \<or> Head q \<ge> tail + len + ElemMaxSize q)"
  by (induction n) (auto simp: Let_def)

lemma align_poll_eq: "align_poll n q tail \<longleftrightarrow> 0 < n \<and> Head q > sizeof_ShmCQ \<and> Head q \<le> tail"
  by (induction n) (auto simp: Let_def)

lemma rep_bounds:
  assumes "rep h q ds"
  shows "unat (Head q) \<le> length (area q)" "unat (Tail q) \<le> length (area q)" "length (area q) = unat (ShmSize q)"
    "unat (ShmSize q) < 2000000080" "80 + unat (ElemMaxSize q) \<le> unat (ShmSize q)" "4 \<le> unat (ElemMaxSize q)"
  using assms by (auto simp: rep_def sizes_ok_def split: if_splits dest!: chain_bounds)

text \<open>The comparison of \<open>pushWait\<close> does not overflow, because a queue is smaller than 2 * 10^9 bytes.\<close>

lemma pushWait_eq:
  assumes "rep h q ds" and "unat (Tail q) + unat len \<le> unat (ShmSize q)"
  shows "pushWait q len \<longleftrightarrow> unat (Head q) \<le> unat (Tail q) \<or>
    unat (Tail q) + unat len + unat (ElemMaxSize q) \<le> unat (Head q)"
proof -
  note b = rep_bounds [OF assms(1)]
  have "unat (Tail q + len) = unat (Tail q) + unat len" using assms(2) b by (intro unat_plus_small) simp
  then have "unat (Tail q + len + ElemMaxSize q) = unat (Tail q) + unat len + unat (ElemMaxSize q)"
    using assms(2) b by (subst unat_plus_small) simp_all
  then show ?thesis by (simp add: pushWait_def push_poll_eq word_le_nat_alt)
qed

text \<open>Writing one block at the tail.\<close>

lemma write_block:
  assumes "rep h q ds" and "d \<noteq> []" and "length d + 4 \<le> unat (ElemMaxSize q)"
    and "unat (Tail q) + 4 + length d \<le> unat (ShmSize q)"
    and "unat (Head q) \<le> unat (Tail q) \<or> unat (Tail q) + 4 + length d + unat (ElemMaxSize q) \<le> unat (Head q)"
  defines "a \<equiv> splice_at (unat (Tail q) + 4) d (splice_at (unat (Tail q)) (obj_bytes h 4 (of_nat (length d + 4) :: u32)) (area q))"
  defines "q' \<equiv> q\<lparr>area := a, Tail := Tail q + of_nat (length d + 4)\<rparr>"
  shows "rep h q' (ds @ [d]) \<and> length a = length (area q) \<and>
    (\<forall>i < length (area q). i < unat (Tail q) \<or> unat (Tail q) + 4 + length d \<le> i \<longrightarrow> a ! i = area q ! i)"
proof -
  note b = rep_bounds [OF assms(1)]
  have la: "length a = length (area q)" using assms(4) b by (simp add: a_def)
  have frame: "a ! i = area q ! i" if "i < length (area q)" "i < unat (Tail q) \<or> unat (Tail q) + 4 + length d \<le> i" for i
    using that assms(4) b by (auto simp: a_def nth_splice_at)
  have w: "block_at h a (unat (Tail q)) d"
    using assms(4) b unfolding block_at_def a_def by (simp add: window_splice_disjoint)
  have t: "unat (Tail q + of_nat (length d + 4)) = unat (Tail q) + 4 + length d"
    using assms(4) b by (subst unat_plus_of_nat_small) simp_all
  let ?m = "unat (ElemMaxSize q)"
  have snoc: "chain h ?m a p (xs @ [d]) (unat (Tail q) + 4 + length d)"
    if "chain h ?m (area q) p xs (unat (Tail q))" for p xs
  proof -
    have "chain h ?m a p xs (unat (Tail q))"
      using that la by (rule chain_frame) (use frame b in auto)
    then show ?thesis using assms(2,3) w by (rule chain_snoc)
  qed
  note base = rep_sizes [OF assms(1)]
  have ok: "sizes_ok q'" unfolding q'_def using base la by (intro sizes_ok_update) auto
  have q': "Head q' = Head q" "unat (Tail q') = unat (Tail q) + 4 + length d" "area q' = a" "ElemMaxSize q' = ElemMaxSize q"
    using t by (simp_all add: q'_def)
  have "rep h q' (ds @ [d])"
  proof (cases "unat (Head q) \<le> unat (Tail q)")
    case True
    from snoc [OF rep_straightD [OF assms(1) True]] ok base True show ?thesis
      by (intro rep_straightI) (simp_all only: q')
  next
    case False
    then have "unat (Tail q) < unat (Head q)" by simp
    with assms(1) obtain d1 d2 p where r: "ds = d1 @ d2" "chain h ?m (area q) (unat (Head q)) d1 p" "padded h (area q) p"
      "chain h ?m (area q) 80 d2 (unat (Tail q))" by (rule rep_wrappedE)
    have far: "unat (Tail q) + 4 + length d + ?m \<le> unat (Head q)" using assms(5) False by auto
    note cb = chain_bounds [OF r(2)]
    have 1: "chain h ?m a (unat (Head q)) d1 p" using r(2) la by (rule chain_frame) (use frame far cb in auto)
    have 2: "padded h a p"
    proof (cases "length a < p + 4")
      case False
      then have "window p 4 a = window p 4 (area q)" using la frame far cb by (intro window_cong) auto
      then show ?thesis using r(3) la by (simp add: padded_def)
    qed (use r(3) la in \<open>simp add: padded_def\<close>)
    have lt: "unat (Tail q) + 4 + length d < unat (Head q)" using far b by simp
    show ?thesis
      using ok base 1 2 snoc [OF r(4)] r(1) lt by (intro rep_wrappedI [of q' h d1 p "d2 @ [d]"]) (simp_all add: q')
  qed
  with la frame show ?thesis by blast
qed

text \<open>Marking the end and moving the tail to the front.\<close>

lemma wrap_tail:
  assumes "rep h q ds" and "80 < unat (Head q)" and "unat (Head q) \<le> unat (Tail q)"
  defines "a \<equiv> (if 4 \<le> length (area q) - unat (Tail q)
                 then splice_at (unat (Tail q)) (obj_bytes h 4 (0xFFFFFFFF :: u32)) (area q) else area q)"
  shows "rep h (q\<lparr>area := a, Tail := sizeof_ShmCQ\<rparr>) ds \<and> length a = length (area q) \<and>
    (\<forall>i < unat (Tail q). a ! i = area q ! i)"
proof -
  note b = rep_bounds [OF assms(1)] and base = rep_sizes [OF assms(1)]
  have la: "length a = length (area q)" using b by (simp add: a_def)
  have frame: "a ! i = area q ! i" if "i < unat (Tail q)" for i
    using that b by (simp add: a_def nth_splice_at)
  have "chain h (unat (ElemMaxSize q)) a (unat (Head q)) ds (unat (Tail q))"
    using rep_straightD [OF assms(1,3)] la by (rule chain_frame) (rule frame)
  moreover have "padded h a (unat (Tail q))" using b by (auto simp: padded_def a_def)
  moreover have "sizes_ok (q\<lparr>area := a, Tail := sizeof_ShmCQ\<rparr>)" using base la by (intro sizes_ok_update) auto
  moreover have "80 \<le> length (area q)" using b by simp
  ultimately have "rep h (q\<lparr>area := a, Tail := sizeof_ShmCQ\<rparr>) ds"
    using assms(2) la by (intro rep_wrappedI [of _ h ds "unat (Tail q)" "[]"]) simp_all
  with la frame show ?thesis by blast
qed

text \<open>The bytes of the element that was popped last, which a consumer may still be reading.\<close>

definition keeps_popped :: "ShmCQ \<Rightarrow> ShmCQ \<Rightarrow> bool" where
  "keeps_popped q q' \<longleftrightarrow> Head q' = Head q \<and> ElemMaxSize q' = ElemMaxSize q \<and> length (area q') = length (area q) \<and>
     (\<forall>i. unat (Head q) - unat (ElemMaxSize q) \<le> i \<and> i < unat (Head q) \<and> 80 \<le> i \<longrightarrow> area q' ! i = area q ! i)"

definition element :: "ShmCQ \<Rightarrow> bytes \<Rightarrow> bool" where
  "element q d \<longleftrightarrow> d \<noteq> [] \<and> length d + 4 \<le> unat (ElemMaxSize q)"

lemma alignTail_spec:
  assumes "rep h q ds" and "element q d"
  defines "e \<equiv> of_nat (length d + 4) :: u32"
  shows "\<exists>ok q1. alignTail h q e = Inr (ok, q1) \<and> rep h q1 ds \<and> keeps_popped q q1 \<and>
    (ok \<longrightarrow> unat (Tail q1) + 4 + length d \<le> unat (ShmSize q1) \<and>
       (unat (Head q1) \<le> unat (Tail q1) \<or> unat (Tail q1) + 4 + length d + unat (ElemMaxSize q1) \<le> unat (Head q1)))"
proof -
  note b = rep_bounds [OF assms(1)] and base = rep_sizes [OF assms(1)]
  have e: "unat e = length d + 4"
    unfolding e_def using assms(2) b by (intro unat_of_nat_small) (simp add: element_def)
  have s: "unat (ShmSize q - Tail q) = unat (ShmSize q) - unat (Tail q)"
    using b by (intro unat_minus_small) (simp add: word_le_nat_alt)
  have refl: "keeps_popped q q" by (simp add: keeps_popped_def)
  show ?thesis
  proof (cases "e \<le> ShmSize q - Tail q")
    case True
    then have fit: "unat (Tail q) + unat e \<le> unat (ShmSize q)" using b s by (simp add: word_le_nat_alt)
    moreover have "alignTail h q e = Inr (pushWait q e, q)" using True by (simp add: alignTail_def)
    ultimately show ?thesis
      using assms(1) refl e pushWait_eq [OF assms(1) fit]
      by (intro exI [of _ "pushWait q e"] exI [of _ q]) simp
  next
    case no_room: False
    show ?thesis
    proof (cases "tailAlignWait q")
      case False
      then show ?thesis using no_room assms(1) refl
        by (intro exI [of _ False] exI [of _ q]) (simp add: alignTail_def)
    next
      case True
      then have pos: "80 < unat (Head q)" "unat (Head q) \<le> unat (Tail q)"
        by (simp_all add: tailAlignWait_def align_poll_eq word_less_nat_alt word_le_nat_alt)
      define a where "a = (if 4 \<le> length (area q) - unat (Tail q)
        then splice_at (unat (Tail q)) (obj_bytes h 4 (0xFFFFFFFF :: u32)) (area q) else area q)"
      let ?q = "q\<lparr>area := a, Tail := sizeof_ShmCQ\<rparr>"
      note w = wrap_tail [OF assms(1) pos, folded a_def]
      have fit: "unat (Tail ?q) + unat e \<le> unat (ShmSize ?q)" using assms(2) e b by (simp add: element_def)
      have "alignTail h q e = Inr (pushWait ?q e, ?q)"
        using no_room True b s
        by (auto simp: alignTail_def Let_def set_block_len_def a_def word_le_nat_alt)
      moreover have "keeps_popped q ?q" using w pos by (auto simp: keeps_popped_def)
      ultimately show ?thesis
        using w fit e pushWait_eq [OF conjunct1 [OF w] fit]
        by (intro exI [of _ "pushWait ?q e"] exI [of _ ?q]) simp
    qed
  qed
qed

lemma Push_spec:
  assumes "rep h q ds" and "element q d"
  shows "\<exists>ok q'. Push h d q = Inr (ok, q') \<and> rep h q' (if ok then ds @ [d] else ds) \<and> keeps_popped q q'"
proof -
  note b = rep_bounds [OF assms(1)]
  let ?n = "of_nat (length d) :: u32"
  have n: "unat ?n = length d" using assms(2) b by (intro unat_of_nat_small) (simp add: element_def)
  have guard: "?n > 0 \<and> ?n \<le> ElemMaxSize q - sizeof_ShmBlock"
  proof
    show "?n > 0" using n assms(2) by (simp add: word_less_nat_alt element_def)
    have "unat (ElemMaxSize q - sizeof_ShmBlock) = unat (ElemMaxSize q) - 4"
      using b by (subst unat_minus_small) (simp_all add: word_le_nat_alt)
    then show "?n \<le> ElemMaxSize q - sizeof_ShmBlock" using n assms(2) by (auto simp: word_le_nat_alt element_def)
  qed
  have e: "?n + sizeof_ShmBlock = of_nat (length d + 4)" by simp
  obtain ok q1 where a: "alignTail h q (of_nat (length d + 4)) = Inr (ok, q1)" "rep h q1 ds" "keeps_popped q q1"
    "ok \<Longrightarrow> unat (Tail q1) + 4 + length d \<le> unat (ShmSize q1) \<and>
       (unat (Head q1) \<le> unat (Tail q1) \<or> unat (Tail q1) + 4 + length d + unat (ElemMaxSize q1) \<le> unat (Head q1))"
    using alignTail_spec [OF assms] by blast
  note b1 = rep_bounds [OF a(2)]
  show ?thesis
  proof (cases ok)
    case False
    with a guard show ?thesis unfolding Push_def Let_def e
      by (intro exI [of _ False] exI [of _ q1]) simp
  next
    case True
    note a4 = a(4) [OF True]
    have el: "d \<noteq> []" "length d + 4 \<le> unat (ElemMaxSize q1)" using assms(2) a(3) by (auto simp: element_def keeps_popped_def)
    define m where "m = splice_at (unat (Tail q1) + 4) d (splice_at (unat (Tail q1)) (obj_bytes h 4 (of_nat (length d + 4) :: u32)) (area q1))"
    define q' where "q' = q1\<lparr>area := m, Tail := Tail q1 + of_nat (length d + 4)\<rparr>"
    note w = write_block [OF a(2) el conjunct1 [OF a4] conjunct2 [OF a4], folded m_def, folded q'_def]
    have "Push h d q = Inr (True, q')"
      using True a(1) guard a4 b1 unfolding Push_def Let_def e
      by (simp add: set_block_len_def m_def q'_def del: of_nat_add)
    moreover have "keeps_popped q1 q'"
      using w a4 b1 el by (auto simp: keeps_popped_def q'_def)
    then have "keeps_popped q q'" using a(3) by (auto simp: keeps_popped_def)
    ultimately show ?thesis using w by auto
  qed
qed

lemma block_len_eq:
  assumes "block_at h (area q) (unat pos) d" and "length d + 4 < 2 ^ 32"
  shows "block_len h q pos = Inr (of_nat (length d + 4))"
proof -
  have "obj_word h (obj_bytes h 4 (of_nat (length d + 4) :: u32)) = (of_nat (length d + 4) :: u32)"
    by (simp add: wire_simps)
  then show ?thesis using assms(1) by (simp add: block_len_def block_at_def)
qed

text \<open>Taking the block at the head, once the head is aligned.\<close>

lemma pop_head:
  assumes "sizes_ok q" and "element q d" and "block_at h (area q) (unat (Head q)) d" and "Head q \<noteq> Tail q"
    and "Head q < Tail q \<or> unat (ShmSize q) - unat (Head q) \<ge> 4"
  shows "Pop h q = Inr (of_nat (length d), unat (Head q) + 4, q\<lparr>Head := Head q + of_nat (length d + 4)\<rparr>)"
proof -
  have b: "length d + 4 \<le> unat (ElemMaxSize q)" "unat (ElemMaxSize q) < 2000000080" "unat (Head q) \<le> unat (ShmSize q)"
    using assms(1,2,3) by (auto simp: sizes_ok_def element_def block_at_def)
  then have l: "block_len h q (Head q) = Inr (of_nat (length d + 4))" using assms(3) by (intro block_len_eq) auto
  have u: "unat (of_nat (length d + 4) :: u32) = length d + 4" using b by (intro unat_of_nat_small) simp
  have "of_nat (length d + 4) \<noteq> (0xFFFFFFFF :: u32)"
  proof
    assume "of_nat (length d + 4) = (0xFFFFFFFF :: u32)"
    then have "length d + 4 = unat (0xFFFFFFFF :: u32)" using u by metis
    also have "\<dots> = 4294967295" by (simp add: unsigned_minus_1_eq_mask mask_eq_exp_minus_1)
    finally show False using b by simp
  qed
  moreover have "unat (ShmSize q - Head q) = unat (ShmSize q) - unat (Head q)"
    using b by (intro unat_minus_small) (simp add: word_le_nat_alt)
  ultimately have "alignHead h q = Inr q"
    using l assms(5) by (auto simp: alignHead_def word_less_nat_alt)
  moreover have "of_nat (length d + 4) \<le> ElemMaxSize q" using u b by (simp add: word_le_nat_alt)
  ultimately show ?thesis using l assms(4) by (simp add: Pop_def Empty_def)
qed

lemma advance_head:
  assumes "sizes_ok q" and "block_at h (area q) (unat (Head q)) d"
  shows "unat (Head q + of_nat (length d + 4)) = unat (Head q) + 4 + length d"
  using assms by (subst unat_plus_of_nat_small) (auto simp: sizes_ok_def block_at_def)

lemma Pop_Cons_straight:
  assumes "rep h q (d # ds)" and "unat (Head q) \<le> unat (Tail q)"
  shows "\<exists>q'. Pop h q = Inr (of_nat (length d), unat (Head q) + 4, q') \<and> rep h q' ds \<and> area q' = area q \<and>
    unat (Head q') = unat (Head q) + 4 + length d \<and> ElemMaxSize q' = ElemMaxSize q \<and>
    block_at h (area q) (unat (Head q)) d"
proof -
  note base = rep_sizes [OF assms(1)]
  have c: "block_at h (area q) (unat (Head q)) d" "element q d"
    "chain h (unat (ElemMaxSize q)) (area q) (unat (Head q) + 4 + length d) ds (unat (Tail q))"
    using rep_straightD [OF assms] by (auto simp: element_def)
  note cb = chain_bounds [OF c(3)] and adv = advance_head [OF conjunct1 [OF base] c(1)]
  have lt: "unat (Head q) < unat (Tail q)" using cb by simp
  then have "Head q < Tail q" "Head q \<noteq> Tail q" by (auto simp: word_less_nat_alt)
  then have "Pop h q = Inr (of_nat (length d), unat (Head q) + 4, q\<lparr>Head := Head q + of_nat (length d + 4)\<rparr>)"
    using base c(1,2) by (intro pop_head) auto
  moreover have "rep h (q\<lparr>Head := Head q + of_nat (length d + 4)\<rparr>) ds"
    using base c(3) adv cb by (intro rep_straightI sizes_ok_update) (simp_all del: of_nat_add)
  ultimately show ?thesis using adv c(1) by simp
qed

lemma alignHead_pad:
  assumes "sizes_ok q" and "Tail q < Head q" and "padded h (area q) (unat (Head q))"
  shows "alignHead h q = Inr (q\<lparr>Head := sizeof_ShmCQ\<rparr>)"
proof -
  have b: "length (area q) = unat (ShmSize q)" "unat (Head q) \<le> unat (ShmSize q)"
    using assms(1,3) by (auto simp: sizes_ok_def padded_def)
  have "unat (ShmSize q - Head q) = unat (ShmSize q) - unat (Head q)"
    using b by (intro unat_minus_small) (simp add: word_le_nat_alt)
  moreover have "obj_word h (obj_bytes h 4 (0xFFFFFFFF :: u32)) = (0xFFFFFFFF :: u32)" by (simp add: wire_simps)
  ultimately show ?thesis
    using assms(2,3) b by (auto simp: alignHead_def padded_def block_len_def word_less_nat_alt)
qed

text \<open>The head at the padding mark: the queue is the straight one from the start of the area.\<close>

lemma Pop_at_pad:
  assumes "rep h q ds" and "unat (Tail q) < unat (Head q)" and "padded h (area q) (unat (Head q))"
    and "chain h (unat (ElemMaxSize q)) (area q) 80 ds (unat (Tail q))"
  defines "q0 \<equiv> q\<lparr>Head := sizeof_ShmCQ\<rparr>"
  shows "Pop h q = Pop h q0 \<and> rep h q0 ds \<and> unat (Head q0) \<le> unat (Tail q0)"
proof -
  note base = rep_sizes [OF assms(1)]
  have lt: "Tail q < Head q" using assms(2) by (simp add: word_less_nat_alt)
  have al: "alignHead h q = Inr q0" unfolding q0_def using base lt assms(3) by (intro alignHead_pad) auto
  have r: "rep h q0 ds" using base assms(4) by (intro rep_straightI) (auto simp: q0_def sizes_ok_update)
  have "alignHead h q0 = Inr q0" if "\<not> Empty q0"
  proof -
    have "unat (Head q0) \<noteq> unat (Tail q0)" using that unsigned_word_eqI unfolding Empty_def by blast
    moreover have "unat (Head q0) \<le> unat (Tail q0)" using base by (simp add: q0_def)
    ultimately show ?thesis by (simp add: alignHead_def word_less_nat_alt)
  qed
  moreover have "\<not> Empty q" using lt by (auto simp: Empty_def)
  ultimately have "Pop h q = Pop h q0" using al by (auto simp: Pop_def)
  with r base show ?thesis by (simp add: q0_def)
qed

lemma Pop_Nil:
  assumes "rep h q []"
  shows "\<exists>q'. Pop h q = Inr (0, 0, q') \<and> rep h q' [] \<and> ElemMaxSize q' = ElemMaxSize q"
proof (cases "unat (Head q) \<le> unat (Tail q)")
  case True
  from rep_straightD [OF assms True] have "unat (Head q) = unat (Tail q)" by simp
  then have "Head q = Tail q" by (rule unsigned_word_eqI)
  with assms show ?thesis by (simp add: Pop_def Empty_def)
next
  case False
  then have lt: "unat (Tail q) < unat (Head q)" by simp
  with assms obtain p where p: "chain h (unat (ElemMaxSize q)) (area q) (unat (Head q)) [] p" "padded h (area q) p"
    "chain h (unat (ElemMaxSize q)) (area q) 80 [] (unat (Tail q))" by (auto elim: rep_wrappedE)
  then have pad: "padded h (area q) (unat (Head q))" by simp
  note P = Pop_at_pad [OF assms lt pad p(3)]
  have "Tail q = 80" using p(3) by (intro unsigned_word_eqI [where ?'a = nat]) simp
  then have "Pop h (q\<lparr>Head := sizeof_ShmCQ\<rparr>) = Inr (0, 0, q\<lparr>Head := sizeof_ShmCQ\<rparr>)"
    by (simp add: Pop_def Empty_def)
  with P show ?thesis by simp
qed

lemma Pop_Cons:
  assumes "rep h q (d # ds)"
  shows "\<exists>off q'. Pop h q = Inr (of_nat (length d), off, q') \<and> rep h q' ds \<and> area q' = area q \<and>
    off + length d = unat (Head q') \<and> window off (length d) (area q') = d \<and> 84 \<le> off \<and>
    ElemMaxSize q' = ElemMaxSize q \<and> element q d"
proof (cases "unat (Head q) \<le> unat (Tail q)")
  case True
  have "element q d" using rep_straightD [OF assms True] by (simp add: element_def)
  with Pop_Cons_straight [OF assms True] rep_sizes [OF assms] show ?thesis by (auto simp: block_at_def)
next
  case False
  note base = rep_sizes [OF assms]
  from False have lt: "unat (Tail q) < unat (Head q)" by simp
  with assms obtain d1 d2 p where r: "d # ds = d1 @ d2" "chain h (unat (ElemMaxSize q)) (area q) (unat (Head q)) d1 p"
    "padded h (area q) p" "chain h (unat (ElemMaxSize q)) (area q) 80 d2 (unat (Tail q))" by (rule rep_wrappedE)
  show ?thesis
  proof (cases d1)
    case Nil
    let ?q = "q\<lparr>Head := sizeof_ShmCQ\<rparr>"
    have pad: "padded h (area q) (unat (Head q))" using r(2,3) Nil by simp
    have c: "chain h (unat (ElemMaxSize q)) (area q) 80 (d # ds) (unat (Tail q))" using r(1,4) Nil by simp
    note P = Pop_at_pad [OF assms lt pad c]
    have "element q d" using c by (simp add: element_def)
    with P Pop_Cons_straight [of h ?q d ds] show ?thesis by (auto simp: block_at_def)
  next
    case (Cons x d1')
    then have x: "x = d" "ds = d1' @ d2" using r(1) by auto
    have c: "block_at h (area q) (unat (Head q)) d" "element q d"
      "chain h (unat (ElemMaxSize q)) (area q) (unat (Head q) + 4 + length d) d1' p"
      using r(2) Cons x by (auto simp: element_def)
    note adv = advance_head [OF conjunct1 [OF base] c(1)]
    let ?q = "q\<lparr>Head := Head q + of_nat (length d + 4)\<rparr>"
    have "4 \<le> unat (ShmSize q) - unat (Head q)" using c(1) base by (auto simp: block_at_def sizes_ok_def)
    then have "Pop h q = Inr (of_nat (length d), unat (Head q) + 4, ?q)"
      using base c(1,2) lt by (intro pop_head) auto
    moreover have "rep h ?q ds"
      using base c(3) r(3,4) x(2) lt adv
      by (intro rep_wrappedI [of ?q h d1' p d2] sizes_ok_update) (simp_all del: of_nat_add)
    ultimately show ?thesis using c adv base by (auto simp: block_at_def simp del: of_nat_add)
  qed
qed

section \<open>The queue is FIFO\<close>

text \<open>A consumer that looks at the data before it pops again.\<close>

definition pop_data :: "Endian \<Rightarrow> ShmCQ \<Rightarrow> (bytes option \<times> ShmCQ) res" where
  "pop_data h q =
     bind_res (Pop h q) (\<lambda>(len, off, q). Inr (if len = 0 then None else Some (window off (unat len) (area q)), q))"

lemma element_cong: "ElemMaxSize q' = ElemMaxSize q \<Longrightarrow> element q' = element q"
  by (simp add: element_def fun_eq_iff)

lemma shm_push_law:
  assumes "rep h s q" and "element s d"
  shows "\<exists>ok s'. Push h d s = Inr (ok, s') \<and> rep h s' (if ok then q @ [d] else q) \<and> element s' = element s"
proof -
  from Push_spec [OF assms]
  obtain ok s' where p: "Push h d s = Inr (ok, s')" "rep h s' (if ok then q @ [d] else q)" "keeps_popped s s'"
    by blast
  then have "element s' = element s" by (intro element_cong) (simp add: keeps_popped_def)
  with p(1,2) show ?thesis by blast
qed

lemma shm_pop_Nil_law:
  assumes "rep h s []"
  shows "\<exists>s'. pop_data h s = Inr (None, s') \<and> rep h s' [] \<and> element s' = element s"
proof -
  from Pop_Nil [OF assms] obtain s' where p: "Pop h s = Inr (0, 0, s')" "rep h s' []" "ElemMaxSize s' = ElemMaxSize s"
    by blast
  have "pop_data h s = Inr (None, s')" using p(1) by (simp add: pop_data_def)
  with p(2) element_cong [OF p(3)] show ?thesis by blast
qed

lemma shm_pop_Cons_law:
  assumes r: "rep h s (d # q)"
  shows "\<exists>s'. pop_data h s = Inr (Some d, s') \<and> rep h s' q \<and> element s' = element s"
proof -
  from Pop_Cons [OF r]
  obtain off s' where p: "Pop h s = Inr (of_nat (length d), off, s')" "rep h s' q" "window off (length d) (area s') = d"
    "ElemMaxSize s' = ElemMaxSize s" "element s d"
    by blast
  have u: "unat (of_nat (length d) :: u32) = length d"
    using p(5) rep_bounds [OF r] by (intro unat_of_nat_small) (simp add: element_def)
  have "0 < length d" using p(5) by (simp add: element_def)
  then have "of_nat (length d) \<noteq> (0 :: u32)" using u by (metis unsigned_0 less_irrefl)
  then have "pop_data h s = Inr (Some d, s')" using p(1,3) u by (simp add: pop_data_def)
  with p(2) element_cong [OF p(4)] show ?thesis by blast
qed

interpretation shm: fifo "rep h" element "Push h" "pop_data h" for h
  by unfold_locales (fact shm_push_law shm_pop_Nil_law shm_pop_Cons_law)+

lemma Create_rep:
  assumes "cqSize < kShmCircularQueueMaxSz" and "unat dataMaxSz + 4 \<le> unat cqSize" and "length name < kShmNameSz"
    and "mmap (cqSize + 80) = Some bs" and "length bs = unat (cqSize + 80)"
  shows "\<exists>q. Create True True mmap name cqSize dataMaxSz ob = Inr (True, \<lparr>cq = Some q, mapped = True\<rparr>) \<and> rep h q [] \<and>
    unat (ElemMaxSize q) = unat dataMaxSz + 4 \<and> Head q = 80 \<and> Tail q = 80 \<and> unat (ShmSize q) = unat cqSize + 80"
proof -
  have c: "unat cqSize < 2000000000" using assms(1) by (simp add: word_less_nat_alt kShmCircularQueueMaxSz_def)
  then have u: "unat (cqSize + 80) = unat cqSize + 80" by (subst unat_plus_small) simp_all
  have e: "unat (dataMaxSz + 4) = unat dataMaxSz + 4" using assms(2) c by (subst unat_plus_small) simp_all
  let ?q = "\<lparr>Head = 80, Tail = 80, ShmSize = cqSize + 80, ElemMaxSize = dataMaxSz + 4, Name = name, area = bs\<rparr>"
  have "sizes_ok ?q" using c u e assms(2,5) by (simp add: sizes_ok_def)
  moreover have "80 \<le> length bs" using assms(5) u by simp
  ultimately have "rep h ?q []" by (intro rep_straightI) simp_all
  moreover have "Create True True mmap name cqSize dataMaxSz ob = Inr (True, \<lparr>cq = Some ?q, mapped = True\<rparr>)"
    using assms by (simp add: Create_def)
  ultimately show ?thesis using e u by (intro exI [of _ ?q]) simp
qed

lemma Push_accepts:
  assumes "rep h q ds" and "element q d" and "unat (Head q) \<le> unat (Tail q)"
    and "unat (Tail q) + 4 + length d \<le> unat (ShmSize q)"
  shows "\<exists>q'. Push h d q = Inr (True, q') \<and> rep h q' (ds @ [d])"
proof -
  note b = rep_bounds [OF assms(1)]
  from Push_spec [OF assms(1,2)] obtain ok q' where
    p: "Push h d q = Inr (ok, q')" "rep h q' (if ok then ds @ [d] else ds)" by blast
  let ?e = "of_nat (length d) + sizeof_ShmBlock"
  have "?e = of_nat (length d + 4)" by simp
  then have e: "unat ?e = length d + 4" using unat_of_nat_small [of "length d + 4", where ?'a = 32] assms(4) b(4) by simp
  have "unat (ShmSize q - Tail q) = unat (ShmSize q) - unat (Tail q)"
    using b by (intro unat_minus_small) (simp add: word_le_nat_alt)
  then have "ShmSize q - Tail q \<ge> ?e" using e assms(4) b by (simp add: word_le_nat_alt)
  moreover have "pushWait q ?e" using pushWait_eq [OF assms(1), of ?e] e assms(3,4) by simp
  ultimately have "alignTail h q ?e = Inr (True, q)" by (simp add: alignTail_def Let_def)
  then have "\<not> Push h d q = Inr (False, q')"
    unfolding Push_def Let_def set_block_len_def by simp
  then have "ok" using p(1) by (cases ok) auto
  with p show ?thesis by simp
qed



text \<open>A producer that goes on inserting; refused elements are dropped.\<close>

fun push_all :: "Endian \<Rightarrow> bytes list \<Rightarrow> ShmCQ \<Rightarrow> ShmCQ res" where
  "push_all h [] q = Inr q"
| "push_all h (d # ds) q = bind_res (Push h d q) (\<lambda>(_, q). push_all h ds q)"

lemma keeps_popped_trans: "keeps_popped q q1 \<Longrightarrow> keeps_popped q1 q2 \<Longrightarrow> keeps_popped q q2"
  by (auto simp: keeps_popped_def)

lemma push_all_keeps:
  assumes "rep h q ds" and "\<forall>e \<in> set es. element q e"
  shows "\<exists>q' ds'. push_all h es q = Inr q' \<and> rep h q' (ds @ ds') \<and> keeps_popped q q'"
  using assms
proof (induction es arbitrary: q ds)
  case Nil
  then show ?case by (intro exI [of _ q] exI [of _ "[]"]) (simp add: keeps_popped_def)
next
  case (Cons e es)
  from Push_spec [OF Cons.prems(1), of e] Cons.prems(2) obtain ok q1 where
    p: "Push h e q = Inr (ok, q1)" "rep h q1 (ds @ (if ok then [e] else []))" "keeps_popped q q1"
    by (auto split: if_splits)
  have "\<forall>e \<in> set es. element q1 e" using Cons.prems(2) p(3) element_cong [of q1 q] by (simp add: keeps_popped_def)
  from Cons.IH [OF p(2) this] obtain q' ds' where
    r: "push_all h es q1 = Inr q'" "rep h q' ((ds @ (if ok then [e] else [])) @ ds')" "keeps_popped q1 q'" by blast
  have "push_all h (e # es) q = Inr q'" using p(1) r(1) by simp
  moreover have "rep h q' (ds @ ((if ok then [e] else []) @ ds'))" using r(2) by simp
  ultimately show ?case using keeps_popped_trans [OF p(3) r(3)] by blast
qed

text \<open>
  The data that \<open>Pop\<close> hands out stay in place. The returned length and offset name exactly the
  oldest element, inside the area behind the header, and later insertions, as many as may follow
  before the next \<open>Pop\<close>, leave those bytes unchanged and add their elements behind the others.
\<close>

theorem popped_data_stable:
  assumes "rep h q (d # ds)" and "\<forall>e \<in> set es. element q e"
  shows "\<exists>len off q1 q2 ds'. Pop h q = Inr (len, off, q1) \<and> unat len = length d \<and> 84 \<le> off \<and>
    push_all h es q1 = Inr q2 \<and> rep h q2 (ds @ ds') \<and> window off (unat len) (area q2) = d"
proof -
  from Pop_Cons [OF assms(1)] obtain off q1 where
    p: "Pop h q = Inr (of_nat (length d), off, q1)" "rep h q1 ds" "off + length d = unat (Head q1)"
      "window off (length d) (area q1) = d" "84 \<le> off" "ElemMaxSize q1 = ElemMaxSize q" "element q d" by blast
  from push_all_keeps [OF p(2), of es] assms(2) element_cong [OF p(6)] obtain q2 ds' where
    r: "push_all h es q1 = Inr q2" "rep h q2 (ds @ ds')" "keeps_popped q1 q2" by auto
  have u: "unat (of_nat (length d) :: u32) = length d"
    using p(7) rep_bounds [OF assms(1)] by (intro unat_of_nat_small) (simp add: element_def)
  have "length d + 4 \<le> unat (ElemMaxSize q1)" using p(6,7) by (simp add: element_def)
  then have "window off (length d) (area q2) = window off (length d) (area q1)"
    using r(3) p(3,5) rep_bounds(1) [OF p(2)] by (intro window_cong) (auto simp: keeps_popped_def)
  with p(1,4,5) r(1,2) u show ?thesis by (intro exI conjI) auto
qed

theorem popped_data_stable_witness:
  "\<exists>q. rep LittleEndian q [[1, 2], [3]] \<and>
    (\<exists>len off q1 q2 ds'. Pop LittleEndian q = Inr (len, off, q1) \<and> unat len = length [1 :: u8, 2] \<and> 84 \<le> off \<and>
      push_all LittleEndian [[7], [8, 9]] q1 = Inr q2 \<and> rep LittleEndian q2 ([[3]] @ ds') \<and> window off (unat len) (area q2) = [1, 2])"
proof -
  let ?a = "replicate 80 0 @ [6, 0, 0, 0, 1, 2, 5, 0, 0, 0, 3] @ replicate 40 0 :: u8 list"
  let ?q = "\<lparr>Head = 80, Tail = 91, ShmSize = 131, ElemMaxSize = 12, Name = [], area = ?a\<rparr>"
  have "rep LittleEndian ?q [[1, 2], [3]]"
    by (intro rep_straightI) (simp_all add: sizes_ok_def block_at_def window_def wire_simps, code_simp)
  moreover have "\<forall>e \<in> set [[7], [8, 9]]. element ?q e" by (simp add: element_def)
  ultimately show ?thesis using popped_data_stable [of LittleEndian ?q "[1, 2]" "[[3]]" "[[7], [8, 9]]"] by blast
qed

text \<open>
  \<open>Detach\<close> unmaps the segment but leaves \<open>cq_\<close> set. After a successful \<open>Destroy\<close> or \<open>Detach\<close>
  the destructor, which detaches again, reads \<open>cq_->ShmSize\<close> from memory that is gone.
\<close>

theorem detached_destructor_faults:
  assumes "cq ob = Some q" and "mapped ob"
  shows "\<exists>ob'. Destroy True True ob = Inr (True, ob') \<and> Detach True ob = Inr (True, ob') \<and>
    destructor m ob' = Inl Null_Deref"
  using assms by (auto simp: Destroy_def Detach_def destructor_def)

theorem detached_destructor_faults_witness:
  "\<exists>q ob'. Create True True (\<lambda>n. Some (replicate (unat n) 0)) [113] 64 8 ShmCircularBufQueue =
      Inr (True, \<lparr>cq = Some q, mapped = True\<rparr>) \<and>
    Destroy True True \<lparr>cq = Some q, mapped = True\<rparr> = Inr (True, ob') \<and> destructor True ob' = Inl Null_Deref"
proof -
  from Create_rep [of 64 8 "[113]" "\<lambda>n. Some (replicate (unat n) 0)" "replicate 144 0" ShmCircularBufQueue LittleEndian]
  obtain q where "Create True True (\<lambda>n. Some (replicate (unat n) 0)) [113] 64 8 ShmCircularBufQueue =
      Inr (True, \<lparr>cq = Some q, mapped = True\<rparr>)" by (auto simp: kShmCircularQueueMaxSz_def kShmNameSz_def)
  with detached_destructor_faults [of "\<lparr>cq = Some q, mapped = True\<rparr>" q True] show ?thesis by auto
qed

end
