(* ===== verification/Epoll.thy ===== *)
theory Epoll
  imports Prelude "HOL-Library.Multiset"
begin

text \<open>
  Model of \<open>system/epoll.h\<close> and \<open>system/epoll.cpp\<close> (class \<open>EventPoll\<close>). Callback objects live on a
  heap \<open>objs\<close>, so that \<open>new\<close>, \<open>delete\<close> and the use of a deleted object are visible. The kernel and
  the user's functions are the fields of \<open>env\<close>; they share a state \<open>world\<close> that the code never
  looks at. A user function may change the parameters it got by reference and then call the
  \<open>EventPoll\<close> in any way. A computation returns its outcome and the new state, or \<open>None\<close> if it runs
  forever.
\<close>

section \<open>Callback objects\<close>

datatype ('f, 'p) fun_callback =
  CallbackV 'f
| Callback0 'f int
| Callback1 'f int 'p
| Callback2 'f int 'p 'p
| Callback3 'f int 'p 'p 'p
| Callback4 'f int 'p 'p 'p 'p

datatype ('f, 'o, 'p) obj_callback =
  CallbackPV 'o 'f
| CallbackP0 'o 'f int
| CallbackP1 'o 'f int 'p
| CallbackP2 'o 'f int 'p 'p
| CallbackP3 'o 'f int 'p 'p 'p
| CallbackP4 'o 'f int 'p 'p 'p 'p

datatype ('f, 'o, 'p) callback = Fn "('f, 'p) fun_callback" | Obj "('f, 'o, 'p) obj_callback"

text \<open>A call of user code: the object for a member function, the descriptor, the parameters.\<close>

datatype ('f, 'o, 'p) call = Call 'f "'o option" "int option" "'p list"

fun Execute_fun :: "('f, 'p) fun_callback \<Rightarrow> ('f, 'o, 'p) call" where
  "Execute_fun (CallbackV f) = Call f None None []"
| "Execute_fun (Callback0 f fd) = Call f None (Some fd) []"
| "Execute_fun (Callback1 f fd p1) = Call f None (Some fd) [p1]"
| "Execute_fun (Callback2 f fd p1 p2) = Call f None (Some fd) [p1, p2]"
| "Execute_fun (Callback3 f fd p1 p2 p3) = Call f None (Some fd) [p1, p2, p3]"
| "Execute_fun (Callback4 f fd p1 p2 p3 p4) = Call f None (Some fd) [p1, p2, p3, p4]"

fun Execute_obj :: "('f, 'o, 'p) obj_callback \<Rightarrow> ('f, 'o, 'p) call" where
  "Execute_obj (CallbackPV ob f) = Call f (Some ob) None []"
| "Execute_obj (CallbackP0 ob f fd) = Call f (Some ob) (Some fd) []"
| "Execute_obj (CallbackP1 ob f fd p1) = Call f (Some ob) (Some fd) [p1]"
| "Execute_obj (CallbackP2 ob f fd p1 p2) = Call f (Some ob) (Some fd) [p1, p2]"
| "Execute_obj (CallbackP3 ob f fd p1 p2 p3) = Call f (Some ob) (Some fd) [p1, p2, p3]"
| "Execute_obj (CallbackP4 ob f fd p1 p2 p3 p4) = Call f (Some ob) (Some fd) [p1, p2, p3, p4]"

fun Execute :: "('f, 'o, 'p) callback \<Rightarrow> ('f, 'o, 'p) call" where
  "Execute (Fn c) = Execute_fun c"
| "Execute (Obj c) = Execute_obj c"

text \<open>The parameters are passed by reference: their new values are the object's members afterwards.\<close>

definition new_param :: "'p list \<Rightarrow> nat \<Rightarrow> 'p \<Rightarrow> 'p" where
  "new_param ps k p = (if k < length ps then ps ! k else p)"

fun write_fun :: "'p list \<Rightarrow> ('f, 'p) fun_callback \<Rightarrow> ('f, 'p) fun_callback" where
  "write_fun ps (Callback1 f fd p1) = Callback1 f fd (new_param ps 0 p1)"
| "write_fun ps (Callback2 f fd p1 p2) = Callback2 f fd (new_param ps 0 p1) (new_param ps 1 p2)"
| "write_fun ps (Callback3 f fd p1 p2 p3) =
     Callback3 f fd (new_param ps 0 p1) (new_param ps 1 p2) (new_param ps 2 p3)"
| "write_fun ps (Callback4 f fd p1 p2 p3 p4) =
     Callback4 f fd (new_param ps 0 p1) (new_param ps 1 p2) (new_param ps 2 p3) (new_param ps 3 p4)"
| "write_fun ps c = c"

fun write_obj :: "'p list \<Rightarrow> ('f, 'o, 'p) obj_callback \<Rightarrow> ('f, 'o, 'p) obj_callback" where
  "write_obj ps (CallbackP1 ob f fd p1) = CallbackP1 ob f fd (new_param ps 0 p1)"
| "write_obj ps (CallbackP2 ob f fd p1 p2) = CallbackP2 ob f fd (new_param ps 0 p1) (new_param ps 1 p2)"
| "write_obj ps (CallbackP3 ob f fd p1 p2 p3) =
     CallbackP3 ob f fd (new_param ps 0 p1) (new_param ps 1 p2) (new_param ps 2 p3)"
| "write_obj ps (CallbackP4 ob f fd p1 p2 p3 p4) =
     CallbackP4 ob f fd (new_param ps 0 p1) (new_param ps 1 p2) (new_param ps 2 p3) (new_param ps 3 p4)"
| "write_obj ps c = c"

fun write_back :: "'p list \<Rightarrow> ('f, 'o, 'p) callback \<Rightarrow> ('f, 'o, 'p) callback" where
  "write_back ps (Fn c) = Fn (write_fun ps c)"
| "write_back ps (Obj c) = Obj (write_obj ps c)"

section \<open>State\<close>

record event_handler =
  in_use :: bool
  use_et :: bool
  in_cb :: nat
  out_cb :: nat

definition EventHandler :: event_handler where
  "EventHandler = \<lparr>in_use = False, use_et = False, in_cb = 0, out_cb = 0\<rparr>"

definition EventIn :: u32 where "EventIn = 0x001"
definition EventOut :: u32 where "EventOut = 0x004"
definition EventIO :: u32 where "EventIO = EventIn OR EventOut"
definition event_err :: u32 where "event_err = 0x008"
definition event_hup :: u32 where "event_hup = 0x010"
definition event_rdhup :: u32 where "event_rdhup = 0x2000"
definition event_et :: u32 where "event_et = 0x80000000"

datatype outcome = Normal | Runtime_Error | Fault fault

datatype ctl_op = CTL_ADD | CTL_MOD | CTL_DEL
datatype ctl_result = Ctl_Ok | Ctl_EINTR | Ctl_Error
datatype wait_result = Events "(nat \<times> u32) list" | Wait_EINTR | Wait_Error

record ('w, 'f, 'o, 'p) event_poll =
  m_timeout :: int
  m_ev_num :: int
  m_maxfd :: int
  m_ev_hdlrs :: "event_handler list"
  m_read_evs :: "nat list"
  m_plugin :: "nat option"
  objs :: "nat \<rightharpoonup> ('f, 'o, 'p) callback"
  next_obj :: nat
  world :: 'w

text \<open>The arguments of the overloads of \<open>Add\<close>: two functions and their parameters.\<close>

datatype ('f, 'o, 'p) add_args =
  Args0 'f 'f
| Args1 'f 'f 'p 'p
| Args2 'f 'f 'p 'p 'p 'p
| Args3 'f 'f 'p 'p 'p 'p 'p 'p
| Args4 'f 'f 'p 'p 'p 'p 'p 'p 'p 'p
| ArgsPV 'o 'f 'f
| ArgsP0 'o 'f 'f
| ArgsP1 'o 'f 'f 'p 'p
| ArgsP3 'o 'f 'f 'p 'p 'p 'p 'p 'p
| ArgsP4 'o 'f 'f 'p 'p 'p 'p 'p 'p 'p 'p

datatype ('f, 'o, 'p) api_call =
  Api_Add int u32 "('f, 'o, 'p) add_args" bool
| Api_Modify int u32
| Api_Remove int
| Api_ReportAgainIn int
| Api_AddPlugin 'f
| Api_AddPlugin_obj 'o 'f

record ('w, 'f, 'o, 'p) env =
  epoll_ctl :: "ctl_op \<Rightarrow> int \<Rightarrow> u32 \<Rightarrow> 'w \<Rightarrow> ctl_result \<times> 'w"
  epoll_wait :: "int \<Rightarrow> int \<Rightarrow> 'w \<Rightarrow> wait_result \<times> 'w"
  user :: "('f, 'o, 'p) call \<Rightarrow> 'w \<Rightarrow> 'p list \<times> ('f, 'o, 'p) api_call list \<times> 'w"

type_synonym ('w, 'f, 'o, 'p) comp =
  "('w, 'f, 'o, 'p) event_poll \<Rightarrow> (outcome \<times> ('w, 'f, 'o, 'p) event_poll) option"

definition and_then :: "('w, 'f, 'o, 'p) comp \<Rightarrow> ('w, 'f, 'o, 'p) comp \<Rightarrow> ('w, 'f, 'o, 'p) comp" where
  "and_then m k s = Option.bind (m s) (\<lambda>(r, s). if r = Normal then k s else Some (r, s))"

abbreviation skip :: "('w, 'f, 'o, 'p) comp" where "skip s \<equiv> Some (Normal, s)"

definition new_obj :: "('f, 'o, 'p) callback \<Rightarrow> ('w, 'f, 'o, 'p) event_poll \<Rightarrow> nat \<times> ('w, 'f, 'o, 'p) event_poll" where
  "new_obj c s = (next_obj s, s\<lparr>objs := (objs s)(next_obj s \<mapsto> c), next_obj := Suc (next_obj s)\<rparr>)"

definition delete_obj :: "nat \<Rightarrow> ('w, 'f, 'o, 'p) comp" where
  "delete_obj a s =
     (case objs s a of None \<Rightarrow> Some (Fault Null_Deref, s) | Some c \<Rightarrow> Some (Normal, s\<lparr>objs := (objs s)(a := None)\<rparr>))"

section \<open>Operations\<close>

text \<open>The constructor, once \<open>epoll_create\<close> has succeeded.\<close>

definition EventPoll :: "int \<Rightarrow> int \<Rightarrow> 'w \<Rightarrow> ('w, 'f, 'o, 'p) event_poll" where
  "EventPoll maxfd timeout w =
     \<lparr>m_timeout = timeout, m_ev_num = 0, m_maxfd = maxfd, m_ev_hdlrs = replicate (nat maxfd) EventHandler,
      m_read_evs = [], m_plugin = None, objs = Map.empty, next_obj = 0, world = w\<rparr>"

fun destroy_for :: "event_handler list \<Rightarrow> ('w, 'f, 'o, 'p) comp" where
  "destroy_for [] = skip"
| "destroy_for (h # hs) =
     and_then (if in_use h then and_then (delete_obj (in_cb h)) (delete_obj (out_cb h)) else skip) (destroy_for hs)"

definition EventPoll_destroy :: "('w, 'f, 'o, 'p) comp" where
  "EventPoll_destroy s =
     and_then (destroy_for (m_ev_hdlrs s))
       (case m_plugin s of None \<Rightarrow> skip | Some a \<Rightarrow> delete_obj a) s"

text \<open>\<open>epoll_control\<close>: the result is 0 or -1.\<close>

partial_function (option) ctl_for ::
  "('w, 'f, 'o, 'p) env \<Rightarrow> ctl_op \<Rightarrow> int \<Rightarrow> u32 \<Rightarrow> 'w \<Rightarrow> (int \<times> 'w) option" where
  "ctl_for env op fd ev w =
     (case epoll_ctl env op fd ev w of (r, w') \<Rightarrow>
        if r = Ctl_Ok then Some (0, w') else if r = Ctl_EINTR then ctl_for env op fd ev w' else Some (-1, w'))"

definition epoll_control ::
  "('w, 'f, 'o, 'p) env \<Rightarrow> ctl_op \<Rightarrow> int \<Rightarrow> u32 \<Rightarrow> bool \<Rightarrow> ('w, 'f, 'o, 'p) event_poll \<Rightarrow>
     (int \<times> ('w, 'f, 'o, 'p) event_poll) option" where
  "epoll_control env op fd ev_type et s =
     (let ev = ev_type OR event_rdhup; ev = (if et then ev OR event_et else ev)
      in map_option (\<lambda>(r, w). (r, s\<lparr>world := w\<rparr>)) (ctl_for env op fd ev (world s)))"

definition add_event ::
  "('w, 'f, 'o, 'p) env \<Rightarrow> int \<Rightarrow> u32 \<Rightarrow> nat \<Rightarrow> nat \<Rightarrow> bool \<Rightarrow> ('w, 'f, 'o, 'p) comp" where
  "add_event env fd ev_type inp out et s =
     (if \<not> (fd < m_maxfd s \<and> fd > -1 \<and> \<not> in_use (m_ev_hdlrs s ! nat fd)) then Some (Fault Assert_Failed, s)
      else Option.bind (epoll_control env CTL_ADD fd ev_type et s) (\<lambda>(r, s).
        if r = -1 then and_then (and_then (delete_obj inp) (delete_obj out)) (\<lambda>s. Some (Runtime_Error, s)) s
        else Some (Normal, s\<lparr>m_ev_num := m_ev_num s + 1,
          m_ev_hdlrs := (m_ev_hdlrs s)[nat fd := \<lparr>in_use = True, use_et = et, in_cb = inp, out_cb = out\<rparr>]\<rparr>)))"

definition add_new ::
  "('w, 'f, 'o, 'p) env \<Rightarrow> int \<Rightarrow> u32 \<Rightarrow> ('f, 'o, 'p) callback \<Rightarrow> ('f, 'o, 'p) callback \<Rightarrow> bool \<Rightarrow> ('w, 'f, 'o, 'p) comp" where
  "add_new env fd ev_type inp out et s =
     (let (i, s) = new_obj inp s; (j, s) = new_obj out s in add_event env fd ev_type i j et s)"

text \<open>
  The overloads of \<open>Add\<close>. The one for member functions with two parameters is missing: its call of
  the constructor of \<open>CallbackP2\<close> has the arguments in the wrong order and does not compile.
\<close>

fun Add :: "('w, 'f, 'o, 'p) env \<Rightarrow> int \<Rightarrow> u32 \<Rightarrow> ('f, 'o, 'p) add_args \<Rightarrow> bool \<Rightarrow> ('w, 'f, 'o, 'p) comp" where
  "Add env fd ev_type (Args0 incb outcb) et =
     add_new env fd ev_type (Fn (Callback0 incb fd)) (Fn (Callback0 outcb fd)) et"
| "Add env fd ev_type (Args1 incb outcb in1 out1) et =
     add_new env fd ev_type (Fn (Callback1 incb fd in1)) (Fn (Callback1 outcb fd out1)) et"
| "Add env fd ev_type (Args2 incb outcb in1 in2 out1 out2) et =
     add_new env fd ev_type (Fn (Callback2 incb fd in1 in2)) (Fn (Callback2 outcb fd out1 out2)) et"
| "Add env fd ev_type (Args3 incb outcb in1 in2 in3 out1 out2 out3) et =
     add_new env fd ev_type (Fn (Callback3 incb fd in1 in2 in3)) (Fn (Callback3 outcb fd out1 out2 out3)) et"
| "Add env fd ev_type (Args4 incb outcb in1 in2 in3 in4 out1 out2 out3 out4) et =
     add_new env fd ev_type (Fn (Callback4 incb fd in1 in2 in3 in4)) (Fn (Callback4 outcb fd out1 out2 out3 out4)) et"
| "Add env fd ev_type (ArgsPV ob incb outcb) et =
     add_new env fd ev_type (Obj (CallbackPV ob incb)) (Obj (CallbackPV ob outcb)) et"
| "Add env fd ev_type (ArgsP0 ob incb outcb) et =
     add_new env fd ev_type (Obj (CallbackP0 ob incb fd)) (Obj (CallbackP0 ob outcb fd)) et"
| "Add env fd ev_type (ArgsP1 ob incb outcb in1 out1) et =
     add_new env fd ev_type (Obj (CallbackP1 ob incb fd in1)) (Obj (CallbackP1 ob outcb fd out1)) et"
| "Add env fd ev_type (ArgsP3 ob incb outcb in1 in2 in3 out1 out2 out3) et =
     add_new env fd ev_type (Obj (CallbackP3 ob incb fd in1 in2 in3)) (Obj (CallbackP3 ob outcb fd out1 out2 out3)) et"
| "Add env fd ev_type (ArgsP4 ob incb outcb in1 in2 in3 in4 out1 out2 out3 out4) et =
     add_new env fd ev_type (Obj (CallbackP4 ob incb fd in1 in2 in3 in4))
       (Obj (CallbackP4 ob outcb fd out1 out2 out3 out4)) et"

definition install_plugin :: "('f, 'o, 'p) callback \<Rightarrow> ('w, 'f, 'o, 'p) comp" where
  "install_plugin c s =
     (if m_plugin s \<noteq> None then Some (Fault Assert_Failed, s)
      else let (a, s) = new_obj c s in Some (Normal, s\<lparr>m_plugin := Some a\<rparr>))"

definition AddPlugin :: "'f \<Rightarrow> ('w, 'f, 'o, 'p) comp" where
  "AddPlugin plugin = install_plugin (Fn (CallbackV plugin))"

definition AddPlugin_obj :: "'o \<Rightarrow> 'f \<Rightarrow> ('w, 'f, 'o, 'p) comp" where
  "AddPlugin_obj ob plugin = install_plugin (Obj (CallbackPV ob plugin))"

definition registered :: "('w, 'f, 'o, 'p) event_poll \<Rightarrow> int \<Rightarrow> bool" where
  "registered s fd \<longleftrightarrow> fd < m_maxfd s \<and> fd > -1 \<and> in_use (m_ev_hdlrs s ! nat fd)"

definition Modify :: "('w, 'f, 'o, 'p) env \<Rightarrow> int \<Rightarrow> u32 \<Rightarrow> ('w, 'f, 'o, 'p) comp" where
  "Modify env fd ev_type s =
     (if \<not> registered s fd then Some (Fault Assert_Failed, s)
      else Option.bind (epoll_control env CTL_MOD fd ev_type (use_et (m_ev_hdlrs s ! nat fd)) s) (\<lambda>(r, s).
        if r = -1 then Some (Runtime_Error, s) else Some (Normal, s)))"

definition Remove :: "('w, 'f, 'o, 'p) env \<Rightarrow> int \<Rightarrow> ('w, 'f, 'o, 'p) comp" where
  "Remove env fd s =
     (if \<not> registered s fd then Some (Fault Assert_Failed, s)
      else let h = m_ev_hdlrs s ! nat fd in
        and_then (and_then (delete_obj (in_cb h)) (delete_obj (out_cb h)))
          (\<lambda>s. Option.bind (epoll_control env CTL_DEL fd EventIn False (s\<lparr>m_ev_num := m_ev_num s - 1\<rparr>))
             (\<lambda>(_, s). Some (Normal, s)))
          (s\<lparr>m_ev_hdlrs := (m_ev_hdlrs s)[nat fd := h\<lparr>in_use := False\<rparr>]\<rparr>))"

definition ReportAgainIn :: "int \<Rightarrow> ('w, 'f, 'o, 'p) comp" where
  "ReportAgainIn fd s =
     (if \<not> registered s fd then Some (Fault Assert_Failed, s)
      else Some (Normal, s\<lparr>m_read_evs := m_read_evs s @ [nat fd]\<rparr>))"

section \<open>Running user code\<close>

fun api :: "('w, 'f, 'o, 'p) env \<Rightarrow> ('f, 'o, 'p) api_call \<Rightarrow> ('w, 'f, 'o, 'p) comp" where
  "api env (Api_Add fd ev args et) = Add env fd ev args et"
| "api env (Api_Modify fd ev) = Modify env fd ev"
| "api env (Api_Remove fd) = Remove env fd"
| "api env (Api_ReportAgainIn fd) = ReportAgainIn fd"
| "api env (Api_AddPlugin f) = AddPlugin f"
| "api env (Api_AddPlugin_obj ob f) = AddPlugin_obj ob f"

fun api_all :: "('w, 'f, 'o, 'p) env \<Rightarrow> ('f, 'o, 'p) api_call list \<Rightarrow> ('w, 'f, 'o, 'p) comp" where
  "api_all env [] = skip"
| "api_all env (c # cs) = and_then (api env c) (api_all env cs)"

text \<open>\<open>p->Execute()\<close>\<close>

definition execute :: "('w, 'f, 'o, 'p) env \<Rightarrow> nat \<Rightarrow> ('w, 'f, 'o, 'p) comp" where
  "execute env a s =
     (case objs s a of
        None \<Rightarrow> Some (Fault Null_Deref, s)
      | Some c \<Rightarrow> (case user env (Execute c) (world s) of (ps, cs, w) \<Rightarrow>
          api_all env cs (s\<lparr>objs := (objs s)(a \<mapsto> write_back ps c), world := w\<rparr>)))"

section \<open>Dispatching\<close>

abbreviation hdlr :: "('w, 'f, 'o, 'p) event_poll \<Rightarrow> nat \<Rightarrow> event_handler" where
  "hdlr s i \<equiv> m_ev_hdlrs s ! i"

definition dispatch_event :: "('w, 'f, 'o, 'p) env \<Rightarrow> nat \<Rightarrow> u32 \<Rightarrow> ('w, 'f, 'o, 'p) comp" where
  "dispatch_event env i ev s =
     (if \<not> i < length (m_ev_hdlrs s) then Some (Fault Out_Of_Bounds, s)
      else if \<not> in_use (hdlr s i) then Some (Normal, s)
      else and_then (\<lambda>s. if ev AND EventIn \<noteq> 0 then execute env (in_cb (hdlr s i)) s else Some (Normal, s)) (\<lambda>s.
        if ev AND EventIn \<noteq> 0 \<and> \<not> in_use (hdlr s i) then Some (Normal, s)
        else and_then (\<lambda>s. if ev AND EventOut \<noteq> 0 then execute env (out_cb (hdlr s i)) s else Some (Normal, s)) (\<lambda>s.
          if ev AND EventOut \<noteq> 0 \<and> \<not> in_use (hdlr s i) then Some (Normal, s)
          else if ev AND (event_rdhup OR event_hup) \<noteq> 0 then execute env (in_cb (hdlr s i)) s
          else if ev AND event_err \<noteq> 0 \<and> ev AND (EventIn OR event_hup OR EventOut OR event_rdhup) = 0
          then Some (Runtime_Error, s)
          else Some (Normal, s)) s) s)"

fun dispatch_ready_events :: "('w, 'f, 'o, 'p) env \<Rightarrow> (nat \<times> u32) list \<Rightarrow> ('w, 'f, 'o, 'p) comp" where
  "dispatch_ready_events env [] = skip"
| "dispatch_ready_events env ((i, ev) # evs) = and_then (dispatch_event env i ev) (dispatch_ready_events env evs)"

partial_function (option) redispatch_in_events :: "('w, 'f, 'o, 'p) env \<Rightarrow> ('w, 'f, 'o, 'p) comp" where
  "redispatch_in_events env s =
     (case m_read_evs s of
        [] \<Rightarrow> Some (Normal, s)
      | i # q \<Rightarrow>
          Option.bind (let s = s\<lparr>m_read_evs := q\<rparr> in
              if in_use (hdlr s i) then execute env (in_cb (hdlr s i)) s else Some (Normal, s))
            (\<lambda>(r, s). if r = Normal then redispatch_in_events env s else Some (r, s)))"

text \<open>One round of the loop, for the events that \<open>epoll_wait\<close> has stored in \<open>m_avail_evs\<close>.\<close>

definition dispatch_round :: "('w, 'f, 'o, 'p) env \<Rightarrow> (nat \<times> u32) list \<Rightarrow> ('w, 'f, 'o, 'p) comp" where
  "dispatch_round env evs s =
     (if int (length evs) > m_maxfd s then Some (Fault Out_Of_Bounds, s)
      else and_then (dispatch_ready_events env evs) (and_then (redispatch_in_events env)
        (\<lambda>s. case m_plugin s of None \<Rightarrow> Some (Normal, s) | Some a \<Rightarrow> execute env a s)) s)"

partial_function (option) Dispatch :: "('w, 'f, 'o, 'p) env \<Rightarrow> ('w, 'f, 'o, 'p) comp" where
  "Dispatch env s =
     (if m_ev_num s = 0 then Some (Normal, s)
      else case epoll_wait env (m_ev_num s) (m_timeout s) (world s) of (r, w) \<Rightarrow>
        (case r of
           Wait_Error \<Rightarrow> Some (Runtime_Error, s\<lparr>world := w\<rparr>)
         | _ \<Rightarrow>
             Option.bind (dispatch_round env (case r of Events evs \<Rightarrow> evs | _ \<Rightarrow> []) (s\<lparr>world := w\<rparr>))
               (\<lambda>(o1, s). if o1 = Normal then Dispatch env s else Some (o1, s))))"

section \<open>The invariant\<close>

text \<open>Every live callback object has exactly one owner: a registered handler or the plugin.\<close>

definition owned_by :: "event_handler \<Rightarrow> nat list" where
  "owned_by h = (if in_use h then [in_cb h, out_cb h] else [])"

definition owned :: "('w, 'f, 'o, 'p) event_poll \<Rightarrow> nat list" where
  "owned s = concat (map owned_by (m_ev_hdlrs s)) @ (case m_plugin s of None \<Rightarrow> [] | Some a \<Rightarrow> [a])"

definition poll_inv :: "('w, 'f, 'o, 'p) event_poll \<Rightarrow> bool" where
  "poll_inv s \<longleftrightarrow> length (m_ev_hdlrs s) = nat (m_maxfd s) \<and>
     m_ev_num s = int (length (filter in_use (m_ev_hdlrs s))) \<and>
     distinct (owned s) \<and> dom (objs s) = set (owned s) \<and> (\<forall>a \<in> set (owned s). a < next_obj s) \<and>
     (\<forall>i \<in> set (m_read_evs s). i < length (m_ev_hdlrs s))"

text \<open>
  What every computation guarantees from such a state: no use of a deleted object and no access out of
  bounds; if it ends, by returning or by an exception, the invariant holds again.
\<close>

definition safe_result :: "int \<Rightarrow> (outcome \<times> ('w, 'f, 'o, 'p) event_poll) option \<Rightarrow> bool" where
  "safe_result n r \<longleftrightarrow>
     (case r of None \<Rightarrow> True
      | Some (out, s) \<Rightarrow> (case out of Fault f \<Rightarrow> f = Assert_Failed | _ \<Rightarrow> poll_inv s \<and> m_maxfd s = n))"

lemma safe_result_simps [simp]:
  "safe_result n None" "safe_result n (Some (Fault f, s)) \<longleftrightarrow> f = Assert_Failed"
  "safe_result n (Some (Normal, s)) \<longleftrightarrow> poll_inv s \<and> m_maxfd s = n"
  "safe_result n (Some (Runtime_Error, s)) \<longleftrightarrow> poll_inv s \<and> m_maxfd s = n"
  by (simp_all add: safe_result_def)

lemma and_then_safe:
  assumes "safe_result n (m s)" and "\<And>s. poll_inv s \<Longrightarrow> m_maxfd s = n \<Longrightarrow> safe_result n (k s)"
  shows "safe_result n (and_then m k s)"
  using assms by (cases "m s") (auto simp: and_then_def)

lemma and_then_simps [simp]:
  "m s = Some (Normal, s') \<Longrightarrow> and_then m k s = k s'"
  "r \<noteq> Normal \<Longrightarrow> m s = Some (r, s') \<Longrightarrow> and_then m k s = Some (r, s')"
  "m s = None \<Longrightarrow> and_then m k s = None"
  by (simp_all add: and_then_def)

lemma owned_update [simp]:
  "owned (s\<lparr>world := w\<rparr>) = owned s" "owned (s\<lparr>next_obj := n\<rparr>) = owned s" "owned (s\<lparr>objs := m\<rparr>) = owned s"
  "owned (s\<lparr>m_read_evs := q\<rparr>) = owned s"
  by (simp_all add: owned_def)

lemma poll_inv_world [simp]: "poll_inv (s\<lparr>world := w\<rparr>) = poll_inv s"
  by (simp add: poll_inv_def)

lemma epoll_control_cases:
  obtains (loops) "epoll_control env op fd ev et s = None"
  | (returns) r w where "epoll_control env op fd ev et s = Some (r, s\<lparr>world := w\<rparr>)"
  by (cases "epoll_control env op fd ev et s") (auto simp: epoll_control_def Let_def)

text \<open>One handler among all of them.\<close>

lemma hdlr_split:
  assumes "i < length hs"
  obtains A B where "hs = A @ hs ! i # B" "\<forall>h. hs[i := h] = A @ h # B"
  using assms id_take_nth_drop [OF assms] upd_conv_take_nth_drop [OF assms] that by metis

lemma registered_index: "poll_inv s \<Longrightarrow> registered s fd \<Longrightarrow> nat fd < length (m_ev_hdlrs s)"
  by (auto simp: poll_inv_def registered_def)

lemma live_handler:
  assumes "poll_inv s" and "i < length (m_ev_hdlrs s)" and "in_use (hdlr s i)"
  shows "objs s (in_cb (hdlr s i)) \<noteq> None" "objs s (out_cb (hdlr s i)) \<noteq> None"
    "in_cb (hdlr s i) \<noteq> out_cb (hdlr s i)"
proof -
  from assms(2) obtain A B where h: "m_ev_hdlrs s = A @ hdlr s i # B" by (rule hdlr_split)
  have ob: "owned_by (hdlr s i) = [in_cb (hdlr s i), out_cb (hdlr s i)]" using assms(3) by (simp add: owned_by_def)
  have "owned s = concat (map owned_by A) @ [in_cb (hdlr s i), out_cb (hdlr s i)] @ concat (map owned_by B) @
      (case m_plugin s of None \<Rightarrow> [] | Some a \<Rightarrow> [a])"
    unfolding owned_def by (subst h) (simp add: ob)
  then show "objs s (in_cb (hdlr s i)) \<noteq> None" "objs s (out_cb (hdlr s i)) \<noteq> None"
    "in_cb (hdlr s i) \<noteq> out_cb (hdlr s i)"
    using assms(1) by (auto simp: poll_inv_def)
qed

section \<open>Every operation keeps the invariant\<close>

lemma poll_invI:
  assumes "length (m_ev_hdlrs s) = nat (m_maxfd s)" and "m_ev_num s = int (length (filter in_use (m_ev_hdlrs s)))"
    and "owned s = os" and "distinct os" and "dom (objs s) = set os" and "\<forall>a \<in> set os. a < next_obj s"
    and "\<forall>i \<in> set (m_read_evs s). i < length (m_ev_hdlrs s)"
  shows "poll_inv s"
  using assms by (simp add: poll_inv_def)

lemma poll_invD:
  assumes "poll_inv s"
  shows "length (m_ev_hdlrs s) = nat (m_maxfd s)" "m_ev_num s = int (length (filter in_use (m_ev_hdlrs s)))"
    "distinct (owned s)" "dom (objs s) = set (owned s)" "\<forall>a \<in> set (owned s). a < next_obj s"
    "\<forall>i \<in> set (m_read_evs s). i < length (m_ev_hdlrs s)"
  using assms unfolding poll_inv_def by blast+

lemma new_pair_inv:
  fixes c d :: "('f, 'o, 'p) callback" and w :: 'w and et :: bool
  assumes "poll_inv s" and "i < length (m_ev_hdlrs s)" and "\<not> in_use (hdlr s i)" and n: "n = next_obj s"
  defines "s' \<equiv> s\<lparr>objs := (objs s)(n \<mapsto> c, Suc n \<mapsto> d), next_obj := Suc (Suc n), world := w, m_ev_num := m_ev_num s + 1,
    m_ev_hdlrs := (m_ev_hdlrs s)[i := \<lparr>in_use = True, use_et = et, in_cb = n, out_cb = Suc n\<rparr>]\<rparr>"
  shows "poll_inv s'"
proof -
  from assms(2) obtain A B where h: "m_ev_hdlrs s = A @ hdlr s i # B" and u: "\<forall>h. (m_ev_hdlrs s)[i := h] = A @ h # B"
    by (rule hdlr_split)
  note I = poll_invD [OF assms(1)]
  define X Y where XY: "X = concat (map owned_by A)" "Y = concat (map owned_by B) @ (case m_plugin s of None \<Rightarrow> [] | Some a \<Rightarrow> [a])"
  have l: "Suc (length A + length B) = nat (m_maxfd s)" using I(1) u by (metis length_list_update length_append list.size(4) add_Suc_right add.right_neutral One_nat_def)
  let ?os = "X @ Y"
  have e: "owned_by (hdlr s i) = []" using assms(3) by (simp add: owned_by_def)
  have o1: "owned s = ?os" unfolding owned_def XY by (subst h) (simp add: e)
  have f: "filter in_use (m_ev_hdlrs s) = filter in_use A @ filter in_use B" by (subst h) (simp add: assms(3))
  have lt: "\<forall>a \<in> set ?os. a < n" using I(5) o1 n by simp
  then have nn: "n \<notin> set ?os" "Suc n \<notin> set ?os" by fastforce+
  show ?thesis
  proof (rule poll_invI)
    show "owned s' = X @ [n, Suc n] @ Y"
      by (simp add: owned_def s'_def u owned_by_def XY)
    show "distinct (X @ [n, Suc n] @ Y)"
      using I(3) nn unfolding o1 by auto
    show "dom (objs s') = set (X @ [n, Suc n] @ Y)"
      using I(4) unfolding o1 s'_def by auto
    show "\<forall>a \<in> set (X @ [n, Suc n] @ Y). a < next_obj s'"
      using lt unfolding s'_def by fastforce
  qed (use I f l in \<open>simp_all add: s'_def u\<close>)
qed

lemma Remove_inv:
  fixes w :: 'w
  assumes "poll_inv s" and "registered s fd"
  defines "h \<equiv> hdlr s (nat fd)"
  defines "s' \<equiv> s\<lparr>m_ev_hdlrs := (m_ev_hdlrs s)[nat fd := h\<lparr>in_use := False\<rparr>],
    objs := (objs s)(in_cb h := None, out_cb h := None), m_ev_num := m_ev_num s - 1, world := w\<rparr>"
  shows "poll_inv s'"
proof -
  note i = registered_index [OF assms(1,2)] and I = poll_invD [OF assms(1)]
  from i obtain A B where hs: "m_ev_hdlrs s = A @ h # B" and u: "\<forall>x. (m_ev_hdlrs s)[nat fd := x] = A @ x # B"
    unfolding h_def by (rule hdlr_split)
  have use: "in_use h" using assms(2) by (simp add: registered_def h_def)
  define X Y where XY: "X = concat (map owned_by A)" "Y = concat (map owned_by B) @ (case m_plugin s of None \<Rightarrow> [] | Some a \<Rightarrow> [a])"
  have l: "Suc (length A + length B) = nat (m_maxfd s)" using I(1) u by (metis length_list_update length_append list.size(4) add_Suc_right add.right_neutral One_nat_def)
  let ?os = "X @ Y"
  have o1: "owned s = X @ [in_cb h, out_cb h] @ Y"
    unfolding owned_def XY by (subst hs) (simp add: owned_by_def use)
  have f: "filter in_use (m_ev_hdlrs s) = filter in_use A @ h # filter in_use B" by (subst hs) (simp add: use)
  show ?thesis
  proof (rule poll_invI)
    show "owned s' = ?os" by (simp add: owned_def s'_def u owned_by_def XY)
    show "distinct ?os" using I(3) unfolding o1 by auto
    show "dom (objs s') = set ?os" using I(3,4) unfolding o1 s'_def by auto
    show "\<forall>a \<in> set ?os. a < next_obj s'" using I(5) unfolding o1 s'_def by simp
  qed (use I f l in \<open>simp_all add: s'_def u\<close>)
qed

lemma fresh_objs:
  assumes "poll_inv s"
  shows "objs s (next_obj s) = None" "objs s (Suc (next_obj s)) = None"
proof -
  have "a < next_obj s" if "objs s a \<noteq> None" for a using poll_invD(4,5) [OF assms] that by auto
  then show "objs s (next_obj s) = None" "objs s (Suc (next_obj s)) = None" by (metis less_irrefl, metis not_less_eq less_SucI)
qed

lemma poll_inv_next_obj:
  assumes "poll_inv s" and "next_obj s \<le> n"
  shows "poll_inv (s\<lparr>next_obj := n\<rparr>)"
  by (rule poll_invI [where os = "owned s"]) (use poll_invD [OF assms(1)] assms(2) in auto)

lemma add_new_safe:
  assumes "poll_inv s"
  shows "safe_result (m_maxfd s) (add_new env fd ev c d et s)"
proof -
  let ?n = "next_obj s"
  define s1 where "s1 = s\<lparr>objs := (objs s)(?n \<mapsto> c, Suc ?n \<mapsto> d), next_obj := Suc (Suc ?n)\<rparr>"
  have a: "add_new env fd ev c d et s = add_event env fd ev ?n (Suc ?n) et s1"
    by (simp add: add_new_def new_obj_def s1_def)
  show ?thesis
  proof (cases "fd < m_maxfd s1 \<and> fd > -1 \<and> \<not> in_use (hdlr s1 (nat fd))")
    case False
    then have "add_event env fd ev ?n (Suc ?n) et s1 = Some (Fault Assert_Failed, s1)" by (auto simp: add_event_def)
    then show ?thesis by (simp add: a)
  next
    case True
    then have i: "nat fd < length (m_ev_hdlrs s)" "\<not> in_use (hdlr s (nat fd))"
      using poll_invD(1) [OF assms] by (auto simp: s1_def)
    show ?thesis
    proof (cases rule: epoll_control_cases [of env CTL_ADD fd ev et s1])
      case loops
      with True show ?thesis by (simp add: a add_event_def)
    next
      case (returns r w)
      show ?thesis
      proof (cases "r = -1")
        case False
        with True returns have "add_new env fd ev c d et s = Some (Normal, s\<lparr>objs := (objs s)(?n \<mapsto> c, Suc ?n \<mapsto> d),
            next_obj := Suc (Suc ?n), world := w, m_ev_num := m_ev_num s + 1,
            m_ev_hdlrs := (m_ev_hdlrs s)[nat fd := \<lparr>in_use = True, use_et = et, in_cb = ?n, out_cb = Suc ?n\<rparr>]\<rparr>)"
          by (simp add: a add_event_def s1_def)
        with new_pair_inv [OF assms i refl] show ?thesis by simp
      next
        case err: True
        have "(objs s)(?n := None, Suc ?n := None) = objs s" using fresh_objs [OF assms] by auto
        with True returns err have "add_new env fd ev c d et s = Some (Runtime_Error, s\<lparr>next_obj := Suc (Suc ?n), world := w\<rparr>)"
          by (simp add: a add_event_def s1_def and_then_def delete_obj_def fun_upd_twist)
        with poll_inv_next_obj [OF assms] show ?thesis by simp
      qed
    qed
  qed
qed

lemma Add_safe: "poll_inv s \<Longrightarrow> safe_result (m_maxfd s) (Add env fd ev args et s)"
  by (cases args) (simp_all add: add_new_safe)

lemma install_plugin_safe:
  assumes "poll_inv s"
  shows "safe_result (m_maxfd s) (install_plugin c s)"
proof (cases "m_plugin s")
  case None
  let ?n = "next_obj s"
  let ?s = "s\<lparr>objs := (objs s)(?n \<mapsto> c), next_obj := Suc ?n, m_plugin := Some ?n\<rparr>"
  note I = poll_invD [OF assms]
  have "owned ?s = owned s @ [?n]" using None by (simp add: owned_def)
  then have "poll_inv ?s"
  proof (rule poll_invI [rotated 2])
    show "distinct (owned s @ [?n])" using I(3,5) by auto
    show "\<forall>a \<in> set (owned s @ [?n]). a < next_obj ?s" using I(5) by fastforce
  qed (use I in auto)
  with None show ?thesis by (simp add: install_plugin_def new_obj_def)
qed (simp add: install_plugin_def)

lemma Modify_safe: "poll_inv s \<Longrightarrow> safe_result (m_maxfd s) (Modify env fd ev s)"
  by (cases rule: epoll_control_cases [of env CTL_MOD fd ev "use_et (hdlr s (nat fd))" s]) (simp_all add: Modify_def)

lemma Remove_safe:
  assumes "poll_inv s"
  shows "safe_result (m_maxfd s) (Remove env fd s)"
proof (cases "registered s fd")
  case True
  let ?h = "hdlr s (nat fd)"
  have i: "nat fd < length (m_ev_hdlrs s)" "in_use ?h" using registered_index [OF assms True] True by (auto simp: registered_def)
  from live_handler [OF assms i] obtain c d where l: "objs s (in_cb ?h) = Some c" "objs s (out_cb ?h) = Some d"
    "in_cb ?h \<noteq> out_cb ?h" by auto
  define s1 where "s1 = s\<lparr>m_ev_hdlrs := (m_ev_hdlrs s)[nat fd := ?h\<lparr>in_use := False\<rparr>],
    objs := (objs s)(in_cb ?h := None, out_cb ?h := None), m_ev_num := m_ev_num s - 1\<rparr>"
  have r: "Remove env fd s = Option.bind (epoll_control env CTL_DEL fd EventIn False s1) (\<lambda>(_, s). Some (Normal, s))"
    using True l by (simp add: Remove_def Let_def and_then_def delete_obj_def s1_def)
  show ?thesis
    using Remove_inv [OF assms True]
    by (cases rule: epoll_control_cases [of env CTL_DEL fd EventIn False s1]) (simp_all add: r s1_def)
qed (simp add: Remove_def)

lemma ReportAgainIn_safe:
  assumes "poll_inv s"
  shows "safe_result (m_maxfd s) (ReportAgainIn fd s)"
proof (cases "registered s fd")
  case True
  have "poll_inv (s\<lparr>m_read_evs := m_read_evs s @ [nat fd]\<rparr>)"
    by (rule poll_invI [where os = "owned s"])
      (use poll_invD [OF assms] registered_index [OF assms True] in auto)
  with True show ?thesis by (simp add: ReportAgainIn_def)
qed (simp add: ReportAgainIn_def)

lemma api_safe: "poll_inv s \<Longrightarrow> safe_result (m_maxfd s) (api env c s)"
  by (cases c) (simp_all add: Add_safe Modify_safe Remove_safe ReportAgainIn_safe AddPlugin_def AddPlugin_obj_def
      install_plugin_safe)

lemma api_all_safe: "poll_inv s \<Longrightarrow> m_maxfd s = n \<Longrightarrow> safe_result n (api_all env cs s)"
proof (induction cs arbitrary: s)
  case (Cons c cs)
  then show ?case using api_safe [of s env c] by (auto intro: and_then_safe)
qed simp

lemma execute_safe:
  assumes "poll_inv s" and "objs s a \<noteq> None" and "m_maxfd s = n"
  shows "safe_result n (execute env a s)"
proof -
  from assms(2) obtain c where c: "objs s a = Some c" by blast
  have "poll_inv (s\<lparr>objs := (objs s)(a \<mapsto> x), world := w\<rparr>)" for x w
    by (rule poll_invI [where os = "owned s"]) (use poll_invD [OF assms(1)] c in auto)
  with c assms(3) show ?thesis by (auto simp: execute_def api_all_safe split: prod.split)
qed

section \<open>Dispatching keeps the invariant\<close>

lemma dispatch_event_safe:
  fixes s :: "('w, 'f, 'o, 'p) event_poll"
  assumes "poll_inv s" and "i < nat n" and "m_maxfd s = n"
  shows "safe_result n (dispatch_event env i ev s)"
proof -
  have len: "i < length (m_ev_hdlrs s)" if "poll_inv s" "m_maxfd s = n" for s :: "('w, 'f, 'o, 'p) event_poll"
    using that assms(2) poll_invD(1) [OF that(1)] by simp
  have ex: "safe_result n (execute env (in_cb (hdlr s i)) s)" "safe_result n (execute env (out_cb (hdlr s i)) s)"
    if "poll_inv s" "m_maxfd s = n" "in_use (hdlr s i)" for s :: "('w, 'f, 'o, 'p) event_poll"
    using that live_handler [OF that(1) len [OF that(1,2)] that(3)] by (auto intro: execute_safe)
  define fin :: "('w, 'f, 'o, 'p) comp" where "fin = (\<lambda>s.
    if ev AND EventOut \<noteq> 0 \<and> \<not> in_use (hdlr s i) then Some (Normal, s)
    else if ev AND (event_rdhup OR event_hup) \<noteq> 0 then execute env (in_cb (hdlr s i)) s
    else if ev AND event_err \<noteq> 0 \<and> ev AND (EventIn OR event_hup OR EventOut OR event_rdhup) = 0
    then Some (Runtime_Error, s) else Some (Normal, s))"
  define mid :: "('w, 'f, 'o, 'p) comp" where "mid = (\<lambda>s.
    if ev AND EventIn \<noteq> 0 \<and> \<not> in_use (hdlr s i) then Some (Normal, s)
    else and_then (\<lambda>s. if ev AND EventOut \<noteq> 0 then execute env (out_cb (hdlr s i)) s else Some (Normal, s)) fin s)"
  have fin: "safe_result n (fin s)" if "poll_inv s" "m_maxfd s = n" "ev AND EventOut \<noteq> 0 \<or> in_use (hdlr s i)" for s
    using that ex(1) [OF that(1,2)] by (auto simp: fin_def)
  have mid: "safe_result n (mid s)" if "poll_inv s" "m_maxfd s = n" "ev AND EventIn \<noteq> 0 \<or> in_use (hdlr s i)" for s
  proof (cases "in_use (hdlr s i)")
    case True
    then show ?thesis
      using that(1,2) fin ex(2) by (cases "ev AND EventOut = 0") (auto simp: mid_def intro!: and_then_safe)
  qed (use that in \<open>simp add: mid_def\<close>)
  have "dispatch_event env i ev s = (if \<not> in_use (hdlr s i) then Some (Normal, s)
      else and_then (\<lambda>s. if ev AND EventIn \<noteq> 0 then execute env (in_cb (hdlr s i)) s else Some (Normal, s)) mid s)"
    using len [OF assms(1,3)] unfolding dispatch_event_def mid_def fin_def by simp
  then show ?thesis
    using assms(1,3) mid ex(1) by (cases "ev AND EventIn = 0") (auto intro!: and_then_safe)
qed

lemma dispatch_ready_events_safe:
  assumes "poll_inv s" and "m_maxfd s = n" and "\<forall>(i, ev) \<in> set evs. i < nat n"
  shows "safe_result n (dispatch_ready_events env evs s)"
  using assms
proof (induction evs arbitrary: s)
  case (Cons e evs)
  obtain i ev where e: "e = (i, ev)" by (cases e)
  show ?case unfolding e dispatch_ready_events.simps
    by (rule and_then_safe) (use Cons e in \<open>auto intro: dispatch_event_safe\<close>)
qed simp

lemma pop_read_inv:
  assumes "poll_inv s" and "m_read_evs s = i # q"
  shows "poll_inv (s\<lparr>m_read_evs := q\<rparr>) \<and> i < length (m_ev_hdlrs s)"
proof
  show "poll_inv (s\<lparr>m_read_evs := q\<rparr>)"
    by (rule poll_invI [where os = "owned s"]) (use poll_invD [OF assms(1)] assms(2) in simp_all)
qed (use poll_invD(6) [OF assms(1)] assms(2) in simp)

lemma redispatch_in_events_safe:
  assumes "poll_inv s" and "m_maxfd s = n"
  shows "safe_result n (redispatch_in_events env s)"
proof -
  have "poll_inv s \<and> m_maxfd s = n \<longrightarrow> safe_result n (Some r)" if "redispatch_in_events env s = Some r" for r
    using that
  proof (rule redispatch_in_events.raw_induct
      [where P = "\<lambda>env s r. poll_inv s \<and> m_maxfd s = n \<longrightarrow> safe_result n (Some r)", rotated], goal_cases)
    case (1 f env s r)
    show ?case
    proof (cases "m_read_evs s")
      case (Cons i q)
      let ?s = "s\<lparr>m_read_evs := q\<rparr>"
      let ?m = "if in_use (hdlr ?s i) then execute env (in_cb (hdlr ?s i)) ?s else Some (Normal, ?s)"
      have safe: "safe_result n ?m" if "poll_inv s \<and> m_maxfd s = n"
        using that pop_read_inv [of s i q] Cons live_handler(1) [of ?s i] by (auto intro!: execute_safe)
      from 1(2) Cons obtain r1 s1 where m: "?m = Some (r1, s1)"
        and k: "(if r1 = Normal then f env s1 else Some (r1, s1)) = Some r"
        by (auto simp: Let_def bind_eq_Some_conv)
      show ?thesis
      proof (cases "r1 = Normal")
        case True
        with 1(1) [of env s1 r] k m safe show ?thesis by auto
      next
        case False
        with k m safe show ?thesis by auto
      qed
    qed (use 1 in auto)
  qed
  with assms show ?thesis by (cases "redispatch_in_events env s") auto
qed

text \<open>
  What \<open>epoll_wait\<close> promises: at most \<open>maxevents\<close> events, each with a pointer that \<open>epoll_ctl\<close> was given.
\<close>

definition wait_ok :: "('w, 'f, 'o, 'p) env \<Rightarrow> nat \<Rightarrow> bool" where
  "wait_ok env n \<longleftrightarrow> (\<forall>maxevents t w evs w'. epoll_wait env maxevents t w = (Events evs, w') \<longrightarrow>
     int (length evs) \<le> maxevents \<and> (\<forall>(i, ev) \<in> set evs. i < n))"

lemma wait_okD:
  "wait_ok env n \<Longrightarrow> epoll_wait env m t w = (Events evs, w') \<Longrightarrow> int (length evs) \<le> m \<and> (\<forall>(i, ev) \<in> set evs. i < n)"
  unfolding wait_ok_def by blast

lemma ev_num_le: "poll_inv s \<Longrightarrow> m_ev_num s \<noteq> 0 \<Longrightarrow> m_ev_num s \<le> m_maxfd s"
  using poll_invD(1,2) [of s] length_filter_le [of in_use "m_ev_hdlrs s"] by linarith

lemma dispatch_round_safe:
  assumes "poll_inv s" and "m_maxfd s = n" and "int (length evs) \<le> n" and "\<forall>(i, ev) \<in> set evs. i < nat n"
  shows "safe_result n (dispatch_round env evs s)"
proof -
  have p: "safe_result n (case m_plugin s of None \<Rightarrow> Some (Normal, s) | Some a \<Rightarrow> execute env a s)"
    if "poll_inv s" "m_maxfd s = n" for s :: "('a, 'b, 'c, 'd) event_poll"
  proof (cases "m_plugin s")
    case (Some a)
    then have "a \<in> set (owned s)" by (simp add: owned_def)
    then have "objs s a \<noteq> None" using poll_invD(4) [OF that(1)] by auto
    with Some that show ?thesis by (simp add: execute_safe)
  qed (use that in simp)
  have "safe_result n (and_then (dispatch_ready_events env evs) (and_then (redispatch_in_events env)
      (\<lambda>s. case m_plugin s of None \<Rightarrow> Some (Normal, s) | Some a \<Rightarrow> execute env a s)) s)"
    by (intro and_then_safe dispatch_ready_events_safe redispatch_in_events_safe p assms)
  with assms show ?thesis by (simp add: dispatch_round_def)
qed

lemma Dispatch_safe:
  assumes "poll_inv s" and "m_maxfd s = n" and w: "wait_ok env (nat n)"
  shows "safe_result n (Dispatch env s)"
proof -
  have "poll_inv s \<and> m_maxfd s = n \<and> wait_ok env (nat n) \<longrightarrow> safe_result n (Some r)" if "Dispatch env s = Some r" for r
    using that
  proof (rule Dispatch.raw_induct
      [where P = "\<lambda>env s r. poll_inv s \<and> m_maxfd s = n \<and> wait_ok env (nat n) \<longrightarrow> safe_result n (Some r)", rotated], goal_cases)
    case (1 f env s r)
    obtain x w where x: "epoll_wait env (m_ev_num s) (m_timeout s) (world s) = (x, w)" by fastforce
    let ?evs = "case x of Events evs \<Rightarrow> evs | _ \<Rightarrow> []"
    show ?case
    proof (cases "m_ev_num s = 0 \<or> x = Wait_Error")
      case True
      with 1(2) x show ?thesis by (auto split: if_splits)
    next
      case False
      with 1(2) x obtain r1 s1 where m: "dispatch_round env ?evs (s\<lparr>world := w\<rparr>) = Some (r1, s1)"
        and k: "(if r1 = Normal then f env s1 else Some (r1, s1)) = Some r"
        by (cases x) (auto simp: bind_eq_Some_conv)
      have "safe_result n (Some (r1, s1))" if i: "poll_inv s \<and> m_maxfd s = n \<and> wait_ok env (nat n)"
      proof -
        have "int (length ?evs) \<le> m_ev_num s \<and> (\<forall>(i, ev) \<in> set ?evs. i < nat n)"
        proof (cases x)
          case (Events evs)
          with i x wait_okD [of env "nat n"] show ?thesis by simp
        qed (use i poll_invD(2) [of s] in auto)
        then show ?thesis
          using i False ev_num_le [of s] dispatch_round_safe [of "s\<lparr>world := w\<rparr>" n ?evs env] m by auto
      qed
      then show ?thesis using k 1(1) [of env s1 r] by (cases "r1 = Normal") auto
    qed
  qed
  with assms show ?thesis by (cases "Dispatch env s") auto
qed

section \<open>Construction and destruction\<close>

lemma EventPoll_inv: "poll_inv (EventPoll maxfd timeout w)"
proof -
  have "owned_by EventHandler = []" "\<not> in_use EventHandler" by (simp_all add: owned_by_def EventHandler_def)
  then show ?thesis by (simp add: poll_inv_def owned_def EventPoll_def)
qed

lemma delete_list:
  "distinct (concat (map owned_by hs)) \<Longrightarrow> set (concat (map owned_by hs)) \<subseteq> dom (objs s) \<Longrightarrow>
     destroy_for hs s = Some (Normal, s\<lparr>objs := (objs s) |` (- set (concat (map owned_by hs)))\<rparr>)"
proof (induction hs arbitrary: s)
  case (Cons h hs)
  show ?case
  proof (cases "in_use h")
    case True
    then have ob: "owned_by h = [in_cb h, out_cb h]" by (simp add: owned_by_def)
    let ?s = "s\<lparr>objs := (objs s)(in_cb h := None, out_cb h := None)\<rparr>"
    define L where "L = concat (map owned_by hs)"
    have pre: "distinct ([in_cb h, out_cb h] @ L)" "set ([in_cb h, out_cb h] @ L) \<subseteq> dom (objs s)"
      using Cons.prems by (simp_all add: ob L_def)
    then obtain c d where l: "objs s (in_cb h) = Some c" "objs s (out_cb h) = Some d" "in_cb h \<noteq> out_cb h" by auto
    have "and_then (delete_obj (in_cb h)) (delete_obj (out_cb h)) s = Some (Normal, ?s)"
      using l by (simp add: and_then_def delete_obj_def)
    moreover have "destroy_for hs ?s = Some (Normal, ?s\<lparr>objs := (objs ?s) |` (- set L)\<rparr>)"
      unfolding L_def
    proof (rule Cons.IH)
      show "set (concat (map owned_by hs)) \<subseteq> dom (objs ?s)" using pre unfolding L_def [symmetric] by auto
    qed (use Cons.prems in simp)
    moreover have "(objs ?s) |` (- set L) = objs s |` (- set (concat (map owned_by (h # hs))))"
      unfolding L_def [symmetric] list.map concat.simps ob by (auto simp: restrict_map_def fun_eq_iff)
    ultimately show ?thesis using True by simp
  next
    case False
    then have "owned_by h = []" by (simp add: owned_by_def)
    with False Cons show ?thesis by simp
  qed
qed (simp add: restrict_map_def)

lemma EventPoll_destroy_clean:
  assumes "poll_inv s"
  shows "\<exists>s'. EventPoll_destroy s = Some (Normal, s') \<and> objs s' = Map.empty"
proof -
  note I = poll_invD [OF assms]
  let ?L = "concat (map owned_by (m_ev_hdlrs s))"
  have d: "destroy_for (m_ev_hdlrs s) s = Some (Normal, s\<lparr>objs := (objs s) |` (- set ?L)\<rparr>)"
    using I(3,4) by (intro delete_list) (auto simp: owned_def)
  show ?thesis
  proof (cases "m_plugin s")
    case None
    then have "dom (objs s) = set ?L" using I(4) by (simp add: owned_def)
    then have "(objs s) |` (- set ?L) = Map.empty" by (auto simp: restrict_map_def fun_eq_iff)
    with None d show ?thesis by (simp add: EventPoll_destroy_def)
  next
    case (Some a)
    then have o1: "dom (objs s) = insert a (set ?L)" "a \<notin> set ?L" using I(3,4) by (simp_all add: owned_def)
    then obtain c where c: "objs s a = Some c" by blast
    have "((objs s) |` (- set ?L))(a := None) = Map.empty" using o1 by (auto simp: restrict_map_def fun_eq_iff)
    with Some d c o1(2) show ?thesis by (simp add: EventPoll_destroy_def delete_obj_def)
  qed
qed

lemma Dispatch_Normal:
  assumes "Dispatch env s = Some (Normal, s')"
  shows "m_ev_num s' = 0"
proof -
  have "fst r = Normal \<longrightarrow> m_ev_num (snd r) = 0" if "Dispatch env s = Some r" for r
    using that
  proof (rule Dispatch.raw_induct [where P = "\<lambda>env s r. fst r = Normal \<longrightarrow> m_ev_num (snd r) = 0", rotated], goal_cases)
    case (1 f env s r)
    obtain x w where x: "epoll_wait env (m_ev_num s) (m_timeout s) (world s) = (x, w)" by fastforce
    show ?case
    proof (cases "m_ev_num s = 0 \<or> x = Wait_Error")
      case False
      with 1(2) x obtain r1 s1 where "(if r1 = Normal then f env s1 else Some (r1, s1)) = Some r"
        by (cases x) (auto simp: bind_eq_Some_conv)
      then show ?thesis using 1(1) [of env s1 r] by (auto split: if_splits)
    qed (use 1(2) x in \<open>auto split: if_splits\<close>)
  qed
  with assms show ?thesis by fastforce
qed


declare ctl_for.simps [code] redispatch_in_events.simps [code] Dispatch.simps [code]

text \<open>A kernel that reports descriptor 3 as readable, and a function that removes it.\<close>

definition demo_env :: "(unit, nat, unit, nat) env" where
  "demo_env = \<lparr>epoll_ctl = (\<lambda>op fd ev w. (Ctl_Ok, w)), epoll_wait = (\<lambda>n t w. (if n > 0 then Events [(3, EventIn)] else Wait_Error, w)),
     user = (\<lambda>c w. ([], [Api_Remove 3], w))\<rparr>"

lemma demo_wait_ok: "wait_ok demo_env 8"
  by (auto simp: wait_ok_def demo_env_def)


section \<open>Which functions an event runs\<close>

lemma new_param_Nil [simp]: "new_param [] k p = p"
  by (simp add: new_param_def)

lemma write_fun_Nil [simp]: "write_fun [] c = c"
  by (cases c) simp_all

lemma write_obj_Nil [simp]: "write_obj [] c = c"
  by (cases c) simp_all

lemma write_back_Nil [simp]: "write_back [] c = c"
  by (cases c) simp_all

text \<open>User functions that leave the poll and their parameters alone and only act on their own state.\<close>

definition inert :: "('w, 'f, 'o, 'p) env \<Rightarrow> (('f, 'o, 'p) call \<Rightarrow> 'w \<Rightarrow> 'w) \<Rightarrow> bool" where
  "inert env act \<longleftrightarrow> (\<forall>c w. user env c w = ([], [], act c w))"

lemma execute_passive:
  "inert env act \<Longrightarrow> objs s a = Some c \<Longrightarrow> execute env a s = Some (Normal, s\<lparr>world := act (Execute c) (world s)\<rparr>)"
  by (simp add: execute_def inert_def fun_upd_idem)

text \<open>The calls for one event of a registered handler, and the events that raise an exception.\<close>

definition event_calls :: "('w, 'f, 'o, 'p) event_poll \<Rightarrow> nat \<times> u32 \<Rightarrow> ('f, 'o, 'p) call list" where
  "event_calls s e =
     (let (i, ev) = e; h = hdlr s i; inp = Execute (the (objs s (in_cb h))); out = Execute (the (objs s (out_cb h))) in
      if in_use h then (if ev AND EventIn \<noteq> 0 then [inp] else []) @ (if ev AND EventOut \<noteq> 0 then [out] else []) @
        (if ev AND (event_rdhup OR event_hup) \<noteq> 0 then [inp] else []) else [])"

definition bad_event :: "u32 \<Rightarrow> bool" where
  "bad_event ev \<longleftrightarrow> ev AND event_err \<noteq> 0 \<and> ev AND (EventIn OR event_hup OR EventOut OR event_rdhup) = 0"

lemma or_eq_zero: "x OR y = (0 :: 'a::len word) \<longleftrightarrow> x = 0 \<and> y = 0"
  by (auto simp: bit_eq_iff bit_or_iff)

lemma bad_event_bits:
  "ev AND (EventIn OR event_hup OR EventOut OR event_rdhup) = 0 \<longleftrightarrow>
     ev AND EventIn = 0 \<and> ev AND EventOut = 0 \<and> ev AND (event_rdhup OR event_hup) = 0"
  by (auto simp: bit.conj_disj_distrib or_eq_zero)

lemma event_calls_world [simp]: "event_calls (s\<lparr>world := w\<rparr>) = event_calls s"
  by (simp add: event_calls_def fun_eq_iff)

lemma dispatch_event_passive:
  assumes "poll_inv s" and "inert env act" and "i < length (m_ev_hdlrs s)"
  shows "dispatch_event env i ev s = Some (if in_use (hdlr s i) \<and> bad_event ev then Runtime_Error else Normal,
    s\<lparr>world := fold act (event_calls s (i, ev)) (world s)\<rparr>)"
proof (cases "in_use (hdlr s i)")
  case True
  from live_handler [OF assms(1,3) True] obtain c d where
    l: "objs s (in_cb (hdlr s i)) = Some c" "objs s (out_cb (hdlr s i)) = Some d" by auto
  let ?h = "hdlr s i"
  have e: "execute env (in_cb ?h) (s\<lparr>world := w\<rparr>) = Some (Normal, s\<lparr>world := act (Execute c) w\<rparr>)"
    "execute env (out_cb ?h) (s\<lparr>world := w\<rparr>) = Some (Normal, s\<lparr>world := act (Execute d) w\<rparr>)" for w
    using l execute_passive [OF assms(2), of "s\<lparr>world := w\<rparr>"] by simp_all
  have e0: "execute env (in_cb ?h) s = Some (Normal, s\<lparr>world := act (Execute c) (world s)\<rparr>)"
    "execute env (out_cb ?h) s = Some (Normal, s\<lparr>world := act (Execute d) (world s)\<rparr>)"
    using e [of "world s"] by simp_all
  consider "ev AND EventIn = 0" | "ev AND EventIn \<noteq> 0" by blast
  then show ?thesis
  proof cases
    case 1
    then show ?thesis
      using True assms(3) l unfolding dispatch_event_def event_calls_def bad_event_def
      by (simp add: and_then_def bad_event_bits e e0 Let_def)
  next
    case 2
    then show ?thesis
      using True assms(3) l unfolding dispatch_event_def event_calls_def bad_event_def
      by (simp add: and_then_def bad_event_bits e e0 Let_def)
  qed
qed (use assms(3) in \<open>simp add: dispatch_event_def event_calls_def\<close>)

lemma dispatch_ready_passive:
  assumes "poll_inv s" and "inert env act"
    and "\<forall>(i, ev) \<in> set evs. i < length (m_ev_hdlrs s) \<and> \<not> (in_use (hdlr s i) \<and> bad_event ev)"
  shows "dispatch_ready_events env evs s = Some (Normal, s\<lparr>world := fold act (concat (map (event_calls s) evs)) (world s)\<rparr>)"
  using assms
proof (induction evs arbitrary: s)
  case (Cons e evs)
  obtain i ev where e: "e = (i, ev)" by (cases e)
  let ?s = "s\<lparr>world := fold act (event_calls s (i, ev)) (world s)\<rparr>"
  have "dispatch_event env i ev s = Some (Normal, ?s)" using dispatch_event_passive [of s env act i ev] Cons.prems e by auto
  moreover have "dispatch_ready_events env evs ?s = Some (Normal, ?s\<lparr>world := fold act (concat (map (event_calls ?s) evs)) (world ?s)\<rparr>)"
    using Cons.prems by (intro Cons.IH) auto
  ultimately show ?case by (simp add: e)
qed simp

text \<open>
  Ready events run the right functions in the right order. For functions that do not
  touch the poll, the events reported by \<open>epoll_wait\<close> are processed in their order; each runs the handler's
  input function if the event has \<open>EPOLLIN\<close>, then the output function for \<open>EPOLLOUT\<close>, then the input
  function again for a hang-up, with the descriptor and parameters given to \<open>Add\<close>; handlers
  that are no longer registered are skipped. The first event of a registered handler that carries nothing but an error
  ends the processing with an exception, after the events before it.
\<close>

theorem ready_events_calls:
  fixes s :: "('w, 'f, 'o, 'p) event_poll"
  assumes "poll_inv s" and "inert env act"
    and "\<forall>(i, ev) \<in> set evs. i < length (m_ev_hdlrs s) \<and> \<not> (in_use (hdlr s i) \<and> bad_event ev)"
    and "j < length (m_ev_hdlrs s)" and "in_use (hdlr s j)" and "bad_event ev'"
  shows "dispatch_ready_events env evs s = Some (Normal, s\<lparr>world := fold act (concat (map (event_calls s) evs)) (world s)\<rparr>) \<and>
    dispatch_ready_events env (evs @ (j, ev') # later) s =
      Some (Runtime_Error, s\<lparr>world := fold act (concat (map (event_calls s) evs)) (world s)\<rparr>)"
proof -
  have app: "dispatch_ready_events env (xs @ ys) t = and_then (dispatch_ready_events env xs) (dispatch_ready_events env ys) t"
    for xs ys and t :: "('w, 'f, 'o, 'p) event_poll"
  proof (induction xs arbitrary: t)
    case (Cons e xs)
    then show ?case by (cases e) (auto simp: and_then_def intro!: Option.bind_cong)
  qed simp
  note r = dispatch_ready_passive [OF assms(1-3)]
  have "event_calls s (j, ev') = []" using assms(6) by (simp add: event_calls_def bad_event_def bad_event_bits Let_def)
  moreover have "dispatch_event env j ev' (s\<lparr>world := w\<rparr>) =
      Some (Runtime_Error, s\<lparr>world := fold act (event_calls s (j, ev')) w\<rparr>)" for w
    using dispatch_event_passive [of "s\<lparr>world := w\<rparr>" env act j ev'] assms by simp
  ultimately show ?thesis using r by (simp add: app)
qed

theorem ready_events_calls_witness:
  "\<exists>s :: (nat, nat, unit, nat) event_poll. poll_inv s \<and> (\<exists>s1. \<forall>env. inert env (\<lambda>_. Suc) \<longrightarrow>
     dispatch_ready_events env [(3, EventIn)] s = Some (Normal, s1) \<and>
     dispatch_ready_events env ([(3, EventIn)] @ (3, event_err) # []) s = Some (Runtime_Error, s1))"
proof -
  define e0 :: "(nat, nat, unit, nat) env" where
    "e0 = \<lparr>epoll_ctl = (\<lambda>op fd ev w. (Ctl_Ok, w)), epoll_wait = (\<lambda>n t w. (Wait_Error, w)), user = (\<lambda>c w. ([], [], Suc w))\<rparr>"
  let ?r = "Add e0 3 EventIn (Args0 1 2) True (EventPoll 8 (-1) 0)"
  have "map_option (\<lambda>(r, s). (r, length (m_ev_hdlrs s), in_use (hdlr s 3))) ?r = Some (Normal, 8, True)"
    unfolding e0_def by code_simp
  then obtain s where s: "?r = Some (Normal, s)" "length (m_ev_hdlrs s) = 8" "in_use (hdlr s 3)"
    by (cases ?r) auto
  have inv: "poll_inv s" using Add_safe [OF EventPoll_inv [of 8 "-1" 0], of e0 3 EventIn "Args0 1 2" True] s(1) by simp
  have "bad_event event_err" "\<not> bad_event EventIn" by (code_simp, code_simp)
  then have "dispatch_ready_events env [(3, EventIn)] s =
      Some (Normal, s\<lparr>world := fold (\<lambda>_. Suc) (concat (map (event_calls s) [(3, EventIn)])) (world s)\<rparr>) \<and>
    dispatch_ready_events env ([(3, EventIn)] @ (3, event_err) # []) s =
      Some (Runtime_Error, s\<lparr>world := fold (\<lambda>_. Suc) (concat (map (event_calls s) [(3, EventIn)])) (world s)\<rparr>)"
    if "inert env (\<lambda>_. Suc)" for env
    by (intro ready_events_calls inv that) (use s(2,3) in auto)
  with inv show ?thesis by blast
qed

section \<open>Reported read events\<close>

text \<open>A kernel that is not interrupted.\<close>

definition no_eintr :: "('w, 'f, 'o, 'p) env \<Rightarrow> bool" where
  "no_eintr env \<longleftrightarrow> (\<forall>op fd ev w. fst (epoll_ctl env op fd ev w) \<noteq> Ctl_EINTR)"

fun reports :: "('f, 'o, 'p) api_call \<Rightarrow> bool" where
  "reports (Api_ReportAgainIn fd) = True"
| "reports c = False"

definition keeps_queue :: "('w, 'f, 'o, 'p) event_poll \<Rightarrow> (outcome \<times> ('w, 'f, 'o, 'p) event_poll) option \<Rightarrow> bool" where
  "keeps_queue s r \<longleftrightarrow> (\<exists>out s'. r = Some (out, s') \<and> m_read_evs s' = m_read_evs s)"

lemma keeps_queue_and_then:
  assumes "keeps_queue s (m s)" and "\<And>t. m_read_evs t = m_read_evs s \<Longrightarrow> keeps_queue t (k t)"
  shows "keeps_queue s (and_then m k s)"
  using assms by (auto simp: keeps_queue_def and_then_def)

lemma epoll_control_returns:
  assumes "no_eintr env"
  obtains r w where "epoll_control env op fd ev et s = Some (r, s\<lparr>world := w\<rparr>)"
proof -
  have "\<exists>r w'. ctl_for env op fd ev w = Some (r, w')" for ev w
  proof -
    obtain r w' where c: "epoll_ctl env op fd ev w = (r, w')" by fastforce
    then have "r \<noteq> Ctl_EINTR" using assms unfolding no_eintr_def by (metis fst_conv)
    with c show ?thesis by (subst ctl_for.simps) auto
  qed
  then show ?thesis using that by (fastforce simp: epoll_control_def Let_def)
qed

lemma delete_keeps_queue: "keeps_queue s (delete_obj a s)"
  by (auto simp: keeps_queue_def delete_obj_def split: option.split)

lemma keeps_queue_Some [simp]: "keeps_queue s (Some (out, t)) \<longleftrightarrow> m_read_evs t = m_read_evs s"
  by (simp add: keeps_queue_def)

lemma keeps_queue_from: "keeps_queue t r \<Longrightarrow> m_read_evs t = m_read_evs s \<Longrightarrow> keeps_queue s r"
  by (simp add: keeps_queue_def)

lemma delete_two_keeps_queue:
  "(\<And>t. keeps_queue t (k t)) \<Longrightarrow> keeps_queue s (and_then (and_then (delete_obj a) (delete_obj b)) k s)"
  by (intro keeps_queue_and_then delete_keeps_queue)

lemma add_event_keeps_queue:
  assumes "no_eintr env"
  shows "keeps_queue s (add_event env fd ev a b et s)"
proof (cases "fd < m_maxfd s \<and> fd > -1 \<and> \<not> in_use (m_ev_hdlrs s ! nat fd)")
  case True
  obtain r w where r: "epoll_control env CTL_ADD fd ev et s = Some (r, s\<lparr>world := w\<rparr>)"
    using epoll_control_returns [OF assms] .
  have "keeps_queue (s\<lparr>world := w\<rparr>) (and_then (and_then (delete_obj a) (delete_obj b)) (\<lambda>s. Some (Runtime_Error, s)) (s\<lparr>world := w\<rparr>))"
    by (rule delete_two_keeps_queue) simp
  from keeps_queue_from [OF this, of s] True r show ?thesis by (simp add: add_event_def)
qed (simp add: add_event_def)

lemma Add_keeps_queue: "no_eintr env \<Longrightarrow> keeps_queue s (Add env fd ev args et s)"
proof -
  assume e: "no_eintr env"
  have "keeps_queue s (add_new env fd ev x y et s)" for x y
    unfolding add_new_def new_obj_def
    by (simp, rule keeps_queue_from [OF add_event_keeps_queue [OF e]]) simp
  then show ?thesis by (cases args) simp_all
qed

lemma Remove_keeps_queue:
  assumes "no_eintr env"
  shows "keeps_queue s (Remove env fd s)"
proof (cases "registered s fd")
  case True
  let ?h = "hdlr s (nat fd)"
  let ?s = "s\<lparr>m_ev_hdlrs := (m_ev_hdlrs s)[nat fd := ?h\<lparr>in_use := False\<rparr>]\<rparr>"
  let ?k = "\<lambda>t. Option.bind (epoll_control env CTL_DEL fd EventIn False (t\<lparr>m_ev_num := m_ev_num t - 1\<rparr>))
    (\<lambda>(_, s). Some (Normal, s))"
  have "keeps_queue t (?k t)" for t
  proof -
    obtain r w where "epoll_control env CTL_DEL fd EventIn False (t\<lparr>m_ev_num := m_ev_num t - 1\<rparr>) =
        Some (r, t\<lparr>m_ev_num := m_ev_num t - 1, world := w\<rparr>)"
      using epoll_control_returns [OF assms] .
    then show ?thesis by simp
  qed
  from keeps_queue_from [OF delete_two_keeps_queue [OF this, where s = ?s], of s "in_cb ?h" "out_cb ?h"] True
  show ?thesis by (simp add: Remove_def Let_def)
qed (simp add: Remove_def)

lemma Modify_keeps_queue:
  assumes "no_eintr env"
  shows "keeps_queue s (Modify env fd ev s)"
proof -
  obtain r w where "epoll_control env CTL_MOD fd ev (use_et (hdlr s (nat fd))) s = Some (r, s\<lparr>world := w\<rparr>)"
    using epoll_control_returns [OF assms] .
  then show ?thesis by (simp add: Modify_def)
qed

lemma api_keeps_queue: "no_eintr env \<Longrightarrow> \<not> reports c \<Longrightarrow> keeps_queue s (api env c s)"
  by (cases c) (simp_all add: Add_keeps_queue Modify_keeps_queue Remove_keeps_queue AddPlugin_def AddPlugin_obj_def
      install_plugin_def new_obj_def)

lemma api_all_keeps_queue:
  "no_eintr env \<Longrightarrow> \<forall>c \<in> set cs. \<not> reports c \<Longrightarrow> keeps_queue s (api_all env cs s)"
proof (induction cs arbitrary: s)
  case (Cons c cs)
  then show ?case by (auto intro!: keeps_queue_and_then api_keeps_queue)
qed (simp add: keeps_queue_def)

lemma redispatch_returns:
  assumes "no_eintr env" and "\<forall>c w. \<forall>a \<in> set (fst (snd (user env c w))). \<not> reports a"
  shows "m_read_evs s = q \<Longrightarrow> \<exists>r. redispatch_in_events env s = Some r"
proof (induction q arbitrary: s)
  case Nil
  then show ?case by (subst redispatch_in_events.simps) simp
next
  case (Cons i q)
  have ex: "keeps_queue t (execute env a t)" for t a
  proof (cases "objs t a")
    case (Some c)
    obtain ps cs w where u: "user env (Execute c) (world t) = (ps, cs, w)" by (cases "user env (Execute c) (world t)")
    have "\<forall>x \<in> set cs. \<not> reports x" using assms(2) u by (metis fst_conv snd_conv)
    from api_all_keeps_queue [OF assms(1) this] Some u show ?thesis by (fastforce simp: execute_def keeps_queue_def)
  qed (simp add: execute_def keeps_queue_def)
  let ?s = "s\<lparr>m_read_evs := q\<rparr>"
  obtain r1 s1 where m: "(if in_use (hdlr ?s i) then execute env (in_cb (hdlr ?s i)) ?s else Some (Normal, ?s)) = Some (r1, s1)"
    "m_read_evs s1 = q" using ex [of ?s "in_cb (hdlr ?s i)"] by (cases "in_use (hdlr ?s i)") (auto simp: keeps_queue_def)
  from Cons.IH [OF m(2)] m(1) Cons.prems show ?case by (subst redispatch_in_events.simps) auto
qed

text \<open>A reader that reports its descriptor again whenever it is run.\<close>

definition insatiable :: "('w, 'f, 'o, 'p) env \<Rightarrow> nat \<Rightarrow> ('w, 'f, 'o, 'p) event_poll \<Rightarrow> bool" where
  "insatiable env i s \<longleftrightarrow> poll_inv s \<and> m_read_evs s = [i] \<and> in_use (hdlr s i) \<and>
     (\<forall>c w. user env c w = ([], [Api_ReportAgainIn (int i)], w))"

lemma insatiable_round:
  assumes "insatiable env i s"
  shows "execute env (in_cb (hdlr s i)) (s\<lparr>m_read_evs := []\<rparr>) = Some (Normal, s)"
proof -
  have inv: "poll_inv s" and q: "m_read_evs s = [i]" and u: "in_use (hdlr s i)" using assms by (simp_all add: insatiable_def)
  have i: "i < length (m_ev_hdlrs s)" using poll_invD(6) [OF inv] q by simp
  obtain c where c: "objs s (in_cb (hdlr s i)) = Some c" using live_handler(1) [OF inv i u] by blast
  have "registered (s\<lparr>m_read_evs := []\<rparr>) (int i)" using i u poll_invD(1) [OF inv] by (simp add: registered_def)
  then show ?thesis
    using assms c q by (simp add: execute_def insatiable_def fun_upd_idem ReportAgainIn_def)
qed

lemma insatiable_never_returns:
  assumes "insatiable env i s"
  shows "redispatch_in_events env s = None"
proof -
  have "\<not> insatiable env i s" if "redispatch_in_events env s = Some r" for r
    using that
  proof (rule redispatch_in_events.raw_induct [where P = "\<lambda>env s r. \<not> insatiable env i s", rotated], goal_cases)
    case (1 f env s r)
    show ?case
    proof
      assume k: "insatiable env i s"
      then have "m_read_evs s = [i]" "in_use (hdlr s i)" by (simp_all add: insatiable_def)
      with 1(2) insatiable_round [OF k] have "f env s = Some r" by simp
      with 1(1) k show False by blast
    qed
  qed
  with assms show ?thesis by (cases "redispatch_in_events env s") auto
qed

text \<open>
  C37: redispatching ends unless a reader keeps reporting. If no user function calls
  \<open>ReportAgainIn\<close> and \<open>epoll_ctl\<close> is not interrupted, \<open>redispatch_in_events\<close> returns, however long the
  queue. A reader that reports its descriptor again each time it is run is run again at once, for ever:
  \<open>Dispatch\<close> never comes back to \<open>epoll_wait\<close> and no other descriptor is served.
\<close>

theorem redispatch_termination:
  assumes "no_eintr env"
  shows "((\<forall>c w. \<forall>a \<in> set (fst (snd (user env c w))). \<not> reports a) \<longrightarrow> (\<exists>r. redispatch_in_events env s = Some r)) \<and>
    (insatiable env i s \<longrightarrow> redispatch_in_events env s = None)"
  using redispatch_returns [OF assms _ refl, of s] insatiable_never_returns [of env i s] by blast

theorem redispatch_termination_witness:
  "\<exists>(env :: (unit, nat, unit, nat) env) s i. no_eintr env \<and> insatiable env i s \<and> redispatch_in_events env s = None"
proof -
  define env :: "(unit, nat, unit, nat) env" where
    "env = demo_env\<lparr>user := (\<lambda>c w. ([], [Api_ReportAgainIn 3], w))\<rparr>"
  let ?r = "api_all env [Api_Add 3 EventIn (Args0 1 2) True, Api_ReportAgainIn 3] (EventPoll 8 (-1) ())"
  have "map_option (\<lambda>(r, s). (r, m_read_evs s, in_use (hdlr s 3))) ?r = Some (Normal, [3], True)"
    unfolding env_def demo_env_def by code_simp
  then obtain s where s: "?r = Some (Normal, s)" "m_read_evs s = [3]" "in_use (hdlr s 3)" by (cases ?r) auto
  have "m_maxfd (EventPoll 8 (-1) ()) = 8" by (simp add: EventPoll_def)
  then have "poll_inv s" using api_all_safe [OF EventPoll_inv, of 8 "-1" "()" 8 env] s(1) by (metis safe_result_simps(3))
  then have k: "insatiable env 3 s" using s(2,3) by (simp add: insatiable_def env_def)
  have n: "no_eintr env" by (simp add: no_eintr_def env_def demo_env_def)
  from redispatch_termination [OF n, of s 3] n k show ?thesis by blast
qed

end
