(* ===== verification/Worker_Queue.thy ===== *)
theory Worker_Queue
  imports Prelude "HOL-Library.Multiset"
begin

text \<open>
  The part that \<open>thread/thread_pool.h\<close> and \<open>thread/thread_pool_ex.cpp\<close> have in common, code that the
  two classes repeat almost literally: the task queue, the set of workers and the worker's waiting
  loop. Every critical section of the queue mutex is one step; a worker is represented by the place
  where its thread stands. \<open>Waiting b\<close> is a thread blocked on the condition variable, \<open>b\<close> telling
  whether it has been notified; \<open>TimedOut\<close> is a thread whose \<open>wait_for\<close> has run out and that has not
  got the mutex yet. The records are extended by the two pools, so all functions are polymorphic in
  the extension.
\<close>

section \<open>State\<close>

datatype 'i phase = Ready | Waiting bool | TimedOut | Working 'i | Returned

record 'i wrk =
  phase :: "'i phase"
  keepInPool :: bool

record 'i workq =
  maxThreadNum :: u64
  dataQueue :: "'i list"
  workers :: "'i wrk list"
  allWorkers :: "nat list"
  freeWorkerNum :: u64
  stop :: bool

text \<open>What is observed of a step: a task enters the queue, a worker takes it, a worker is done with it.\<close>

datatype 'i ev = Accept 'i | Take 'i | Finish 'i

definition set_phase :: "nat \<Rightarrow> 'i phase \<Rightarrow> ('i, 'z) workq_scheme \<Rightarrow> ('i, 'z) workq_scheme" where
  "set_phase i p s = s\<lparr>workers := (workers s)[i := (workers s ! i)\<lparr>phase := p\<rparr>]\<rparr>"

section \<open>Operations\<close>

definition create_worker :: "bool \<Rightarrow> ('i, 'z) workq_scheme \<Rightarrow> ('i, 'z) workq_scheme" where
  "create_worker keep s =
     s\<lparr>workers := workers s @ [\<lparr>phase = Ready, keepInPool = keep\<rparr>], allWorkers := length (workers s) # allWorkers s\<rparr>"

text \<open>\<open>notify_one\<close> wakes some blocked thread, if there is one; which one is the choice \<open>k\<close>.\<close>

definition blocked :: "('i, 'z) workq_scheme \<Rightarrow> nat \<Rightarrow> bool" where
  "blocked s i \<longleftrightarrow> i < length (workers s) \<and> phase (workers s ! i) = Waiting False"

definition may_notify :: "('i, 'z) workq_scheme \<Rightarrow> nat option \<Rightarrow> bool" where
  "may_notify s k \<longleftrightarrow>
     (case k of None \<Rightarrow> \<not> (\<exists>i < length (workers s). blocked s i) | Some i \<Rightarrow> blocked s i)"

definition notify_one :: "nat option \<Rightarrow> ('i, 'z) workq_scheme \<Rightarrow> ('i, 'z) workq_scheme" where
  "notify_one k s = (case k of None \<Rightarrow> s | Some i \<Rightarrow> set_phase i (Waiting True) s)"

definition notify_phase :: "'i phase \<Rightarrow> 'i phase" where
  "notify_phase p = (if p = Waiting False then Waiting True else p)"

definition notify_all :: "('i, 'z) workq_scheme \<Rightarrow> ('i, 'z) workq_scheme" where
  "notify_all s = s\<lparr>workers := map (\<lambda>w. w\<lparr>phase := notify_phase (phase w)\<rparr>) (workers s)\<rparr>"

text \<open>The critical section of \<open>Run\<close>, up to the notification; \<open>create\<close> is the pool's \<open>createWorker\<close>.\<close>

definition enqueue ::
  "(bool \<Rightarrow> ('i, 'z) workq_scheme \<Rightarrow> ('i, 'z) workq_scheme) \<Rightarrow> 'i \<Rightarrow> ('i, 'z) workq_scheme \<Rightarrow> ('i, 'z) workq_scheme" where
  "enqueue create task s =
     (let s = (if unat (freeWorkerNum s) \<le> length (dataQueue s) \<and> length (allWorkers s) < unat (maxThreadNum s)
               then create False s else s)
      in s\<lparr>dataQueue := dataQueue s @ [task]\<rparr>)"

text \<open>
  The head of the loop of \<open>Worker::run\<close>, with the mutex held: take a task, or return, or count oneself
  as free and block.
\<close>

definition loop_top :: "nat \<Rightarrow> ('i, 'z) workq_scheme \<Rightarrow> 'i ev list \<times> ('i, 'z) workq_scheme" where
  "loop_top i s =
     (case dataQueue s of
        t # q \<Rightarrow> ([Take t], set_phase i (Working t) (s\<lparr>dataQueue := q\<rparr>))
      | [] \<Rightarrow>
          if stop s then ([], set_phase i Returned s)
          else ([], set_phase i (Waiting False) (s\<lparr>freeWorkerNum := freeWorkerNum s + 1\<rparr>)))"

text \<open>A blocked thread gets the mutex back.\<close>

definition wake_up :: "nat \<Rightarrow> ('i, 'z) workq_scheme \<Rightarrow> 'i ev list \<times> ('i, 'z) workq_scheme" where
  "wake_up i s = loop_top i (s\<lparr>freeWorkerNum := freeWorkerNum s - 1\<rparr>)"

text \<open>A thread whose \<open>wait_for\<close> timed out gets the mutex back.\<close>

definition leave :: "nat \<Rightarrow> ('i, 'z) workq_scheme \<Rightarrow> ('i, 'z) workq_scheme" where
  "leave i s =
     (if \<not> stop s
      then set_phase i Returned (s\<lparr>allWorkers := remove1 i (allWorkers s), freeWorkerNum := freeWorkerNum s - 1\<rparr>)
      else set_phase i Returned s)"

text \<open>\<open>Stop\<close>, for the first caller: announce the end; after joining all threads, forget the workers.\<close>

definition stop_begin :: "('i, 'z) workq_scheme \<Rightarrow> ('i, 'z) workq_scheme" where
  "stop_begin s = notify_all (s\<lparr>stop := True\<rparr>)"

definition joinable :: "('i, 'z) workq_scheme \<Rightarrow> bool" where
  "joinable s \<longleftrightarrow> (\<forall>i \<in> set (allWorkers s). phase (workers s ! i) = Returned)"

definition stop_end :: "('i, 'z) workq_scheme \<Rightarrow> ('i, 'z) workq_scheme" where
  "stop_end s = s\<lparr>allWorkers := [], freeWorkerNum := 0\<rparr>"

text \<open>The constructor: \<open>minThreadNum\<close> workers that stay in the pool.\<close>

definition new_queue :: "int \<Rightarrow> 'i workq" where
  "new_queue maxNum = \<lparr>maxThreadNum = of_int maxNum, dataQueue = [], workers = [], allWorkers = [], freeWorkerNum = 0, stop = False\<rparr>"

definition init_queue :: "nat \<Rightarrow> int \<Rightarrow> 'i workq" where
  "init_queue n maxNum = (create_worker True ^^ n) (new_queue maxNum)"

section \<open>The queue as a transition system\<close>

inductive wq_step :: "'i workq \<Rightarrow> 'i ev list \<Rightarrow> 'i workq \<Rightarrow> bool" where
  run: "\<not> stop s \<Longrightarrow> may_notify (enqueue create_worker t s) k \<Longrightarrow>
    wq_step s [Accept t] (notify_one k (enqueue create_worker t s))"
| go: "i < length (workers s) \<Longrightarrow> phase (workers s ! i) = Ready \<Longrightarrow> loop_top i s = (es, s') \<Longrightarrow> wq_step s es s'"
| wake: "i < length (workers s) \<Longrightarrow> phase (workers s ! i) = Waiting b \<Longrightarrow> wake_up i s = (es, s') \<Longrightarrow> wq_step s es s'"
| time_out: "i < length (workers s) \<Longrightarrow> phase (workers s ! i) = Waiting False \<Longrightarrow> \<not> keepInPool (workers s ! i) \<Longrightarrow>
    wq_step s [] (set_phase i TimedOut s)"
| leave: "i < length (workers s) \<Longrightarrow> phase (workers s ! i) = TimedOut \<Longrightarrow> wq_step s [] (leave i s)"
| finish: "i < length (workers s) \<Longrightarrow> phase (workers s ! i) = Working t \<Longrightarrow> wq_step s [Finish t] (set_phase i Ready s)"
| stop_begin: "\<not> stop s \<Longrightarrow> wq_step s [] (stop_begin s)"
| stop_end: "stop s \<Longrightarrow> joinable s \<Longrightarrow> wq_step s [] (stop_end s)"

inductive wq_reach :: "nat \<Rightarrow> int \<Rightarrow> 'i ev list \<Rightarrow> 'i workq \<Rightarrow> bool" for n m where
  init: "wq_reach n m [] (init_queue n m)"
| step: "wq_reach n m tr s \<Longrightarrow> wq_step s es s' \<Longrightarrow> wq_reach n m (tr @ es) s'"

definition accepted :: "'i ev list \<Rightarrow> 'i list" where
  "accepted tr = concat (map (\<lambda>e. case e of Accept t \<Rightarrow> [t] | _ \<Rightarrow> []) tr)"

definition taken :: "'i ev list \<Rightarrow> 'i list" where
  "taken tr = concat (map (\<lambda>e. case e of Take t \<Rightarrow> [t] | _ \<Rightarrow> []) tr)"

definition finished :: "'i ev list \<Rightarrow> 'i list" where
  "finished tr = concat (map (\<lambda>e. case e of Finish t \<Rightarrow> [t] | _ \<Rightarrow> []) tr)"

lemma trace_simps [simp]:
  "accepted [] = []" "taken [] = []" "finished [] = []"
  "accepted (tr @ tr') = accepted tr @ accepted tr'" "taken (tr @ tr') = taken tr @ taken tr'"
  "finished (tr @ tr') = finished tr @ finished tr'"
  "accepted (Accept t # tr) = t # accepted tr" "accepted (Take t # tr) = accepted tr" "accepted (Finish t # tr) = accepted tr"
  "taken (Accept t # tr) = taken tr" "taken (Take t # tr) = t # taken tr" "taken (Finish t # tr) = taken tr"
  "finished (Accept t # tr) = finished tr" "finished (Take t # tr) = finished tr" "finished (Finish t # tr) = t # finished tr"
  by (simp_all add: accepted_def taken_def finished_def)

section \<open>Counting workers\<close>

abbreviation ph :: "('i, 'z) workq_scheme \<Rightarrow> nat \<Rightarrow> 'i phase" where
  "ph s i \<equiv> phase (workers s ! i)"

definition waiting_phase :: "'i phase \<Rightarrow> bool" where
  "waiting_phase p \<longleftrightarrow> (case p of Waiting _ \<Rightarrow> True | TimedOut \<Rightarrow> True | _ \<Rightarrow> False)"

definition task_of :: "'i phase \<Rightarrow> 'i list" where
  "task_of p = (case p of Working t \<Rightarrow> [t] | _ \<Rightarrow> [])"

definition waiting :: "('i, 'z) workq_scheme \<Rightarrow> nat" where
  "waiting s = length (filter (\<lambda>w. waiting_phase (phase w)) (workers s))"

definition working :: "('i, 'z) workq_scheme \<Rightarrow> 'i list" where
  "working s = concat (map (\<lambda>w. task_of (phase w)) (workers s))"

lemma phase_simps [simp]:
  "waiting_phase (Waiting b)" "waiting_phase TimedOut" "\<not> waiting_phase Ready" "\<not> waiting_phase (Working t)"
  "\<not> waiting_phase Returned" "task_of (Working t) = [t]" "task_of Ready = []" "task_of (Waiting b) = []"
  "task_of TimedOut = []" "task_of Returned = []"
  by (simp_all add: waiting_phase_def task_of_def)

lemma set_phase_fields [simp]:
  "maxThreadNum (set_phase i p s) = maxThreadNum s" "dataQueue (set_phase i p s) = dataQueue s"
  "allWorkers (set_phase i p s) = allWorkers s" "freeWorkerNum (set_phase i p s) = freeWorkerNum s"
  "stop (set_phase i p s) = stop s" "length (workers (set_phase i p s)) = length (workers s)"
  by (simp_all add: set_phase_def)

lemma set_phase_ph: "j < length (workers s) \<Longrightarrow> ph (set_phase i p s) j = (if j = i then p else ph s j)"
  by (simp add: set_phase_def nth_list_update)

lemma set_phase_keep [simp]: "j < length (workers s) \<Longrightarrow> keepInPool (workers (set_phase i p s) ! j) = keepInPool (workers s ! j)"
  by (cases "i = j") (simp_all add: set_phase_def)

lemma worker_split:
  assumes "i < length ws"
  obtains A B where "ws = A @ ws ! i # B" "\<forall>w. ws[i := w] = A @ w # B"
  using assms id_take_nth_drop [OF assms] upd_conv_take_nth_drop [OF assms] that by metis

lemma waiting_set_phase:
  assumes "i < length (workers s)"
  shows "waiting (set_phase i p s) + of_bool (waiting_phase (ph s i)) = waiting s + of_bool (waiting_phase p)"
proof -
  obtain A B where w: "workers s = A @ workers s ! i # B" and u: "\<forall>w. (workers s)[i := w] = A @ w # B"
    using worker_split [OF assms] .
  have "waiting s = length (filter (\<lambda>w. waiting_phase (phase w)) (A @ workers s ! i # B))"
    unfolding waiting_def by (subst w) simp
  then show ?thesis by (simp add: waiting_def set_phase_def u)
qed

lemma working_set_phase:
  assumes "i < length (workers s)"
  shows "mset (working (set_phase i p s)) + mset (task_of (ph s i)) = mset (working s) + mset (task_of p)"
proof -
  obtain A B where w: "workers s = A @ workers s ! i # B" and u: "\<forall>w. (workers s)[i := w] = A @ w # B"
    using worker_split [OF assms] .
  have "working s = concat (map (\<lambda>w. task_of (phase w)) (A @ workers s ! i # B))"
    unfolding working_def by (subst w) simp
  then show ?thesis by (simp add: working_def set_phase_def u)
qed

lemma counts_cong [simp]:
  "waiting (s\<lparr>dataQueue := q\<rparr>) = waiting s" "waiting (s\<lparr>freeWorkerNum := n\<rparr>) = waiting s"
  "waiting (s\<lparr>allWorkers := as\<rparr>) = waiting s" "waiting (s\<lparr>stop := b\<rparr>) = waiting s"
  "working (s\<lparr>dataQueue := q\<rparr>) = working s" "working (s\<lparr>freeWorkerNum := n\<rparr>) = working s"
  "working (s\<lparr>allWorkers := as\<rparr>) = working s" "working (s\<lparr>stop := b\<rparr>) = working s"
  by (simp_all add: waiting_def working_def)

lemma create_worker_simps [simp]:
  "maxThreadNum (create_worker k s) = maxThreadNum s" "dataQueue (create_worker k s) = dataQueue s"
  "freeWorkerNum (create_worker k s) = freeWorkerNum s" "stop (create_worker k s) = stop s"
  "length (workers (create_worker k s)) = Suc (length (workers s))"
  "allWorkers (create_worker k s) = length (workers s) # allWorkers s"
  "waiting (create_worker k s) = waiting s" "working (create_worker k s) = working s"
  by (simp_all add: create_worker_def waiting_def working_def)

lemma create_worker_nth:
  "j < Suc (length (workers s)) \<Longrightarrow> workers (create_worker k s) ! j =
     (if j = length (workers s) then \<lparr>phase = Ready, keepInPool = k\<rparr> else workers s ! j)"
  by (auto simp: create_worker_def nth_append)

lemma notify_all_simps [simp]:
  "maxThreadNum (notify_all s) = maxThreadNum s" "dataQueue (notify_all s) = dataQueue s"
  "allWorkers (notify_all s) = allWorkers s" "freeWorkerNum (notify_all s) = freeWorkerNum s"
  "stop (notify_all s) = stop s" "length (workers (notify_all s)) = length (workers s)"
  by (simp_all add: notify_all_def)

lemma notify_all_nth:
  "j < length (workers s) \<Longrightarrow> ph (notify_all s) j = notify_phase (ph s j) \<and>
     keepInPool (workers (notify_all s) ! j) = keepInPool (workers s ! j)"
  by (simp add: notify_all_def)

lemma notify_phase_same [simp]:
  "task_of (notify_phase p) = task_of p" "waiting_phase (notify_phase p) = waiting_phase p"
  "notify_phase p = Returned \<longleftrightarrow> p = Returned" "notify_phase p = TimedOut \<longleftrightarrow> p = TimedOut" "notify_phase p \<noteq> Waiting False"
  by (auto simp: notify_phase_def)

lemma notify_all_counts [simp]: "waiting (notify_all s) = waiting s" "working (notify_all s) = working s"
  by (simp_all add: waiting_def working_def notify_all_def filter_map comp_def)

section \<open>Invariants\<close>

text \<open>The set of workers: who is in it, how many there are, how many are free.\<close>

definition wq_struct :: "'i workq \<Rightarrow> bool" where
  "wq_struct s \<longleftrightarrow> distinct (allWorkers s) \<and> (\<forall>i \<in> set (allWorkers s). i < length (workers s)) \<and>
     (\<forall>i < length (workers s). ph s i \<noteq> Returned \<longrightarrow> i \<in> set (allWorkers s)) \<and>
     (\<not> stop s \<longrightarrow> (\<forall>i \<in> set (allWorkers s). ph s i \<noteq> Returned)) \<and>
     (\<not> stop s \<longrightarrow> unat (freeWorkerNum s) = waiting s) \<and> length (allWorkers s) \<le> unat (maxThreadNum s)"

text \<open>The tasks: taken in the order of their acceptance, each by one worker.\<close>

definition wq_tasks :: "'i ev list \<Rightarrow> 'i workq \<Rightarrow> bool" where
  "wq_tasks tr s \<longleftrightarrow> accepted tr = taken tr @ dataQueue s \<and> mset (taken tr) = mset (working s) + mset (finished tr)"

text \<open>The workers that stay in the pool leave only when it is stopped and the queue is empty.\<close>

definition wq_kept :: "'i workq \<Rightarrow> bool" where
  "wq_kept s \<longleftrightarrow> (\<forall>i < length (workers s). keepInPool (workers s ! i) \<longrightarrow>
     ph s i \<noteq> TimedOut \<and> (ph s i = Returned \<longrightarrow> stop s \<and> dataQueue s = []))"

text \<open>No lost wake-up: while tasks are queued, somebody is on his way, or nobody is left to be woken.\<close>

definition active :: "'i phase \<Rightarrow> bool" where
  "active p \<longleftrightarrow> (case p of Ready \<Rightarrow> True | Waiting b \<Rightarrow> b | Working t \<Rightarrow> True | _ \<Rightarrow> False)"

definition wq_wake :: "'i workq \<Rightarrow> bool" where
  "wq_wake s \<longleftrightarrow> (stop s \<longrightarrow> (\<forall>i < length (workers s). ph s i \<noteq> Waiting False)) \<and>
     (dataQueue s \<noteq> [] \<longrightarrow> (\<exists>i < length (workers s). active (ph s i)) \<or> (\<forall>i < length (workers s). ph s i \<noteq> Waiting False))"

lemma active_simps [simp]:
  "active Ready" "active (Working t)" "active (Waiting b) \<longleftrightarrow> b" "\<not> active TimedOut" "\<not> active Returned"
  by (simp_all add: active_def)

lemma waiting_bound:
  assumes "wq_struct s"
  shows "waiting s \<le> length (allWorkers s)"
    "i < length (workers s) \<Longrightarrow> ph s i = Ready \<Longrightarrow> waiting s < length (allWorkers s)"
proof -
  let ?W = "{i. i < length (workers s) \<and> waiting_phase (ph s i)}"
  have c: "waiting s = card ?W" by (simp add: waiting_def length_filter_conv_card)
  have all: "j \<in> set (allWorkers s)" if "j < length (workers s)" "ph s j \<noteq> Returned" for j
    using assms that unfolding wq_struct_def by blast
  have sub: "?W \<subseteq> set (allWorkers s)"
  proof
    fix j assume "j \<in> ?W"
    then show "j \<in> set (allWorkers s)" by (intro all) auto
  qed
  have "distinct (allWorkers s)" using assms by (simp add: wq_struct_def)
  then have n: "card (set (allWorkers s)) = length (allWorkers s)" by (rule distinct_card)
  show "waiting s \<le> length (allWorkers s)" using card_mono [OF finite_set sub] c n by simp
  assume i: "i < length (workers s)" "ph s i = Ready"
  then have "i \<in> set (allWorkers s)" "i \<notin> ?W" using all by simp_all
  with sub have "?W \<subset> set (allWorkers s)" by blast
  then show "waiting s < length (allWorkers s)" using psubset_card_mono [OF finite_set] c n by metis
qed

text \<open>What the head of the loop preserves, on entry from outside and after waiting.\<close>

definition entering :: "nat \<Rightarrow> 'i workq \<Rightarrow> bool" where
  "entering i s \<longleftrightarrow> i < length (workers s) \<and> (\<exists>b. ph s i = Ready \<or> ph s i = Waiting b) \<and>
     wq_struct (s\<lparr>freeWorkerNum := freeWorkerNum s + of_bool (waiting_phase (ph s i))\<rparr>)"

lemma loop_top_eq:
  "loop_top i s =
     (if dataQueue s \<noteq> [] then ([Take (hd (dataQueue s))], set_phase i (Working (hd (dataQueue s))) (s\<lparr>dataQueue := tl (dataQueue s)\<rparr>))
      else if stop s then ([], set_phase i Returned s)
      else ([], set_phase i (Waiting False) (s\<lparr>freeWorkerNum := freeWorkerNum s + 1\<rparr>)))"
  by (simp add: loop_top_def split: list.split)

lemma unat_plus1: "unat (n :: u64) < k \<Longrightarrow> k \<le> unat (m :: u64) \<Longrightarrow> unat (n + 1) = unat n + 1"
  using unsigned_less [of m, where ?'a = nat] by (subst unat_plus_small) simp_all

lemma unat_minus1: "0 < unat (n :: u64) \<Longrightarrow> unat (n - 1) = unat n - 1"
  by (subst unat_minus_small) (simp_all add: word_le_nat_alt)

lemma wq_struct_phase:
  assumes "wq_struct s" and "i < length (workers s)" and "p \<noteq> Returned \<and> ph s i \<noteq> Returned \<or> stop s"
    and "p = Returned \<or> ph s i \<noteq> Returned"
    and "\<not> stop s \<Longrightarrow> unat n = waiting (set_phase i p s)"
  shows "wq_struct (set_phase i p (s\<lparr>freeWorkerNum := n, dataQueue := q\<rparr>))"
proof -
  have w: "waiting (set_phase i p (s\<lparr>freeWorkerNum := n, dataQueue := q\<rparr>)) = waiting (set_phase i p s)"
    by (simp add: waiting_def set_phase_def)
  have p: "ph (set_phase i p (s\<lparr>freeWorkerNum := n, dataQueue := q\<rparr>)) j = (if j = i then p else ph s j)"
    if "j < length (workers s)" for j using that by (simp add: set_phase_ph)
  show ?thesis using assms unfolding wq_struct_def by (simp add: p w) auto
qed

lemma wq_struct_free:
  assumes "wq_struct s" and "\<not> stop s"
  shows "unat (freeWorkerNum s) = waiting s"
  using assms by (simp add: wq_struct_def)

lemma loop_top_struct:
  assumes "entering i s"
  shows "wq_struct (snd (loop_top i s))"
proof -
  let ?f = "freeWorkerNum s + of_bool (waiting_phase (ph s i))"
  let ?s = "s\<lparr>freeWorkerNum := ?f\<rparr>"
  have i: "i < length (workers s)" and st: "wq_struct ?s" and p: "ph s i \<noteq> Returned"
    using assms by (auto simp: entering_def)
  have free: "unat (freeWorkerNum s) + of_bool (waiting_phase (ph s i)) = waiting s" if "\<not> stop s"
  proof -
    have f: "unat ?f = waiting s" using wq_struct_free [OF st] that by simp
    show ?thesis
    proof (cases "waiting_phase (ph s i)")
      case True
      then have "0 < waiting s" using nth_mem [OF i] by (auto simp: waiting_def filter_empty_conv)
      with f True have "unat (freeWorkerNum s + 1 - 1) = unat (freeWorkerNum s + 1) - 1" by (intro unat_minus1) simp
      with f True \<open>0 < waiting s\<close> show ?thesis by simp
    qed (use f in simp)
  qed
  consider "dataQueue s \<noteq> []" | "dataQueue s = []" "stop s" | "dataQueue s = []" "\<not> stop s" by blast
  then show ?thesis
  proof cases
    case 1
    have "wq_struct (set_phase i (Working (hd (dataQueue s))) (?s\<lparr>freeWorkerNum := freeWorkerNum s, dataQueue := tl (dataQueue s)\<rparr>))"
      using i p st free waiting_set_phase [of i s "Working (hd (dataQueue s))"]
      by (intro wq_struct_phase) (auto simp: set_phase_def waiting_def)
    then show ?thesis using 1 by (simp add: loop_top_eq)
  next
    case 2
    have "wq_struct (set_phase i Returned (?s\<lparr>freeWorkerNum := freeWorkerNum s, dataQueue := dataQueue s\<rparr>))"
      using i st 2 by (intro wq_struct_phase) auto
    then have "wq_struct (set_phase i Returned s)" by simp
    then show ?thesis using 2 by (simp add: loop_top_eq)
  next
    case 3
    have "unat (freeWorkerNum s) < length (allWorkers s)"
    proof (cases "waiting_phase (ph s i)")
      case True
      with free [OF 3(2)] waiting_bound(1) [OF st] show ?thesis by simp
    next
      case False
      then have "ph s i = Ready" using assms by (auto simp: entering_def)
      with free [OF 3(2)] waiting_bound(2) [OF st, of i] i show ?thesis by simp
    qed
    moreover have "length (allWorkers s) \<le> unat (maxThreadNum s)" using st by (simp add: wq_struct_def)
    ultimately have "unat (freeWorkerNum s + 1) = unat (freeWorkerNum s) + 1" using unat_plus1 by blast
    then have "wq_struct (set_phase i (Waiting False) (?s\<lparr>freeWorkerNum := freeWorkerNum s + 1, dataQueue := dataQueue s\<rparr>))"
      using i p st free [OF 3(2)] waiting_set_phase [of i s "Waiting False"]
      by (intro wq_struct_phase) (auto simp: set_phase_def waiting_def)
    then have "wq_struct (set_phase i (Waiting False) (s\<lparr>freeWorkerNum := freeWorkerNum s + 1\<rparr>))" by simp
    then show ?thesis using 3 by (simp add: loop_top_eq)
  qed
qed

lemma loop_top_tasks:
  assumes "i < length (workers s)" and "task_of (ph s i) = []" and "wq_tasks tr s"
  shows "wq_tasks (tr @ fst (loop_top i s)) (snd (loop_top i s))"
proof (cases "dataQueue s")
  case Nil
  have "mset (working (set_phase i p (s\<lparr>freeWorkerNum := n\<rparr>))) = mset (working s)" if "task_of p = []" for p n
    using working_set_phase [of i "s\<lparr>freeWorkerNum := n\<rparr>" p] assms(1,2) that by simp
  from this [of Returned "freeWorkerNum s"] this [of "Waiting False"] assms(3) Nil show ?thesis
    by (auto simp: loop_top_eq wq_tasks_def)
next
  case (Cons t q)
  have "mset (working (set_phase i (Working t) (s\<lparr>dataQueue := q\<rparr>))) = mset (working s) + {#t#}"
    using working_set_phase [of i "s\<lparr>dataQueue := q\<rparr>" "Working t"] assms(1,2) by simp
  with assms(3) Cons show ?thesis by (simp add: loop_top_eq wq_tasks_def)
qed

lemma loop_top_kept:
  assumes "i < length (workers s)" and "wq_kept s"
  shows "wq_kept (snd (loop_top i s))"
  using assms by (auto simp: loop_top_eq wq_kept_def set_phase_ph)

lemma loop_top_wake:
  assumes "i < length (workers s)" and "wq_wake s"
  shows "wq_wake (snd (loop_top i s))"
proof (cases "dataQueue s")
  case Nil
  with assms show ?thesis by (auto simp: loop_top_eq wq_wake_def set_phase_ph)
next
  case (Cons t q)
  then have "\<exists>j < length (workers s). active (ph (snd (loop_top i s)) j)"
    using assms(1) by (intro exI [of _ i]) (simp add: loop_top_eq set_phase_ph)
  with assms Cons show ?thesis by (auto simp: loop_top_eq wq_wake_def set_phase_ph)
qed

lemmas loop_top_invs = loop_top_struct loop_top_tasks loop_top_kept loop_top_wake

definition wq_inv :: "'i ev list \<Rightarrow> 'i workq \<Rightarrow> bool" where
  "wq_inv tr s \<longleftrightarrow> wq_struct s \<and> wq_tasks tr s \<and> wq_kept s \<and> wq_wake s"

lemma loop_top_inv:
  assumes "wq_inv tr s" and "i < length (workers s)" and "ph s i = Ready" and "loop_top i s = (es, s')"
  shows "wq_inv (tr @ es) s'"
proof -
  have "entering i s" using assms(1-3) by (simp add: entering_def wq_inv_def)
  with assms show ?thesis using loop_top_invs [of i s] by (auto simp: wq_inv_def)
qed

lemma wake_up_inv:
  assumes "wq_inv tr s" and "i < length (workers s)" and "ph s i = Waiting b" and "wake_up i s = (es, s')"
  shows "wq_inv (tr @ es) s'"
proof -
  let ?s = "s\<lparr>freeWorkerNum := freeWorkerNum s - 1\<rparr>"
  have "entering i ?s" using assms(1-3) by (auto simp: entering_def wq_inv_def)
  moreover have "wq_tasks tr ?s" "wq_kept ?s" "wq_wake ?s"
    using assms(1) by (simp_all add: wq_inv_def wq_tasks_def wq_kept_def wq_wake_def)
  ultimately show ?thesis using assms(2-4) loop_top_invs [of i ?s] by (auto simp: wq_inv_def wake_up_def)
qed

lemma create_worker_inv:
  assumes "wq_inv tr s" and "length (allWorkers s) < unat (maxThreadNum s)" and "\<not> stop s"
  shows "wq_inv tr (create_worker k s)"
proof -
  let ?s = "create_worker k s" and ?n = "length (workers s)"
  have nth: "workers ?s ! j = (if j = ?n then \<lparr>phase = Ready, keepInPool = k\<rparr> else workers s ! j)" if "j \<le> ?n" for j
    using that create_worker_nth [of j s k] by simp
  have st: "wq_struct s" and tk: "wq_tasks tr s" and ke: "wq_kept s" and wa: "wq_wake s" using assms(1) by (simp_all add: wq_inv_def)
  have "?n \<notin> set (allWorkers s)" using st by (auto simp: wq_struct_def)
  then have "wq_struct ?s" using st assms(2,3) nth by (auto simp: wq_struct_def less_Suc_eq)
  moreover have "wq_tasks tr ?s" using tk by (simp add: wq_tasks_def)
  moreover have "wq_kept ?s" using ke nth by (simp add: wq_kept_def less_Suc_eq_le le_less)
  moreover have "wq_wake ?s" using nth assms(3) unfolding wq_wake_def by (auto intro!: exI [of _ ?n])
  ultimately show ?thesis by (simp add: wq_inv_def)
qed

lemma enqueue_props:
  fixes t :: 'i
  assumes "wq_inv tr s" and "\<not> stop s"
  defines "s' \<equiv> enqueue create_worker t s"
  shows "wq_struct s'" "wq_tasks (tr @ [Accept t]) s'" "wq_kept s'" "\<not> stop s'"
proof -
  define s1 where "s1 = (if unat (freeWorkerNum s) \<le> length (dataQueue s) \<and> length (allWorkers s) < unat (maxThreadNum s)
    then create_worker False s else s)"
  have "wq_inv tr s1" using assms(1) create_worker_inv [OF assms(1) _ assms(2), of False] by (simp add: s1_def)
  moreover have "s' = s1\<lparr>dataQueue := dataQueue s1 @ [t]\<rparr>" by (simp add: s'_def enqueue_def s1_def Let_def)
  moreover have ns: "\<not> stop s1" using assms(2) by (simp add: s1_def)
  ultimately show "wq_struct s'" "wq_tasks (tr @ [Accept t]) s'" "wq_kept s'" "\<not> stop s'"
    by (auto simp: wq_inv_def wq_struct_def wq_tasks_def wq_kept_def)
qed

lemma run_inv:
  assumes "wq_inv tr s" and "\<not> stop s" and "may_notify (enqueue create_worker t s) k"
  shows "wq_inv (tr @ [Accept t]) (notify_one k (enqueue create_worker t s))"
proof -
  let ?s = "enqueue create_worker t s"
  note E = enqueue_props [OF assms(1,2), of t]
  show ?thesis
  proof (cases k)
    case None
    then have "wq_wake ?s" using assms(3) E(4) by (auto simp: wq_wake_def may_notify_def blocked_def)
    with E None show ?thesis by (simp add: wq_inv_def notify_one_def)
  next
    case (Some i)
    then have i: "i < length (workers ?s)" "ph ?s i = Waiting False" using assms(3) by (auto simp: may_notify_def blocked_def)
    let ?s' = "set_phase i (Waiting True) ?s"
    have "wq_struct (set_phase i (Waiting True) (?s\<lparr>freeWorkerNum := freeWorkerNum ?s, dataQueue := dataQueue ?s\<rparr>))"
      using E(1) i wq_struct_free [OF E(1,4)] waiting_set_phase [OF i(1), of "Waiting True"] by (intro wq_struct_phase) auto
    then have "wq_struct ?s'" by simp
    moreover have "wq_tasks (tr @ [Accept t]) ?s'"
      using E(2) working_set_phase [OF i(1), of "Waiting True"] i(2) by (simp add: wq_tasks_def)
    moreover have "wq_kept ?s'" using E(3) by (simp add: wq_kept_def set_phase_ph)
    moreover have "wq_wake ?s'" using E(4) i(1) unfolding wq_wake_def by (auto simp: set_phase_ph intro!: exI [of _ i])
    ultimately show ?thesis using Some by (simp add: wq_inv_def notify_one_def)
  qed
qed

lemma time_out_inv:
  assumes "wq_inv tr s" and "i < length (workers s)" and "ph s i = Waiting False" and "\<not> keepInPool (workers s ! i)"
  shows "wq_inv tr (set_phase i TimedOut s)"
proof -
  have st: "wq_struct s" and tk: "wq_tasks tr s" and ke: "wq_kept s" and wa: "wq_wake s" using assms(1) by (simp_all add: wq_inv_def)
  have "wq_struct (set_phase i TimedOut (s\<lparr>freeWorkerNum := freeWorkerNum s, dataQueue := dataQueue s\<rparr>))"
    using st assms(2,3) wq_struct_free [OF st] waiting_set_phase [OF assms(2), of TimedOut] by (intro wq_struct_phase) auto
  then have "wq_struct (set_phase i TimedOut s)" by simp
  moreover have "wq_tasks tr (set_phase i TimedOut s)"
    using tk working_set_phase [OF assms(2), of TimedOut] assms(3) by (simp add: wq_tasks_def)
  moreover have "wq_kept (set_phase i TimedOut s)" using ke assms(4) by (simp add: wq_kept_def set_phase_ph)
  moreover have "wq_wake (set_phase i TimedOut s)"
    using wa assms(2,3) unfolding wq_wake_def by (auto simp: set_phase_ph) (metis active_simps(3))+
  ultimately show ?thesis by (simp add: wq_inv_def)
qed

lemma leave_struct:
  assumes "wq_struct s" and "i < length (workers s)" and "ph s i = TimedOut"
  shows "wq_struct (leave i s)"
proof (cases "stop s")
  case True
  have "wq_struct (set_phase i Returned (s\<lparr>freeWorkerNum := freeWorkerNum s, dataQueue := dataQueue s\<rparr>))"
    using True assms by (intro wq_struct_phase) auto
  with True show ?thesis by (simp add: leave_def)
next
  case False
  let ?s = "s\<lparr>allWorkers := remove1 i (allWorkers s), freeWorkerNum := freeWorkerNum s - 1\<rparr>"
  have f: "unat (freeWorkerNum s) = waiting s" using wq_struct_free [OF assms(1) False] .
  have w: "waiting (set_phase i Returned ?s) + 1 = waiting s" using waiting_set_phase [of i ?s Returned] assms(2,3) by simp
  then have "unat (freeWorkerNum s - 1) = waiting (set_phase i Returned ?s)" using f by (subst unat_minus1) simp_all
  moreover have "length (remove1 i (allWorkers s)) \<le> unat (maxThreadNum s)"
    using assms(1) length_remove1 [of i "allWorkers s"] by (auto simp: wq_struct_def)
  ultimately show ?thesis
    using assms False by (auto simp: leave_def wq_struct_def set_phase_ph)
qed

lemma leave_inv:
  assumes "wq_inv tr s" and "i < length (workers s)" and "ph s i = TimedOut"
  shows "wq_inv tr (leave i s)"
proof -
  have tk: "wq_tasks tr s" and ke: "wq_kept s" and wa: "wq_wake s" using assms(1) by (simp_all add: wq_inv_def)
  have q: "dataQueue (leave i s) = dataQueue s" "stop (leave i s) = stop s" "length (workers (leave i s)) = length (workers s)"
    by (simp_all add: leave_def)
  have p: "ph (leave i s) j = (if j = i then Returned else ph s j)" "keepInPool (workers (leave i s) ! j) = keepInPool (workers s ! j)"
    if "j < length (workers s)" for j using that by (simp_all add: leave_def set_phase_ph)
  have "mset (working (leave i s)) = mset (working s)"
    using working_set_phase [of i s Returned] working_set_phase [of i "s\<lparr>allWorkers := remove1 i (allWorkers s),
      freeWorkerNum := freeWorkerNum s - 1\<rparr>" Returned] assms(2,3) by (simp add: leave_def)
  then have "wq_tasks tr (leave i s)" using tk by (simp add: wq_tasks_def q)
  moreover have "wq_kept (leave i s)" using ke assms(2,3) by (auto simp: wq_kept_def q p)
  moreover have "wq_wake (leave i s)"
    using wa assms(2,3) unfolding wq_wake_def q by (auto simp: p) (metis active_simps(4) p(1))+
  ultimately show ?thesis using leave_struct assms by (auto simp: wq_inv_def)
qed

lemma finish_inv:
  assumes "wq_inv tr s" and "i < length (workers s)" and "ph s i = Working t"
  shows "wq_inv (tr @ [Finish t]) (set_phase i Ready s)"
proof -
  have st: "wq_struct s" and tk: "wq_tasks tr s" and ke: "wq_kept s" and wa: "wq_wake s" using assms(1) by (simp_all add: wq_inv_def)
  have "wq_struct (set_phase i Ready (s\<lparr>freeWorkerNum := freeWorkerNum s, dataQueue := dataQueue s\<rparr>))"
    using st assms(2,3) wq_struct_free [OF st] waiting_set_phase [OF assms(2), of Ready] by (intro wq_struct_phase) auto
  then have "wq_struct (set_phase i Ready s)" by simp
  moreover have "wq_tasks (tr @ [Finish t]) (set_phase i Ready s)"
    using tk working_set_phase [OF assms(2), of Ready] assms(3) by (simp add: wq_tasks_def)
  moreover have "wq_kept (set_phase i Ready s)" using ke by (simp add: wq_kept_def set_phase_ph)
  moreover have "wq_wake (set_phase i Ready s)"
    using wa assms(2) unfolding wq_wake_def by (auto simp: set_phase_ph intro!: exI [of _ i])
  ultimately show ?thesis by (simp add: wq_inv_def)
qed

lemma stop_begin_inv:
  assumes "wq_inv tr s"
  shows "wq_inv tr (stop_begin s)"
proof -
  let ?s = "s\<lparr>stop := True\<rparr>"
  have p: "ph (notify_all ?s) j = notify_phase (ph s j)" "keepInPool (workers (notify_all ?s) ! j) = keepInPool (workers s ! j)"
    if "j < length (workers s)" for j using notify_all_nth [of j ?s] that by simp_all
  have "wq_struct (notify_all ?s)" using assms unfolding wq_inv_def wq_struct_def by (simp add: p)
  moreover have "wq_tasks tr (notify_all ?s)" using assms by (simp add: wq_inv_def wq_tasks_def)
  moreover have "wq_kept (notify_all ?s)" using assms unfolding wq_inv_def wq_kept_def by (simp add: p)
  moreover have "wq_wake (notify_all ?s)" by (simp add: wq_wake_def p)
  ultimately show ?thesis by (simp add: wq_inv_def stop_begin_def)
qed

lemma stop_end_inv:
  assumes "wq_inv tr s" and "stop s" and "joinable s"
  shows "wq_inv tr (stop_end s)"
proof -
  have "\<forall>i < length (workers s). ph s i = Returned"
    using assms(1,3) unfolding wq_inv_def wq_struct_def joinable_def by blast
  then have "wq_struct (stop_end s)" using assms(2) by (simp add: stop_end_def wq_struct_def)
  with assms show ?thesis by (simp add: wq_inv_def stop_end_def wq_tasks_def wq_kept_def wq_wake_def)
qed

lemma wq_step_inv: "wq_step s es s' \<Longrightarrow> wq_inv tr s \<Longrightarrow> wq_inv (tr @ es) s'"
  by (induction rule: wq_step.induct)
    (simp_all add: run_inv loop_top_inv wake_up_inv time_out_inv leave_inv finish_inv stop_begin_inv stop_end_inv)

section \<open>Reachable states\<close>

lemma init_inv:
  assumes "int n \<le> m" and "m < 2 ^ 31" and "s = (init_queue n m :: 'i workq)"
  shows "wq_inv [] s \<and> \<not> stop s \<and> length (allWorkers s) = n \<and> maxThreadNum s = of_int m"
  using assms
proof (induction n arbitrary: s)
  case 0
  then show ?case
    by (simp add: init_queue_def new_queue_def wq_inv_def wq_struct_def wq_tasks_def wq_kept_def wq_wake_def
        waiting_def working_def)
next
  case (Suc n)
  let ?s = "init_queue n m :: 'i workq"
  have m: "unat (of_int m :: u64) = nat m" using Suc.prems by (simp add: unsigned_of_int take_bit_int_eq_self)
  have s: "s = create_worker True ?s" using Suc.prems(3) by (simp add: init_queue_def)
  have IH: "wq_inv [] ?s" "\<not> stop ?s" "length (allWorkers ?s) = n" "maxThreadNum ?s = of_int m"
    using Suc.IH [of ?s] Suc.prems(1,2) by simp_all
  then have "wq_inv [] (create_worker True ?s)" using m Suc.prems(1) by (intro create_worker_inv) auto
  with IH s show ?case by simp
qed

lemma wq_reach_inv: "wq_reach n m tr s \<Longrightarrow> int n \<le> m \<Longrightarrow> m < 2 ^ 31 \<Longrightarrow> wq_inv tr s"
proof (induction rule: wq_reach.induct)
  case init
  then show ?case using init_inv by blast
qed (simp add: wq_step_inv)

lemma wq_step_max: "wq_step s es s' \<Longrightarrow> maxThreadNum s' = maxThreadNum s"
proof (induction rule: wq_step.induct)
  case (run s t k)
  then show ?case by (simp add: notify_one_def enqueue_def Let_def split: option.split)
qed (auto simp: loop_top_eq wake_up_def leave_def stop_begin_def stop_end_def split: if_splits)

lemma wq_reach_max:
  "wq_reach n m tr s \<Longrightarrow> int n \<le> m \<Longrightarrow> m < 2 ^ 31 \<Longrightarrow> maxThreadNum s = of_int m"
proof (induction rule: wq_reach.induct)
  case init
  then show ?case using init_inv by blast
qed (simp add: wq_step_max)

text \<open>A worker that stays in the pool is never forgotten.\<close>

definition has_kept :: "('i, 'z) workq_scheme \<Rightarrow> bool" where
  "has_kept s \<longleftrightarrow> (\<exists>i < length (workers s). keepInPool (workers s ! i))"

lemma has_kept_create:
  assumes "has_kept s"
  shows "has_kept (create_worker k s)"
proof -
  obtain i where "i < length (workers s)" "keepInPool (workers s ! i)" using assms by (auto simp: has_kept_def)
  then show ?thesis using create_worker_nth [of i s k] by (auto simp: has_kept_def intro!: exI [of _ i])
qed

lemma has_kept_set_phase: "has_kept s \<Longrightarrow> has_kept (set_phase i p s)"
  unfolding has_kept_def by auto

lemma has_kept_fields [simp]:
  "has_kept (s\<lparr>dataQueue := q\<rparr>) = has_kept s" "has_kept (s\<lparr>freeWorkerNum := f\<rparr>) = has_kept s"
  "has_kept (s\<lparr>allWorkers := as\<rparr>) = has_kept s" "has_kept (s\<lparr>stop := b\<rparr>) = has_kept s"
  by (simp_all add: has_kept_def)

lemma has_kept_notify_all: "has_kept s \<Longrightarrow> has_kept (notify_all s)"
  unfolding has_kept_def by (auto dest: notify_all_nth)

lemma wq_step_kept: "wq_step s es s' \<Longrightarrow> has_kept s \<Longrightarrow> has_kept s'"
proof (induction rule: wq_step.induct)
  case (run s t k)
  then show ?case
    by (auto simp: notify_one_def enqueue_def Let_def split: option.split intro!: has_kept_set_phase has_kept_create)
qed (auto simp: loop_top_eq wake_up_def leave_def stop_begin_def stop_end_def split: if_splits
    intro!: has_kept_set_phase has_kept_notify_all)

lemma wq_reach_kept: "wq_reach n m tr s \<Longrightarrow> 0 < n \<Longrightarrow> has_kept s"
proof (induction rule: wq_reach.induct)
  case init
  then obtain n' where n: "n = Suc n'" by (cases n) auto
  have "has_kept (create_worker True s)" for s :: "'i workq"
    using create_worker_nth [of "length (workers s)" s True] by (auto simp: has_kept_def)
  then show ?case by (simp add: n init_queue_def)
qed (rule wq_step_kept)

text \<open>When all threads have been joined, every accepted task is done.\<close>

lemma joined_all_done:
  assumes "wq_inv tr s" and "has_kept s" and "joinable s"
  shows "dataQueue s = []" "working s = []" "mset (finished tr) = mset (accepted tr)"
proof -
  have ret: "\<forall>i < length (workers s). ph s i = Returned"
    using assms(1,3) unfolding wq_inv_def wq_struct_def joinable_def by blast
  show q: "dataQueue s = []" using assms(1,2) ret unfolding wq_inv_def wq_kept_def has_kept_def by blast
  have "\<forall>w \<in> set (workers s). task_of (phase w) = []" using ret by (auto simp: in_set_conv_nth)
  then show w: "working s = []" by (simp add: working_def)
  from assms(1) q w show "mset (finished tr) = mset (accepted tr)" by (simp add: wq_inv_def wq_tasks_def)
qed

text \<open>While tasks are queued and a worker stays in the pool, some thread is runnable.\<close>

lemma somebody_active:
  assumes "wq_inv tr s" and "has_kept s" and "dataQueue s \<noteq> []"
  shows "\<exists>i < length (workers s). active (ph s i)"
proof -
  obtain k where k: "k < length (workers s)" "keepInPool (workers s ! k)" using assms(2) by (auto simp: has_kept_def)
  have "ph s k \<noteq> TimedOut" "ph s k \<noteq> Returned" using assms(1,3) k unfolding wq_inv_def wq_kept_def by blast+
  then have "active (ph s k) \<or> ph s k = Waiting False" by (cases "ph s k") auto
  then show ?thesis using assms(1,3) k(1) unfolding wq_inv_def wq_wake_def by blast
qed

section \<open>Extensions of the queue record\<close>

text \<open>What a pool does to its queue part is what the queue itself does.\<close>

lemma core_fields [simp]:
  "maxThreadNum (workq.truncate s) = maxThreadNum s" "dataQueue (workq.truncate s) = dataQueue s"
  "workers (workq.truncate s) = workers s" "allWorkers (workq.truncate s) = allWorkers s"
  "freeWorkerNum (workq.truncate s) = freeWorkerNum s" "stop (workq.truncate s) = stop s"
  by (simp_all add: workq.truncate_def)

lemma core_update [simp]:
  "workq.truncate (s\<lparr>dataQueue := q\<rparr>) = (workq.truncate s)\<lparr>dataQueue := q\<rparr>"
  "workq.truncate (s\<lparr>workers := ws\<rparr>) = (workq.truncate s)\<lparr>workers := ws\<rparr>"
  "workq.truncate (s\<lparr>allWorkers := as\<rparr>) = (workq.truncate s)\<lparr>allWorkers := as\<rparr>"
  "workq.truncate (s\<lparr>freeWorkerNum := n\<rparr>) = (workq.truncate s)\<lparr>freeWorkerNum := n\<rparr>"
  "workq.truncate (s\<lparr>stop := b\<rparr>) = (workq.truncate s)\<lparr>stop := b\<rparr>"
  by (simp_all add: workq.truncate_def)

lemma core_ops:
  "workq.truncate (set_phase i p s) = set_phase i p (workq.truncate s)"
  "workq.truncate (create_worker k s) = create_worker k (workq.truncate s)"
  "workq.truncate (notify_one x s) = notify_one x (workq.truncate s)"
  "workq.truncate (stop_begin s) = stop_begin (workq.truncate s)"
  "workq.truncate (stop_end s) = stop_end (workq.truncate s)"
  "workq.truncate (leave i s) = leave i (workq.truncate s)"
  by (simp_all add: set_phase_def create_worker_def notify_one_def stop_begin_def notify_all_def stop_end_def leave_def
      split: option.split)

lemma core_preds [simp]:
  "may_notify (workq.truncate s) k = may_notify s k" "joinable (workq.truncate s) = joinable s"
  "has_kept (workq.truncate s) = has_kept s" "waiting (workq.truncate s) = waiting s" "working (workq.truncate s) = working s"
  by (simp_all add: may_notify_def blocked_def joinable_def has_kept_def waiting_def working_def split: option.split)

lemma core_loop_top:
  "loop_top i s = (es, s') \<Longrightarrow> loop_top i (workq.truncate s) = (es, workq.truncate s')"
  by (auto simp: loop_top_eq core_ops split: if_splits)

lemma core_wake_up:
  "wake_up i s = (es, s') \<Longrightarrow> wake_up i (workq.truncate s) = (es, workq.truncate s')"
  unfolding wake_up_def by (drule core_loop_top) simp

lemma core_enqueue:
  assumes "\<And>k s. workq.truncate (create k s) = create_worker k (workq.truncate s)"
  shows "workq.truncate (enqueue create t s) = enqueue create_worker t (workq.truncate s)"
proof -
  have "dataQueue (create k s) = dataQueue s" for k s
    using assms [of k s] by (metis core_fields(2) create_worker_simps(2))
  then show ?thesis by (simp add: enqueue_def Let_def assms)
qed

text \<open>Nothing left to do; once stopped, all threads can be joined.\<close>

definition wq_idle :: "('i, 'z) workq_scheme \<Rightarrow> bool" where
  "wq_idle s \<longleftrightarrow> dataQueue s = [] \<and> working s = [] \<and> (stop s \<longrightarrow> joinable s)"

lemma not_idle_enabled:
  assumes "wq_inv tr (workq.truncate s)" and "has_kept s" and "\<not> wq_idle s"
  shows "\<exists>i < length (workers s). ph s i \<noteq> Waiting False \<and> ph s i \<noteq> Returned"
proof -
  consider "dataQueue s \<noteq> []" | "working s \<noteq> []" | "stop s" "\<not> joinable s" using assms(3) by (auto simp: wq_idle_def)
  then show ?thesis
  proof cases
    case 1
    then obtain i where "i < length (workers s)" "active (ph s i)" using somebody_active [OF assms(1)] assms(2) by auto
    then show ?thesis by (intro exI [of _ i]) auto
  next
    case 2
    then obtain w where "w \<in> set (workers s)" "task_of (phase w) \<noteq> []" by (auto simp: working_def)
    then obtain i where "i < length (workers s)" "task_of (ph s i) \<noteq> []" by (auto simp: in_set_conv_nth)
    then show ?thesis by (intro exI [of _ i]) auto
  next
    case 3
    then obtain i where i: "i \<in> set (allWorkers s)" "ph s i \<noteq> Returned" by (auto simp: joinable_def)
    then have "i < length (workers s)" "ph s i \<noteq> Waiting False"
      using assms(1) 3(1) unfolding wq_inv_def wq_struct_def wq_wake_def by auto
    with i show ?thesis by blast
  qed
qed

text \<open>A sum in which one summand changes.\<close>

lemma sum_one:
  fixes f g :: "nat \<Rightarrow> nat"
  assumes "i < n" and "\<And>j. j < n \<Longrightarrow> j \<noteq> i \<Longrightarrow> g j = f j"
  shows "(\<Sum>j<n. g j) + f i = (\<Sum>j<n. f j) + g i"
proof -
  have "(\<Sum>j \<in> {..<n} - {i}. g j) = (\<Sum>j \<in> {..<n} - {i}. f j)" using assms(2) by (intro sum.cong) auto
  then show ?thesis using assms(1) sum.remove [of "{..<n}" i g] sum.remove [of "{..<n}" i f] by simp
qed

end
