(* ===== verification/Thread_Pool.thy ===== *)
theory Thread_Pool
  imports Worker_Queue
begin

text \<open>
  Model of \<open>thread/thread_pool.h\<close> (class template \<open>ThreadPool\<close> and its \<open>Worker\<close>) on top of
  \<open>Worker_Queue\<close>. The template parameter \<open>Job\<close> is a record of functions; a job object has a state that
  \<open>SetConfig\<close> and \<open>Process\<close> change. Every critical section and every atomic access outside of one
  (\<open>reload_.exchange\<close>, \<open>getJobConfig\<close>) is a step of its own, and the steps of clients and workers
  interleave freely. Threads blocked in \<open>GetJobOutput\<close> are not represented: the call is the step in
  which it returns.
\<close>

section \<open>State\<close>

record ('c, 'j, 'i, 'o) job_ops =
  Job :: 'j
  SetConfig :: "'c \<Rightarrow> 'j \<Rightarrow> 'j"
  Process :: "'j \<Rightarrow> 'i \<Rightarrow> 'o \<times> 'j"
  JobOutput :: 'o

text \<open>Where the thread stands outside of the queue mutex.\<close>

datatype stage = Unconfigured | Configured | Fresh | Reloading | Processing

record 'j worker_info =
  stage :: stage
  reload :: bool
  job :: 'j

record ('c, 'j, 'i, 'o) thread_pool = "'i workq" +
  jobCfg :: 'c
  outQueue :: "'o list"
  infos :: "'j worker_info list"

type_synonym ('c, 'j, 'i, 'o) tp = "('c, 'j, 'i, 'o) thread_pool"

datatype ('i, 'o) tp_ev = Queue "'i ev" | Output 'i 'o | Fetched 'o

definition upd_info :: "nat \<Rightarrow> ('j worker_info \<Rightarrow> 'j worker_info) \<Rightarrow> ('c, 'j, 'i, 'o) tp \<Rightarrow> ('c, 'j, 'i, 'o) tp" where
  "upd_info i f s = s\<lparr>infos := (infos s)[i := f (infos s ! i)]\<rparr>"

section \<open>The pool\<close>

definition createWorker :: "('c, 'j, 'i, 'o) job_ops \<Rightarrow> bool \<Rightarrow> ('c, 'j, 'i, 'o) tp \<Rightarrow> ('c, 'j, 'i, 'o) tp" where
  "createWorker ops keep s =
     (create_worker keep s)\<lparr>infos := infos s @ [\<lparr>stage = Unconfigured, reload = False, job = Job ops\<rparr>]\<rparr>"

text \<open>
  The constructor; \<open>cfg\<close> is the configuration, default-constructed or copied from the argument. It
  runs before any other thread can use the pool, so that the order of its thread starts is irrelevant.
\<close>

definition ThreadPool :: "('c, 'j, 'i, 'o) job_ops \<Rightarrow> 'c \<Rightarrow> nat \<Rightarrow> int \<Rightarrow> ('c, 'j, 'i, 'o) tp res" where
  "ThreadPool ops cfg minThreadNum maxNum =
     (if \<not> int minThreadNum \<le> maxNum then Inl Assert_Failed
      else Inr ((createWorker ops True ^^ minThreadNum)
        \<lparr>maxThreadNum = of_int maxNum, dataQueue = [], workers = [], allWorkers = [], freeWorkerNum = 0, stop = False,
         jobCfg = cfg, outQueue = [], infos = []\<rparr>))"

definition Run :: "('c, 'j, 'i, 'o) job_ops \<Rightarrow> 'i \<Rightarrow> nat option \<Rightarrow> ('c, 'j, 'i, 'o) tp \<Rightarrow> ('c, 'j, 'i, 'o) tp" where
  "Run ops task k s = (if \<not> stop s then notify_one k (enqueue (createWorker ops) task s) else s)"

text \<open>
  The call can return at once unless the caller is willing to wait for ever; then it waits for an output or
  for the end of the pool. A limited wait may end at any moment.
\<close>

definition output_ready :: "int \<Rightarrow> ('c, 'j, 'i, 'o) tp \<Rightarrow> bool" where
  "output_ready waitMs s \<longleftrightarrow> waitMs \<ge> 0 \<or> stop s \<or> outQueue s \<noteq> []"

definition GetJobOutput :: "('c, 'j, 'i, 'o) job_ops \<Rightarrow> ('c, 'j, 'i, 'o) tp \<Rightarrow> ('o \<times> bool) \<times> ('c, 'j, 'i, 'o) tp" where
  "GetJobOutput ops s =
     (case outQueue s of r # q \<Rightarrow> ((r, True), s\<lparr>outQueue := q\<rparr>) | [] \<Rightarrow> ((JobOutput ops, False), s))"

definition GetPendingTaskCount :: "('c, 'j, 'i, 'o) tp \<Rightarrow> u64" where
  "GetPendingTaskCount s = of_nat (length (dataQueue s)) + of_nat (length (allWorkers s)) - freeWorkerNum s"

text \<open>\<open>Stop\<close>: the part under the mutex with the notifications, and the part after joining all workers.\<close>

definition Stop_announce :: "('c, 'j, 'i, 'o) tp \<Rightarrow> ('c, 'j, 'i, 'o) tp" where
  "Stop_announce s = (if \<not> stop s then stop_begin s else s)"

definition Stop_join :: "('c, 'j, 'i, 'o) tp \<Rightarrow> ('c, 'j, 'i, 'o) tp" where
  "Stop_join s = stop_end s"

definition setJobConfig :: "'c \<Rightarrow> ('c, 'j, 'i, 'o) tp \<Rightarrow> ('c, 'j, 'i, 'o) tp" where
  "setJobConfig cfg s = s\<lparr>jobCfg := cfg\<rparr>"

text \<open>The second half of \<open>ResetJobConfig\<close>.\<close>

definition mark_reload :: "('c, 'j, 'i, 'o) tp \<Rightarrow> ('c, 'j, 'i, 'o) tp" where
  "mark_reload s =
     (if \<not> stop s then fold (\<lambda>i. upd_info i (\<lambda>w. w\<lparr>reload := True\<rparr>)) (allWorkers s) s else s)"

section \<open>The worker\<close>

text \<open>\<open>job_.SetConfig(pool_.getJobConfig())\<close>\<close>

definition configure :: "('c, 'j, 'i, 'o) job_ops \<Rightarrow> nat \<Rightarrow> stage \<Rightarrow> ('c, 'j, 'i, 'o) tp \<Rightarrow> ('c, 'j, 'i, 'o) tp" where
  "configure ops i st s = upd_info i (\<lambda>w. w\<lparr>stage := st, job := SetConfig ops (jobCfg s) (job w)\<rparr>) s"

text \<open>The head of the loop, entered with the mutex; a task taken is \<open>Fresh\<close>.\<close>

definition enter_loop :: "nat \<Rightarrow> ('c, 'j, 'i, 'o) tp \<Rightarrow> 'i ev list \<times> ('c, 'j, 'i, 'o) tp" where
  "enter_loop i s = (let (es, s) = loop_top i s in (es, upd_info i (\<lambda>w. w\<lparr>stage := Fresh\<rparr>) s))"

definition enter_woken :: "nat \<Rightarrow> ('c, 'j, 'i, 'o) tp \<Rightarrow> 'i ev list \<times> ('c, 'j, 'i, 'o) tp" where
  "enter_woken i s = (let (es, s) = wake_up i s in (es, upd_info i (\<lambda>w. w\<lparr>stage := Fresh\<rparr>) s))"

definition needResetJobConfig :: "nat \<Rightarrow> ('c, 'j, 'i, 'o) tp \<Rightarrow> ('c, 'j, 'i, 'o) tp" where
  "needResetJobConfig i s =
     upd_info i (\<lambda>w. w\<lparr>reload := False, stage := (if reload w then Reloading else Processing)\<rparr>) s"

text \<open>\<open>Process\<close>, then, with the mutex, the output and the head of the loop again.\<close>

definition complete :: "('c, 'j, 'i, 'o) job_ops \<Rightarrow> nat \<Rightarrow> 'i \<Rightarrow> ('c, 'j, 'i, 'o) tp \<Rightarrow> ('i, 'o) tp_ev list \<times> ('c, 'j, 'i, 'o) tp" where
  "complete ops i t s =
     (let (r, j) = Process ops (job (infos s ! i)) t;
          s = upd_info i (\<lambda>w. w\<lparr>job := j\<rparr>) s;
          s = s\<lparr>outQueue := outQueue s @ [r]\<rparr>;
          (es, s) = enter_loop i (set_phase i Ready s)
      in (Queue (Finish t) # Output t r # map Queue es, s))"

section \<open>All interleavings\<close>

inductive worker_step :: "('c, 'j, 'i, 'o) job_ops \<Rightarrow> ('c, 'j, 'i, 'o) tp \<Rightarrow> ('i, 'o) tp_ev list \<Rightarrow> ('c, 'j, 'i, 'o) tp \<Rightarrow> bool"
  for ops where
  first_config: "i < length (workers s) \<Longrightarrow> ph s i = Ready \<Longrightarrow> stage (infos s ! i) = Unconfigured \<Longrightarrow>
    worker_step ops s [] (configure ops i Configured s)"
| enter: "i < length (workers s) \<Longrightarrow> ph s i = Ready \<Longrightarrow> stage (infos s ! i) \<noteq> Unconfigured \<Longrightarrow>
    enter_loop i s = (es, s') \<Longrightarrow> worker_step ops s (map Queue es) s'"
| notified: "i < length (workers s) \<Longrightarrow> ph s i = Waiting True \<Longrightarrow> enter_woken i s = (es, s') \<Longrightarrow>
    worker_step ops s (map Queue es) s'"
| leave: "i < length (workers s) \<Longrightarrow> ph s i = TimedOut \<Longrightarrow> worker_step ops s [] (leave i s)"
| check: "i < length (workers s) \<Longrightarrow> ph s i = Working t \<Longrightarrow> stage (infos s ! i) = Fresh \<Longrightarrow>
    worker_step ops s [] (needResetJobConfig i s)"
| reconfig: "i < length (workers s) \<Longrightarrow> ph s i = Working t \<Longrightarrow> stage (infos s ! i) = Reloading \<Longrightarrow>
    worker_step ops s [] (configure ops i Processing s)"
| complete: "i < length (workers s) \<Longrightarrow> ph s i = Working t \<Longrightarrow> stage (infos s ! i) \<noteq> Fresh \<Longrightarrow> stage (infos s ! i) \<noteq> Reloading \<Longrightarrow>
    complete ops i t s = (es, s') \<Longrightarrow> worker_step ops s es s'"

inductive tp_step :: "('c, 'j, 'i, 'o) job_ops \<Rightarrow> ('c, 'j, 'i, 'o) tp \<Rightarrow> ('i, 'o) tp_ev list \<Rightarrow> ('c, 'j, 'i, 'o) tp \<Rightarrow> bool"
  for ops where
  worker: "worker_step ops s es s' \<Longrightarrow> tp_step ops s es s'"
| spurious: "i < length (workers s) \<Longrightarrow> ph s i = Waiting False \<Longrightarrow> enter_woken i s = (es, s') \<Longrightarrow>
    tp_step ops s (map Queue es) s'"
| time_out: "i < length (workers s) \<Longrightarrow> ph s i = Waiting False \<Longrightarrow> \<not> keepInPool (workers s ! i) \<Longrightarrow>
    tp_step ops s [] (set_phase i TimedOut s)"
| run: "\<not> stop s \<Longrightarrow> may_notify (enqueue (createWorker ops) t s) k \<Longrightarrow> tp_step ops s [Queue (Accept t)] (Run ops t k s)"
| run_stopped: "stop s \<Longrightarrow> tp_step ops s [] (Run ops t k s)"
| fetch: "output_ready waitMs s \<Longrightarrow> GetJobOutput ops s = ((r, ok), s') \<Longrightarrow> tp_step ops s (if ok then [Fetched r] else []) s'"
| set_config: "tp_step ops s [] (setJobConfig cfg s)"
| mark: "tp_step ops s [] (mark_reload s)"
| announce: "tp_step ops s [] (Stop_announce s)"
| join: "stop s \<Longrightarrow> joinable s \<Longrightarrow> tp_step ops s [] (Stop_join s)"

inductive tp_reach :: "('c, 'j, 'i, 'o) job_ops \<Rightarrow> 'c \<Rightarrow> nat \<Rightarrow> int \<Rightarrow> ('i, 'o) tp_ev list \<Rightarrow> ('c, 'j, 'i, 'o) tp \<Rightarrow> bool"
  for ops cfg n m where
  init: "ThreadPool ops cfg n m = Inr s \<Longrightarrow> tp_reach ops cfg n m [] s"
| step: "tp_reach ops cfg n m tr s \<Longrightarrow> tp_step ops s es s' \<Longrightarrow> tp_reach ops cfg n m (tr @ es) s'"

section \<open>The pool implements the worker queue\<close>

lemma core_extension [simp]:
  "workq.truncate (upd_info i f s) = workq.truncate s" "workq.truncate (s\<lparr>outQueue := q\<rparr>) = workq.truncate s"
  "workq.truncate (s\<lparr>jobCfg := c\<rparr>) = workq.truncate s" "workq.truncate (s\<lparr>infos := is\<rparr>) = workq.truncate s"
  by (simp_all add: workq.truncate_def upd_info_def)

lemma core_createWorker: "workq.truncate (createWorker ops k s) = create_worker k (workq.truncate s)"
  by (simp add: createWorker_def core_ops)

lemma core_mark:
  fixes s :: "('c, 'j, 'i, 'o) tp"
  shows "workq.truncate (mark_reload s) = workq.truncate s"
proof -
  have "workq.truncate (fold (\<lambda>i. upd_info i (\<lambda>w. w\<lparr>reload := True\<rparr>)) is s) = workq.truncate s"
    for "is" and s :: "('c, 'j, 'i, 'o) tp"
    by (induction "is" arbitrary: s) simp_all
  then show ?thesis by (simp add: mark_reload_def)
qed

lemma core_enter_loop:
  assumes "enter_loop i s = (es, s')"
  shows "loop_top i (workq.truncate s) = (es, workq.truncate s')"
proof -
  obtain s1 where "loop_top i s = (es, s1)" "s' = upd_info i (\<lambda>w. w\<lparr>stage := Fresh\<rparr>) s1"
    using assms by (cases "loop_top i s") (simp add: enter_loop_def)
  then show ?thesis using core_loop_top [of i s es s1] by simp
qed

lemma core_enter_woken:
  assumes "enter_woken i s = (es, s')"
  shows "wake_up i (workq.truncate s) = (es, workq.truncate s')"
proof -
  obtain s1 where "wake_up i s = (es, s1)" "s' = upd_info i (\<lambda>w. w\<lparr>stage := Fresh\<rparr>) s1"
    using assms by (cases "wake_up i s") (simp add: enter_woken_def)
  then show ?thesis using core_wake_up [of i s es s1] by simp
qed

lemma core_ThreadPool:
  "ThreadPool ops cfg n m = Inr s \<Longrightarrow> workq.truncate s = init_queue n m"
proof -
  assume a: "ThreadPool ops cfg n m = Inr s"
  have "workq.truncate ((createWorker ops True ^^ n) t) = (create_worker True ^^ n) (workq.truncate t)" for t
    by (induction n) (simp_all add: core_createWorker)
  with a show ?thesis by (auto simp: ThreadPool_def init_queue_def new_queue_def workq.truncate_def split: if_splits)
qed

definition queue_evs :: "('i, 'o) tp_ev list \<Rightarrow> 'i ev list" where
  "queue_evs tr = concat (map (\<lambda>e. case e of Queue q \<Rightarrow> [q] | _ \<Rightarrow> []) tr)"

lemma queue_evs_simps [simp]:
  "queue_evs [] = []" "queue_evs (tr @ tr') = queue_evs tr @ queue_evs tr'" "queue_evs (Queue q # tr) = q # queue_evs tr"
  "queue_evs (Output t r # tr) = queue_evs tr" "queue_evs (Fetched r # tr) = queue_evs tr" "queue_evs (map Queue es) = es"
  by (simp_all add: queue_evs_def) (induction es; simp)

lemma enter_loop_outQueue: "outQueue (snd (enter_loop i s)) = outQueue s"
  by (simp add: enter_loop_def loop_top_eq upd_info_def set_phase_def)

lemma complete_core:
  assumes "complete ops i t s = (es, s')"
  obtains r es' where "es = Queue (Finish t) # Output t r # map Queue es'" "r = fst (Process ops (job (infos s ! i)) t)"
    "loop_top i (set_phase i Ready (workq.truncate s)) = (es', workq.truncate s')" "outQueue s' = outQueue s @ [r]"
proof -
  obtain r j where p: "Process ops (job (infos s ! i)) t = (r, j)" by (cases "Process ops (job (infos s ! i)) t")
  let ?t = "upd_info i (\<lambda>w. w\<lparr>job := j\<rparr>) s"
  define s1 where "s1 = set_phase i Ready (?t\<lparr>outQueue := outQueue ?t @ [r]\<rparr>)"
  obtain es' s2 where l: "enter_loop i s1 = (es', s2)" by (cases "enter_loop i s1")
  have e: "es = Queue (Finish t) # Output t r # map Queue es'" "s' = s2"
    using assms unfolding complete_def p Let_def prod.case s1_def [symmetric] l by simp_all
  have "outQueue s1 = outQueue s @ [r]" by (simp add: s1_def set_phase_def upd_info_def)
  then have ou: "outQueue s' = outQueue s @ [r]" using enter_loop_outQueue [of i s1] l e(2) by simp
  have "workq.truncate s1 = set_phase i Ready (workq.truncate s)" by (simp add: s1_def core_ops)
  then have c: "loop_top i (set_phase i Ready (workq.truncate s)) = (es', workq.truncate s')"
    using core_enter_loop [OF l] e(2) by simp
  show ?thesis by (rule that [OF e(1) _ c ou]) (simp add: p)
qed

text \<open>Every step of the pool is a stuttering step, one step or, after a finished task, two steps of the queue.\<close>

lemma worker_step_simulates:
  assumes "worker_step ops s es s'" and "wq_reach n m tr (workq.truncate s)"
  shows "wq_reach n m (tr @ queue_evs es) (workq.truncate s')"
  using assms
proof (induction rule: worker_step.induct)
  case (enter i s es s')
  from wq_reach.step [OF enter.prems wq_step.go [of i]] core_enter_loop [OF enter.hyps(4)] enter.hyps show ?case by auto
next
  case (notified i s es s')
  from wq_reach.step [OF notified.prems wq_step.wake [of i]] core_enter_woken [OF notified.hyps(3)] notified.hyps show ?case by auto
next
  case (leave i s)
  from wq_reach.step [OF leave.prems wq_step.leave [of i]] leave.hyps show ?case by (auto simp: core_ops)
next
  case (complete i s t es s')
  obtain r es' where c: "es = Queue (Finish t) # Output t r # map Queue es'"
    "loop_top i (set_phase i Ready (workq.truncate s)) = (es', workq.truncate s')"
    using complete_core [OF complete.hyps(5)] by metis
  let ?s = "set_phase i Ready (workq.truncate s)"
  have "wq_reach n m (tr @ [Finish t]) ?s"
    using wq_reach.step [OF complete.prems wq_step.finish [of i]] complete.hyps by auto
  from wq_reach.step [OF this wq_step.go [of i]] complete.hyps c show ?case by (auto simp: set_phase_ph)
qed (simp_all add: configure_def needResetJobConfig_def)

lemma tp_step_simulates:
  assumes "tp_step ops s es s'" and "wq_reach n m tr (workq.truncate s)"
  shows "wq_reach n m (tr @ queue_evs es) (workq.truncate s')"
  using assms
proof (induction rule: tp_step.induct)
  case (worker s es s')
  then show ?case by (rule worker_step_simulates)
next
  case (spurious i s es s')
  from wq_reach.step [OF spurious.prems wq_step.wake [of i]] core_enter_woken [OF spurious.hyps(3)] spurious.hyps show ?case by auto
next
  case (time_out i s)
  from wq_reach.step [OF time_out.prems wq_step.time_out [of i]] time_out.hyps show ?case by (auto simp: core_ops)
next
  case (run s t k)
  have e: "workq.truncate (enqueue (createWorker ops) t s) = enqueue create_worker t (workq.truncate s)"
    by (rule core_enqueue) (rule core_createWorker)
  have "may_notify (enqueue create_worker t (workq.truncate s)) k" using run.hyps(2) by (simp flip: e)
  from wq_reach.step [OF run.prems wq_step.run [OF _ this]] run.hyps(1) show ?case by (simp add: Run_def core_ops e)
next
  case (fetch waitMs s r ok s')
  then show ?case by (auto simp: GetJobOutput_def split: list.splits)
next
  case (announce s)
  from wq_reach.step [OF announce.prems wq_step.stop_begin] announce.prems show ?case
    by (auto simp: Stop_announce_def core_ops)
next
  case (join s)
  from wq_reach.step [OF join.prems wq_step.stop_end] join.hyps show ?case by (auto simp: Stop_join_def core_ops)
qed (simp_all add: Run_def setJobConfig_def core_mark)

lemma tp_reach_simulates: "tp_reach ops cfg n m tr s \<Longrightarrow> wq_reach n m (queue_evs tr) (workq.truncate s)"
proof (induction rule: tp_reach.induct)
  case (init s)
  then show ?case using wq_reach.init by (simp add: core_ThreadPool)
qed (simp add: tp_step_simulates)

section \<open>Outputs\<close>

definition outputs :: "('i, 'o) tp_ev list \<Rightarrow> ('i \<times> 'o) list" where
  "outputs tr = concat (map (\<lambda>e. case e of Output t r \<Rightarrow> [(t, r)] | _ \<Rightarrow> []) tr)"

definition fetched :: "('i, 'o) tp_ev list \<Rightarrow> 'o list" where
  "fetched tr = concat (map (\<lambda>e. case e of Fetched r \<Rightarrow> [r] | _ \<Rightarrow> []) tr)"

lemma output_simps [simp]:
  "outputs [] = []" "outputs (tr @ tr') = outputs tr @ outputs tr'" "outputs (Queue q # tr) = outputs tr"
  "outputs (Output t r # tr) = (t, r) # outputs tr" "outputs (Fetched r # tr) = outputs tr" "outputs (map Queue es) = []"
  "fetched [] = []" "fetched (tr @ tr') = fetched tr @ fetched tr'" "fetched (Queue q # tr) = fetched tr"
  "fetched (Output t r # tr) = fetched tr" "fetched (Fetched r # tr) = r # fetched tr" "fetched (map Queue es) = []"
  by (simp_all add: outputs_def fetched_def comp_def)

definition out_inv :: "('c, 'j, 'i, 'o) job_ops \<Rightarrow> ('i, 'o) tp_ev list \<Rightarrow> ('c, 'j, 'i, 'o) tp \<Rightarrow> bool" where
  "out_inv ops tr s \<longleftrightarrow> map snd (outputs tr) = fetched tr @ outQueue s \<and> map fst (outputs tr) = finished (queue_evs tr) \<and>
     (\<forall>(t, r) \<in> set (outputs tr). \<exists>j. r = fst (Process ops j t))"

lemma loop_top_finished: "loop_top i s = (es, s') \<Longrightarrow> finished es = []"
  by (auto simp: loop_top_eq split: if_splits)

lemma out_inv_queue:
  assumes "out_inv ops tr s" and "outQueue s' = outQueue s" and "finished es = []"
  shows "out_inv ops (tr @ map Queue es) s'"
  using assms by (simp add: out_inv_def)

lemma outQueue_same [simp]:
  "outQueue (upd_info i f s) = outQueue s" "outQueue (set_phase i p s) = outQueue s"
  "outQueue (snd (loop_top i s)) = outQueue s" "outQueue (leave i s) = outQueue s" "outQueue (createWorker ops k s) = outQueue s"
  "outQueue (notify_one x s) = outQueue s" "outQueue (stop_begin s) = outQueue s" "outQueue (stop_end s) = outQueue s"
  by (simp_all add: upd_info_def set_phase_def loop_top_eq leave_def createWorker_def create_worker_def notify_one_def
      stop_begin_def notify_all_def stop_end_def split: option.split)

lemma outQueue_enqueue [simp]: "outQueue (enqueue (createWorker ops) t s) = outQueue s"
  by (simp add: enqueue_def Let_def)

lemma outQueue_mark [simp]:
  fixes s :: "('c, 'j, 'i, 'o) tp"
  shows "outQueue (mark_reload s) = outQueue s"
proof -
  have "outQueue (fold (\<lambda>i. upd_info i f) is t) = outQueue t" for "is" f and t :: "('c, 'j, 'i, 'o) tp"
    by (induction "is" arbitrary: t) simp_all
  then show ?thesis by (simp add: mark_reload_def)
qed

lemma enter_loop_out:
  assumes "enter_loop i s = (es, s')" and "out_inv ops tr s"
  shows "out_inv ops (tr @ map Queue es) s'"
proof -
  obtain s1 where l: "loop_top i s = (es, s1)" "s' = upd_info i (\<lambda>w. w\<lparr>stage := Fresh\<rparr>) s1"
    using assms(1) by (cases "loop_top i s") (simp add: enter_loop_def)
  have "outQueue s1 = outQueue s" using outQueue_same(3) [of i s] l(1) by simp
  with assms(2) l loop_top_finished [OF l(1)] show ?thesis by (intro out_inv_queue [of ops tr s]) simp_all
qed

lemma enter_woken_out:
  assumes "enter_woken i s = (es, s')" and "out_inv ops tr s"
  shows "out_inv ops (tr @ map Queue es) s'"
proof (rule enter_loop_out)
  show "enter_loop i (s\<lparr>freeWorkerNum := freeWorkerNum s - 1\<rparr>) = (es, s')"
    using assms(1) by (simp add: enter_woken_def enter_loop_def wake_up_def)
qed (use assms(2) in \<open>simp add: out_inv_def\<close>)

lemma worker_step_out:
  assumes "worker_step ops s es s'" and "out_inv ops tr s"
  shows "out_inv ops (tr @ es) s'"
  using assms
proof (induction rule: worker_step.induct)
  case (complete i s t es s')
  obtain r es' where c: "es = Queue (Finish t) # Output t r # map Queue es'" "r = fst (Process ops (job (infos s ! i)) t)"
    "loop_top i (set_phase i Ready (workq.truncate s)) = (es', workq.truncate s')" "outQueue s' = outQueue s @ [r]"
    using complete_core [OF complete.hyps(5)] by metis
  have "finished es' = []" by (rule loop_top_finished [OF c(3)])
  with complete.prems c show ?case by (auto simp: out_inv_def)
next
  case (enter i s es s')
  then show ?case by (intro enter_loop_out)
next
  case (notified i s es s')
  then show ?case by (intro enter_woken_out)
qed (simp_all add: out_inv_def configure_def needResetJobConfig_def)

lemma tp_step_out:
  assumes "tp_step ops s es s'" and "out_inv ops tr s"
  shows "out_inv ops (tr @ es) s'"
  using assms
proof (induction rule: tp_step.induct)
  case (worker s es s')
  then show ?case by (rule worker_step_out)
next
  case (spurious i s es s')
  then show ?case by (intro enter_woken_out)
next
  case (fetch waitMs s r ok s')
  then show ?case by (auto simp: GetJobOutput_def out_inv_def split: list.splits)
qed (simp_all add: out_inv_def Run_def setJobConfig_def Stop_announce_def Stop_join_def)

lemma tp_reach_out: "tp_reach ops cfg n m tr s \<Longrightarrow> out_inv ops tr s"
proof (induction rule: tp_reach.induct)
  case (init s)
  have "outQueue ((createWorker ops True ^^ k) t) = outQueue t" for k t by (induction k) simp_all
  with init show ?case by (auto simp: ThreadPool_def out_inv_def split: if_splits)
qed (rule tp_step_out)

section \<open>Safety\<close>

lemma tp_queue_inv:
  "tp_reach ops cfg n m tr s \<Longrightarrow> int n \<le> m \<Longrightarrow> m < 2 ^ 31 \<Longrightarrow> wq_inv (queue_evs tr) (workq.truncate s)"
  by (rule wq_reach_inv [OF tp_reach_simulates])

text \<open>
  C9: a thread pool loses, duplicates and reorders nothing. In every reachable state, for all
  interleavings of clients and workers, spurious wake-ups and time-outs included: there are never
  more than \<open>maxThreadNum\<close> workers; until \<open>Stop\<close>, \<open>freeWorkerNum_\<close> is exactly the number of blocked threads;
  tasks are taken in the order of their acceptance; every accepted task is in exactly one place,
  queued, in the hands of one worker, or finished; the outputs are results of \<open>Process\<close> on the
  finished tasks in the order of their completion, each handed out at most once and in that order.
\<close>

theorem thread_pool_safe:
  assumes "tp_reach ops cfg n m tr s" and "int n \<le> m" and "m < 2 ^ 31"
  shows "int (length (allWorkers s)) \<le> m \<and> (\<not> stop s \<longrightarrow> unat (freeWorkerNum s) = waiting s) \<and>
    accepted (queue_evs tr) = taken (queue_evs tr) @ dataQueue s \<and>
    mset (accepted (queue_evs tr)) = mset (dataQueue s) + mset (working s) + mset (finished (queue_evs tr)) \<and>
    map fst (outputs tr) = finished (queue_evs tr) \<and> map snd (outputs tr) = fetched tr @ outQueue s \<and>
    (\<forall>(t, r) \<in> set (outputs tr). \<exists>j. r = fst (Process ops j t))"
proof -
  have m: "unat (of_int m :: u64) = nat m" using assms(2,3) by (simp add: unsigned_of_int take_bit_int_eq_self)
  have "maxThreadNum s = of_int m" using wq_reach_max [OF tp_reach_simulates [OF assms(1)] assms(2,3)] by simp
  with tp_queue_inv [OF assms] m have "length (allWorkers s) \<le> nat m" by (simp add: wq_inv_def wq_struct_def)
  then have "int (length (allWorkers s)) \<le> m" using assms(2) by linarith
  with tp_queue_inv [OF assms] tp_reach_out [OF assms(1)] show ?thesis
    by (auto simp: wq_inv_def wq_struct_def wq_tasks_def out_inv_def ac_simps)
qed

text \<open>
  C10: \<open>Stop\<close> finishes all tasks if the pool keeps a worker. When \<open>minThreadNum\<close> is at least one and
  \<open>Stop\<close> has joined its threads, the queue is empty, no task is in progress, every task ever accepted has been
  processed exactly once, and its output is in the output queue or was handed out.
\<close>

theorem stop_finishes_all_tasks:
  assumes "tp_reach ops cfg n m tr s" and "int n \<le> m" and "m < 2 ^ 31" and "0 < n" and "joinable s"
  shows "dataQueue s = [] \<and> working s = [] \<and> mset (map fst (outputs tr)) = mset (accepted (queue_evs tr))"
proof -
  have "has_kept (workq.truncate s)" by (rule wq_reach_kept [OF tp_reach_simulates [OF assms(1)] assms(4)])
  from joined_all_done [OF tp_queue_inv [OF assms(1-3)] this] assms(5) tp_reach_out [OF assms(1)]
  show ?thesis by (simp add: out_inv_def)
qed

section \<open>Liveness\<close>

definition work :: "('c, 'j, 'i, 'o) job_ops \<Rightarrow> ('c, 'j, 'i, 'o) tp \<Rightarrow> ('c, 'j, 'i, 'o) tp \<Rightarrow> bool" where
  "work ops s s' \<longleftrightarrow> (\<exists>es. worker_step ops s es s')"

fun weight :: "'i phase \<Rightarrow> stage \<Rightarrow> nat" where
  "weight Ready st = (if st = Unconfigured then 2 else 1)"
| "weight (Waiting b) st = (if b then 1 else 0)"
| "weight TimedOut st = 1"
| "weight (Working t) st = (if st = Fresh then 3 else if st = Reloading then 2 else 1)"
| "weight Returned st = 0"

definition tp_cost :: "('c, 'j, 'i, 'o) tp \<Rightarrow> nat" where
  "tp_cost s = (\<Sum>i < length (workers s). weight (ph s i) (stage (infos s ! i))) + 4 * length (dataQueue s)"

definition tp_live :: "('c, 'j, 'i, 'o) tp \<Rightarrow> bool" where
  "tp_live s \<longleftrightarrow> length (infos s) = length (workers s) \<and>
     (\<exists>n m tr. 0 < n \<and> int n \<le> m \<and> m < 2 ^ 31 \<and> wq_reach n m tr (workq.truncate s))"

lemma tp_liveD:
  assumes "tp_live s"
  obtains tr where "wq_inv tr (workq.truncate s)" "has_kept s"
proof -
  obtain n m tr where "0 < n" "int n \<le> m" "m < 2 ^ 31" "wq_reach n m tr (workq.truncate s)"
    using assms unfolding tp_live_def by blast
  with wq_reach_inv wq_reach_kept that [of tr] show ?thesis by (metis core_preds(3))
qed

lemma tp_cost_change:
  assumes "i < length (workers s)" and "length (workers s') = length (workers s)"
    and "\<And>j. j < length (workers s) \<Longrightarrow> j \<noteq> i \<Longrightarrow> ph s' j = ph s j \<and> stage (infos s' ! j) = stage (infos s ! j)"
    and "weight (ph s' i) (stage (infos s' ! i)) + 4 * length (dataQueue s') < weight (ph s i) (stage (infos s ! i)) + 4 * length (dataQueue s)"
  shows "tp_cost s' < tp_cost s"
  using assms(4) sum_one [OF assms(1), of "\<lambda>j. weight (ph s' j) (stage (infos s' ! j))" "\<lambda>j. weight (ph s j) (stage (infos s ! j))"]
    assms(2,3) by (simp add: tp_cost_def)

lemma info_same [simp]:
  "workers (upd_info i f s) = workers s" "dataQueue (upd_info i f s) = dataQueue s" "infos (set_phase i p s) = infos s"
  "length (infos (upd_info i f s)) = length (infos s)" "stop (upd_info i f s) = stop s"
  by (simp_all add: upd_info_def set_phase_def)

lemma upd_info_nth: "j < length (infos s) \<Longrightarrow> infos (upd_info i f s) ! j = (if j = i then f (infos s ! i) else infos s ! j)"
  by (simp add: upd_info_def nth_list_update)

text \<open>The head of the loop turns a runnable worker into one that has a task, or is blocked, or has returned.\<close>

lemma enter_loop_effect:
  assumes "i < length (workers s)" and "length (infos s) = length (workers s)" and "enter_loop i s = (es, s')"
  shows "length (workers s') = length (workers s)" "length (infos s') = length (infos s)"
    "j < length (workers s) \<Longrightarrow> j \<noteq> i \<Longrightarrow> ph s' j = ph s j \<and> stage (infos s' ! j) = stage (infos s ! j)"
    "weight (ph s' i) (stage (infos s' ! i)) + 4 * length (dataQueue s') < 1 + 4 * length (dataQueue s)"
proof -
  obtain s1 where l: "loop_top i s = (es, s1)" "s' = upd_info i (\<lambda>w. w\<lparr>stage := Fresh\<rparr>) s1"
    using assms(3) by (cases "loop_top i s") (simp add: enter_loop_def)
  have s1: "infos s1 = infos s" using l(1) by (auto simp: loop_top_eq set_phase_def split: if_splits)
  have len: "length (workers s1) = length (workers s)" using l(1) by (auto simp: loop_top_eq split: if_splits)
  show "length (workers s') = length (workers s)" "length (infos s') = length (infos s)" using l(2) s1 len by simp_all
  show "ph s' j = ph s j \<and> stage (infos s' ! j) = stage (infos s ! j)" if "j < length (workers s)" "j \<noteq> i"
    using that assms(2) l s1 by (auto simp: upd_info_nth loop_top_eq set_phase_ph split: if_splits)
  show "weight (ph s' i) (stage (infos s' ! i)) + 4 * length (dataQueue s') < 1 + 4 * length (dataQueue s)"
    using assms(1,2) l s1
    by (cases "dataQueue s") (auto simp: upd_info_nth loop_top_eq set_phase_ph split: if_splits)
qed

lemma worker_step_cost:
  assumes "worker_step ops s es s'" and "length (infos s) = length (workers s)"
  shows "tp_cost s' < tp_cost s \<and> length (infos s') = length (workers s')"
  using assms
proof (induction rule: worker_step.induct)
  case (first_config i s)
  then show ?case by (auto simp: configure_def upd_info_nth intro!: tp_cost_change [of i])
next
  case (enter i s es s')
  note e = enter_loop_effect [OF enter.hyps(1) enter.prems enter.hyps(4)]
  show ?case using e enter by (auto intro!: tp_cost_change [of i])
next
  case (notified i s es s')
  let ?s = "s\<lparr>freeWorkerNum := freeWorkerNum s - 1\<rparr>"
  have "enter_loop i ?s = (es, s')" using notified.hyps(3) by (simp add: enter_woken_def enter_loop_def wake_up_def)
  note e = enter_loop_effect [OF _ _ this]
  show ?case using e notified by (auto intro!: tp_cost_change [of i])
next
  case (leave i s)
  have q: "length (workers (leave i s)) = length (workers s)" "dataQueue (leave i s) = dataQueue s" "infos (leave i s) = infos s"
    by (simp_all add: leave_def)
  have p: "ph (leave i s) j = (if j = i then Returned else ph s j)" if "j < length (workers s)" for j
    using that by (simp add: leave_def set_phase_ph)
  show ?case using leave by (auto simp: q p intro!: tp_cost_change [of i])
next
  case (check i s t)
  then show ?case by (auto simp: needResetJobConfig_def upd_info_nth intro!: tp_cost_change [of i])
next
  case (reconfig i s t)
  then show ?case by (auto simp: configure_def upd_info_nth intro!: tp_cost_change [of i])
next
  case (complete i s t es s')
  obtain r j where p: "Process ops (job (infos s ! i)) t = (r, j)" by (cases "Process ops (job (infos s ! i)) t")
  let ?t = "upd_info i (\<lambda>w. w\<lparr>job := j\<rparr>) s"
  define s1 where "s1 = set_phase i Ready (?t\<lparr>outQueue := outQueue ?t @ [r]\<rparr>)"
  obtain es' where l: "enter_loop i s1 = (es', s')"
    using complete.hyps(5) unfolding complete_def p Let_def prod.case s1_def [symmetric] by (cases "enter_loop i s1") simp
  have s1: "length (workers s1) = length (workers s)" "length (infos s1) = length (infos s)" "dataQueue s1 = dataQueue s"
    "\<And>k. k < length (workers s) \<Longrightarrow> k \<noteq> i \<Longrightarrow> ph s1 k = ph s k \<and> stage (infos s1 ! k) = stage (infos s ! k)"
    using complete.prems by (auto simp: s1_def set_phase_ph upd_info_nth upd_info_def)
  note e = enter_loop_effect [OF _ _ l, unfolded s1, OF complete.hyps(1) complete.prems]
  show ?case using e s1 complete.hyps complete.prems by (auto intro!: tp_cost_change [of i])
qed

lemma worker_enabled:
  assumes "i < length (workers s)" and "ph s i \<noteq> Waiting False" and "ph s i \<noteq> Returned"
  shows "\<exists>s'. work ops s s'"
proof (cases "ph s i")
  case Ready
  then show ?thesis
    using assms(1) first_config [of i s ops] enter [of i s] by (cases "enter_loop i s") (fastforce simp: work_def)
next
  case (Waiting b)
  then show ?thesis
    using assms(1,2) notified [of i s] by (cases "enter_woken i s") (fastforce simp: work_def)
next
  case TimedOut
  then show ?thesis using assms(1) leave [of i s ops] by (auto simp: work_def)
next
  case (Working t)
  then show ?thesis
    using assms(1) check [of i s t ops] reconfig [of i s t ops] complete [of i s t ops]
    by (cases "complete ops i t s") (fastforce simp: work_def)
qed (use assms in simp)

interpretation tp: draining tp_live "work ops" tp_cost wq_idle for ops :: "('c, 'j, 'i, 'o) job_ops"
proof
  fix s s' :: "('c, 'j, 'i, 'o) tp"
  assume l: "tp_live s" and w: "work ops s s'"
  then obtain es n m tr where es: "worker_step ops s es s'" "0 < n" "int n \<le> m" "m < 2 ^ 31" "wq_reach n m tr (workq.truncate s)"
    by (auto simp: tp_live_def work_def)
  show "tp_cost s' < tp_cost s" using worker_step_cost [OF es(1)] l by (simp add: tp_live_def)
  have "wq_reach n m (tr @ queue_evs es) (workq.truncate s')" by (rule worker_step_simulates [OF es(1,5)])
  then show "tp_live s'" using worker_step_cost [OF es(1)] l es(2-4) unfolding tp_live_def by blast
next
  fix s :: "('c, 'j, 'i, 'o) tp"
  assume l: "tp_live s" and n: "\<not> wq_idle s"
  obtain tr where "wq_inv tr (workq.truncate s)" "has_kept s" using tp_liveD [OF l] .
  from not_idle_enabled [OF this n] worker_enabled show "\<exists>s'. work ops s s'" by blast
qed

lemma tp_step_infos:
  fixes s :: "('c, 'j, 'i, 'o) tp"
  assumes "tp_step ops s es s'" and "length (infos s) = length (workers s)"
  shows "length (infos s') = length (workers s')"
  using assms
proof (induction rule: tp_step.induct)
  case (worker s es s')
  then show ?case using worker_step_cost by blast
next
  case (spurious i s es s')
  let ?s = "s\<lparr>freeWorkerNum := freeWorkerNum s - 1\<rparr>"
  have "enter_loop i ?s = (es, s')" using spurious.hyps(3) by (simp add: enter_woken_def enter_loop_def wake_up_def)
  from enter_loop_effect(1,2) [OF _ _ this] spurious show ?case by simp
next
  case (run s t k)
  then show ?case
    by (simp add: Run_def enqueue_def Let_def createWorker_def create_worker_def notify_one_def split: option.split)
next
  case (fetch waitMs s r ok s')
  then show ?case by (auto simp: GetJobOutput_def split: list.splits)
next
  case (mark s)
  have "length (infos (fold (\<lambda>i. upd_info i f) is t)) = length (infos t) \<and> workers (fold (\<lambda>i. upd_info i f) is t) = workers t"
    for "is" f and t :: "('c, 'j, 'i, 'o) tp" by (induction "is" arbitrary: t) simp_all
  with mark show ?case by (simp add: mark_reload_def)
qed (simp_all add: Run_def setJobConfig_def Stop_announce_def Stop_join_def stop_begin_def notify_all_def stop_end_def)

lemma tp_reach_live:
  assumes "tp_reach ops cfg n m tr s" and "0 < n" and "int n \<le> m" and "m < 2 ^ 31"
  shows "tp_live s"
proof -
  from assms(1) have "length (infos s) = length (workers s)"
  proof (induction rule: tp_reach.induct)
    case (init s)
    have "length (infos ((createWorker ops True ^^ k) t)) = k + length (infos t) \<and>
        length (workers ((createWorker ops True ^^ k) t)) = k + length (workers t)" for k t
      by (induction k) (simp_all add: createWorker_def create_worker_def)
    with init show ?case by (auto simp: ThreadPool_def split: if_splits)
  qed (rule tp_step_infos)
  with tp_reach_simulates [OF assms(1)] assms(2-4) show ?thesis unfolding tp_live_def by blast
qed


section \<open>A lost task\<close>

text \<open>The states of a pool with a single worker that may leave.\<close>

definition lone ::
  "'c \<Rightarrow> 'i list \<Rightarrow> 'i phase \<Rightarrow> nat list \<Rightarrow> u64 \<Rightarrow> bool \<Rightarrow> 'o list \<Rightarrow> stage \<Rightarrow> 'j \<Rightarrow> ('c, 'j, 'i, 'o) tp" where
  "lone cfg q p all free st out sg j =
     \<lparr>maxThreadNum = 1, dataQueue = q, workers = [\<lparr>phase = p, keepInPool = False\<rparr>], allWorkers = all, freeWorkerNum = free,
      stop = st, jobCfg = cfg, outQueue = out, infos = [\<lparr>stage = sg, reload = False, job = j\<rparr>]\<rparr>"

lemma lone_simps [simp]:
  "dataQueue (lone cfg q p all free st out sg j) = q" "workers (lone cfg q p all free st out sg j) = [\<lparr>phase = p, keepInPool = False\<rparr>]"
  "allWorkers (lone cfg q p all free st out sg j) = all" "freeWorkerNum (lone cfg q p all free st out sg j) = free"
  "stop (lone cfg q p all free st out sg j) = st" "infos (lone cfg q p all free st out sg j) = [\<lparr>stage = sg, reload = False, job = j\<rparr>]"
  "maxThreadNum (lone cfg q p all free st out sg j) = 1" "jobCfg (lone cfg q p all free st out sg j) = cfg"
  "set_phase 0 p' (lone cfg q p all free st out sg j) = lone cfg q p' all free st out sg j"
  by (simp_all add: lone_def set_phase_def)

lemma tp_reach_more: "tp_reach ops cfg n m tr s \<Longrightarrow> tp_step ops s es s' \<Longrightarrow> tr' = tr @ es \<Longrightarrow> tp_reach ops cfg n m tr' s'"
  by (auto intro: tp_reach.step)

lemma lone_first_task:
  fixes t1 :: 'i
  shows "\<exists>r j tr. tp_reach ops cfg 0 1 tr (lone cfg [] (Waiting False) [0] 1 False [r] Fresh j) \<and>
    accepted (queue_evs tr) = [t1] \<and> finished (queue_evs tr) = [t1]"
proof -
  define j1 where "j1 = SetConfig ops cfg (Job ops)"
  obtain r j2 where p: "Process ops j1 t1 = (r, j2)" by (cases "Process ops j1 t1")
  obtain s0 where s0: "ThreadPool ops cfg 0 1 = Inr s0" by (simp add: ThreadPool_def)
  have r0: "tp_reach ops cfg 0 1 [] s0" by (rule tp_reach.init [OF s0])
  have f0: "\<not> stop s0" using s0 by (auto simp: ThreadPool_def)
  have e1: "enqueue (createWorker ops) t1 s0 = lone cfg [t1] Ready [0] 0 False [] Unconfigured (Job ops)"
    using s0 by (auto simp: ThreadPool_def enqueue_def createWorker_def create_worker_def lone_def)
  have "may_notify (enqueue (createWorker ops) t1 s0) None" unfolding e1 by (simp add: may_notify_def blocked_def)
  from tp_reach.step [OF r0 run [OF f0 this]]
  have r1: "tp_reach ops cfg 0 1 [Queue (Accept t1)] (lone cfg [t1] Ready [0] 0 False [] Unconfigured (Job ops))"
    by (simp add: Run_def f0 e1 notify_one_def)
  have "worker_step ops (lone cfg [t1] Ready [0] 0 False [] Unconfigured (Job ops)) [] (lone cfg [t1] Ready [0] 0 False [] Configured j1)"
    using first_config [of 0 "lone cfg [t1] Ready [0] 0 False [] Unconfigured (Job ops)" ops]
    by (simp add: configure_def upd_info_def j1_def) (simp add: lone_def)
  from tp_reach_more [OF r1 worker [OF this]]
  have r2: "tp_reach ops cfg 0 1 [Queue (Accept t1)] (lone cfg [t1] Ready [0] 0 False [] Configured j1)" by simp
  have "enter_loop 0 (lone cfg [t1] Ready [0] 0 False [] Configured j1) = ([Take t1], lone cfg [] (Working t1) [0] 0 False [] Fresh j1)"
    by (simp add: enter_loop_def loop_top_eq upd_info_def) (simp add: lone_def set_phase_def)
  from tp_reach_more [OF r2 worker [OF enter [OF _ _ _ this]]]
  have r3: "tp_reach ops cfg 0 1 [Queue (Accept t1), Queue (Take t1)] (lone cfg [] (Working t1) [0] 0 False [] Fresh j1)" by simp
  have "worker_step ops (lone cfg [] (Working t1) [0] 0 False [] Fresh j1) [] (lone cfg [] (Working t1) [0] 0 False [] Processing j1)"
    using check [of 0 "lone cfg [] (Working t1) [0] 0 False [] Fresh j1" t1 ops]
    by (simp add: needResetJobConfig_def upd_info_def) (simp add: lone_def)
  from tp_reach_more [OF r3 worker [OF this]]
  have r4: "tp_reach ops cfg 0 1 [Queue (Accept t1), Queue (Take t1)] (lone cfg [] (Working t1) [0] 0 False [] Processing j1)" by simp
  have "complete ops 0 t1 (lone cfg [] (Working t1) [0] 0 False [] Processing j1) =
      ([Queue (Finish t1), Output t1 r], lone cfg [] (Waiting False) [0] 1 False [r] Fresh j2)"
    by (simp add: complete_def p upd_info_def enter_loop_def loop_top_eq) (simp add: lone_def set_phase_def)
  from tp_reach_more [OF r4 worker [OF complete [OF _ _ _ _ this]]]
  have "tp_reach ops cfg 0 1 [Queue (Accept t1), Queue (Take t1), Queue (Finish t1), Output t1 r]
      (lone cfg [] (Waiting False) [0] 1 False [r] Fresh j2)" by simp
  then show ?thesis by (intro exI conjI) (assumption, simp_all)
qed

text \<open>
  C39: a worker that times out can leave a task behind. With \<open>minThreadNum\<close> 0, let a worker's
  \<open>wait_for\<close> time out and \<open>Run\<close> get the mutex before it: \<open>Run\<close> counts the worker as free and creates none,
  the notification reaches nobody, and the worker leaves without looking at the queue. The
  accepted task stays in the queue with no thread to take it; \<open>Stop\<close> joins nobody and
  ends, although its comment says that it blocks until all tasks are finished.
\<close>

theorem timed_out_worker_strands_task:
  "\<exists>tr s. tp_reach ops cfg 0 1 tr s \<and> stop s \<and> joinable s \<and> accepted (queue_evs tr) = [t1, t2] \<and>
    finished (queue_evs tr) = [t1] \<and> dataQueue s = [t2] \<and> \<not> (\<exists>es s'. worker_step ops s es s')"
proof -
  obtain r j tr where w: "tp_reach ops cfg 0 1 tr (lone cfg [] (Waiting False) [0] 1 False [r] Fresh j)"
    and tr: "accepted (queue_evs tr) = [t1]" "finished (queue_evs tr) = [t1]" using lone_first_task [of ops cfg t1] by blast
  let ?S = "\<lambda>q p all free st. lone cfg q p all free st [r] Fresh j"
  from tp_reach_more [OF w time_out [of 0]]
  have w1: "tp_reach ops cfg 0 1 tr (?S [] TimedOut [0] 1 False)" by simp
  have e: "enqueue (createWorker ops) t2 (?S [] TimedOut [0] 1 False) = ?S [t2] TimedOut [0] 1 False"
    by (simp add: enqueue_def) (simp add: lone_def)
  have "may_notify (enqueue (createWorker ops) t2 (?S [] TimedOut [0] 1 False)) None"
    unfolding e by (simp add: may_notify_def blocked_def)
  from tp_reach_more [OF w1 run [OF _ this]]
  have w2: "tp_reach ops cfg 0 1 (tr @ [Queue (Accept t2)]) (?S [t2] TimedOut [0] 1 False)"
    by (simp add: Run_def e notify_one_def)
  have "worker_step ops (?S [t2] TimedOut [0] 1 False) [] (?S [t2] Returned [] 0 False)"
    using leave [of 0 "?S [t2] TimedOut [0] 1 False" ops] by (simp add: Worker_Queue.leave_def) (simp add: lone_def set_phase_def)
  from tp_reach_more [OF w2 worker [OF this]]
  have w3: "tp_reach ops cfg 0 1 (tr @ [Queue (Accept t2)]) (?S [t2] Returned [] 0 False)" by simp
  have "Stop_announce (?S [t2] Returned [] 0 False) = ?S [t2] Returned [] 0 True"
    by (simp add: Stop_announce_def stop_begin_def notify_all_def notify_phase_def) (simp add: lone_def)
  with tp_reach_more [OF w3 announce] have w4: "tp_reach ops cfg 0 1 (tr @ [Queue (Accept t2)]) (?S [t2] Returned [] 0 True)" by simp
  have "Stop_join (?S [t2] Returned [] 0 True) = ?S [t2] Returned [] 0 True"
    by (simp add: Stop_join_def stop_end_def)
  with tp_reach_more [OF w4 join] have w5: "tp_reach ops cfg 0 1 (tr @ [Queue (Accept t2)]) (?S [t2] Returned [] 0 True)"
    by (simp add: joinable_def)
  have "\<not> worker_step ops (?S [t2] Returned [] 0 True) es s'" for es s' by (auto elim: worker_step.cases)
  with w5 tr show ?thesis by (intro exI [of _ "tr @ [Queue (Accept t2)]"] exI [of _ "?S [t2] Returned [] 0 True"]) (simp add: joinable_def)
qed

text \<open>
  \<open>GetPendingTaskCount\<close> is documented as the number of unfinished tasks. It counts every worker that is
  not blocked, so that directly after construction it reports the threads that are still starting.
\<close>

lemma pending_count_fresh_pool:
  assumes "int n \<le> m" and "m < 2 ^ 31"
  shows "\<exists>s. ThreadPool ops cfg n m = Inr s \<and> dataQueue s = [] \<and> working s = [] \<and> GetPendingTaskCount s = of_nat n"
proof -
  let ?P = "\<lambda>k s. dataQueue s = [] \<and> workers s = replicate k \<lparr>phase = Ready, keepInPool = True\<rparr> \<and> length (allWorkers s) = k \<and> freeWorkerNum s = 0"
  have "?P k ((createWorker ops True ^^ k) \<lparr>maxThreadNum = of_int m, dataQueue = [], workers = [], allWorkers = [],
      freeWorkerNum = 0, stop = False, jobCfg = cfg, outQueue = [], infos = []\<rparr>)" for k
    by (induction k) (auto simp: createWorker_def create_worker_def replicate_append_same)
  with assms show ?thesis by (simp add: ThreadPool_def GetPendingTaskCount_def working_def)
qed

section \<open>Example runs\<close>

definition demo_ops :: "(nat, nat, nat, nat) job_ops" where
  "demo_ops = \<lparr>Job = 0, SetConfig = (\<lambda>c j. c), Process = (\<lambda>j t. (j + t, Suc j)), JobOutput = 0\<rparr>"

lemma loop_top_quiet: "loop_top i s = (es, s') \<Longrightarrow> stop s' = stop s \<and> accepted es = []"
  by (auto simp: loop_top_eq split: if_splits)

lemma worker_step_quiet:
  assumes "worker_step ops s es s'"
  shows "stop s' = stop s \<and> accepted (queue_evs es) = []"
  using assms
proof (induction rule: worker_step.induct)
  case (enter i s es s')
  from loop_top_quiet [OF core_enter_loop [OF enter.hyps(4)]] show ?case by simp
next
  case (notified i s es s')
  from core_enter_woken [OF notified.hyps(3)] loop_top_quiet show ?case unfolding wake_up_def by fastforce
next
  case (complete i s t es s')
  obtain r es' where c: "es = Queue (Finish t) # Output t r # map Queue es'"
    "loop_top i (set_phase i Ready (workq.truncate s)) = (es', workq.truncate s')"
    using complete_core [OF complete.hyps(5)] by metis
  from loop_top_quiet [OF c(2)] c(1) show ?case by simp
qed (simp_all add: configure_def needResetJobConfig_def Worker_Queue.leave_def)

lemma work_reach:
  "(work ops)\<^sup>*\<^sup>* s s' \<Longrightarrow> tp_reach ops cfg n m tr s \<Longrightarrow>
     \<exists>tr'. tp_reach ops cfg n m tr' s' \<and> accepted (queue_evs tr') = accepted (queue_evs tr) \<and> stop s' = stop s"
proof (induction rule: rtranclp_induct)
  case (step y z)
  then obtain tr' es where "tp_reach ops cfg n m tr' y" "accepted (queue_evs tr') = accepted (queue_evs tr)" "stop y = stop s"
    "worker_step ops y es z" by (auto simp: work_def)
  with worker_step_quiet [of ops y es z] worker [of ops y es z] show ?case
    by (intro exI [of _ "tr' @ es"]) (auto intro: tp_reach.step)
qed blast

lemma demo_stopped:
  "\<exists>tr s. tp_reach demo_ops 5 1 2 tr s \<and> accepted (queue_evs tr) = [7] \<and> stop s"
proof -
  obtain s0 where s0: "ThreadPool demo_ops 5 1 2 = Inr s0" by (simp add: ThreadPool_def)
  then have f: "\<not> stop s0" "workers s0 = [\<lparr>phase = Ready, keepInPool = True\<rparr>]" "freeWorkerNum s0 = 0" "dataQueue s0 = []"
    by (auto simp: ThreadPool_def createWorker_def create_worker_def)
  have "may_notify (enqueue (createWorker demo_ops) 7 s0) None"
    using f by (simp add: may_notify_def blocked_def enqueue_def createWorker_def create_worker_def less_Suc_eq nth_append)
  from tp_reach.step [OF tp_reach.init [OF s0] run [OF f(1) this]]
  have r: "tp_reach demo_ops 5 1 2 [Queue (Accept 7)] (Run demo_ops 7 None s0)" by simp
  have "stop (Stop_announce (Run demo_ops 7 None s0))" by (simp add: Stop_announce_def stop_begin_def)
  with tp_reach_more [OF r announce] show ?thesis by fastforce
qed

theorem thread_pool_safe_witness:
  "\<exists>tr s. tp_reach demo_ops 5 0 1 tr s \<and> accepted (queue_evs tr) = [7] \<and>
    mset (accepted (queue_evs tr)) = mset (dataQueue s) + mset (working s) + mset (finished (queue_evs tr)) \<and>
    map fst (outputs tr) = [7]"
proof -
  obtain r j tr where w: "tp_reach demo_ops 5 0 1 tr (lone 5 [] (Waiting False) [0] 1 False [r] Fresh j)"
    and tr: "accepted (queue_evs tr) = [7]" "finished (queue_evs tr) = [7]" using lone_first_task [of demo_ops 5 7] by blast
  from thread_pool_safe [OF w] w tr show ?thesis by (intro exI conjI) (assumption, simp_all)
qed

theorem stop_finishes_all_tasks_witness:
  "\<exists>tr s. tp_reach demo_ops 5 1 2 tr s \<and> stop s \<and> joinable s \<and> dataQueue s = [] \<and> map fst (outputs tr) = [7]"
proof -
  obtain tr s where r: "tp_reach demo_ops 5 1 2 tr s" "accepted (queue_evs tr) = [7]" "stop s" using demo_stopped by blast
  obtain s' where s': "(work demo_ops)\<^sup>*\<^sup>* s s'" "wq_idle s'" using tp.drains [OF tp_reach_live [OF r(1)]] by auto
  obtain tr' where t: "tp_reach demo_ops 5 1 2 tr' s'" "accepted (queue_evs tr') = [7]" "stop s'"
    using work_reach [OF s'(1) r(1)] r(2,3) by auto
  then have j: "joinable s'" using s'(2) by (simp add: wq_idle_def)
  have d: "dataQueue s' = []" "mset (map fst (outputs tr')) = mset [7]"
    using stop_finishes_all_tasks [OF t(1) _ _ _ j] t(2) by simp_all
  then have "map fst (outputs tr') = [7]" by (simp only: mset.simps add_mset_add_single [symmetric] mset_single_iff empty_neutral)
  with t j d(1) show ?thesis by (intro exI [of _ tr'] exI [of _ s']) simp
qed


end
