(* ===== verification/Thread_Pool_Ex.thy ===== *)
theory Thread_Pool_Ex
  imports Worker_Queue
begin

text \<open>
  Model of \<open>thread/thread_pool_ex.h\<close> and \<open>thread/thread_pool_ex.cpp\<close> (class \<open>ThreadPoolEx\<close>) on top of
  \<open>Worker_Queue\<close>. The queue holds pointers to executor objects that \<open>Run\<close> allocates and the worker
  deletes; the objects live on a heap, so that a double deletion, a use after deletion or a leak is visible.
  \<open>exec\<close> is what calling the bound function of an executor returns.
\<close>

section \<open>State\<close>

text \<open>Where a worker that has a task stands: before the call, or before the deletion of the executor.\<close>

datatype xstage = To_Exec | To_Delete

record ('f, 'o) thread_pool_ex = "nat workq" +
  executors :: "nat \<rightharpoonup> 'f"
  next_executor :: nat
  outQueue :: "'o list"
  xstages :: "xstage list"

type_synonym ('f, 'o) tpx = "('f, 'o) thread_pool_ex"

datatype ('f, 'o) x_ev = Queue "nat ev" | Submit nat 'f | Output nat 'o | Fetched 'o

section \<open>The pool\<close>

definition createWorker :: "bool \<Rightarrow> ('f, 'o) tpx \<Rightarrow> ('f, 'o) tpx" where
  "createWorker keep s = (create_worker keep s)\<lparr>xstages := xstages s @ [To_Exec]\<rparr>"

definition ThreadPoolEx :: "nat \<Rightarrow> int \<Rightarrow> ('f, 'o) tpx res" where
  "ThreadPoolEx minThreadNum maxNum =
     (if \<not> int minThreadNum \<le> maxNum then Inl Assert_Failed
      else Inr ((createWorker True ^^ minThreadNum)
        \<lparr>maxThreadNum = of_int maxNum, dataQueue = [], workers = [], allWorkers = [], freeWorkerNum = 0, stop = False,
         executors = Map.empty, next_executor = 0, outQueue = [], xstages = []\<rparr>))"

definition new_executor :: "'f \<Rightarrow> ('f, 'o) tpx \<Rightarrow> nat \<times> ('f, 'o) tpx" where
  "new_executor func s =
     (next_executor s, s\<lparr>executors := (executors s)(next_executor s \<mapsto> func), next_executor := Suc (next_executor s)\<rparr>)"

text \<open>An executor that was not queued is deleted at the end; after queueing the pointer is null.\<close>

definition Run :: "'f \<Rightarrow> nat option \<Rightarrow> ('f, 'o) tpx \<Rightarrow> ('f, 'o) tpx" where
  "Run func k s =
     (let (executor, s) = new_executor func s in
      if \<not> stop s then notify_one k (enqueue createWorker executor s)
      else s\<lparr>executors := (executors s)(executor := None)\<rparr>)"

definition output_ready :: "int \<Rightarrow> ('f, 'o) tpx \<Rightarrow> bool" where
  "output_ready waitMs s \<longleftrightarrow> waitMs \<ge> 0 \<or> stop s \<or> outQueue s \<noteq> []"

text \<open>The empty \<open>shared_ptr\<close> is \<open>None\<close>.\<close>

definition GetJobOutput :: "('f, 'o) tpx \<Rightarrow> 'o option \<times> ('f, 'o) tpx" where
  "GetJobOutput s = (case outQueue s of r # q \<Rightarrow> (Some r, s\<lparr>outQueue := q\<rparr>) | [] \<Rightarrow> (None, s))"

definition Stop_announce :: "('f, 'o) tpx \<Rightarrow> ('f, 'o) tpx" where
  "Stop_announce s = (if \<not> stop s then stop_begin s else s)"

definition Stop_join :: "('f, 'o) tpx \<Rightarrow> ('f, 'o) tpx" where
  "Stop_join s = stop_end s"

definition pushResult :: "'o \<Rightarrow> ('f, 'o) tpx \<Rightarrow> ('f, 'o) tpx" where
  "pushResult result s = s\<lparr>outQueue := outQueue s @ [result]\<rparr>"

section \<open>The worker\<close>

definition set_stage :: "nat \<Rightarrow> xstage \<Rightarrow> ('f, 'o) tpx \<Rightarrow> ('f, 'o) tpx" where
  "set_stage i st s = s\<lparr>xstages := (xstages s)[i := st]\<rparr>"

definition enter_loop :: "nat \<Rightarrow> ('f, 'o) tpx \<Rightarrow> nat ev list \<times> ('f, 'o) tpx" where
  "enter_loop i s = (let (es, s) = loop_top i s in (es, set_stage i To_Exec s))"

definition enter_woken :: "nat \<Rightarrow> ('f, 'o) tpx \<Rightarrow> nat ev list \<times> ('f, 'o) tpx" where
  "enter_woken i s = (let (es, s) = wake_up i s in (es, set_stage i To_Exec s))"

text \<open>\<open>task->Exec(pool_)\<close>\<close>

definition Exec :: "('f \<Rightarrow> 'o) \<Rightarrow> nat \<Rightarrow> nat \<Rightarrow> ('f, 'o) tpx \<Rightarrow> ('o \<times> ('f, 'o) tpx) res" where
  "Exec exec i task s =
     (case executors s task of
        None \<Rightarrow> Inl Null_Deref
      | Some func \<Rightarrow> Inr (exec func, set_stage i To_Delete (pushResult (exec func) s)))"

text \<open>\<open>delete task\<close>, after which the worker turns to the queue again.\<close>

definition delete_task :: "nat \<Rightarrow> nat \<Rightarrow> ('f, 'o) tpx \<Rightarrow> ('f, 'o) tpx res" where
  "delete_task i task s =
     (case executors s task of
        None \<Rightarrow> Inl Null_Deref
      | Some func \<Rightarrow> Inr (set_phase i Ready (s\<lparr>executors := (executors s)(task := None)\<rparr>)))"

section \<open>All interleavings\<close>

inductive worker_step :: "('f \<Rightarrow> 'o) \<Rightarrow> ('f, 'o) tpx \<Rightarrow> ('f, 'o) x_ev list \<Rightarrow> ('f, 'o) tpx \<Rightarrow> bool" for exec where
  enter: "i < length (workers s) \<Longrightarrow> ph s i = Ready \<Longrightarrow> enter_loop i s = (es, s') \<Longrightarrow> worker_step exec s (map Queue es) s'"
| notified: "i < length (workers s) \<Longrightarrow> ph s i = Waiting True \<Longrightarrow> enter_woken i s = (es, s') \<Longrightarrow>
    worker_step exec s (map Queue es) s'"
| leave: "i < length (workers s) \<Longrightarrow> ph s i = TimedOut \<Longrightarrow> worker_step exec s [] (leave i s)"
| exec: "i < length (workers s) \<Longrightarrow> ph s i = Working t \<Longrightarrow> xstages s ! i = To_Exec \<Longrightarrow> Exec exec i t s = Inr (r, s') \<Longrightarrow>
    worker_step exec s [Output t r] s'"
| delete: "i < length (workers s) \<Longrightarrow> ph s i = Working t \<Longrightarrow> xstages s ! i = To_Delete \<Longrightarrow> delete_task i t s = Inr s' \<Longrightarrow>
    worker_step exec s [Queue (Finish t)] s'"

inductive tpx_step :: "('f \<Rightarrow> 'o) \<Rightarrow> ('f, 'o) tpx \<Rightarrow> ('f, 'o) x_ev list \<Rightarrow> ('f, 'o) tpx \<Rightarrow> bool" for exec where
  worker: "worker_step exec s es s' \<Longrightarrow> tpx_step exec s es s'"
| spurious: "i < length (workers s) \<Longrightarrow> ph s i = Waiting False \<Longrightarrow> enter_woken i s = (es, s') \<Longrightarrow>
    tpx_step exec s (map Queue es) s'"
| time_out: "i < length (workers s) \<Longrightarrow> ph s i = Waiting False \<Longrightarrow> \<not> keepInPool (workers s ! i) \<Longrightarrow>
    tpx_step exec s [] (set_phase i TimedOut s)"
| run: "\<not> stop s \<Longrightarrow> new_executor func s = (a, s1) \<Longrightarrow> may_notify (enqueue createWorker a s1) k \<Longrightarrow>
    tpx_step exec s [Submit a func, Queue (Accept a)] (Run func k s)"
| run_stopped: "stop s \<Longrightarrow> tpx_step exec s [] (Run func k s)"
| fetch: "output_ready waitMs s \<Longrightarrow> GetJobOutput s = (r, s') \<Longrightarrow> tpx_step exec s (case r of None \<Rightarrow> [] | Some x \<Rightarrow> [Fetched x]) s'"
| announce: "tpx_step exec s [] (Stop_announce s)"
| join: "stop s \<Longrightarrow> joinable s \<Longrightarrow> tpx_step exec s [] (Stop_join s)"

inductive tpx_reach :: "('f \<Rightarrow> 'o) \<Rightarrow> nat \<Rightarrow> int \<Rightarrow> ('f, 'o) x_ev list \<Rightarrow> ('f, 'o) tpx \<Rightarrow> bool" for exec n m where
  init: "ThreadPoolEx n m = Inr s \<Longrightarrow> tpx_reach exec n m [] s"
| step: "tpx_reach exec n m tr s \<Longrightarrow> tpx_step exec s es s' \<Longrightarrow> tpx_reach exec n m (tr @ es) s'"

section \<open>The pool implements the worker queue\<close>

lemma x_core_extension [simp]:
  "workq.truncate (set_stage i st s) = workq.truncate s" "workq.truncate (s\<lparr>outQueue := q\<rparr>) = workq.truncate s"
  "workq.truncate (s\<lparr>executors := e\<rparr>) = workq.truncate s" "workq.truncate (s\<lparr>next_executor := k\<rparr>) = workq.truncate s"
  "workq.truncate (s\<lparr>xstages := ss\<rparr>) = workq.truncate s"
  by (simp_all add: workq.truncate_def set_stage_def)

lemma x_core_createWorker: "workq.truncate (createWorker k s) = create_worker k (workq.truncate s)"
  by (simp add: createWorker_def core_ops)

lemma x_core_enter_loop:
  assumes "enter_loop i s = (es, s')"
  shows "loop_top i (workq.truncate s) = (es, workq.truncate s')"
proof -
  obtain s1 where "loop_top i s = (es, s1)" "s' = set_stage i To_Exec s1"
    using assms by (cases "loop_top i s") (simp add: enter_loop_def)
  then show ?thesis using core_loop_top [of i s es s1] by simp
qed

lemma x_core_enter_woken:
  assumes "enter_woken i s = (es, s')"
  shows "wake_up i (workq.truncate s) = (es, workq.truncate s')"
proof -
  obtain s1 where "wake_up i s = (es, s1)" "s' = set_stage i To_Exec s1"
    using assms by (cases "wake_up i s") (simp add: enter_woken_def)
  then show ?thesis using core_wake_up [of i s es s1] by simp
qed

definition queue_evs :: "('f, 'o) x_ev list \<Rightarrow> nat ev list" where
  "queue_evs tr = concat (map (\<lambda>e. case e of Queue q \<Rightarrow> [q] | _ \<Rightarrow> []) tr)"

lemma x_queue_evs_simps [simp]:
  "queue_evs [] = []" "queue_evs (tr @ tr') = queue_evs tr @ queue_evs tr'" "queue_evs (Queue q # tr) = q # queue_evs tr"
  "queue_evs (Output t r # tr) = queue_evs tr" "queue_evs (Fetched r # tr) = queue_evs tr"
  "queue_evs (Submit t f # tr) = queue_evs tr" "queue_evs (map Queue es) = es"
  by (simp_all add: queue_evs_def) (induction es; simp)

lemma x_worker_step_simulates:
  assumes "worker_step exec s es s'" and "wq_reach n m tr (workq.truncate s)"
  shows "wq_reach n m (tr @ queue_evs es) (workq.truncate s')"
  using assms
proof (induction rule: worker_step.induct)
  case (enter i s es s')
  from wq_reach.step [OF enter.prems wq_step.go [of i]] x_core_enter_loop [OF enter.hyps(3)] enter.hyps show ?case by auto
next
  case (notified i s es s')
  from wq_reach.step [OF notified.prems wq_step.wake [of i]] x_core_enter_woken [OF notified.hyps(3)] notified.hyps show ?case by auto
next
  case (leave i s)
  from wq_reach.step [OF leave.prems wq_step.leave [of i]] leave.hyps show ?case by (auto simp: core_ops)
next
  case (exec i s t r s')
  then show ?case by (auto simp: Exec_def pushResult_def split: option.splits)
next
  case (delete i s t s')
  from wq_reach.step [OF delete.prems wq_step.finish [of i]] delete.hyps show ?case
    by (auto simp: delete_task_def core_ops split: option.splits)
qed

lemma tpx_step_simulates:
  assumes "tpx_step exec s es s'" and "wq_reach n m tr (workq.truncate s)"
  shows "wq_reach n m (tr @ queue_evs es) (workq.truncate s')"
  using assms
proof (induction rule: tpx_step.induct)
  case (worker s es s')
  then show ?case by (rule x_worker_step_simulates)
next
  case (spurious i s es s')
  from wq_reach.step [OF spurious.prems wq_step.wake [of i]] x_core_enter_woken [OF spurious.hyps(3)] spurious.hyps show ?case by auto
next
  case (time_out i s)
  from wq_reach.step [OF time_out.prems wq_step.time_out [of i]] time_out.hyps show ?case by (auto simp: core_ops)
next
  case (run s func a s1 k)
  have s1: "workq.truncate s1 = workq.truncate s" "stop s1 = stop s" using run.hyps(2) by (auto simp: new_executor_def)
  have e: "workq.truncate (enqueue createWorker a s1) = enqueue create_worker a (workq.truncate s1)"
    by (rule core_enqueue) (rule x_core_createWorker)
  have "may_notify (enqueue create_worker a (workq.truncate s)) k" using run.hyps(3) by (simp flip: e s1(1))
  from wq_reach.step [OF run.prems wq_step.run [OF _ this]] run.hyps(1,2) s1 show ?case by (simp add: Run_def core_ops e)
next
  case (run_stopped s func k)
  then show ?case by (simp add: Run_def new_executor_def)
next
  case (fetch waitMs s r s')
  then show ?case by (auto simp: GetJobOutput_def split: list.splits)
next
  case (announce s)
  from wq_reach.step [OF announce.prems wq_step.stop_begin] announce.prems show ?case
    by (auto simp: Stop_announce_def core_ops)
next
  case (join s)
  from wq_reach.step [OF join.prems wq_step.stop_end] join.hyps show ?case by (auto simp: Stop_join_def core_ops)
qed

lemma tpx_reach_simulates: "tpx_reach exec n m tr s \<Longrightarrow> wq_reach n m (queue_evs tr) (workq.truncate s)"
proof (induction rule: tpx_reach.induct)
  case (init s)
  have "workq.truncate ((createWorker True ^^ n) t) = (create_worker True ^^ n) (workq.truncate t)" for t :: "('a, 'b) tpx"
    by (induction n) (simp_all add: x_core_createWorker)
  with init have "workq.truncate s = init_queue n m"
    by (auto simp: ThreadPoolEx_def init_queue_def new_queue_def workq.truncate_def split: if_splits)
  then show ?case using wq_reach.init by simp
qed (simp add: tpx_step_simulates)

section \<open>Executors and outputs\<close>

definition outputs :: "('f, 'o) x_ev list \<Rightarrow> (nat \<times> 'o) list" where
  "outputs tr = concat (map (\<lambda>e. case e of Output t r \<Rightarrow> [(t, r)] | _ \<Rightarrow> []) tr)"

definition fetched :: "('f, 'o) x_ev list \<Rightarrow> 'o list" where
  "fetched tr = concat (map (\<lambda>e. case e of Fetched r \<Rightarrow> [r] | _ \<Rightarrow> []) tr)"

lemma x_output_simps [simp]:
  "outputs [] = []" "outputs (tr @ tr') = outputs tr @ outputs tr'" "outputs (Queue q # tr) = outputs tr"
  "outputs (Output t r # tr) = (t, r) # outputs tr" "outputs (Fetched r # tr) = outputs tr" "outputs (Submit t f # tr) = outputs tr"
  "outputs (map Queue es) = []"
  "fetched [] = []" "fetched (tr @ tr') = fetched tr @ fetched tr'" "fetched (Queue q # tr) = fetched tr"
  "fetched (Output t r # tr) = fetched tr" "fetched (Fetched r # tr) = r # fetched tr" "fetched (Submit t f # tr) = fetched tr"
  "fetched (map Queue es) = []"
  by (simp_all add: outputs_def fetched_def comp_def)

text \<open>The tasks whose function has been called but whose executor still exists.\<close>

definition called :: "('f, 'o) tpx \<Rightarrow> nat \<Rightarrow> nat multiset" where
  "called s i = (if xstages s ! i = To_Delete then mset (task_of (ph s i)) else {#})"

definition executed :: "('f, 'o) tpx \<Rightarrow> nat multiset" where
  "executed s = (\<Sum>i < length (workers s). called s i)"

text \<open>
  Every executor object belongs to a queued task or to one in progress; outputs belong to
  submitted functions, one output for each task that was called.
\<close>

definition x_inv :: "('f \<Rightarrow> 'o) \<Rightarrow> ('f, 'o) x_ev list \<Rightarrow> ('f, 'o) tpx \<Rightarrow> bool" where
  "x_inv exec tr s \<longleftrightarrow> length (xstages s) = length (workers s) \<and> finite (dom (executors s)) \<and>
     mset (dataQueue s) + mset (working s) = mset_set (dom (executors s)) \<and>
     (\<forall>a \<in> dom (executors s). a < next_executor s) \<and>
     (\<forall>a f. executors s a = Some f \<longrightarrow> Submit a f \<in> set tr) \<and>
     (\<forall>(t, r) \<in> set (outputs tr). \<exists>f. Submit t f \<in> set tr \<and> r = exec f) \<and>
     map snd (outputs tr) = fetched tr @ outQueue s \<and>
     mset (map fst (outputs tr)) = mset (finished (queue_evs tr)) + executed s"

text \<open>The parts of the state that the queue operations leave alone.\<close>

definition same_x :: "('f, 'o) tpx \<Rightarrow> ('f, 'o) tpx \<Rightarrow> bool" where
  "same_x s s' \<longleftrightarrow> executors s' = executors s \<and> next_executor s' = next_executor s \<and> outQueue s' = outQueue s"

lemma x_inv_queue:
  assumes "x_inv exec tr s" and "same_x s s'" and "length (xstages s') = length (workers s')"
    and "mset (dataQueue s') + mset (working s') = mset (dataQueue s) + mset (working s)"
    and "executed s' = executed s" and "finished es = []"
  shows "x_inv exec (tr @ map Queue es) s'"
  using assms unfolding x_inv_def same_x_def by (simp add: case_prod_beta) fastforce

lemma executed_cong:
  assumes "length (workers s') = length (workers s)" and "\<And>i. i < length (workers s) \<Longrightarrow> called s' i = called s i"
  shows "executed s' = executed s"
  using assms by (simp add: executed_def)

lemma executed_change:
  assumes "i < length (workers s)" and "length (workers s') = length (workers s)"
    and "\<And>j. j < length (workers s) \<Longrightarrow> j \<noteq> i \<Longrightarrow> called s' j = called s j"
  shows "executed s' + called s i = executed s + called s' i"
proof -
  have "(\<Sum>j \<in> {..<length (workers s)} - {i}. called s' j) = (\<Sum>j \<in> {..<length (workers s)} - {i}. called s j)"
    using assms(3) by (intro sum.cong) auto
  then show ?thesis
    using assms(1,2) sum.remove [of "{..<length (workers s)}" i "called s'"] sum.remove [of "{..<length (workers s)}" i "called s"]
    by (simp add: executed_def ac_simps)
qed

lemma called_fields [simp]:
  "called (s\<lparr>dataQueue := q\<rparr>) = called s" "called (s\<lparr>allWorkers := as\<rparr>) = called s" "called (s\<lparr>freeWorkerNum := n\<rparr>) = called s"
  "called (s\<lparr>stop := b\<rparr>) = called s" "called (s\<lparr>executors := e\<rparr>) = called s" "called (s\<lparr>next_executor := k\<rparr>) = called s"
  "called (s\<lparr>outQueue := o'\<rparr>) = called s"
  by (simp_all add: fun_eq_iff called_def)

lemma executed_fields [simp]:
  "executed (s\<lparr>dataQueue := q\<rparr>) = executed s" "executed (s\<lparr>allWorkers := as\<rparr>) = executed s"
  "executed (s\<lparr>freeWorkerNum := n\<rparr>) = executed s" "executed (s\<lparr>stop := b\<rparr>) = executed s"
  "executed (s\<lparr>executors := e\<rparr>) = executed s" "executed (s\<lparr>next_executor := k\<rparr>) = executed s"
  "executed (s\<lparr>outQueue := o'\<rparr>) = executed s"
  by (simp_all add: executed_def)

lemma working_fields [simp]:
  "working (s\<lparr>executors := e\<rparr>) = working s" "working (s\<lparr>next_executor := k\<rparr>) = working s"
  "working (s\<lparr>outQueue := o'\<rparr>) = working s"
  by (simp_all add: working_def)

lemma set_phase_x_fields [simp]:
  "xstages (set_phase i p s) = xstages s" "executors (set_phase i p s) = executors s"
  "next_executor (set_phase i p s) = next_executor s" "outQueue (set_phase i p s) = outQueue s"
  by (simp_all add: set_phase_def)

lemma enter_loop_x:
  assumes "x_inv exec tr s" and "i < length (workers s)" and "task_of (ph s i) = []" and "enter_loop i s = (es, s')"
  shows "x_inv exec (tr @ map Queue es) s'"
proof (rule x_inv_queue [OF assms(1)])
  obtain s1 where l: "loop_top i s = (es, s1)" "s' = set_stage i To_Exec s1"
    using assms(4) by (cases "loop_top i s") (simp add: enter_loop_def)
  have len: "length (xstages s) = length (workers s)" using assms(1) by (simp add: x_inv_def)
  have s1: "same_x s s1" "xstages s1 = xstages s" "length (workers s1) = length (workers s)" "finished es = []"
    using l(1) by (auto simp: loop_top_eq set_phase_def same_x_def split: if_splits)
  show "same_x s s'" "finished es = []" "length (xstages s') = length (workers s')"
    using s1 l(2) len by (simp_all add: same_x_def set_stage_def)
  have "mset (working (set_phase i p (s\<lparr>dataQueue := q\<rparr>))) = mset (working s) + mset (task_of p)"
    "mset (working (set_phase i p (s\<lparr>freeWorkerNum := f\<rparr>))) = mset (working s) + mset (task_of p)"
    "mset (working (set_phase i p s)) = mset (working s) + mset (task_of p)" for p q f
    using working_set_phase [of i "s\<lparr>dataQueue := q\<rparr>" p] working_set_phase [of i "s\<lparr>freeWorkerNum := f\<rparr>" p]
      working_set_phase [of i s p] assms(2,3) by simp_all
  then have "mset (dataQueue s1) + mset (working s1) = mset (dataQueue s) + mset (working s)"
    using l(1) by (cases "dataQueue s") (auto simp: loop_top_eq split: if_splits)
  then show "mset (dataQueue s') + mset (working s') = mset (dataQueue s) + mset (working s)"
    using l(2) by (simp add: set_stage_def working_def)
  show "executed s' = executed s"
  proof (rule executed_cong)
    fix j assume j: "j < length (workers s)"
    show "called s' j = called s j"
    proof (cases "j = i")
      case True
      then show ?thesis using l(2) assms(2,3) len s1 by (simp add: called_def set_stage_def)
    next
      case False
      have "ph s1 j = ph s j" using l(1) j False by (auto simp: loop_top_eq set_phase_ph split: if_splits)
      then show ?thesis using l(2) False s1 by (simp add: called_def set_stage_def)
    qed
  qed (use l(2) s1 in \<open>simp add: set_stage_def\<close>)
qed

lemma x_inv_fields:
  "x_inv exec tr (s\<lparr>allWorkers := as\<rparr>) = x_inv exec tr s" "x_inv exec tr (s\<lparr>freeWorkerNum := f\<rparr>) = x_inv exec tr s"
  "x_inv exec tr (s\<lparr>stop := b\<rparr>) = x_inv exec tr s"
  by (simp_all add: x_inv_def)

lemma enter_woken_x:
  assumes "x_inv exec tr s" and "i < length (workers s)" and "task_of (ph s i) = []" and "enter_woken i s = (es, s')"
  shows "x_inv exec (tr @ map Queue es) s'"
proof (rule enter_loop_x)
  show "enter_loop i (s\<lparr>freeWorkerNum := freeWorkerNum s - 1\<rparr>) = (es, s')"
    using assms(4) by (simp add: enter_woken_def enter_loop_def wake_up_def)
qed (use assms in \<open>simp_all add: x_inv_fields\<close>)

lemma set_phase_x:
  assumes "x_inv exec tr s" and "i < length (workers s)" and "task_of (ph s i) = []" and "task_of p = []"
  shows "x_inv exec tr (set_phase i p s)"
proof -
  have "x_inv exec (tr @ map Queue []) (set_phase i p s)"
  proof (rule x_inv_queue [OF assms(1)])
    show "executed (set_phase i p s) = executed s"
      by (rule executed_cong) (use assms(3,4) in \<open>simp_all add: called_def set_phase_ph\<close>)
    show "same_x s (set_phase i p s)" "length (xstages (set_phase i p s)) = length (workers (set_phase i p s))"
      using assms(1) by (simp_all add: same_x_def x_inv_def)
  qed (use working_set_phase [OF assms(2), of p] assms(3,4) in simp_all)
  then show ?thesis by simp
qed

lemma createWorker_x:
  assumes "x_inv exec tr s"
  shows "x_inv exec tr (createWorker k s)"
proof -
  let ?s = "createWorker k s" and ?n = "length (workers s)"
  have l: "length (xstages s) = ?n" using assms by (simp add: x_inv_def)
  have n: "length (workers ?s) = Suc ?n" "working ?s = working s" by (simp_all add: createWorker_def working_def create_worker_def)
  have "called ?s j = called s j" if "j < ?n" for j
    using that l create_worker_nth [of j s k] by (simp add: called_def createWorker_def nth_append)
  moreover have "called ?s ?n = {#}" using l by (simp add: called_def createWorker_def nth_append)
  ultimately have "executed ?s = executed s" by (simp add: executed_def n(1))
  then have "x_inv exec (tr @ map Queue []) ?s"
    using l n by (intro x_inv_queue [OF assms]) (simp_all add: same_x_def createWorker_def create_worker_def)
  then show ?thesis by simp
qed

lemma Run_x:
  assumes "x_inv exec tr s" and "\<not> stop s" and "new_executor func s = (a, s1)" and "may_notify (enqueue createWorker a s1) k"
  shows "x_inv exec (tr @ [Submit a func, Queue (Accept a)]) (Run func k s)"
proof -
  define s2 where "s2 = (if unat (freeWorkerNum s) \<le> length (dataQueue s) \<and> length (allWorkers s) < unat (maxThreadNum s)
    then createWorker False s else s)"
  have i2: "x_inv exec tr s2" using assms(1) createWorker_x [OF assms(1), of False] by (simp add: s2_def)
  have a: "a = next_executor s" "s1 = s\<lparr>executors := (executors s)(a \<mapsto> func), next_executor := Suc a\<rparr>"
    using assms(3) by (auto simp: new_executor_def)
  have x2: "executors s2 = executors s" "next_executor s2 = a" "dataQueue s2 = dataQueue s" "xstages s1 = xstages s"
    by (simp_all add: s2_def createWorker_def create_worker_def a)
  let ?q = "s2\<lparr>executors := (executors s2)(a \<mapsto> func), next_executor := Suc a, dataQueue := dataQueue s @ [a]\<rparr>"
  have e: "enqueue createWorker a s1 = ?q"
    by (simp add: enqueue_def Let_def s2_def a createWorker_def create_worker_def)
  have fresh: "a \<notin> dom (executors s)" using i2 x2 by (auto simp: x_inv_def)
  have "executed ?q = executed s2" by simp
  moreover have "mset_set (insert a (dom (executors s))) = add_mset a (mset_set (dom (executors s)))"
    using i2 fresh x2 by (simp add: x_inv_def)
  ultimately have q: "x_inv exec (tr @ [Submit a func, Queue (Accept a)]) ?q"
    using i2 x2 fresh unfolding x_inv_def by (auto simp: working_def case_prod_beta less_Suc_eq dest: bspec)
  have r: "Run func k s = notify_one k ?q"
    using assms(2,3) e a by (simp add: Run_def)
  show ?thesis
  proof (cases k)
    case (Some i)
    then have "i < length (workers ?q)" "ph ?q i = Waiting False" using assms(4) unfolding e by (auto simp: may_notify_def blocked_def)
    with set_phase_x [OF q, of i "Waiting True"] Some r show ?thesis by (simp add: notify_one_def)
  qed (use q r in \<open>simp add: notify_one_def\<close>)
qed

lemma live_executor:
  assumes "x_inv exec tr s" and "i < length (workers s)" and "ph s i = Working t"
  shows "executors s t \<noteq> None"
proof -
  have "\<exists>w \<in> set (workers s). t \<in> set (task_of (phase w))" using assms(2,3) by (intro bexI [OF _ nth_mem [OF assms(2)]]) simp
  then have "t \<in> set (working s)" by (simp add: working_def)
  then have "t \<in># mset_set (dom (executors s))" using assms(1) unfolding x_inv_def by (metis set_mset_mset union_iff)
  then show ?thesis using assms(1) by (auto simp: x_inv_def)
qed

lemma Exec_x:
  assumes "x_inv exec tr s" and "i < length (workers s)" and "ph s i = Working t" and "xstages s ! i = To_Exec"
    and "Exec exec i t s = Inr (r, s')"
  shows "x_inv exec (tr @ [Output t r]) s'"
proof -
  have l: "length (xstages s) = length (workers s)" using assms(1) by (simp add: x_inv_def)
  obtain f where f: "executors s t = Some f" "r = exec f" "s' = set_stage i To_Delete (pushResult r s)"
    using assms(5) by (auto simp: Exec_def split: option.splits)
  have "called s' i = {#t#}" "called s i = {#}" "\<And>j. j \<noteq> i \<Longrightarrow> called s' j = called s j"
    using assms(2-4) l f(3) by (simp_all add: called_def set_stage_def pushResult_def)
  then have "executed s' = executed s + {#t#}"
    using executed_change [OF assms(2), of s'] f(3) by (simp add: set_stage_def pushResult_def)
  with assms(1) f show ?thesis
    unfolding x_inv_def by (auto simp: set_stage_def pushResult_def working_def case_prod_beta)
qed

lemma delete_task_x:
  assumes "x_inv exec tr s" and "i < length (workers s)" and "ph s i = Working t" and "xstages s ! i = To_Delete"
    and "delete_task i t s = Inr s'"
  shows "x_inv exec (tr @ [Queue (Finish t)]) s'"
proof -
  let ?e = "(executors s)(t := None)"
  have s': "s' = set_phase i Ready (s\<lparr>executors := ?e\<rparr>)" using assms(5) by (auto simp: delete_task_def split: option.splits)
  have f: "executors s' = ?e" "outQueue s' = outQueue s" "next_executor s' = next_executor s" "dataQueue s' = dataQueue s"
    "xstages s' = xstages s" "length (workers s') = length (workers s)" by (simp_all add: s' set_phase_def)
  have "called s' i = {#}" "called s i = {#t#}" "\<And>j. j < length (workers s) \<Longrightarrow> j \<noteq> i \<Longrightarrow> called s' j = called s j"
    using assms(2-4) f(5) by (simp_all add: called_def s' set_phase_ph)
  then have x: "executed s = executed s' + {#t#}" using executed_change [OF assms(2), of s'] f(6) by simp
  have "mset (working s') + {#t#} = mset (working s)"
    using working_set_phase [of i "s\<lparr>executors := ?e\<rparr>" Ready] assms(2,3) by (simp add: s' working_def)
  moreover have "mset_set (dom ?e) + {#t#} = mset_set (dom (executors s))"
  proof -
    have "t \<in> dom (executors s)" using live_executor [OF assms(1-3)] by auto
    moreover have "dom ?e = dom (executors s) - {t}" by auto
    moreover have "finite (dom (executors s))" using assms(1) by (simp add: x_inv_def)
    ultimately show ?thesis by (simp add: mset_set.remove)
  qed
  ultimately have "mset (dataQueue s') + mset (working s') = mset_set (dom ?e)"
    using assms(1) f(4) unfolding x_inv_def by (metis add_right_cancel union_assoc)
  with assms(1) f x show ?thesis unfolding x_inv_def by (auto simp: case_prod_beta split: if_splits)
qed

lemma worker_step_x:
  assumes "worker_step exec s es s'" and "x_inv exec tr s"
  shows "x_inv exec (tr @ es) s'"
  using assms
proof (induction rule: worker_step.induct)
  case (leave i s)
  have "x_inv exec tr (set_phase i Returned (s\<lparr>allWorkers := as, freeWorkerNum := f\<rparr>))" for as f
    using leave by (intro set_phase_x) (simp_all add: x_inv_fields)
  moreover have "x_inv exec tr (set_phase i Returned s)" using leave by (intro set_phase_x) simp_all
  ultimately show ?case by (simp add: Worker_Queue.leave_def)
qed (simp_all add: enter_loop_x enter_woken_x Exec_x delete_task_x)

lemma notify_all_x:
  assumes "x_inv exec tr s"
  shows "x_inv exec tr (notify_all s)"
proof -
  have x: "xstages (notify_all s) = xstages s" "executors (notify_all s) = executors s"
    "next_executor (notify_all s) = next_executor s" "outQueue (notify_all s) = outQueue s" by (simp_all add: notify_all_def)
  have "x_inv exec (tr @ map Queue []) (notify_all s)"
  proof (rule x_inv_queue [OF assms])
    show "executed (notify_all s) = executed s"
      by (rule executed_cong) (simp_all add: called_def notify_all_nth x)
  qed (use assms x in \<open>simp_all add: same_x_def x_inv_def\<close>)
  then show ?thesis by simp
qed

lemma tpx_step_x:
  assumes "tpx_step exec s es s'" and "x_inv exec tr s"
  shows "x_inv exec (tr @ es) s'"
  using assms
proof (induction rule: tpx_step.induct)
  case (worker s es s')
  then show ?case by (rule worker_step_x)
next
  case (run_stopped s func k)
  have "next_executor s \<notin> dom (executors s)" using run_stopped.prems by (auto simp: x_inv_def)
  then have "(executors s)(next_executor s := None) = executors s" by (auto simp: fun_eq_iff)
  then have "Run func k s = s\<lparr>next_executor := Suc (next_executor s)\<rparr>" using run_stopped.hyps by (simp add: Run_def new_executor_def)
  with run_stopped.prems show ?case by (auto simp: x_inv_def less_Suc_eq)
next
  case (fetch waitMs s r s')
  then show ?case
    by (auto simp: GetJobOutput_def x_inv_def case_prod_beta split: list.splits)
next
  case (announce s)
  then show ?case using notify_all_x [of exec tr "s\<lparr>stop := True\<rparr>"] by (simp add: Stop_announce_def stop_begin_def x_inv_fields)
qed (simp_all add: enter_woken_x set_phase_x Run_x Stop_join_def stop_end_def x_inv_fields)

lemma tpx_reach_x: "tpx_reach exec n m tr s \<Longrightarrow> x_inv exec tr s"
proof (induction rule: tpx_reach.induct)
  case (init s)
  have "x_inv exec [] ((createWorker True ^^ n) t)" if "x_inv exec [] t" for t
    using that by (induction n) (simp_all add: createWorker_x)
  with init show ?case by (auto simp: ThreadPoolEx_def x_inv_def executed_def working_def split: if_splits)
qed (rule tpx_step_x)

section \<open>Safety\<close>

lemma tpx_queue_inv:
  "tpx_reach exec n m tr s \<Longrightarrow> int n \<le> m \<Longrightarrow> m < 2 ^ 31 \<Longrightarrow> wq_inv (queue_evs tr) (workq.truncate s)"
  by (rule wq_reach_inv [OF tpx_reach_simulates])

text \<open>Every accepted task has an executor of its own.\<close>

definition fresh_inv :: "('f, 'o) x_ev list \<Rightarrow> ('f, 'o) tpx \<Rightarrow> bool" where
  "fresh_inv tr s \<longleftrightarrow> distinct (accepted (queue_evs tr)) \<and> (\<forall>a \<in> set (accepted (queue_evs tr)). a < next_executor s)"

lemma loop_top_fresh: "loop_top i s = (es, s') \<Longrightarrow> accepted es = [] \<and> next_executor s' = next_executor s"
  by (auto simp: loop_top_eq split: if_splits)

lemma enter_fresh:
  "enter_loop i s = (es, s') \<Longrightarrow> accepted es = [] \<and> next_executor s' = next_executor s"
  "enter_woken i s = (es, s') \<Longrightarrow> accepted es = [] \<and> next_executor s' = next_executor s"
proof -
  show "accepted es = [] \<and> next_executor s' = next_executor s" if "enter_loop i s = (es, s')"
    using that loop_top_fresh [of i s] by (cases "loop_top i s") (auto simp: enter_loop_def set_stage_def)
  show "accepted es = [] \<and> next_executor s' = next_executor s" if "enter_woken i s = (es, s')"
    using that loop_top_fresh [of i "s\<lparr>freeWorkerNum := freeWorkerNum s - 1\<rparr>"]
    by (cases "wake_up i s") (auto simp: enter_woken_def set_stage_def wake_up_def)
qed

lemma worker_step_fresh:
  "worker_step exec s es s' \<Longrightarrow> accepted (queue_evs es) = [] \<and> next_executor s' = next_executor s"
proof (induction rule: worker_step.induct)
  case (enter i s es s')
  then show ?case using enter_fresh(1) by auto
next
  case (notified i s es s')
  then show ?case using enter_fresh(2) by auto
qed (auto simp: Exec_def delete_task_def set_stage_def pushResult_def Worker_Queue.leave_def split: option.splits)

lemma Run_next: "next_executor (Run func k s) = Suc (next_executor s)"
  by (simp add: Run_def new_executor_def enqueue_def Let_def createWorker_def create_worker_def notify_one_def split: option.split)

lemma tpx_step_fresh: "tpx_step exec s es s' \<Longrightarrow> fresh_inv tr s \<Longrightarrow> fresh_inv (tr @ es) s'"
proof (induction rule: tpx_step.induct)
  case (worker s es s')
  then show ?case using worker_step_fresh [of exec s es s'] by (simp add: fresh_inv_def)
next
  case (spurious i s es s')
  then show ?case using enter_fresh(2) [of i s es s'] by (simp add: fresh_inv_def)
next
  case (run s func a s1 k)
  then have "a = next_executor s" by (simp add: new_executor_def)
  with run.prems show ?case by (auto simp: fresh_inv_def Run_next less_Suc_eq)
next
  case (fetch waitMs s r s')
  then show ?case by (auto simp: fresh_inv_def GetJobOutput_def split: list.splits)
qed (auto simp: fresh_inv_def Run_next less_Suc_eq Stop_announce_def stop_begin_def notify_all_def Stop_join_def stop_end_def)

lemma tpx_reach_fresh: "tpx_reach exec n m tr s \<Longrightarrow> fresh_inv tr s"
  by (induction rule: tpx_reach.induct) (simp_all add: tpx_step_fresh, simp add: fresh_inv_def)

lemma distinct_submset:
  assumes "mset xs \<subseteq># mset ys" and "distinct ys"
  shows "distinct xs"
  unfolding distinct_count_atmost_1
proof
  fix a
  have "count (mset xs) a \<le> count (mset ys) a" using assms(1) by (rule mset_subset_eq_count)
  also have "\<dots> \<le> 1" using assms(2) by (simp add: distinct_count_atmost_1)
  finally have c: "count (mset xs) a \<le> 1" .
  show "count (mset xs) a = (if a \<in> set xs then 1 else 0)"
  proof (cases "a \<in> set xs")
    case True
    then have "0 < count (mset xs) a" by (simp add: count_greater_zero_iff)
    with c have "count (mset xs) a = 1" by linarith
    with True show ?thesis by simp
  qed (simp add: count_eq_zero_iff)
qed

lemma executed_working: "executed s \<subseteq># mset (working s)"
proof -
  have "(\<Sum>w \<leftarrow> ws. mset (task_of (phase w))) = mset (concat (map (\<lambda>w. task_of (phase w)) ws))" for ws :: "nat wrk list"
    by (induction ws) simp_all
  then have "mset (working s) = (\<Sum>i < length (workers s). mset (task_of (ph s i)))"
    unfolding working_def by (metis (no_types, lifting) atLeast0LessThan length_map nth_map sum.cong sum_list_sum_nth lessThan_iff)
  moreover have "(\<Sum>i < k. called s i) \<subseteq># (\<Sum>i < k. mset (task_of (ph s i)))" for k
    by (induction k) (simp_all add: subset_mset.add_mono called_def)
  ultimately show ?thesis by (simp add: executed_def)
qed


text \<open>
  After \<open>Stop\<close> of a pool that keeps at least one worker, when the threads are joined, each accepted
  task has been called exactly once, nothing is queued and no executor is left on the heap.
\<close>

theorem stop_frees_executors:
  assumes "tpx_reach exec n m tr s" and "int n \<le> m" and "m < 2 ^ 31" and "0 < n" and "joinable s"
  shows "dataQueue s = [] \<and> executors s = Map.empty \<and> mset (map fst (outputs tr)) = mset (accepted (queue_evs tr))"
proof -
  have x: "x_inv exec tr s" by (rule tpx_reach_x [OF assms(1)])
  have "has_kept (workq.truncate s)" by (rule wq_reach_kept [OF tpx_reach_simulates [OF assms(1)] assms(4)])
  note d = joined_all_done [OF tpx_queue_inv [OF assms(1-3)] this]
  have w: "dataQueue s = []" "working s = []" "mset (finished (queue_evs tr)) = mset (accepted (queue_evs tr))"
    using d assms(5) by simp_all
  then have "executed s = {#}" using executed_working [of s] by simp
  moreover have "dom (executors s) = {}" using x w by (auto simp: x_inv_def mset_set_empty_iff)
  ultimately show ?thesis using x w by (auto simp: x_inv_def)
qed

section \<open>Liveness\<close>

definition work :: "('f \<Rightarrow> 'o) \<Rightarrow> ('f, 'o) tpx \<Rightarrow> ('f, 'o) tpx \<Rightarrow> bool" where
  "work exec s s' \<longleftrightarrow> (\<exists>es. worker_step exec s es s')"

fun weight :: "nat phase \<Rightarrow> xstage \<Rightarrow> nat" where
  "weight Ready st = 1"
| "weight (Waiting b) st = (if b then 1 else 0)"
| "weight TimedOut st = 1"
| "weight (Working t) st = (if st = To_Exec then 3 else 2)"
| "weight Returned st = 0"

definition tpx_cost :: "('f, 'o) tpx \<Rightarrow> nat" where
  "tpx_cost s = (\<Sum>i < length (workers s). weight (ph s i) (xstages s ! i)) + 3 * length (dataQueue s)"

definition tpx_live :: "('f \<Rightarrow> 'o) \<Rightarrow> ('f, 'o) tpx \<Rightarrow> bool" where
  "tpx_live exec s \<longleftrightarrow> (\<exists>n m tr. 0 < n \<and> int n \<le> m \<and> m < 2 ^ 31 \<and> tpx_reach exec n m tr s)"

lemma tpx_cost_change:
  assumes "i < length (workers s)" and "length (workers s') = length (workers s)"
    and "\<And>j. j < length (workers s) \<Longrightarrow> j \<noteq> i \<Longrightarrow> ph s' j = ph s j \<and> xstages s' ! j = xstages s ! j"
    and "weight (ph s' i) (xstages s' ! i) + 3 * length (dataQueue s') < weight (ph s i) (xstages s ! i) + 3 * length (dataQueue s)"
  shows "tpx_cost s' < tpx_cost s"
  using assms(4) sum_one [OF assms(1), of "\<lambda>j. weight (ph s' j) (xstages s' ! j)" "\<lambda>j. weight (ph s j) (xstages s ! j)"]
    assms(2,3) by (simp add: tpx_cost_def)

lemma enter_loop_cost:
  assumes "i < length (workers s)" and "length (xstages s) = length (workers s)" and "enter_loop i s = (es, s')"
    and "weight (ph s i) (xstages s ! i) = 1"
  shows "tpx_cost s' < tpx_cost s"
proof (rule tpx_cost_change [OF assms(1)])
  obtain s1 where l: "loop_top i s = (es, s1)" "s' = set_stage i To_Exec s1"
    using assms(3) by (cases "loop_top i s") (simp add: enter_loop_def)
  have s1: "xstages s1 = xstages s" "length (workers s1) = length (workers s)" using l(1) by (auto simp: loop_top_eq split: if_splits)
  show "length (workers s') = length (workers s)" using l(2) s1 by (simp add: set_stage_def)
  show "ph s' j = ph s j \<and> xstages s' ! j = xstages s ! j" if "j < length (workers s)" "j \<noteq> i" for j
    using that l s1 by (auto simp: set_stage_def loop_top_eq set_phase_ph split: if_splits)
  show "weight (ph s' i) (xstages s' ! i) + 3 * length (dataQueue s') < weight (ph s i) (xstages s ! i) + 3 * length (dataQueue s)"
    using assms l s1 by (cases "dataQueue s") (auto simp: set_stage_def loop_top_eq set_phase_ph split: if_splits)
qed

lemma x_worker_step_cost:
  assumes "worker_step exec s es s'" and "length (xstages s) = length (workers s)"
  shows "tpx_cost s' < tpx_cost s"
  using assms
proof (induction rule: worker_step.induct)
  case (enter i s es s')
  have "weight (ph s i) (xstages s ! i) = 1" unfolding enter.hyps(2) by (rule weight.simps)
  then show ?case using enter by (intro enter_loop_cost)
next
  case (notified i s es s')
  let ?s = "s\<lparr>freeWorkerNum := freeWorkerNum s - 1\<rparr>"
  have "enter_loop i ?s = (es, s')" using notified.hyps(3) by (simp add: enter_woken_def enter_loop_def wake_up_def)
  moreover have "weight (ph ?s i) (xstages ?s ! i) = 1" using notified.hyps(2) by simp
  ultimately have "tpx_cost s' < tpx_cost ?s" using notified.hyps(1) notified.prems by (intro enter_loop_cost) simp_all
  then show ?case by (simp add: tpx_cost_def)
next
  case (leave i s)
  have q: "length (workers (leave i s)) = length (workers s)" "dataQueue (leave i s) = dataQueue s" "xstages (leave i s) = xstages s"
    by (simp_all add: leave_def)
  have p: "ph (leave i s) j = (if j = i then Returned else ph s j)" if "j < length (workers s)" for j
    using that by (simp add: leave_def set_phase_ph)
  show ?case using leave by (auto simp: q p intro!: tpx_cost_change [of i])
next
  case (exec i s t r s')
  then show ?case by (auto simp: Exec_def set_stage_def pushResult_def split: option.splits intro!: tpx_cost_change [of i])
next
  case (delete i s t s')
  then show ?case by (auto simp: delete_task_def set_phase_ph split: option.splits intro!: tpx_cost_change [of i])
qed

lemma x_worker_enabled:
  assumes "x_inv exec tr s" and "i < length (workers s)" and "ph s i \<noteq> Waiting False" and "ph s i \<noteq> Returned"
  shows "\<exists>s'. work exec s s'"
proof (cases "ph s i")
  case Ready
  then show ?thesis using assms(2) enter [of i s] by (cases "enter_loop i s") (fastforce simp: work_def)
next
  case (Waiting b)
  then show ?thesis using assms(2,3) notified [of i s] by (cases "enter_woken i s") (fastforce simp: work_def)
next
  case TimedOut
  then show ?thesis using assms(2) leave [of i s exec] by (auto simp: work_def)
next
  case (Working t)
  obtain f where f: "executors s t = Some f" using live_executor [OF assms(1,2) Working] by auto
  show ?thesis
  proof (cases "xstages s ! i")
    case To_Exec
    from exec [OF assms(2) Working this] f show ?thesis by (simp add: Exec_def work_def) blast
  next
    case To_Delete
    from delete [OF assms(2) Working this] f show ?thesis by (simp add: delete_task_def work_def) blast
  qed
qed (use assms in simp)

interpretation tpx: draining "tpx_live exec" "work exec" tpx_cost wq_idle for exec :: "'f \<Rightarrow> 'o"
proof
  fix s s' :: "('f, 'o) tpx"
  assume l: "tpx_live exec s" and w: "work exec s s'"
  obtain es where es: "worker_step exec s es s'" using w by (auto simp: work_def)
  obtain n m tr where r: "0 < n" "int n \<le> m" "m < 2 ^ 31" "tpx_reach exec n m tr s" using l by (auto simp: tpx_live_def)
  show "tpx_cost s' < tpx_cost s" using x_worker_step_cost [OF es] tpx_reach_x [OF r(4)] by (simp add: x_inv_def)
  have "tpx_reach exec n m (tr @ es) s'" by (rule tpx_reach.step [OF r(4) worker [OF es]])
  with r(1-3) show "tpx_live exec s'" unfolding tpx_live_def by blast
next
  fix s :: "('f, 'o) tpx"
  assume l: "tpx_live exec s" and i: "\<not> wq_idle s"
  obtain n m tr where r: "0 < n" "int n \<le> m" "m < 2 ^ 31" "tpx_reach exec n m tr s" using l by (auto simp: tpx_live_def)
  have "has_kept s" using wq_reach_kept [OF tpx_reach_simulates [OF r(4)] r(1)] by simp
  from not_idle_enabled [OF tpx_queue_inv [OF r(4,2,3)] this i] x_worker_enabled [OF tpx_reach_x [OF r(4)]]
  show "\<exists>s'. work exec s s'" by blast
qed

section \<open>Example runs\<close>

lemma tpx_reach_more: "tpx_reach exec n m tr s \<Longrightarrow> tpx_step exec s es s' \<Longrightarrow> tr' = tr @ es \<Longrightarrow> tpx_reach exec n m tr' s'"
  by (auto intro: tpx_reach.step)

lemma worker_step_stop: "worker_step exec s es s' \<Longrightarrow> stop s' = stop s"
proof (induction rule: worker_step.induct)
  case (enter i s es s')
  then show ?case by (cases "loop_top i s") (auto simp: enter_loop_def loop_top_eq set_stage_def split: if_splits)
next
  case (notified i s es s')
  then show ?case
    by (cases "wake_up i s") (auto simp: enter_woken_def wake_up_def loop_top_eq set_stage_def split: if_splits)
qed (auto simp: Exec_def delete_task_def set_stage_def pushResult_def Worker_Queue.leave_def split: option.splits)

lemma x_work_reach:
  "(work exec)\<^sup>*\<^sup>* s s' \<Longrightarrow> tpx_reach exec n m tr s \<Longrightarrow>
     \<exists>tr'. tpx_reach exec n m tr' s' \<and> accepted (queue_evs tr') = accepted (queue_evs tr) \<and> stop s' = stop s"
proof (induction rule: rtranclp_induct)
  case (step y z)
  then obtain tr' es where "tpx_reach exec n m tr' y" "accepted (queue_evs tr') = accepted (queue_evs tr)" "stop y = stop s"
    "worker_step exec y es z" by (auto simp: work_def)
  with worker_step_fresh [of exec y es z] worker_step_stop [of exec y es z] worker [of exec y es z] show ?case
    by (intro exI [of _ "tr' @ es"]) (auto intro: tpx_reach.step)
qed blast

lemma demo_run:
  "\<exists>tr s. tpx_reach Suc 1 2 tr s \<and> accepted (queue_evs tr) = [0] \<and> executors s = [0 \<mapsto> 41] \<and> \<not> stop s"
proof -
  obtain s0 :: "(nat, nat) tpx" where s0: "ThreadPoolEx 1 2 = Inr s0" by (simp add: ThreadPoolEx_def)
  then have f: "\<not> stop s0" "workers s0 = [\<lparr>phase = Ready, keepInPool = True\<rparr>]" "freeWorkerNum s0 = 0" "dataQueue s0 = []"
    "next_executor s0 = 0" "executors s0 = Map.empty"
    by (auto simp: ThreadPoolEx_def createWorker_def create_worker_def)
  obtain s1 where s1: "new_executor 41 s0 = (0, s1)" using f by (simp add: new_executor_def)
  then have "workers s1 = workers s0" by (auto simp: new_executor_def)
  then have "may_notify (enqueue createWorker 0 s1) None"
    using f by (simp add: may_notify_def blocked_def enqueue_def Let_def createWorker_def create_worker_def less_Suc_eq nth_append)
  from tpx_reach.step [OF tpx_reach.init [OF s0] run [OF f(1) s1 this]]
  have r: "tpx_reach Suc 1 2 [Submit 0 41, Queue (Accept 0)] (Run 41 None s0)" by simp
  have "executors (Run 41 None s0) = [0 \<mapsto> 41]" "\<not> stop (Run 41 None s0)"
    using f by (simp_all add: Run_def new_executor_def enqueue_def Let_def createWorker_def create_worker_def notify_one_def)
  with r show ?thesis by (intro exI conjI) (assumption, simp_all)
qed


theorem stop_frees_executors_witness:
  "\<exists>tr s. tpx_reach Suc 1 2 tr s \<and> stop s \<and> joinable s \<and> executors s = Map.empty \<and> map fst (outputs tr) = [0]"
proof -
  obtain tr s where r: "tpx_reach Suc 1 2 tr s" "accepted (queue_evs tr) = [0]" "\<not> stop s" using demo_run by blast
  from tpx_reach_more [OF r(1) announce] have a: "tpx_reach Suc 1 2 tr (Stop_announce s)" by simp
  have st: "stop (Stop_announce s)" by (simp add: Stop_announce_def stop_begin_def)
  have "tpx_live Suc (Stop_announce s)" unfolding tpx_live_def by (rule exI [of _ 1], rule exI [of _ 2]) (use a in auto)
  from tpx.drains [OF this] obtain s' where s': "(work Suc)\<^sup>*\<^sup>* (Stop_announce s) s'" "wq_idle s'" by blast
  obtain tr' where t: "tpx_reach Suc 1 2 tr' s'" "accepted (queue_evs tr') = [0]" "stop s'"
    using x_work_reach [OF s'(1) a] r(2) st by auto
  then have j: "joinable s'" using s'(2) by (simp add: wq_idle_def)
  have d: "executors s' = Map.empty" "mset (map fst (outputs tr')) = mset [0]"
    using stop_frees_executors [OF t(1) _ _ _ j] t(2) by simp_all
  then have "map fst (outputs tr') = [0]" by (simp only: mset.simps add_mset_add_single [symmetric] mset_single_iff empty_neutral)
  with t j d(1) show ?thesis by (intro exI [of _ tr'] exI [of _ s']) simp
qed

end
