(* ===== verification/Http_Client.thy ===== *)
theory Http_Client
  imports Prelude
begin

text \<open>
  Model of \<open>net/http/base_http_client.h\<close>, \<open>base_http_client.cpp\<close>, \<open>http_client.h\<close>, \<open>https_client.h\<close> and
  \<open>http_client_pool\<close>: a client that sends one request at a time over a kept connection and queues the others.
  Everything happens in completion handlers of asynchronous operations. The operations that were
  started and have not completed are a component of the state; a step completes one of them, with an
  outcome chosen by the network. The messages of Boost.Beast are parameters. A user's callback is
  represented by the calls it makes on the client.
\<close>

section \<open>Messages\<close>

datatype field = Host | User_Agent | Content_Type | Cookie | Named string

datatype verb = Verb_get | Verb_post

text \<open>The operations of \<open>http::request\<close> and \<open>http::response\<close> that the client uses, and \<open>errc::operation_canceled\<close>.\<close>

record ('m, 'r) beast =
  default_request :: 'm
  clear_request :: "'m \<Rightarrow> 'm"
  set_version :: "nat \<Rightarrow> 'm \<Rightarrow> 'm"
  set_field :: "field \<Rightarrow> string \<Rightarrow> 'm \<Rightarrow> 'm"
  set_method :: "verb \<Rightarrow> 'm \<Rightarrow> 'm"
  set_target :: "string \<Rightarrow> 'm \<Rightarrow> 'm"
  set_body :: "string \<Rightarrow> 'm \<Rightarrow> 'm"
  clear_body :: "'m \<Rightarrow> 'm"
  prepare_payload :: "'m \<Rightarrow> 'm"
  version_string :: string
  default_response :: 'r
  keep_alive :: "'r \<Rightarrow> bool"
  status_ok :: "'r \<Rightarrow> bool"
  clear_response :: "'r \<Rightarrow> 'r"
  clear_response_body :: "'r \<Rightarrow> 'r"
  moved_from :: "'r \<Rightarrow> 'r"
  operation_canceled :: int

text \<open>The arguments of \<open>Get\<close> and \<open>Post\<close>; an optional argument is a pointer that may be null. A map is the list of its entries in the order of iteration.\<close>

record http_args =
  arg_method :: verb
  arg_target :: string
  arg_params :: "(string \<times> string) list option"
  arg_contentType :: "string option"
  arg_body :: "string option"
  arg_cookies :: "string list option"
  arg_headers :: "(string \<times> string) list option"

text \<open>The fields of \<open>request_params\<close> that the long constructor fills.\<close>

record queued_request =
  req_method :: verb
  req_target :: string
  req_content_type :: "string option"
  req_body :: "string option"
  req_cookies :: "string option"
  req_headers :: "(string \<times> string) list option"

definition append_params :: "(string \<times> string) list \<Rightarrow> string \<Rightarrow> string" where
  "append_params params target =
     butlast (fold (\<lambda>(k, v) t. t @ k @ ''='' @ v @ ''&'') params (target @ ''?''))"

definition append_cookies :: "string list \<Rightarrow> string" where
  "append_cookies cookies =
     (let cks = fold (\<lambda>ck t. t @ ck @ ''; '') cookies '''' in
      if length cks \<ge> 2 then take (length cks - 2) cks else cks)"

definition opt :: "('a \<Rightarrow> 'm \<Rightarrow> 'm) \<Rightarrow> 'a option \<Rightarrow> 'm \<Rightarrow> 'm" where
  "opt f x m = (case x of None \<Rightarrow> m | Some y \<Rightarrow> f y m)"

definition init_request :: "('m, 'r) beast \<Rightarrow> string \<Rightarrow> http_args \<Rightarrow> 'm \<Rightarrow> 'm" where
  "init_request B h a m =
     (let m = clear_request B m;
          m = set_version B 11 m;
          m = set_field B Host h m;
          m = set_field B User_Agent (version_string B) m;
          m = set_method B (arg_method a) m;
          m = set_target B (case arg_params a of None \<Rightarrow> arg_target a | Some ps \<Rightarrow> append_params ps (arg_target a)) m;
          m = opt (set_field B Content_Type) (arg_contentType a) m;
          m = opt (\<lambda>cks. set_field B Cookie (append_cookies cks)) (arg_cookies a) m;
          m = opt (\<lambda>hs m. fold (\<lambda>(k, v). set_field B (Named k) v) hs m) (arg_headers a) m;
          m = (case arg_body a of Some b \<Rightarrow> set_body B b m | None \<Rightarrow> clear_body B m)
      in prepare_payload B m)"

definition request_params :: "http_args \<Rightarrow> queued_request" where
  "request_params a =
     \<lparr>req_method = arg_method a,
      req_target = (case arg_params a of None \<Rightarrow> arg_target a | Some ps \<Rightarrow> append_params ps (arg_target a)),
      req_content_type = arg_contentType a,
      req_body = arg_body a,
      req_cookies = map_option append_cookies (arg_cookies a),
      req_headers = arg_headers a\<rparr>"

definition init_request_queued :: "('m, 'r) beast \<Rightarrow> string \<Rightarrow> queued_request \<Rightarrow> 'm \<Rightarrow> 'm" where
  "init_request_queued B h q m =
     (let m = clear_request B m;
          m = set_version B 11 m;
          m = set_field B Host h m;
          m = set_field B User_Agent (version_string B) m;
          m = set_method B (req_method q) m;
          m = set_target B (req_target q) m;
          m = opt (set_field B Content_Type) (req_content_type q) m;
          m = opt (set_field B Cookie) (req_cookies q) m;
          m = opt (\<lambda>hs m. fold (\<lambda>(k, v). set_field B (Named k) v) hs m) (req_headers q) m;
          m = (case req_body q of Some b \<Rightarrow> set_body B b m | None \<Rightarrow> clear_body B m)
      in prepare_payload B m)"

section \<open>The client\<close>

datatype async_op = Async_resolve | Async_connect | Async_handshake | Async_write | Async_read

text \<open>
  A queued request: the callback, which may be empty, and the other fields unless the short constructor was used.
  \<open>ticket\<close> numbers the requests in the order of the calls; the program has no such field.
\<close>

record 'c pending =
  callback :: "'c option"
  filled :: "queued_request option"
  ticket :: nat

record ('m, 'r, 'c) http_client =
  secure :: bool
  host :: string
  port :: string
  maxRetryTimes :: u16
  retriedTimes :: u16
  closed :: bool
  connected :: bool
  request_msg :: 'm
  response_msg :: 'r
  buffer :: bytes
  pendingRequests :: "'c pending list"
  outstanding :: "async_op list"
  tickets :: nat

text \<open>Observed: a request is accepted; it is answered, with an error code and a response.\<close>

datatype ('r, 'c) http_ev = Accepted nat | Answered nat "'c option" int 'r

type_synonym ('m, 'r, 'c) hc = "('m, 'r, 'c) http_client"
type_synonym ('m, 'r, 'c) outcome = "('r, 'c) http_ev list \<times> ('m, 'r, 'c) http_client"

text \<open>The constructor; \<open>split\<close> is \<open>boost::split\<close> at the colons.\<close>

definition BaseHttpClient ::
  "('m, 'r) beast \<Rightarrow> (string \<Rightarrow> string list) \<Rightarrow> bool \<Rightarrow> string \<Rightarrow> u16 \<Rightarrow> string \<Rightarrow> ('m, 'r, 'c) hc res" where
  "BaseHttpClient B split https svrAddr maxRetry defPort =
     (case split svrAddr of
        [] \<Rightarrow> Inl Out_Of_Bounds
      | h # rest \<Rightarrow>
          Inr \<lparr>secure = https, host = h, port = (case rest of [] \<Rightarrow> defPort | p # _ \<Rightarrow> p),
            maxRetryTimes = maxRetry, retriedTimes = 0, closed = False, connected = False, request_msg = default_request B,
            response_msg = default_response B, buffer = [], pendingRequests = [], outstanding = [], tickets = 0\<rparr>)"

definition HttpClient :: "('m, 'r) beast \<Rightarrow> (string \<Rightarrow> string list) \<Rightarrow> string \<Rightarrow> u16 \<Rightarrow> ('m, 'r, 'c) hc res" where
  "HttpClient B split svrAddr maxRetry = BaseHttpClient B split False svrAddr maxRetry ''80''"

definition HttpsClient :: "('m, 'r) beast \<Rightarrow> (string \<Rightarrow> string list) \<Rightarrow> string \<Rightarrow> u16 \<Rightarrow> ('m, 'r, 'c) hc res" where
  "HttpsClient B split svrAddr maxRetry = BaseHttpClient B split True svrAddr maxRetry ''443''"

definition start :: "async_op \<Rightarrow> ('m, 'r, 'c) hc \<Rightarrow> ('m, 'r, 'c) hc" where
  "start oper s = s\<lparr>outstanding := outstanding s @ [oper]\<rparr>"

definition resolve :: "('m, 'r, 'c) hc \<Rightarrow> ('m, 'r, 'c) hc" where
  "resolve s = start Async_resolve s"

definition connect :: "('m, 'r, 'c) hc \<Rightarrow> ('m, 'r, 'c) hc" where
  "connect s = start Async_connect s"

definition send_request :: "('m, 'r, 'c) hc \<Rightarrow> ('m, 'r, 'c) hc" where
  "send_request s = start Async_write s"

definition read_response :: "('m, 'r, 'c) hc \<Rightarrow> ('m, 'r, 'c) hc" where
  "read_response s = start Async_read s"

text \<open>
  \<open>HttpClient\<close> closes its stream, which also cancels; \<open>HttpsClient\<close> destroys and rebuilds it, which it must not do while
  an operation on the stream is in progress.
\<close>

definition reset_stream :: "('m, 'r, 'c) hc \<Rightarrow> ('m, 'r, 'c) hc res" where
  "reset_stream s = (if secure s \<and> (\<exists>oper \<in> set (outstanding s). oper \<noteq> Async_resolve) then Inl Still_In_Use else Inr s)"

section \<open>Requests\<close>

definition do_request :: "('m, 'r) beast \<Rightarrow> http_args \<Rightarrow> ('m, 'r, 'c) hc \<Rightarrow> ('m, 'r, 'c) hc" where
  "do_request B a s =
     (let s = s\<lparr>retriedTimes := 0, request_msg := init_request B (host s) a (request_msg s)\<rparr> in
      if connected s then send_request s else resolve s)"

text \<open>The queued variant reads all fields of the request; \<open>method\<close> has no initial value in the short form.\<close>

definition do_request_queued :: "('m, 'r) beast \<Rightarrow> 'c pending \<Rightarrow> ('m, 'r, 'c) hc \<Rightarrow> ('m, 'r, 'c) hc res" where
  "do_request_queued B p s =
     (case filled p of
        None \<Rightarrow> Inl Uninitialised
      | Some q \<Rightarrow>
          let s = s\<lparr>retriedTimes := 0, request_msg := init_request_queued B (host s) q (request_msg s)\<rparr> in
          Inr (if connected s then send_request s else resolve s))"

definition request :: "('m, 'r) beast \<Rightarrow> 'c option \<Rightarrow> http_args \<Rightarrow> ('m, 'r, 'c) hc \<Rightarrow> ('m, 'r, 'c) outcome" where
  "request B cb a s =
     (let n = tickets s; s = s\<lparr>tickets := Suc n\<rparr> in
      if pendingRequests s \<noteq> []
      then ([Accepted n], s\<lparr>pendingRequests := pendingRequests s @ [\<lparr>callback = cb, filled = Some (request_params a), ticket = n\<rparr>]\<rparr>)
      else ([Accepted n], do_request B a (s\<lparr>pendingRequests := [\<lparr>callback = cb, filled = None, ticket = n\<rparr>]\<rparr>)))"

definition Get ::
  "('m, 'r) beast \<Rightarrow> 'c option \<Rightarrow> string \<Rightarrow> (string \<times> string) list option \<Rightarrow> string list option \<Rightarrow>
   (string \<times> string) list option \<Rightarrow> ('m, 'r, 'c) hc \<Rightarrow> ('m, 'r, 'c) outcome" where
  "Get B cb target params cookies headers s =
     request B cb \<lparr>arg_method = Verb_get, arg_target = target, arg_params = params, arg_contentType = None, arg_body = None,
       arg_cookies = cookies, arg_headers = headers\<rparr> s"

definition Post ::
  "('m, 'r) beast \<Rightarrow> 'c option \<Rightarrow> string \<Rightarrow> (string \<times> string) list option \<Rightarrow> string option \<Rightarrow> string option \<Rightarrow>
   string list option \<Rightarrow> (string \<times> string) list option \<Rightarrow> ('m, 'r, 'c) hc \<Rightarrow> ('m, 'r, 'c) outcome" where
  "Post B cb target params contentType httpBody cookies headers s =
     request B cb \<lparr>arg_method = Verb_post, arg_target = target, arg_params = params, arg_contentType = contentType,
       arg_body = httpBody, arg_cookies = cookies, arg_headers = headers\<rparr> s"

text \<open>Closing the stream and cancelling the resolver do not undo operations: their handlers are still called, with an error.\<close>

definition Close :: "('m, 'r, 'c) hc \<Rightarrow> ('m, 'r, 'c) hc" where
  "Close s = (if closed s then s else s\<lparr>closed := True\<rparr>)"

datatype 'c call =
  Call_Get "'c option" string "(string \<times> string) list option" "string list option" "(string \<times> string) list option"
| Call_Post "'c option" string "(string \<times> string) list option" "string option" "string option" "string list option"
    "(string \<times> string) list option"
| Call_Close

fun do_call :: "('m, 'r) beast \<Rightarrow> 'c call \<Rightarrow> ('m, 'r, 'c) hc \<Rightarrow> ('m, 'r, 'c) outcome" where
  "do_call B (Call_Get cb t ps cks hs) s = Get B cb t ps cks hs s"
| "do_call B (Call_Post cb t ps ct bd cks hs) s = Post B cb t ps ct bd cks hs s"
| "do_call B Call_Close s = ([], Close s)"

fun do_calls :: "('m, 'r) beast \<Rightarrow> 'c call list \<Rightarrow> ('m, 'r, 'c) hc \<Rightarrow> ('m, 'r, 'c) outcome" where
  "do_calls B [] s = ([], s)"
| "do_calls B (c # cs) s = (let (es, s) = do_call B c s; (es', s) = do_calls B cs s in (es @ es', s))"

text \<open>\<open>response\<close>: answer the request at the front, then start the next one.\<close>

definition start_next :: "('m, 'r) beast \<Rightarrow> ('m, 'r, 'c) hc \<Rightarrow> ('m, 'r, 'c) hc res" where
  "start_next B s =
     (case pendingRequests s of
        [] \<Rightarrow> Inr s
      | nxt # _ \<Rightarrow> if \<not> closed s then do_request_queued B nxt s else Inr s)"

definition respond :: "('m, 'r) beast \<Rightarrow> int \<Rightarrow> 'c call list \<Rightarrow> ('m, 'r, 'c) hc \<Rightarrow> ('m, 'r, 'c) outcome res" where
  "respond B ec calls s =
     (case pendingRequests s of
        [] \<Rightarrow> Inl Out_Of_Bounds
      | req # _ \<Rightarrow>
          let (es, s1) =
                (case callback req of
                   Some f \<Rightarrow> do_calls B calls (s\<lparr>response_msg := moved_from B (response_msg s)\<rparr>)
                 | None \<Rightarrow> ([], s\<lparr>response_msg := clear_response_body B (clear_response B (response_msg s))\<rparr>));
              es = Answered (ticket req) (callback req) ec (response_msg s) # es;
              s2 = s1\<lparr>pendingRequests := tl (pendingRequests s1)\<rparr>
          in bind_res (start_next B s2) (\<lambda>s. Inr (es, s)))"

section \<open>Completion handlers\<close>

text \<open>The common end of the handlers: try again with a new connection, or give up.\<close>

definition retry_or_give_up :: "('m, 'r) beast \<Rightarrow> int \<Rightarrow> 'c call list \<Rightarrow> ('m, 'r, 'c) hc \<Rightarrow> ('m, 'r, 'c) outcome res" where
  "retry_or_give_up B ec calls s =
     (if ec \<noteq> operation_canceled B \<and> retriedTimes s < maxRetryTimes s
      then Inr ([], resolve (s\<lparr>retriedTimes := retriedTimes s + 1\<rparr>))
      else respond B ec calls s)"

definition on_handshake :: "('m, 'r) beast \<Rightarrow> int \<Rightarrow> 'c call list \<Rightarrow> ('m, 'r, 'c) hc \<Rightarrow> ('m, 'r, 'c) outcome res" where
  "on_handshake B ec calls s =
     (if closed s then respond B (operation_canceled B) calls s
      else if ec = 0 then Inr ([], send_request (s\<lparr>connected := True\<rparr>))
      else bind_res (reset_stream s) (retry_or_give_up B ec calls))"

text \<open>\<open>sni\<close> is the error of \<open>SSL_set_tlsext_host_name\<close>, if it fails.\<close>

definition handshake :: "('m, 'r) beast \<Rightarrow> int option \<Rightarrow> 'c call list \<Rightarrow> ('m, 'r, 'c) hc \<Rightarrow> ('m, 'r, 'c) outcome res" where
  "handshake B sni calls s =
     (if \<not> secure s then on_handshake B 0 calls s
      else case sni of None \<Rightarrow> Inr ([], start Async_handshake s) | Some ec \<Rightarrow> on_handshake B ec calls s)"

definition on_resolve :: "('m, 'r) beast \<Rightarrow> int \<Rightarrow> 'c call list \<Rightarrow> ('m, 'r, 'c) hc \<Rightarrow> ('m, 'r, 'c) outcome res" where
  "on_resolve B ec calls s =
     (if closed s then respond B (operation_canceled B) calls s
      else if ec = 0 then Inr ([], connect s)
      else retry_or_give_up B ec calls s)"

definition on_connect :: "('m, 'r) beast \<Rightarrow> int \<Rightarrow> int option \<Rightarrow> 'c call list \<Rightarrow> ('m, 'r, 'c) hc \<Rightarrow> ('m, 'r, 'c) outcome res" where
  "on_connect B ec sni calls s =
     (if closed s then respond B (operation_canceled B) calls s
      else if ec = 0 then handshake B sni calls s
      else retry_or_give_up B ec calls s)"

definition on_request_sent :: "('m, 'r) beast \<Rightarrow> int \<Rightarrow> 'c call list \<Rightarrow> ('m, 'r, 'c) hc \<Rightarrow> ('m, 'r, 'c) outcome res" where
  "on_request_sent B ec calls s =
     (if closed s then respond B (operation_canceled B) calls s
      else if ec = 0 then Inr ([], read_response s)
      else bind_res (reset_stream (s\<lparr>connected := False\<rparr>)) (retry_or_give_up B ec calls))"

definition on_response_read :: "('m, 'r) beast \<Rightarrow> int \<Rightarrow> 'c call list \<Rightarrow> ('m, 'r, 'c) hc \<Rightarrow> ('m, 'r, 'c) outcome res" where
  "on_response_read B ec calls s =
     (if closed s then respond B (operation_canceled B) calls s
      else if ec = 0 then
        bind_res (if \<not> keep_alive B (response_msg s) then reset_stream (s\<lparr>connected := False, buffer := []\<rparr>) else Inr s) (\<lambda>s.
          if status_ok B (response_msg s) \<or> retriedTimes s \<ge> maxRetryTimes s then respond B ec calls s
          else let s = s\<lparr>response_msg := clear_response_body B (clear_response B (response_msg s)),
                         retriedTimes := retriedTimes s + 1\<rparr> in
            Inr ([], if connected s then send_request s else resolve s))
      else bind_res (reset_stream (s\<lparr>connected := False, buffer := []\<rparr>)) (\<lambda>s.
        if ec \<noteq> operation_canceled B \<and> retriedTimes s < maxRetryTimes s
        then Inr ([], resolve (s\<lparr>response_msg := clear_response_body B (clear_response B (response_msg s)),
                                  retriedTimes := retriedTimes s + 1\<rparr>))
        else respond B ec calls s))"

text \<open>
  The completion of an operation: its error code, what reading left in \<open>response_\<close> and \<open>buffer_\<close>, the
  result of setting the server name, and the calls that the user's callback makes if it is called.
\<close>

record ('r, 'c) completion =
  c_op :: async_op
  c_ec :: int
  c_response :: 'r
  c_buffer :: bytes
  c_sni :: "int option"
  c_calls :: "'c call list"

definition handle :: "('m, 'r) beast \<Rightarrow> ('r, 'c) completion \<Rightarrow> ('m, 'r, 'c) hc \<Rightarrow> ('m, 'r, 'c) outcome res" where
  "handle B c s =
     (let s = s\<lparr>outstanding := remove1 (c_op c) (outstanding s)\<rparr> in
      case c_op c of
        Async_resolve \<Rightarrow> on_resolve B (c_ec c) (c_calls c) s
      | Async_connect \<Rightarrow> on_connect B (c_ec c) (c_sni c) (c_calls c) s
      | Async_handshake \<Rightarrow> on_handshake B (c_ec c) (c_calls c) s
      | Async_write \<Rightarrow> on_request_sent B (c_ec c) (c_calls c) s
      | Async_read \<Rightarrow> on_response_read B (c_ec c) (c_calls c) (s\<lparr>response_msg := c_response c, buffer := c_buffer c\<rparr>))"

text \<open>The destructor runs when no handler holds the client any more, and answers what is left.\<close>

definition destroy_client :: "('m, 'r) beast \<Rightarrow> ('m, 'r, 'c) hc \<Rightarrow> ('r, 'c) http_ev list" where
  "destroy_client B s =
     map (\<lambda>p. Answered (ticket p) (callback p) (operation_canceled B) (response_msg s)) (pendingRequests s)"

section \<open>The pool of clients\<close>

datatype SecurityMode = Mode_http | Mode_https_verify_none | Mode_https_verify_peer_cert

definition HttpClientPool ::
  "('m, 'r) beast \<Rightarrow> (string \<Rightarrow> string list) \<Rightarrow> SecurityMode \<Rightarrow> string \<Rightarrow> u16 \<Rightarrow> u16 \<Rightarrow> ('m, 'r, 'c) hc list res" where
  "HttpClientPool B split mode svrAddr poolSize maxRetry =
     (if poolSize = 0 then Inr []
      else bind_res (if mode = Mode_http then HttpClient B split svrAddr maxRetry else HttpsClient B split svrAddr maxRetry)
        (\<lambda>c. Inr (replicate (unat poolSize) c)))"

definition pick :: "u64 \<Rightarrow> ('m, 'r, 'c) hc list \<Rightarrow> nat res" where
  "pick hint clients =
     (if clients = [] then Inl Div_By_Zero else Inr (unat (hint mod of_nat (length clients))))"

definition pool_Get ::
  "('m, 'r) beast \<Rightarrow> u64 \<Rightarrow> 'c option \<Rightarrow> string \<Rightarrow> (string \<times> string) list option \<Rightarrow> string list option \<Rightarrow>
   ('m, 'r, 'c) hc list \<Rightarrow> (('r, 'c) http_ev list \<times> ('m, 'r, 'c) hc list) res" where
  "pool_Get B hint cb target params cookies clients =
     bind_res (pick hint clients) (\<lambda>i.
       let (es, c) = Get B cb target params cookies None (clients ! i) in Inr (es, clients[i := c]))"

definition pool_Post ::
  "('m, 'r) beast \<Rightarrow> u64 \<Rightarrow> 'c option \<Rightarrow> string \<Rightarrow> (string \<times> string) list option \<Rightarrow> string option \<Rightarrow> string option \<Rightarrow>
   string list option \<Rightarrow> (string \<times> string) list option \<Rightarrow>
   ('m, 'r, 'c) hc list \<Rightarrow> (('r, 'c) http_ev list \<times> ('m, 'r, 'c) hc list) res" where
  "pool_Post B hint cb target params contentType httpBody cookies headers clients =
     bind_res (pick hint clients) (\<lambda>i.
       let (es, c) = Post B cb target params contentType httpBody cookies headers (clients ! i) in Inr (es, clients[i := c]))"

text \<open>Without a hint the next random number is used; \<open>rand\<close> is the generator and \<open>g\<close> its state.\<close>

definition pool_Get_random ::
  "('m, 'r) beast \<Rightarrow> ('g \<Rightarrow> u64 \<times> 'g) \<Rightarrow> 'c option \<Rightarrow> string \<Rightarrow> (string \<times> string) list option \<Rightarrow> string list option \<Rightarrow>
   ('m, 'r, 'c) hc list \<times> 'g \<Rightarrow> (('r, 'c) http_ev list \<times> ('m, 'r, 'c) hc list \<times> 'g) res" where
  "pool_Get_random B rand cb target params cookies = (\<lambda>(clients, g).
     let (hint, g) = rand g in
     bind_res (pool_Get B hint cb target params cookies clients) (\<lambda>(es, clients). Inr (es, clients, g)))"

definition pool_Post_random ::
  "('m, 'r) beast \<Rightarrow> ('g \<Rightarrow> u64 \<times> 'g) \<Rightarrow> 'c option \<Rightarrow> string \<Rightarrow> (string \<times> string) list option \<Rightarrow> string option \<Rightarrow>
   string option \<Rightarrow> string list option \<Rightarrow> (string \<times> string) list option \<Rightarrow>
   ('m, 'r, 'c) hc list \<times> 'g \<Rightarrow> (('r, 'c) http_ev list \<times> ('m, 'r, 'c) hc list \<times> 'g) res" where
  "pool_Post_random B rand cb target params contentType httpBody cookies headers = (\<lambda>(clients, g).
     let (hint, g) = rand g in
     bind_res (pool_Post B hint cb target params contentType httpBody cookies headers clients) (\<lambda>(es, clients). Inr (es, clients, g)))"

text \<open>A request goes to one client of the pool; a pool of size 0 divides by zero on the first request.\<close>

lemma pick_in_range:
  assumes "clients \<noteq> []" and "length clients < 2 ^ 64"
  shows "\<exists>i < length clients. pick hint clients = Inr i"
proof -
  have "unat (of_nat (length clients) :: u64) = length clients" using assms(2) by (simp add: unsigned_of_nat take_bit_nat_eq_self)
  then have "unat (hint mod of_nat (length clients)) < length clients" using assms(1) by (simp add: unat_mod)
  with assms(1) show ?thesis by (simp add: pick_def)
qed

lemma pool_Get_one_client:
  assumes "pool_Get B hint cb target params cookies clients = Inr (es, clients')"
  shows "\<exists>i. pick hint clients = Inr i \<and> clients' = clients[i := snd (Get B cb target params cookies None (clients ! i))]"
  using assms by (auto simp: pool_Get_def bind_res_eq_Inr case_prod_beta Let_def)

lemma empty_pool_faults:
  assumes "HttpClientPool B split mode addr 0 maxRetry = Inr clients"
  shows "pool_Get B hint cb target params cookies clients = Inl Div_By_Zero"
  using assms by (simp add: HttpClientPool_def pool_Get_def pick_def)

section \<open>All runs\<close>

inductive http_step :: "('m, 'r) beast \<Rightarrow> ('m, 'r, 'c) hc \<Rightarrow> ('r, 'c) http_ev list \<Rightarrow> ('m, 'r, 'c) hc \<Rightarrow> bool" for B where
  call: "do_call B c s = (es, s') \<Longrightarrow> http_step B s es s'"
| complete: "c_op c \<in> set (outstanding s) \<Longrightarrow> handle B c s = Inr (es, s') \<Longrightarrow> http_step B s es s'"

inductive http_reach ::
  "('m, 'r) beast \<Rightarrow> (string \<Rightarrow> string list) \<Rightarrow> bool \<Rightarrow> string \<Rightarrow> u16 \<Rightarrow> string \<Rightarrow> ('r, 'c) http_ev list \<Rightarrow> ('m, 'r, 'c) hc \<Rightarrow> bool"
  for B split https addr retries dport where
  init: "BaseHttpClient B split https addr retries dport = Inr s \<Longrightarrow> http_reach B split https addr retries dport [] s"
| step: "http_reach B split https addr retries dport tr s \<Longrightarrow> http_step B s es s' \<Longrightarrow>
    http_reach B split https addr retries dport (tr @ es) s'"

definition answered :: "('r, 'c) http_ev list \<Rightarrow> nat list" where
  "answered tr = concat (map (\<lambda>e. case e of Answered t _ _ _ \<Rightarrow> [t] | Accepted t \<Rightarrow> []) tr)"

definition accepted :: "('r, 'c) http_ev list \<Rightarrow> nat list" where
  "accepted tr = concat (map (\<lambda>e. case e of Accepted t \<Rightarrow> [t] | Answered t _ _ _ \<Rightarrow> []) tr)"

lemma http_trace_simps [simp]:
  "answered [] = []" "answered (tr @ tr') = answered tr @ answered tr'" "answered (Accepted t # tr) = answered tr"
  "answered (Answered t f ec r # tr) = t # answered tr" "accepted [] = []" "accepted (tr @ tr') = accepted tr @ accepted tr'"
  "accepted (Accepted t # tr) = t # accepted tr" "accepted (Answered t f ec r # tr) = accepted tr"
  by (simp_all add: answered_def accepted_def)

section \<open>Invariant\<close>

text \<open>Only the request at the front may lack its arguments; retries are counted up to the limit.\<close>

definition queue_ok :: "('m, 'r, 'c) hc \<Rightarrow> bool" where
  "queue_ok s \<longleftrightarrow> (\<forall>p \<in> set (tl (pendingRequests s)). filled p \<noteq> None) \<and> retriedTimes s \<le> maxRetryTimes s"

text \<open>Requests are answered in the order in which they were accepted.\<close>

definition tickets_ok :: "('r, 'c) http_ev list \<Rightarrow> 'c pending list \<Rightarrow> nat \<Rightarrow> bool" where
  "tickets_ok tr ps n \<longleftrightarrow> accepted tr = [0..<n] \<and> answered tr @ map ticket ps = [0..<n]"

text \<open>Between handlers: one operation is in progress, for the request at the front, or there is nothing to do.\<close>

definition http_inv :: "('r, 'c) http_ev list \<Rightarrow> ('m, 'r, 'c) hc \<Rightarrow> bool" where
  "http_inv tr s \<longleftrightarrow> queue_ok s \<and> tickets_ok tr (pendingRequests s) (tickets s) \<and>
     (case outstanding s of [] \<Rightarrow> pendingRequests s = [] \<or> closed s | oper # opers \<Rightarrow> opers = [] \<and> pendingRequests s \<noteq> [])"

text \<open>Inside a handler: the operation is over, its request is still at the front.\<close>

definition handling :: "('r, 'c) http_ev list \<Rightarrow> ('m, 'r, 'c) hc \<Rightarrow> bool" where
  "handling tr s \<longleftrightarrow> queue_ok s \<and> tickets_ok tr (pendingRequests s) (tickets s) \<and> outstanding s = [] \<and> pendingRequests s \<noteq> []"

text \<open>Inside a callback: the request at the front has been answered.\<close>

definition answering :: "('r, 'c) http_ev list \<Rightarrow> ('m, 'r, 'c) hc \<Rightarrow> bool" where
  "answering tr s \<longleftrightarrow> queue_ok s \<and> tickets_ok tr (tl (pendingRequests s)) (tickets s) \<and> outstanding s = [] \<and> pendingRequests s \<noteq> []"

lemmas http_invs = http_inv_def handling_def answering_def queue_ok_def tickets_ok_def

lemma start_fields [simp]:
  "pendingRequests (start oper s) = pendingRequests s" "retriedTimes (start oper s) = retriedTimes s"
  "maxRetryTimes (start oper s) = maxRetryTimes s" "closed (start oper s) = closed s" "connected (start oper s) = connected s"
  "outstanding (start oper s) = outstanding s @ [oper]" "tickets (start oper s) = tickets s" "buffer (start oper s) = buffer s"
  "secure (start oper s) = secure s"
  by (simp_all add: start_def)

lemmas start_ops = resolve_def connect_def send_request_def read_response_def

lemma request_answering:
  assumes "answering tr s" and "request B cb a s = (es, s')"
  shows "answering (tr @ es) s' \<and> hd (pendingRequests s') = hd (pendingRequests s)"
proof -
  obtain p ps where "pendingRequests s = p # ps" using assms(1) by (cases "pendingRequests s") (auto simp: answering_def)
  with assms show ?thesis by (auto simp: request_def Let_def http_invs)
qed

lemma request_inv:
  assumes "http_inv tr s" and "request B cb a s = (es, s')"
  shows "http_inv (tr @ es) s'"
proof (cases "pendingRequests s")
  case Nil
  then have "outstanding s = []" using assms(1) by (cases "outstanding s") (auto simp: http_inv_def)
  with assms Nil show ?thesis by (cases "connected s") (auto simp: request_def do_request_def Let_def start_ops http_invs)
next
  case (Cons p ps)
  with assms show ?thesis by (cases "outstanding s") (auto simp: request_def Let_def http_invs)
qed

lemma do_call_cases:
  obtains cb a where "do_call B c s = request B cb a s" | "do_call B c s = ([], Close s)"
  by (cases c) (auto simp: Get_def Post_def)

lemma Close_inv: "http_inv tr s \<Longrightarrow> http_inv tr (Close s)" "answering tr s \<Longrightarrow> answering tr (Close s)"
  by (auto simp: Close_def http_invs split: list.splits)

lemma do_call_inv:
  assumes "http_inv tr s" and "do_call B c s = (es, s')"
  shows "http_inv (tr @ es) s'"
proof (cases rule: do_call_cases [of B c s])
  case (1 cb a)
  with assms(2) request_inv [OF assms(1)] show ?thesis by simp
qed (use assms Close_inv(1) in auto)

lemma do_call_answering:
  assumes "answering tr s" and "do_call B c s = (es, s')"
  shows "answering (tr @ es) s'"
proof (cases rule: do_call_cases [of B c s])
  case (1 cb a)
  with assms(2) request_answering [OF assms(1)] show ?thesis by simp
qed (use assms Close_inv(2) in auto)

lemma do_calls_answering: "answering tr s \<Longrightarrow> do_calls B cs s = (es, s') \<Longrightarrow> answering (tr @ es) s'"
proof (induction cs arbitrary: tr s es s')
  case (Cons c cs)
  obtain e1 s1 where 1: "do_call B c s = (e1, s1)" by (cases "do_call B c s")
  obtain e2 s2 where 2: "do_calls B cs s1 = (e2, s2)" by (cases "do_calls B cs s1")
  from Cons.IH [OF do_call_answering [OF Cons.prems(1) 1] 2] Cons.prems(2) 1 2 show ?case by simp
qed simp

text \<open>A handler ends without a fault and re-establishes the invariant.\<close>

definition ends_well :: "('r, 'c) http_ev list \<Rightarrow> ('m, 'r, 'c) outcome res \<Rightarrow> bool" where
  "ends_well tr r \<longleftrightarrow> (\<exists>es s'. r = Inr (es, s') \<and> http_inv (tr @ es) s')"

lemma pop_front:
  assumes "answering tr s"
  shows "\<exists>s'. start_next B (s\<lparr>pendingRequests := tl (pendingRequests s)\<rparr>) = Inr s' \<and> http_inv tr s'"
proof (cases "tl (pendingRequests s)")
  case Nil
  with assms show ?thesis by (auto simp: start_next_def http_invs)
next
  case (Cons nxt rest)
  then obtain q where q: "filled nxt = Some q" using assms by (auto simp: answering_def queue_ok_def)
  with assms Cons show ?thesis by (cases "connected s") (auto simp: start_next_def do_request_queued_def Let_def start_ops http_invs)
qed

lemma respond_well:
  assumes "handling tr s"
  shows "ends_well tr (respond B ec calls s)"
proof -
  obtain req ps where p: "pendingRequests s = req # ps" using assms by (cases "pendingRequests s") (auto simp: handling_def)
  let ?tr = "tr @ [Answered (ticket req) (callback req) ec (response_msg s)]"
  have a: "answering ?tr (s\<lparr>response_msg := r\<rparr>)" for r using assms p by (simp add: http_invs)
  obtain es s1 where c: "(case callback req of Some f \<Rightarrow> do_calls B calls (s\<lparr>response_msg := moved_from B (response_msg s)\<rparr>)
      | None \<Rightarrow> ([], s\<lparr>response_msg := clear_response_body B (clear_response B (response_msg s))\<rparr>)) = (es, s1)"
    by fastforce
  then have "answering (?tr @ es) s1" using a do_calls_answering [OF a] by (cases "callback req") auto
  from pop_front [OF this, of B] obtain s' where "start_next B (s1\<lparr>pendingRequests := tl (pendingRequests s1)\<rparr>) = Inr s'"
    "http_inv (?tr @ es) s'" by blast
  then show ?thesis unfolding respond_def p list.case c ends_well_def Let_def prod.case by simp
qed

lemma retry_well:
  assumes "handling tr s"
  shows "ends_well tr (retry_or_give_up B ec calls s)"
proof (cases "ec \<noteq> operation_canceled B \<and> retriedTimes s < maxRetryTimes s")
  case True
  then have "retriedTimes s + 1 \<le> maxRetryTimes s" using inc_le by blast
  with True assms show ?thesis by (auto simp: retry_or_give_up_def ends_well_def resolve_def http_invs)
qed (use respond_well [OF assms] in \<open>auto simp: retry_or_give_up_def\<close>)

lemma handling_fields:
  assumes "handling tr s"
  shows "handling tr (s\<lparr>connected := b\<rparr>)" "handling tr (s\<lparr>buffer := buf\<rparr>)" "handling tr (s\<lparr>response_msg := r\<rparr>)"
  using assms by (simp_all add: http_invs)

lemma start_well: "handling tr s \<Longrightarrow> ends_well tr (Inr ([], start oper s))"
  by (auto simp: ends_well_def http_invs)

lemma reset_stream_ok: "outstanding s = [] \<Longrightarrow> reset_stream s = Inr s"
  by (simp add: reset_stream_def)

lemma on_handshake_well: "handling tr s \<Longrightarrow> ends_well tr (on_handshake B ec calls s)"
  using start_well [OF handling_fields(1), of tr s Async_write True]
  by (auto simp: on_handshake_def respond_well retry_well send_request_def reset_stream_ok handling_def)

lemma on_resolve_well: "handling tr s \<Longrightarrow> ends_well tr (on_resolve B ec calls s)"
  by (simp add: on_resolve_def respond_well retry_well connect_def start_well)

lemma on_connect_well: "handling tr s \<Longrightarrow> ends_well tr (on_connect B ec sni calls s)"
  by (simp add: on_connect_def handshake_def respond_well retry_well start_well on_handshake_well split: option.split)

lemma on_request_sent_well:
  assumes "handling tr s"
  shows "ends_well tr (on_request_sent B ec calls s)"
proof -
  have "reset_stream (s\<lparr>connected := False\<rparr>) = Inr (s\<lparr>connected := False\<rparr>)" using assms by (simp add: reset_stream_ok handling_def)
  with assms show ?thesis
    by (simp add: on_request_sent_def respond_well retry_well read_response_def start_well handling_fields)
qed

text \<open>The handler of a response, in the words of the others.\<close>

lemma on_response_read_eq:
  assumes "outstanding s = []"
  shows "on_response_read B ec calls s =
    (if closed s then respond B (operation_canceled B) calls s
     else if ec = 0 then
       let s = (if keep_alive B (response_msg s) then s else s\<lparr>connected := False, buffer := []\<rparr>) in
       if status_ok B (response_msg s) \<or> retriedTimes s \<ge> maxRetryTimes s then respond B ec calls s
       else Inr ([], start (if connected s then Async_write else Async_resolve)
         (s\<lparr>response_msg := clear_response_body B (clear_response B (response_msg s)), retriedTimes := retriedTimes s + 1\<rparr>))
     else if ec \<noteq> operation_canceled B \<and> retriedTimes s < maxRetryTimes s
     then Inr ([], start Async_resolve (s\<lparr>connected := False, buffer := [],
       response_msg := clear_response_body B (clear_response B (response_msg s)), retriedTimes := retriedTimes s + 1\<rparr>))
     else respond B ec calls (s\<lparr>connected := False, buffer := []\<rparr>))"
  using assms by (simp add: on_response_read_def reset_stream_def start_ops Let_def)

lemma retried_once_more:
  assumes "handling tr s" and "retriedTimes s < maxRetryTimes s"
  shows "handling tr (s\<lparr>retriedTimes := retriedTimes s + 1\<rparr>)"
  using assms inc_le [of "retriedTimes s" "maxRetryTimes s"] by (simp add: http_invs)

lemma on_response_read_well:
  assumes "handling tr s"
  shows "ends_well tr (on_response_read B ec calls s)"
proof -
  have o: "outstanding s = []" using assms by (simp add: handling_def)
  have *: "handling tr (s\<lparr>connected := b, buffer := buf\<rparr>)" for b buf using assms by (simp add: handling_fields)
  have again: "ends_well tr (Inr ([], start oper (t\<lparr>response_msg := r, retriedTimes := retriedTimes t + 1\<rparr>)))"
    if "handling tr t" "retriedTimes t < maxRetryTimes t" for t oper r
    using start_well [OF retried_once_more [OF handling_fields(3) [OF that(1)]]] that(2) by simp
  show ?thesis
    unfolding on_response_read_eq [OF o] Let_def
    using assms again [OF assms] again [OF *] by (auto simp: respond_well * not_le)
qed

lemma handle_well:
  assumes "http_inv tr s" and "c_op c \<in> set (outstanding s)"
  shows "ends_well tr (handle B c s)"
proof -
  have "outstanding s = [c_op c]" "pendingRequests s \<noteq> []"
    using assms by (auto simp: http_inv_def split: list.splits)
  then have h: "handling tr (s\<lparr>outstanding := remove1 (c_op c) (outstanding s)\<rparr>)" using assms(1) by (simp add: http_invs)
  then show ?thesis
    by (cases "c_op c") (simp_all add: handle_def on_resolve_well on_connect_well on_handshake_well on_request_sent_well
        on_response_read_well handling_fields)
qed

lemma http_step_inv: "http_step B s es s' \<Longrightarrow> http_inv tr s \<Longrightarrow> http_inv (tr @ es) s'"
proof (induction rule: http_step.induct)
  case (complete c s es s')
  from handle_well [OF complete.prems complete.hyps(1), of B] complete.hyps(2) show ?case by (simp add: ends_well_def)
qed (simp add: do_call_inv)

lemma http_reach_inv: "http_reach B split https addr retries dport tr s \<Longrightarrow> http_inv tr s"
proof (induction rule: http_reach.induct)
  case (init s)
  then show ?case by (auto simp: BaseHttpClient_def http_invs split: list.splits)
qed (rule http_step_inv)

lemma answered_map:
  "answered (map (\<lambda>p. Answered (ticket p) (callback p) ec r) ps) = map ticket ps"
  "accepted (map (\<lambda>p. Answered (ticket p) (callback p) ec r) ps) = []"
  by (induction ps) simp_all

lemma answered_destroy: "answered (destroy_client B s) = map ticket (pendingRequests s)" "accepted (destroy_client B s) = []"
  by (simp_all add: destroy_client_def answered_map)


section \<open>Every request is answered\<close>

fun weight :: "async_op \<Rightarrow> nat" where
  "weight Async_resolve = 5"
| "weight Async_connect = 4"
| "weight Async_handshake = 3"
| "weight Async_write = 2"
| "weight Async_read = 1"

text \<open>Completions that one request can need; what the requests can still need when the current operation is over.\<close>

definition per_request :: "('m, 'r, 'c) hc \<Rightarrow> nat" where
  "per_request s = 5 * (unat (maxRetryTimes s) + 1)"

definition remaining :: "('m, 'r, 'c) hc \<Rightarrow> nat" where
  "remaining s = (length (pendingRequests s) - 1) * per_request s + 5 * (unat (maxRetryTimes s) - unat (retriedTimes s))"

definition http_cost :: "('m, 'r, 'c) hc \<Rightarrow> nat" where
  "http_cost s = (case outstanding s of [] \<Rightarrow> 0 | oper # _ \<Rightarrow> remaining s + weight oper)"

text \<open>Completions in which the callback makes no calls.\<close>

definition progress_step :: "('m, 'r) beast \<Rightarrow> ('m, 'r, 'c) hc \<Rightarrow> ('m, 'r, 'c) hc \<Rightarrow> bool" where
  "progress_step B s s' \<longleftrightarrow>
     (\<exists>c es. c_op c \<in> set (outstanding s) \<and> c_calls c = [] \<and> handle B c s = Inr (es, s'))"

definition http_live :: "('m, 'r, 'c) hc \<Rightarrow> bool" where
  "http_live s \<longleftrightarrow> (\<exists>tr. http_inv tr s)"

lemma cost_start: "outstanding s = [] \<Longrightarrow> http_cost (start oper s) = remaining s + weight oper"
  by (simp add: http_cost_def remaining_def per_request_def)

lemma remaining_fields [simp]:
  "remaining (s\<lparr>connected := b\<rparr>) = remaining s" "remaining (s\<lparr>buffer := buf\<rparr>) = remaining s"
  "remaining (s\<lparr>response_msg := r\<rparr>) = remaining s" "remaining (s\<lparr>request_msg := m\<rparr>) = remaining s"
  "remaining (s\<lparr>outstanding := os\<rparr>) = remaining s"
  by (simp_all add: remaining_def per_request_def)

lemma remaining_retry:
  assumes "retriedTimes s < maxRetryTimes s"
  shows "remaining (s\<lparr>retriedTimes := retriedTimes s + 1\<rparr>) + 5 = remaining s"
proof -
  have lt: "unat (retriedTimes s) < unat (maxRetryTimes s)" using assms by (simp add: word_less_nat_alt)
  then have "unat (retriedTimes s + 1) = unat (retriedTimes s) + 1"
    using unsigned_less [of "maxRetryTimes s", where ?'a = nat] by (subst unat_plus_small) simp_all
  with lt show ?thesis by (simp add: remaining_def per_request_def)
qed

lemma respond_cost:
  assumes "outstanding s = []" and "respond B ec [] s = Inr (es, s')"
  shows "http_cost s' \<le> (length (pendingRequests s) - 1) * per_request s"
proof -
  obtain req ps where p: "pendingRequests s = req # ps" using assms(2) by (cases "pendingRequests s") (auto simp: respond_def)
  obtain r where n: "start_next B (s\<lparr>response_msg := r, pendingRequests := ps\<rparr>) = Inr s'"
    using assms(2) p by (auto simp: respond_def bind_res_eq_Inr split: option.splits)
  show ?thesis
  proof (cases ps)
    case Nil
    with n assms(1) show ?thesis by (auto simp: start_next_def http_cost_def)
  next
    case (Cons nxt rest)
    show ?thesis
    proof (cases "closed s")
      case True
      with n Cons assms(1) show ?thesis by (auto simp: start_next_def http_cost_def)
    next
      case False
      with n Cons obtain m oper where "s' = start oper (s\<lparr>response_msg := r, pendingRequests := ps, retriedTimes := 0, request_msg := m\<rparr>)"
        "weight oper \<le> 5"
        by (auto simp: start_next_def do_request_queued_def Let_def start_ops split: option.splits if_splits)
      then show ?thesis using assms(1) p Cons by (simp add: cost_start remaining_def per_request_def)
    qed
  qed
qed

lemma respond_cost': "outstanding s = [] \<Longrightarrow> respond B ec [] s = Inr (es, s') \<Longrightarrow> http_cost s' \<le> remaining s"
  using respond_cost [of s B ec es s'] by (simp add: remaining_def)

lemma retry_cost:
  assumes "outstanding s = []" and "retry_or_give_up B ec [] s = Inr (es, s')"
  shows "http_cost s' \<le> remaining s"
proof (cases "ec \<noteq> operation_canceled B \<and> retriedTimes s < maxRetryTimes s")
  case True
  then have "s' = start Async_resolve (s\<lparr>retriedTimes := retriedTimes s + 1\<rparr>)"
    using assms(2) by (auto simp: retry_or_give_up_def resolve_def)
  with remaining_retry [of s] True assms(1) show ?thesis by (simp add: cost_start)
next
  case False
  then have "respond B ec [] s = Inr (es, s')" using assms(2) by (auto simp: retry_or_give_up_def split: if_splits)
  then show ?thesis by (rule respond_cost' [OF assms(1)])
qed

lemma on_handshake_cost:
  assumes "outstanding s = []" and "on_handshake B ec [] s = Inr (es, s')"
  shows "http_cost s' \<le> remaining s + 2"
proof -
  consider "respond B (operation_canceled B) [] s = Inr (es, s')" | "s' = start Async_write (s\<lparr>connected := True\<rparr>)"
    | "retry_or_give_up B ec [] s = Inr (es, s')"
    using assms by (auto simp: on_handshake_def reset_stream_ok send_request_def split: if_splits)
  then show ?thesis
  proof cases
    case 1
    from respond_cost' [OF assms(1) 1] show ?thesis by simp
  next
    case 2
    with assms(1) show ?thesis by (simp add: cost_start)
  next
    case 3
    from retry_cost [OF assms(1) 3] show ?thesis by simp
  qed
qed

lemma on_connect_cost:
  assumes "outstanding s = []" and "on_connect B ec sni [] s = Inr (es, s')"
  shows "http_cost s' \<le> remaining s + 3"
proof -
  consider "respond B (operation_canceled B) [] s = Inr (es, s')" | e where "on_handshake B e [] s = Inr (es, s')"
    | "s' = start Async_handshake s" | "retry_or_give_up B ec [] s = Inr (es, s')"
    using assms by (auto simp: on_connect_def handshake_def split: if_splits option.splits)
  then show ?thesis
  proof cases
    case 1
    from respond_cost' [OF assms(1) 1] show ?thesis by simp
  next
    case (2 e)
    from on_handshake_cost [OF assms(1) 2] show ?thesis by simp
  next
    case 3
    with assms(1) show ?thesis by (simp add: cost_start)
  next
    case 4
    from retry_cost [OF assms(1) 4] show ?thesis by simp
  qed
qed

lemma on_resolve_cost:
  assumes "outstanding s = []" and "on_resolve B ec [] s = Inr (es, s')"
  shows "http_cost s' \<le> remaining s + 4"
proof -
  consider "respond B (operation_canceled B) [] s = Inr (es, s')" | "s' = start Async_connect s"
    | "retry_or_give_up B ec [] s = Inr (es, s')"
    using assms by (auto simp: on_resolve_def connect_def split: if_splits)
  then show ?thesis
  proof cases
    case 1
    from respond_cost' [OF assms(1) 1] show ?thesis by simp
  next
    case 2
    with assms(1) show ?thesis by (simp add: cost_start)
  next
    case 3
    from retry_cost [OF assms(1) 3] show ?thesis by simp
  qed
qed

lemma on_request_sent_cost:
  assumes "outstanding s = []" and "on_request_sent B ec [] s = Inr (es, s')"
  shows "http_cost s' \<le> remaining s + 1"
proof -
  let ?t = "s\<lparr>connected := False\<rparr>"
  consider "respond B (operation_canceled B) [] s = Inr (es, s')" | "s' = start Async_read s"
    | "retry_or_give_up B ec [] ?t = Inr (es, s')"
    using assms by (auto simp: on_request_sent_def read_response_def reset_stream_ok split: if_splits)
  then show ?thesis
  proof cases
    case 1
    from respond_cost' [OF assms(1) 1] show ?thesis by simp
  next
    case 2
    with assms(1) show ?thesis by (simp add: cost_start)
  next
    case 3
    from retry_cost [OF _ 3] assms(1) show ?thesis by simp
  qed
qed

lemma on_response_read_cost:
  assumes "outstanding s = []" and "on_response_read B ec [] s = Inr (es, s')"
  shows "http_cost s' \<le> remaining s"
proof -
  have again: "http_cost (start oper (t\<lparr>response_msg := r, retriedTimes := retriedTimes t + 1\<rparr>)) \<le> remaining s"
    if "outstanding t = []" "remaining t = remaining s" "retriedTimes t < maxRetryTimes t" for oper t r
    using remaining_retry [of "t\<lparr>response_msg := r\<rparr>"] that by (cases oper) (simp_all add: cost_start)
  have fin: "http_cost s' \<le> remaining s" if "respond B e [] t = Inr (es, s')" "outstanding t = []" "remaining t = remaining s" for e t
    using respond_cost' [OF that(2,1)] that(3) by simp
  show ?thesis
    using assms(2) unfolding on_response_read_eq [OF assms(1)] Let_def
    using again [of "s\<lparr>connected := False, buffer := []\<rparr>"]
    by (auto simp: not_le assms(1) split: if_splits intro!: again intro: fin)
qed

lemma handle_cost:
  assumes "http_inv tr s" and "c_op c \<in> set (outstanding s)" and "c_calls c = []" and "handle B c s = Inr (es, s')"
  shows "http_cost s' < http_cost s"
proof -
  have "outstanding s = [c_op c]" using assms(1,2) by (auto simp: http_inv_def split: list.splits)
  then have c: "http_cost s = remaining s + weight (c_op c)" "remove1 (c_op c) (outstanding s) = []" by (simp_all add: http_cost_def)
  let ?s = "s\<lparr>outstanding := []\<rparr>"
  show ?thesis
    using assms(3,4) [unfolded handle_def c(2)] on_resolve_cost [of ?s B "c_ec c" es s'] on_connect_cost [of ?s B "c_ec c" "c_sni c" es s']
      on_handshake_cost [of ?s B "c_ec c" es s'] on_request_sent_cost [of ?s B "c_ec c" es s']
      on_response_read_cost [of "?s\<lparr>response_msg := c_response c, buffer := c_buffer c\<rparr>" B "c_ec c" es s']
    by (cases "c_op c") (simp_all add: c(1))
qed

interpretation http: draining http_live "progress_step B" http_cost "\<lambda>s. outstanding s = []" for B :: "('m, 'r) beast"
proof
  fix s s' :: "('m, 'r, 'c) hc"
  assume "http_live s" and "progress_step B s s'"
  then obtain tr c es where h: "http_inv tr s" "c_op c \<in> set (outstanding s)" "c_calls c = []" "handle B c s = Inr (es, s')"
    by (auto simp: http_live_def progress_step_def)
  show "http_cost s' < http_cost s" by (rule handle_cost [OF h])
  from handle_well [OF h(1,2), of B] h(4) show "http_live s'" by (auto simp: ends_well_def http_live_def)
next
  fix s :: "('m, 'r, 'c) hc"
  assume l: "http_live s" and n: "outstanding s \<noteq> []"
  obtain tr where i: "http_inv tr s" using l by (auto simp: http_live_def)
  let ?c = "\<lparr>c_op = hd (outstanding s), c_ec = 0, c_response = response_msg s, c_buffer = [], c_sni = None, c_calls = []\<rparr> :: ('r, 'c) completion"
  from handle_well [OF i, of ?c B] n obtain es s' where "handle B ?c s = Inr (es, s')" by (auto simp: ends_well_def)
  with n show "\<exists>s'. progress_step B s s'" unfolding progress_step_def by (intro exI [of _ s'] exI [of _ ?c] exI [of _ es]) simp
qed

lemma cost_bound:
  assumes "http_inv tr s"
  shows "http_cost s \<le> 5 * (unat (maxRetryTimes s) + 1) * length (pendingRequests s)"
proof (cases "outstanding s")
  case (Cons oper opers)
  then obtain p ps where p: "pendingRequests s = p # ps" using assms by (cases "pendingRequests s") (auto simp: http_inv_def)
  have "weight oper \<le> 5" by (cases oper) simp_all
  then show ?thesis using Cons p by (simp add: http_cost_def remaining_def per_request_def)
qed (simp add: http_cost_def)


section \<open>The text of a request\<close>

fun separated :: "string \<Rightarrow> string list \<Rightarrow> string" where
  "separated sep [] = ''''"
| "separated sep [x] = x"
| "separated sep (x # y # xs) = x @ sep @ separated sep (y # xs)"

lemma append_terminated:
  "xs \<noteq> [] \<Longrightarrow> fold (\<lambda>x t. t @ f x @ sep) xs t = t @ separated sep (map f xs) @ sep"
proof (induction xs arbitrary: t)
  case (Cons x xs)
  show ?case
  proof (cases "xs = []")
    case False
    then have "separated sep (map f (x # xs)) = f x @ sep @ separated sep (map f xs)" by (cases xs) simp_all
    with Cons.IH [OF False, of "t @ f x @ sep"] show ?thesis by simp
  qed simp
qed simp

text \<open>
  What is sent. A request that had to wait in the queue leads to the same message as one that is sent
  at once; the query string is the list of the parameters \<open>key=value\<close>, separated by \<open>&\<close> and preceded by \<open>?\<close>, and absent
  if there are none; the cookies are separated by \<open>"; "\<close>.
\<close>

theorem http_request_text:
  "init_request_queued B h (request_params a) m = init_request B h a m \<and>
   append_params ps target =
     (if ps = [] then target else target @ ''?'' @ separated ''&'' (map (\<lambda>(k, v). k @ ''='' @ v) ps)) \<and>
   append_cookies cks = separated ''; '' cks"
proof -
  have eq: "(\<lambda>(k, v) t. t @ k @ ''='' @ v @ ''&'') = (\<lambda>x t. t @ (case x of (k, v) \<Rightarrow> k @ ''='' @ v) @ ''&'')"
    by (auto simp: fun_eq_iff)
  have "fold (\<lambda>(k, v) t. t @ k @ ''='' @ v @ ''&'') ps t = t @ separated ''&'' (map (\<lambda>(k, v). k @ ''='' @ v) ps) @ ''&''"
    if "ps \<noteq> []" for t
    unfolding eq by (rule append_terminated [OF that])
  then have "append_params ps target =
      (if ps = [] then target else target @ ''?'' @ separated ''&'' (map (\<lambda>(k, v). k @ ''='' @ v) ps))"
    by (simp add: append_params_def butlast_append)
  moreover have "append_cookies cks = separated ''; '' cks"
    using append_terminated [of cks "\<lambda>c. c" "''; ''" "''''"] by (cases "cks = []") (simp_all add: append_cookies_def)
  moreover have "init_request_queued B h (request_params a) m = init_request B h a m"
    by (simp add: init_request_queued_def init_request_def request_params_def opt_def Let_def split: option.split)
  ultimately show ?thesis by blast
qed

section \<open>Bytes of an old connection\<close>

definition completed :: "async_op \<Rightarrow> int \<Rightarrow> 'r \<Rightarrow> bytes \<Rightarrow> ('r, 'c) completion" where
  "completed oper ec r buf = \<lparr>c_op = oper, c_ec = ec, c_response = r, c_buffer = buf, c_sni = None, c_calls = []\<rparr>"

lemma reach_complete:
  assumes "http_reach B split https addr retries dport tr s" and "oper \<in> set (outstanding s)"
    and "handle B (completed oper ec r buf) s = Inr (es, s')"
  shows "http_reach B split https addr retries dport (tr @ es) s'"
  by (rule http_reach.step [OF assms(1) complete [OF _ assms(3)]]) (use assms(2) in \<open>simp add: completed_def\<close>)

lemma reach_get:
  assumes "http_reach B split https addr retries dport tr s" and "Get B cb target params cookies headers s = (es, s')"
  shows "http_reach B split https addr retries dport (tr @ es) s'"
  by (rule http_reach.step [OF assms(1) call [of B "Call_Get cb target params cookies headers"]]) (use assms(2) in simp)

text \<open>
  Bytes left over from one connection can be read as part of the next. The handlers that give up a connection
  after reading empty \<open>buffer_\<close>; \<open>on_request_sent\<close> does not. When a kept connection delivered bytes beyond a response and the next
  request cannot be sent, the client turns to a new connection with these bytes still in the buffer from which the
  next response is parsed.
\<close>

theorem stale_bytes_after_write_error:
  fixes B :: "('m, 'r) beast"
  assumes "keep_alive B r" and "status_ok B r" and "ec \<noteq> 0" and "ec \<noteq> operation_canceled B" and "0 < retries" and "split addr \<noteq> []"
  shows "\<exists>tr (s :: ('m, 'r, 'c) hc). http_reach B split False addr retries dport tr s \<and> \<not> connected s \<and>
    outstanding s = [Async_resolve] \<and> buffer s = left"
proof -
  obtain s0 :: "('m, 'r, 'c) hc" where s0: "BaseHttpClient B split False addr retries dport = Inr s0"
    using assms(6) by (cases "split addr") (auto simp: BaseHttpClient_def)
  then have f: "\<not> secure s0" "maxRetryTimes s0 = retries" "\<not> closed s0" "\<not> connected s0" "pendingRequests s0 = []" "outstanding s0 = []"
    by (auto simp: BaseHttpClient_def split: list.splits)
  have run: "\<exists>tr s'. http_reach B split False addr retries dport tr s' \<and> P s'"
    if "http_reach B split False addr retries dport tr s" "oper \<in> set (outstanding s)"
      "\<exists>es s'. handle B (completed oper e r b) s = Inr (es, s') \<and> P s'" for s tr oper e b and P :: "('m, 'r, 'c) hc \<Rightarrow> bool"
    using reach_complete [OF that(1,2)] that(3) by blast
  have get: "\<exists>tr s'. http_reach B split False addr retries dport tr s' \<and> P s'"
    if "http_reach B split False addr retries dport tr s" "P (snd (Get B None [] None None None s))"
    for s tr and P :: "('m, 'r, 'c) hc \<Rightarrow> bool"
    using reach_get [OF that(1) prod.collapse [symmetric]] that(2) by blast
  let ?busy = "\<lambda>(s :: ('m, 'r, 'c) hc) oper. \<not> secure s \<and> maxRetryTimes s = retries \<and> retriedTimes s = 0 \<and> \<not> closed s \<and> length (pendingRequests s) = 1 \<and>
    callback (hd (pendingRequests s)) = None \<and> outstanding s = [oper]"
  obtain tr s where 1: "http_reach B split False addr retries dport tr s" "?busy s Async_resolve"
    using get [OF http_reach.init [OF s0], of "\<lambda>s. ?busy s Async_resolve"] f
    by (simp add: Get_def request_def do_request_def Let_def resolve_def) blast
  obtain tr s where 2: "http_reach B split False addr retries dport tr s" "?busy s Async_connect"
    using run [OF 1(1), of Async_resolve 0 _ "\<lambda>s. ?busy s Async_connect"] 1(2)
    by (auto simp: handle_def completed_def on_resolve_def connect_def)
  obtain tr s where 3: "http_reach B split False addr retries dport tr s" "?busy s Async_write \<and> connected s"
    using run [OF 2(1), of Async_connect 0 _ "\<lambda>s. ?busy s Async_write \<and> connected s"] 2(2)
    by (auto simp: handle_def completed_def on_connect_def handshake_def on_handshake_def send_request_def)
  obtain tr s where 4: "http_reach B split False addr retries dport tr s" "?busy s Async_read \<and> connected s"
    using run [OF 3(1), of Async_write 0 _ "\<lambda>s. ?busy s Async_read \<and> connected s"] 3(2)
    by (auto simp: handle_def completed_def on_request_sent_def read_response_def)
  let ?kept = "\<lambda>s :: ('m, 'r, 'c) hc. \<not> secure s \<and> maxRetryTimes s = retries \<and> \<not> closed s \<and> pendingRequests s = [] \<and> outstanding s = [] \<and> connected s \<and> buffer s = left"
  obtain tr s where 5: "http_reach B split False addr retries dport tr s" "?kept s"
    using run [OF 4(1), of Async_read 0 left ?kept] 4(2) assms(1,2)
    by (auto simp: handle_def completed_def on_response_read_def respond_def start_next_def length_Suc_conv)
  obtain tr s where 6: "http_reach B split False addr retries dport tr s" "?busy s Async_write \<and> connected s \<and> buffer s = left"
    using get [OF 5(1), of "\<lambda>s. ?busy s Async_write \<and> connected s \<and> buffer s = left"] 5(2)
    by (simp add: Get_def request_def do_request_def Let_def send_request_def) blast
  show ?thesis
    using run [OF 6(1), of Async_write ec _ "\<lambda>s. \<not> connected s \<and> outstanding s = [Async_resolve] \<and> buffer s = left"] 6(2) assms(3-5)
    by (auto simp: handle_def completed_def on_request_sent_def reset_stream_def retry_or_give_up_def resolve_def)
qed

section \<open>Example runs\<close>

text \<open>Requests as the list of what was set, responses as a status code and the keep-alive flag.\<close>

definition demo_beast :: "((string \<times> string) list, nat \<times> bool) beast" where
  "demo_beast =
     \<lparr>default_request = [], clear_request = (\<lambda>m. []), set_version = (\<lambda>v m. m),
      set_field = (\<lambda>f v m. (case f of Host \<Rightarrow> ''Host'' | User_Agent \<Rightarrow> ''User-Agent'' | Content_Type \<Rightarrow> ''Content-Type''
        | Cookie \<Rightarrow> ''Cookie'' | Named k \<Rightarrow> k, v) # m),
      set_method = (\<lambda>v m. m), set_target = (\<lambda>t m. (''target'', t) # m), set_body = (\<lambda>b m. (''body'', b) # m), clear_body = (\<lambda>m. m),
      prepare_payload = (\<lambda>m. m), version_string = ''Boost.Beast'', default_response = (0, True), keep_alive = snd,
      status_ok = (\<lambda>r. fst r = 200), clear_response = (\<lambda>r. (0, True)), clear_response_body = (\<lambda>r. r), moved_from = (\<lambda>r. (0, True)),
      operation_canceled = 125\<rparr>"

definition demo_split :: "string \<Rightarrow> string list" where
  "demo_split s = [s]"

lemma demo_get:
  "\<exists>(s :: (_, _, nat) hc). http_reach demo_beast demo_split True ''example.org'' 2 ''443'' [Accepted 0, Accepted 1] s \<and>
     length (pendingRequests s) = 2 \<and> maxRetryTimes s = 2 \<and> \<not> closed s"
proof -
  obtain s0 :: "(_, _, nat) hc" where s0: "BaseHttpClient demo_beast demo_split True ''example.org'' 2 ''443'' = Inr s0"
    by (simp add: BaseHttpClient_def demo_split_def)
  then have f: "pendingRequests s0 = []" "\<not> connected s0" "maxRetryTimes s0 = 2" "\<not> closed s0" "tickets s0 = 0"
    by (auto simp: BaseHttpClient_def demo_split_def)
  obtain s1 where 1: "Get demo_beast (Some 7) ''/'' None None None s0 = ([Accepted 0], s1)" "length (pendingRequests s1) = 1"
    "maxRetryTimes s1 = 2" "\<not> closed s1" "tickets s1 = 1"
    using f by (simp add: Get_def request_def do_request_def Let_def resolve_def)
  obtain s2 where 2: "Get demo_beast (Some 8) ''/'' None None None s1 = ([Accepted 1], s2)" "length (pendingRequests s2) = 2"
    "maxRetryTimes s2 = 2" "\<not> closed s2"
    using 1 by (cases "pendingRequests s1") (auto simp: Get_def request_def Let_def)
  from reach_get [OF reach_get [OF http_reach.init [OF s0] 1(1)] 2(1)] 2 show ?thesis by auto
qed



theorem stale_bytes_after_write_error_witness:
  "\<exists>tr (s :: (_, _, nat) hc). http_reach demo_beast demo_split False ''example.org'' 2 ''80'' tr s \<and> \<not> connected s \<and>
     outstanding s = [Async_resolve] \<and> buffer s = [10, 13]"
  by (rule stale_bytes_after_write_error [where r = "(200, True)" and ec = 32]) (simp_all add: demo_beast_def demo_split_def)

end
