(* ===== verification/Logger.thy ===== *)
theory Logger
  imports Prelude
begin

text \<open>
  Model of \<open>logger/logger.h\<close> and \<open>logger/logger.cpp\<close> (class \<open>Logger\<close> and its \<open>Impl\<close>, POSIX build). The kernel is a parameter that decides,
  from the history, which system calls succeed. The texts that the formatting library produces
  are parameters too; formatting may throw after it has appended a part of its text.
  Symbolic links, whose errors the code ignores, are made without errors. A call of \<open>Log\<close> is one step.
\<close>

section \<open>Levels, destinations, flags\<close>

datatype LogLevel = LogLevelTrace | LogLevelInfo | LogLevelWarn | LogLevelError | LogLevelFatal

fun level_index :: "LogLevel \<Rightarrow> nat" where
  "level_index LogLevelTrace = 0"
| "level_index LogLevelInfo = 1"
| "level_index LogLevelWarn = 2"
| "level_index LogLevelError = 3"
| "level_index LogLevelFatal = 4"

instantiation LogLevel :: linorder
begin

definition less_eq_LogLevel :: "LogLevel \<Rightarrow> LogLevel \<Rightarrow> bool" where
  "less_eq_LogLevel a b \<longleftrightarrow> level_index a \<le> level_index b"

definition less_LogLevel :: "LogLevel \<Rightarrow> LogLevel \<Rightarrow> bool" where
  "less_LogLevel a b \<longleftrightarrow> level_index a < level_index b"

instance
proof
  fix a b :: LogLevel
  show "a \<le> b \<Longrightarrow> b \<le> a \<Longrightarrow> a = b" by (cases a; cases b) (simp_all add: less_eq_LogLevel_def)
qed (auto simp: less_eq_LogLevel_def less_LogLevel_def)

end

definition LogDestNone :: u32 where
  "LogDestNone = 0"

definition LogDestFile :: u32 where
  "LogDestFile = 1"

definition LogDestConsole :: u32 where
  "LogDestConsole = 2"

definition LogDestBoth :: u32 where
  "LogDestBoth = LogDestFile OR LogDestConsole"

definition ControlFlagLogThrough :: u32 where
  "ControlFlagLogThrough = 0x01"

definition ControlFlagLogDate :: u32 where
  "ControlFlagLogDate = 0x02"

definition ControlFlagNoPrepends :: u32 where
  "ControlFlagNoPrepends = 0x04"

definition ControlFlagNoSymlinks :: u32 where
  "ControlFlagNoSymlinks = 0x08"

fun level_name :: "LogLevel \<Rightarrow> string" where
  "level_name LogLevelTrace = ''TRACE''"
| "level_name LogLevelInfo = ''INFO''"
| "level_name LogLevelWarn = ''WARN''"
| "level_name LogLevelError = ''ERROR''"
| "level_name LogLevelFatal = ''FATAL''"

fun level_initial :: "LogLevel \<Rightarrow> char" where
  "level_initial LogLevelTrace = CHR ''T''"
| "level_initial LogLevelInfo = CHR ''I''"
| "level_initial LogLevelWarn = CHR ''W''"
| "level_initial LogLevelError = CHR ''E''"
| "level_initial LogLevelFatal = CHR ''F''"

section \<open>State\<close>

text \<open>What the code uses of a broken-down time: the day of the year and formatted texts.\<close>

record 'tm time_fmt =
  tm_yday :: "'tm \<Rightarrow> int"
  hms :: "'tm \<Rightarrow> string"
  date_hms :: "'tm \<Rightarrow> string"
  stamp :: "'tm \<Rightarrow> string"
  micros :: "u32 \<Rightarrow> string"

record impl =
  outFD :: int
  curDay :: int
  curFileSize :: u64

record logger_cfg =
  cfg_logDir :: string
  cfg_logFilenamePrefix :: string
  cfg_logFileMaxSize :: u64
  cfg_logLevel :: LogLevel
  cfg_logDest :: u32
  cfg_controlFlags :: u32
  cfg_enableThreadMutex :: bool

text \<open>\<open>thrBuf_\<close> has one value for each thread; \<open>symlink_\<close> is the same for the life of an \<open>Impl\<close>.\<close>

record logger =
  logDir :: string
  logPathPrefix :: string
  logFileMaxSize :: u64
  controlFlags :: u32
  multiThreaded :: bool
  logLevel :: LogLevel
  logDest :: u32
  loggers :: "LogLevel \<Rightarrow> impl"
  symlinks :: "LogLevel \<Rightarrow> string"
  buf :: string
  thrBuf :: "nat \<Rightarrow> string"

text \<open>
  The system: open descriptors with the name of their file and the bytes written through them, all writes so far, the
  symbolic links, the console, and the number of calls.
\<close>

record os =
  fds :: "int \<rightharpoonup> string"
  fd_bytes :: "int \<Rightarrow> nat"
  writes :: "(string \<times> string) list"
  links :: "string \<rightharpoonup> string"
  console :: "string list"
  ticks :: nat

record kernel =
  mkdir_ok :: "os \<Rightarrow> bool"
  open_ret :: "os \<Rightarrow> int"
  write_ret :: "os \<Rightarrow> nat \<Rightarrow> int"

definition os_close :: "int \<Rightarrow> os \<Rightarrow> os" where
  "os_close fd w = w\<lparr>fds := (fds w)(fd := None)\<rparr>"

definition os_open :: "kernel \<Rightarrow> string \<Rightarrow> os \<Rightarrow> int \<times> os" where
  "os_open k name w =
     (let fd = open_ret k w; w = w\<lparr>ticks := Suc (ticks w)\<rparr> in
      if fd = -1 then (-1, w) else (fd, w\<lparr>fds := (fds w)(fd \<mapsto> name), fd_bytes := (fd_bytes w)(fd := 0)\<rparr>))"

text \<open>A write appends as many bytes as it returns.\<close>

definition os_write :: "kernel \<Rightarrow> int \<Rightarrow> string \<Rightarrow> os \<Rightarrow> int \<times> os" where
  "os_write k fd data w =
     (let n = write_ret k w (length data); w = w\<lparr>ticks := Suc (ticks w)\<rparr> in
      case fds w fd of
        None \<Rightarrow> (-1, w)
      | Some name \<Rightarrow>
          if n < 0 then (-1, w)
          else (n, w\<lparr>writes := writes w @ [(name, take (nat n) data)], fd_bytes := (fd_bytes w)(fd := fd_bytes w fd + length (take (nat n) data))\<rparr>))"

section \<open>Operations\<close>

definition slash :: "string \<Rightarrow> string" where
  "slash dir = (if dir \<noteq> '''' then dir @ ''/'' else '''')"

definition new_impl :: impl where
  "new_impl = \<lparr>outFD = -1, curDay = -1, curFileSize = 0\<rparr>"

text \<open>The buffers of the threads are static: a new logger sees them as they are.\<close>

definition new_Logger :: "logger_cfg \<Rightarrow> (nat \<Rightarrow> string) \<Rightarrow> logger" where
  "new_Logger cfg bufs =
     \<lparr>logDir = cfg_logDir cfg, logPathPrefix = slash (cfg_logDir cfg) @ cfg_logFilenamePrefix cfg,
      logFileMaxSize = (if cfg_logFileMaxSize cfg \<noteq> 0 then cfg_logFileMaxSize cfg * 1024 * 1024 else 0xFFFFFFFFFF000000),
      controlFlags = cfg_controlFlags cfg, multiThreaded = cfg_enableThreadMutex cfg, logLevel = cfg_logLevel cfg,
      logDest = cfg_logDest cfg, loggers = (\<lambda>lv. new_impl),
      symlinks = (\<lambda>lv. slash (cfg_logDir cfg) @ level_name lv @ ''.'' @ cfg_logFilenamePrefix cfg @ ''.log''), buf = '''', thrBuf = bufs\<rparr>"

text \<open>\<open>fileMaxSizeInMB\<close> is a \<open>uint32_t\<close>.\<close>

definition Cfg :: "string \<Rightarrow> string \<Rightarrow> u32 \<Rightarrow> bool \<Rightarrow> LogLevel \<Rightarrow> u32 \<Rightarrow> u32 \<Rightarrow> logger_cfg" where
  "Cfg dir filenamePrefix fileMaxSizeInMB enableThreadMutex level dest flags =
     \<lparr>cfg_logDir = dir, cfg_logFilenamePrefix = filenamePrefix, cfg_logFileMaxSize = ucast fileMaxSizeInMB, cfg_logLevel = level,
      cfg_logDest = dest, cfg_controlFlags = flags, cfg_enableThreadMutex = enableThreadMutex\<rparr>"

definition SetLogLevel :: "LogLevel \<Rightarrow> logger \<Rightarrow> logger" where
  "SetLogLevel level s = s\<lparr>logLevel := level\<rparr>"

definition SetLogDest :: "u32 \<Rightarrow> logger \<Rightarrow> logger" where
  "SetLogDest dest s = s\<lparr>logDest := dest\<rparr>"

definition filename :: "'tm time_fmt \<Rightarrow> logger \<Rightarrow> LogLevel \<Rightarrow> 'tm \<Rightarrow> u32 \<Rightarrow> string" where
  "filename F s lv tm us = logPathPrefix s @ ''.'' @ level_name lv @ ''.'' @ stamp F tm @ micros F us @ ''.log''"

text \<open>The last component of a path.\<close>

definition path_filename :: "string \<Rightarrow> string" where
  "path_filename p = rev (takeWhile (\<lambda>c. c \<noteq> CHR ''/'') (rev p))"

text \<open>The first part of \<open>Impl::log\<close>: close the current file, make the directory and open a new file.\<close>

definition create_directories :: "kernel \<Rightarrow> logger \<Rightarrow> os \<Rightarrow> bool \<times> os" where
  "create_directories k s w = (if logDir s \<noteq> [] then (mkdir_ok k w, w\<lparr>ticks := Suc (ticks w)\<rparr>) else (True, w))"

definition open_new :: "'tm time_fmt \<Rightarrow> kernel \<Rightarrow> logger \<Rightarrow> LogLevel \<Rightarrow> 'tm \<Rightarrow> u32 \<Rightarrow> impl \<times> os \<Rightarrow> bool \<times> impl \<times> os" where
  "open_new F k s lv tm us = (\<lambda>(im, w).
     let (fd, w) = os_open k (filename F s lv tm us) w; im = im\<lparr>outFD := fd\<rparr> in
     if fd = -1 then (False, im, w)
     else let w = w\<lparr>links := (links w)(symlinks s lv := None)\<rparr>;
              w = (if controlFlags s AND ControlFlagNoSymlinks = 0
                   then w\<lparr>links := (links w)(symlinks s lv \<mapsto> path_filename (filename F s lv tm us))\<rparr> else w)
          in (True, im\<lparr>curDay := tm_yday F tm, curFileSize := 0\<rparr>, w))"

definition rotate :: "'tm time_fmt \<Rightarrow> kernel \<Rightarrow> logger \<Rightarrow> LogLevel \<Rightarrow> 'tm \<Rightarrow> u32 \<Rightarrow> impl \<times> os \<Rightarrow> bool \<times> impl \<times> os" where
  "rotate F k s lv tm us = (\<lambda>(im, w).
     let (dir_ok, w) = create_directories k s (os_close (outFD im) w); im = im\<lparr>outFD := -1\<rparr> in
     if \<not> dir_ok then (False, im, w) else open_new F k s lv tm us (im, w))"

definition write_out :: "kernel \<Rightarrow> string \<Rightarrow> impl \<times> os \<Rightarrow> bool \<times> impl \<times> os" where
  "write_out k content = (\<lambda>(im, w).
     let (n, w) = os_write k (outFD im) content w in
     if n \<ge> 0 then (True, im\<lparr>curFileSize := curFileSize im + of_nat (length content)\<rparr>, w)
     else (False, im\<lparr>outFD := -1\<rparr>, os_close (outFD im) w))"

definition needs_file :: "'tm time_fmt \<Rightarrow> logger \<Rightarrow> 'tm \<Rightarrow> impl \<Rightarrow> bool" where
  "needs_file F s tm im \<longleftrightarrow> curFileSize im \<ge> logFileMaxSize s \<or> curDay im \<noteq> tm_yday F tm \<or> outFD im = -1"

definition log :: "'tm time_fmt \<Rightarrow> kernel \<Rightarrow> logger \<Rightarrow> LogLevel \<Rightarrow> 'tm \<Rightarrow> u32 \<Rightarrow> string \<Rightarrow> impl \<times> os \<Rightarrow> bool \<times> impl \<times> os" where
  "log F k s lv tm us content = (\<lambda>(im, w).
     if needs_file F s tm im
     then (case rotate F k s lv tm us (im, w) of (ok, im, w) \<Rightarrow> if ok then write_out k content (im, w) else (False, im, w))
     else write_out k content (im, w))"

definition Impl_Log :: "'tm time_fmt \<Rightarrow> kernel \<Rightarrow> logger \<Rightarrow> LogLevel \<Rightarrow> 'tm \<Rightarrow> u32 \<Rightarrow> string \<Rightarrow> impl \<times> os \<Rightarrow> impl \<times> os" where
  "Impl_Log F k s lv tm us content x =
     (case log F k s lv tm us content x of (ok, y) \<Rightarrow> if ok then y else snd (log F k s lv tm us content y))"

definition log_to :: "'tm time_fmt \<Rightarrow> kernel \<Rightarrow> 'tm \<Rightarrow> u32 \<Rightarrow> string \<Rightarrow> LogLevel \<Rightarrow> logger \<times> os \<Rightarrow> logger \<times> os" where
  "log_to F k tm us content lv = (\<lambda>(s, w).
     case Impl_Log F k s lv tm us content (loggers s lv, w) of (im, w) \<Rightarrow> (s\<lparr>loggers := (loggers s)(lv := im)\<rparr>, w))"

text \<open>The levels from \<open>level\<close> down to \<open>lowest\<close>, in the order of the loop.\<close>

definition levels_down :: "LogLevel \<Rightarrow> LogLevel \<Rightarrow> LogLevel list" where
  "levels_down level lowest =
     filter (\<lambda>lv. lowest \<le> lv \<and> lv \<le> level) [LogLevelFatal, LogLevelError, LogLevelWarn, LogLevelInfo, LogLevelTrace]"

datatype formatted = Text string | Throws string

definition buffer_of :: "nat \<Rightarrow> logger \<Rightarrow> string" where
  "buffer_of t s = (if multiThreaded s then thrBuf s t else buf s)"

definition set_buffer :: "nat \<Rightarrow> string \<Rightarrow> logger \<Rightarrow> logger" where
  "set_buffer t b s = (if multiThreaded s then s\<lparr>thrBuf := (thrBuf s)(t := b)\<rparr> else s\<lparr>buf := b\<rparr>)"

definition prepend :: "'tm time_fmt \<Rightarrow> logger \<Rightarrow> LogLevel \<Rightarrow> 'tm \<Rightarrow> string" where
  "prepend F s level tm =
     (if controlFlags s AND ControlFlagNoPrepends = 0
      then if controlFlags s AND ControlFlagLogDate = 0 then level_initial level # hms F tm @ '' ''
           else level_initial level # date_hms F tm @ '' ''
      else '''')"

text \<open>\<open>Log\<close>, called by thread \<open>t\<close>; the first result tells whether it returned (or threw).\<close>

definition Log :: "'tm time_fmt \<Rightarrow> kernel \<Rightarrow> nat \<Rightarrow> LogLevel \<Rightarrow> 'tm \<Rightarrow> u32 \<Rightarrow> formatted \<Rightarrow> logger \<times> os \<Rightarrow> bool \<times> logger \<times> os" where
  "Log F k t level tm us msg = (\<lambda>(s, w).
     if logLevel s > level \<or> logDest s = LogDestNone then (True, s, w)
     else let b = buffer_of t s @ prepend F s level tm in
       case msg of
         Throws part \<Rightarrow> (False, set_buffer t (b @ part) s, w)
       | Text txt \<Rightarrow>
           let b = b @ txt @ ''\<newline>'';
               s = set_buffer t b s;
               (s, w) = (if logDest s AND LogDestFile \<noteq> 0
                         then if controlFlags s AND ControlFlagLogThrough \<noteq> 0
                              then fold (log_to F k tm us b) (levels_down level (logLevel s)) (s, w)
                              else log_to F k tm us b level (s, w)
                         else (s, w));
               w = (if logDest s AND LogDestConsole \<noteq> 0 then w\<lparr>console := console w @ [b]\<rparr> else w)
           in (True, set_buffer t '''' s, w))"

text \<open>The destructor, and the logger of the process: a null pointer at first.\<close>

definition destroy_Logger :: "logger \<Rightarrow> os \<Rightarrow> os" where
  "destroy_Logger s = fold (\<lambda>lv. os_close (outFD (loggers s lv)))
     [LogLevelFatal, LogLevelError, LogLevelWarn, LogLevelInfo, LogLevelTrace]"

definition InitGlobalLogger :: "logger_cfg \<Rightarrow> logger option \<times> os \<Rightarrow> logger option \<times> os" where
  "InitGlobalLogger cfg = (\<lambda>(g, w).
     case g of
       None \<Rightarrow> (Some (new_Logger cfg (\<lambda>t. [])), w)
     | Some old \<Rightarrow> (Some (new_Logger cfg (thrBuf old)), destroy_Logger old w))"

definition SetGlobalLoggerLogLevel :: "LogLevel \<Rightarrow> logger option \<Rightarrow> fault + logger option" where
  "SetGlobalLoggerLogLevel level g = (case g of None \<Rightarrow> Inl Null_Deref | Some s \<Rightarrow> Inr (Some (SetLogLevel level s)))"

definition SetGlobalLoggerLogDest :: "u32 \<Rightarrow> logger option \<Rightarrow> fault + logger option" where
  "SetGlobalLoggerLogDest dest g = (case g of None \<Rightarrow> Inl Null_Deref | Some s \<Rightarrow> Inr (Some (SetLogDest dest s)))"

text \<open>The macros: the name of the file and the text of the line number come before the message.\<close>

definition located :: "string \<Rightarrow> string \<Rightarrow> formatted \<Rightarrow> formatted" where
  "located file line msg =
     (let loc = path_filename (''/'' @ file) @ '':'' @ line @ ''] '' in
      case msg of Text txt \<Rightarrow> Text (loc @ txt) | Throws part \<Rightarrow> Throws (loc @ part))"

definition LOGGER_WRITE ::
  "'tm time_fmt \<Rightarrow> kernel \<Rightarrow> nat \<Rightarrow> LogLevel \<Rightarrow> string \<Rightarrow> string \<Rightarrow> 'tm \<Rightarrow> u32 \<Rightarrow> formatted \<Rightarrow> logger option \<times> os \<Rightarrow>
     fault + bool \<times> logger option \<times> os" where
  "LOGGER_WRITE F k t level file line tm us msg = (\<lambda>(g, w).
     case g of
       None \<Rightarrow> Inl Null_Deref
     | Some s \<Rightarrow> (case Log F k t level tm us (located file line msg) (s, w) of (ok, s, w) \<Rightarrow> Inr (ok, Some s, w)))"

datatype outcome = Threw | Exited int

definition LOG_FATAL ::
  "'tm time_fmt \<Rightarrow> kernel \<Rightarrow> nat \<Rightarrow> string \<Rightarrow> string \<Rightarrow> 'tm \<Rightarrow> u32 \<Rightarrow> formatted \<Rightarrow> logger option \<times> os \<Rightarrow>
     fault + outcome \<times> logger option \<times> os" where
  "LOG_FATAL F k t file line tm us msg x =
     (case LOGGER_WRITE F k t LogLevelFatal file line tm us msg x of
        Inl e \<Rightarrow> Inl e
      | Inr (ok, y) \<Rightarrow> Inr (if ok then Exited (-1) else Threw, y))"

section \<open>One file at a time\<close>

text \<open>
  What is assumed of the kernel: a descriptor that is handed out is not in use.
\<close>

definition kernel_ok :: "kernel \<Rightarrow> bool" where
  "kernel_ok k \<longleftrightarrow> (\<forall>w. open_ret k w = -1 \<or> 0 \<le> open_ret k w \<and> fds w (open_ret k w) = None)"

text \<open>All calls succeed as long as finitely many descriptors are in use, and writes are complete.\<close>

definition all_succeed :: "kernel \<Rightarrow> os \<Rightarrow> bool" where
  "all_succeed k w \<longleftrightarrow> finite (dom (fds w)) \<and>
     (\<forall>w. finite (dom (fds w)) \<longrightarrow> mkdir_ok k w \<and> open_ret k w \<noteq> -1 \<and> (\<forall>n. write_ret k w n = int n))"

definition impl_ok :: "nat \<Rightarrow> os \<Rightarrow> impl \<Rightarrow> bool" where
  "impl_ok B w im \<longleftrightarrow> unat (curFileSize im) < B \<and>
     (outFD im \<noteq> -1 \<longrightarrow> 0 \<le> outFD im \<and> fds w (outFD im) \<noteq> None \<and> fd_bytes w (outFD im) \<le> unat (curFileSize im))"

text \<open>Only the file of the \<open>Impl\<close> at hand is touched, and a new descriptor is a new one.\<close>

definition frame :: "int \<Rightarrow> os \<Rightarrow> os \<Rightarrow> bool" where
  "frame fd0 w w' \<longleftrightarrow> (\<forall>fd. fd \<noteq> fd0 \<and> fd \<noteq> -1 \<and> fds w fd \<noteq> None \<longrightarrow> fds w' fd = fds w fd \<and> fd_bytes w' fd = fd_bytes w fd) \<and>
     (finite (dom (fds w)) \<longrightarrow> finite (dom (fds w')))"

definition own_fd :: "os \<Rightarrow> impl \<Rightarrow> impl \<Rightarrow> bool" where
  "own_fd w im im' \<longleftrightarrow> outFD im' = -1 \<or> outFD im' = outFD im \<or> fds w (outFD im') = None"

lemma frame_refl [simp]: "frame fd w w"
  by (simp add: frame_def)

lemma all_succeed_frame: "frame fd w w' \<Longrightarrow> all_succeed k w \<Longrightarrow> all_succeed k w'"
  by (simp add: frame_def all_succeed_def)

lemma frame_trans: "frame fd w w1 \<Longrightarrow> frame (-1) w1 w' \<Longrightarrow> frame fd w w'"
  by (simp add: frame_def)

lemma frame_close: "frame fd0 w w' \<Longrightarrow> frame fd0 w (os_close fd0 w')"
  by (simp add: frame_def os_close_def)

lemma open_new_effect:
  assumes "kernel_ok k" and "open_new F k s lv tm us (im, w) = (ok, im', w')"
  shows "(\<forall>fd. fds w fd \<noteq> None \<longrightarrow> fds w' fd = fds w fd \<and> fd_bytes w' fd = fd_bytes w fd) \<and> (outFD im' = -1 \<or> fds w (outFD im') = None) \<and>
       (finite (dom (fds w)) \<longrightarrow> finite (dom (fds w')))"
    "writes w' = writes w" "console w' = console w" "\<not> ok \<longrightarrow> outFD im' = -1 \<and> curFileSize im' = curFileSize im" "all_succeed k w \<longrightarrow> ok"
    "ok \<longrightarrow> 0 \<le> outFD im' \<and> fds w' (outFD im') = Some (filename F s lv tm us) \<and> fd_bytes w' (outFD im') = 0 \<and> curFileSize im' = 0 \<and>
       curDay im' = tm_yday F tm"
proof -
  consider "open_ret k w = -1" "ok = False" "im' = im\<lparr>outFD := -1\<rparr>" "w' = w\<lparr>ticks := Suc (ticks w)\<rparr>"
    | l where "0 \<le> open_ret k w" "fds w (open_ret k w) = None" "ok = True"
      "im' = im\<lparr>outFD := open_ret k w, curDay := tm_yday F tm, curFileSize := 0\<rparr>"
      "w' = w\<lparr>ticks := Suc (ticks w), fds := (fds w)(open_ret k w \<mapsto> filename F s lv tm us), fd_bytes := (fd_bytes w)(open_ret k w := 0), links := l\<rparr>"
  proof (cases "open_ret k w = -1")
    case True
    with assms(2) that(1) show ?thesis by (simp add: open_new_def os_open_def Let_def)
  next
    case False
    then have "0 \<le> open_ret k w" "fds w (open_ret k w) = None" using assms(1) by (auto simp: kernel_ok_def)
    with False assms(2) that(2) show ?thesis by (auto simp: open_new_def os_open_def Let_def split: if_splits)
  qed
  note cs = this
  show "(\<forall>fd. fds w fd \<noteq> None \<longrightarrow> fds w' fd = fds w fd \<and> fd_bytes w' fd = fd_bytes w fd) \<and> (outFD im' = -1 \<or> fds w (outFD im') = None) \<and>
       (finite (dom (fds w)) \<longrightarrow> finite (dom (fds w')))"
    by (cases rule: cs) auto
  show "writes w' = writes w" "console w' = console w" "\<not> ok \<longrightarrow> outFD im' = -1 \<and> curFileSize im' = curFileSize im"
    by (cases rule: cs; simp)+
  show "all_succeed k w \<longrightarrow> ok" by (cases rule: cs) (auto simp: all_succeed_def)
  show "ok \<longrightarrow> 0 \<le> outFD im' \<and> fds w' (outFD im') = Some (filename F s lv tm us) \<and> fd_bytes w' (outFD im') = 0 \<and> curFileSize im' = 0 \<and>
       curDay im' = tm_yday F tm"
    by (cases rule: cs) simp_all
qed

lemma rotate_effect:
  assumes "kernel_ok k" and "rotate F k s lv tm us (im, w) = (ok, im', w')"
  shows "frame (outFD im) w w'" "own_fd w im im'"
    "writes w' = writes w" "console w' = console w" "\<not> ok \<longrightarrow> outFD im' = -1 \<and> curFileSize im' = curFileSize im" "all_succeed k w \<longrightarrow> ok"
    "ok \<longrightarrow> 0 \<le> outFD im' \<and> fds w' (outFD im') = Some (filename F s lv tm us) \<and> fd_bytes w' (outFD im') = 0 \<and> curFileSize im' = 0 \<and>
       curDay im' = tm_yday F tm"
proof -
  obtain d w1 where d: "create_directories k s (os_close (outFD im) w) = (d, w1)" by (cases "create_directories k s (os_close (outFD im) w)")
  then have w1: "fds w1 = (fds w)(outFD im := None)" "fd_bytes w1 = fd_bytes w" "writes w1 = writes w" "console w1 = console w"
    "all_succeed k w \<longrightarrow> d"
    by (auto simp: create_directories_def os_close_def all_succeed_def split: if_splits)
  have e: "(if \<not> d then (False, im\<lparr>outFD := -1\<rparr>, w1) else open_new F k s lv tm us (im\<lparr>outFD := -1\<rparr>, w1)) = (ok, im', w')"
    using assms(2) d by (simp add: rotate_def Let_def)
  consider "\<not> d" "ok = False" "im' = im\<lparr>outFD := -1\<rparr>" "w' = w1" | "d" "open_new F k s lv tm us (im\<lparr>outFD := -1\<rparr>, w1) = (ok, im', w')"
    using e by (auto split: if_splits)
  note cs = this
  note op = open_new_effect [OF assms(1)]
  have s1: "all_succeed k w \<longrightarrow> all_succeed k w1" using w1(1) by (simp add: all_succeed_def)
  show "frame (outFD im) w w'"
  proof (cases rule: cs)
    case 2
    from op(1) [OF 2(2)] w1 show ?thesis by (auto simp: frame_def)
  qed (use w1 in \<open>simp add: frame_def\<close>)
  show "own_fd w im im'"
  proof (cases rule: cs)
    case 2
    from op(1) [OF 2(2)] w1 show ?thesis by (auto simp: own_fd_def split: if_splits)
  qed (simp add: own_fd_def)
  have "writes w' = writes w \<and> console w' = console w \<and> (\<not> ok \<longrightarrow> outFD im' = -1 \<and> curFileSize im' = curFileSize im) \<and> (all_succeed k w \<longrightarrow> ok) \<and>
    (ok \<longrightarrow> 0 \<le> outFD im' \<and> fds w' (outFD im') = Some (filename F s lv tm us) \<and> fd_bytes w' (outFD im') = 0 \<and> curFileSize im' = 0 \<and>
       curDay im' = tm_yday F tm)"
  proof (cases rule: cs)
    case 2
    from op(2-6) [OF 2(2)] w1 s1 show ?thesis by simp
  qed (use w1 in simp)
  then show "writes w' = writes w" "console w' = console w" "\<not> ok \<longrightarrow> outFD im' = -1 \<and> curFileSize im' = curFileSize im" "all_succeed k w \<longrightarrow> ok"
    "ok \<longrightarrow> 0 \<le> outFD im' \<and> fds w' (outFD im') = Some (filename F s lv tm us) \<and> fd_bytes w' (outFD im') = 0 \<and> curFileSize im' = 0 \<and>
       curDay im' = tm_yday F tm" by blast+
qed

lemma write_out_effect:
  assumes "impl_ok B w im" and "write_out k content (im, w) = (ok, im', w')" and "outFD im \<noteq> -1"
    and "unat (curFileSize im) < unat M" and "length content \<le> L" and "unat (M :: u64) + L \<le> B" and "B \<le> 2 ^ 64"
  shows "frame (outFD im) w w' \<and> impl_ok B w' im' \<and> (outFD im' = -1 \<or> outFD im' = outFD im) \<and> console w' = console w \<and> (\<not> ok \<longrightarrow> outFD im' = -1) \<and>
    (all_succeed k w \<longrightarrow> ok \<and> outFD im' = outFD im \<and> curDay im' = curDay im \<and> fds w' = fds w \<and>
       writes w' = writes w @ [(the (fds w (outFD im)), content)])"
proof -
  obtain name where n: "fds w (outFD im) = Some name" using assms(1,3) by (auto simp: impl_ok_def)
  let ?r = "write_ret k w (length content)" and ?c = "take (nat (write_ret k w (length content))) content"
  show ?thesis
  proof (cases "?r < 0")
    case True
    then have "ok = False \<and> im' = im\<lparr>outFD := -1\<rparr> \<and> w' = os_close (outFD im) (w\<lparr>ticks := Suc (ticks w)\<rparr>)"
      using assms(2) n by (simp add: write_out_def os_write_def Let_def)
    moreover have "\<not> all_succeed k w" using True by (auto simp: all_succeed_def)
    ultimately show ?thesis using assms(1) by (simp add: frame_def impl_ok_def os_close_def)
  next
    case False
    then have w: "ok = True" "im' = im\<lparr>curFileSize := curFileSize im + of_nat (length content)\<rparr>"
      "w' = w\<lparr>ticks := Suc (ticks w), writes := writes w @ [(name, ?c)], fd_bytes := (fd_bytes w)(outFD im := fd_bytes w (outFD im) + length ?c)\<rparr>"
      using assms(2) n by (simp_all add: write_out_def os_write_def Let_def)
    have "unat (curFileSize im + of_nat (length content)) = unat (curFileSize im) + length content"
      using assms(4-7) by (intro unat_plus_of_nat_small) simp
    then have "impl_ok B w' im'" using w assms(1,3-7) by (auto simp: impl_ok_def)
    with w n show ?thesis by (auto simp: frame_def all_succeed_def)
  qed
qed

text \<open>What one attempt of \<open>Impl::log\<close> does to its descriptor and to the others, and what it writes when all calls succeed.\<close>

definition attempt_ok ::
  "'tm time_fmt \<Rightarrow> kernel \<Rightarrow> logger \<Rightarrow> LogLevel \<Rightarrow> 'tm \<Rightarrow> u32 \<Rightarrow> string \<Rightarrow> nat \<Rightarrow> impl \<Rightarrow> os \<Rightarrow> bool \<Rightarrow> impl \<Rightarrow> os \<Rightarrow> bool" where
  "attempt_ok F k s lv tm us content B im w ok im' w' \<longleftrightarrow>
     frame (outFD im) w w' \<and> own_fd w im im' \<and> impl_ok B w' im' \<and> console w' = console w \<and> (\<not> ok \<longrightarrow> outFD im' = -1) \<and>
     (all_succeed k w \<longrightarrow> ok \<and> outFD im' \<noteq> -1 \<and> curDay im' = tm_yday F tm \<and>
       (\<exists>name. name = (if needs_file F s tm im then filename F s lv tm us else the (fds w (outFD im))) \<and>
          fds w' (outFD im') = Some name \<and> writes w' = writes w @ [(name, content)]))"

lemma log_effect:
  assumes "kernel_ok k" and "impl_ok B w im" and "log F k s lv tm us content (im, w) = (ok, im', w')" and "0 < unat (logFileMaxSize s)"
    and "length content \<le> L" and "unat (logFileMaxSize s) + L \<le> B" and "B \<le> 2 ^ 64"
  shows "attempt_ok F k s lv tm us content B im w ok im' w'"
proof (cases "needs_file F s tm im")
  case False
  have wo: "write_out k content (im, w) = (ok, im', w')" using assms(3) False by (simp add: log_def)
  have im: "outFD im \<noteq> -1" "unat (curFileSize im) < unat (logFileMaxSize s)" "curDay im = tm_yday F tm"
    using False by (auto simp: needs_file_def word_le_nat_alt)
  obtain name where "fds w (outFD im) = Some name" using assms(2) im(1) by (auto simp: impl_ok_def)
  with write_out_effect [OF assms(2) wo im(1,2) assms(5-7)] im False show ?thesis by (auto simp: attempt_ok_def own_fd_def)
next
  case True
  obtain ok1 im1 w1 where r: "rotate F k s lv tm us (im, w) = (ok1, im1, w1)" by (metis prod_cases3)
  note e = rotate_effect [OF assms(1) r]
  show ?thesis
  proof (cases ok1)
    case False
    then have "ok = False" "im' = im1" "w' = w1" using assms(3) True r by (simp_all add: log_def)
    with e False assms(2) show ?thesis by (simp add: attempt_ok_def impl_ok_def)
  next
    case ok1: True
    then have wo: "write_out k content (im1, w1) = (ok, im', w')" using assms(3) True r by (simp add: log_def)
    have im1: "impl_ok B w1 im1" "outFD im1 \<noteq> -1" "unat (curFileSize im1) < unat (logFileMaxSize s)"
      using e(7) ok1 assms(4,6) by (auto simp: impl_ok_def)
    note o = write_out_effect [OF im1(1) wo im1(2,3) assms(5-7)]
    have "frame (outFD im) w w'" using e(1,2) o im1(2) unfolding frame_def own_fd_def by metis
    moreover have "own_fd w im im'" using e(2) o by (auto simp: own_fd_def)
    ultimately show ?thesis using o e(3,4,7) ok1 True im1(2) all_succeed_frame [OF e(1), of k] by (simp add: attempt_ok_def)
  qed
qed

lemma Impl_Log_effect:
  assumes "kernel_ok k" and "impl_ok B w im" and "Impl_Log F k s lv tm us content (im, w) = (im', w')" and "0 < unat (logFileMaxSize s)"
    and "length content \<le> L" and "unat (logFileMaxSize s) + L \<le> B" and "B \<le> 2 ^ 64"
  shows "\<exists>ok. attempt_ok F k s lv tm us content B im w ok im' w'"
proof -
  obtain ok1 im1 w1 where 1: "log F k s lv tm us content (im, w) = (ok1, im1, w1)" by (metis prod_cases3)
  note e1 = log_effect [OF assms(1,2) 1 assms(4-7)]
  show ?thesis
  proof (cases ok1)
    case True
    then have "im' = im1" "w' = w1" using assms(3) 1 by (simp_all add: Impl_Log_def)
    with e1 show ?thesis by blast
  next
    case False
    obtain ok2 where 2: "log F k s lv tm us content (im1, w1) = (ok2, im', w')"
      using assms(3) 1 False by (cases "log F k s lv tm us content (im1, w1)") (auto simp: Impl_Log_def)
    have f: "outFD im1 = -1" "impl_ok B w1 im1" "frame (outFD im) w w1" "own_fd w im im1" "console w1 = console w" "\<not> all_succeed k w"
      using e1 False by (auto simp: attempt_ok_def)
    have e2: "frame (-1) w1 w'" "own_fd w1 im1 im'" "impl_ok B w' im'" "console w' = console w1" "\<not> ok2 \<longrightarrow> outFD im' = -1"
      using log_effect [OF assms(1) f(2) 2 assms(4-7)] f(1) by (auto simp: attempt_ok_def)
    have "frame (outFD im) w w'" using frame_trans f(3) e2(1) by blast
    moreover have "own_fd w im im'" using e2(2) f(1,3) unfolding own_fd_def frame_def by metis
    ultimately show ?thesis using e2 f by (auto simp: attempt_ok_def)
  qed
qed

section \<open>All files of a logger\<close>

definition log_inv :: "nat \<Rightarrow> logger \<Rightarrow> os \<Rightarrow> bool" where
  "log_inv B s w \<longleftrightarrow> (\<forall>lv. impl_ok B w (loggers s lv)) \<and>
     (\<forall>lv lv'. lv \<noteq> lv' \<longrightarrow> outFD (loggers s lv) \<noteq> -1 \<longrightarrow> outFD (loggers s lv) \<noteq> outFD (loggers s lv'))"

text \<open>The file in which a line of a level ends up.\<close>

definition name_after :: "'tm time_fmt \<Rightarrow> logger \<Rightarrow> 'tm \<Rightarrow> u32 \<Rightarrow> os \<Rightarrow> LogLevel \<Rightarrow> string" where
  "name_after F s tm us w lv =
     (if needs_file F s tm (loggers s lv) then filename F s lv tm us else the (fds w (outFD (loggers s lv))))"

text \<open>The parts of a logger that writing a line leaves alone.\<close>

definition same_cfg :: "logger \<Rightarrow> logger \<Rightarrow> bool" where
  "same_cfg s s' \<longleftrightarrow> (\<exists>f. s' = s\<lparr>loggers := f\<rparr>)"

lemma same_cfg_fields:
  assumes "same_cfg s s'"
  shows "logFileMaxSize s' = logFileMaxSize s" "logDest s' = logDest s" "controlFlags s' = controlFlags s" "logDir s' = logDir s"
    "multiThreaded s' = multiThreaded s" "buffer_of t s' = buffer_of t s" "filename F s' lv tm us = filename F s lv tm us"
    "needs_file F s' tm im = needs_file F s tm im" "logLevel s' = logLevel s"
  using assms by (auto simp: same_cfg_def buffer_of_def filename_def needs_file_def)

lemma log_to_effect:
  assumes "kernel_ok k" and "log_inv B s w" and "log_to F k tm us content lv (s, w) = (s', w')" and "0 < unat (logFileMaxSize s)"
    and "length content \<le> L" and "unat (logFileMaxSize s) + L \<le> B" and "B \<le> 2 ^ 64"
  shows "log_inv B s' w' \<and> same_cfg s s' \<and> console w' = console w \<and>
    (\<forall>lv'. lv' \<noteq> lv \<longrightarrow> loggers s' lv' = loggers s lv' \<and>
       (outFD (loggers s lv') \<noteq> -1 \<longrightarrow> fds w' (outFD (loggers s lv')) = fds w (outFD (loggers s lv')))) \<and>
    (all_succeed k w \<longrightarrow> all_succeed k w' \<and> writes w' = writes w @ [(name_after F s tm us w lv, content)])"
proof -
  obtain im' where i: "Impl_Log F k s lv tm us content (loggers s lv, w) = (im', w')" and s': "s' = s\<lparr>loggers := (loggers s)(lv := im')\<rparr>"
    using assms(3) by (auto simp: log_to_def split: prod.splits)
  have "impl_ok B w (loggers s lv)" using assms(2) by (simp add: log_inv_def)
  from Impl_Log_effect [OF assms(1) this i assms(4-7)] obtain ok where
    e: "attempt_ok F k s lv tm us content B (loggers s lv) w ok im' w'" by blast
  have other: "fds w' (outFD (loggers s lv')) = fds w (outFD (loggers s lv'))"
      "fd_bytes w' (outFD (loggers s lv')) = fd_bytes w (outFD (loggers s lv'))" "fds w (outFD (loggers s lv')) \<noteq> None"
    if "lv' \<noteq> lv" "outFD (loggers s lv') \<noteq> -1" for lv'
  proof -
    have "fds w (outFD (loggers s lv')) \<noteq> None" "outFD (loggers s lv') \<noteq> outFD (loggers s lv)"
      using assms(2) that unfolding log_inv_def impl_ok_def by blast+
    with e that(2) show "fds w' (outFD (loggers s lv')) = fds w (outFD (loggers s lv'))"
      "fd_bytes w' (outFD (loggers s lv')) = fd_bytes w (outFD (loggers s lv'))" "fds w (outFD (loggers s lv')) \<noteq> None"
      by (simp_all add: attempt_ok_def frame_def)
  qed
  have "impl_ok B w' (loggers s' lv')" for lv'
  proof (cases "lv' = lv")
    case False
    have "impl_ok B w (loggers s lv')" using assms(2) by (simp add: log_inv_def)
    with other [OF False] False show ?thesis by (auto simp: s' impl_ok_def)
  qed (use e in \<open>simp add: s' attempt_ok_def\<close>)
  moreover have "outFD im' \<noteq> outFD (loggers s lv')" if "lv' \<noteq> lv" "outFD (loggers s lv') \<noteq> -1" for lv'
    using e other(3) [OF that] that assms(2) unfolding attempt_ok_def own_fd_def log_inv_def by metis
  then have "outFD (loggers s' a) \<noteq> outFD (loggers s' b)" if "a \<noteq> b" "outFD (loggers s' a) \<noteq> -1" for a b
    using that assms(2) unfolding s' log_inv_def by (cases "a = lv"; cases "b = lv") (auto, metis+)
  ultimately have "log_inv B s' w'" by (auto simp: log_inv_def)
  moreover have "all_succeed k w \<longrightarrow> all_succeed k w' \<and> writes w' = writes w @ [(name_after F s tm us w lv, content)]"
    using e all_succeed_frame by (auto simp: attempt_ok_def name_after_def)
  ultimately show ?thesis using e other by (auto simp: s' same_cfg_def attempt_ok_def)
qed

lemma log_all_effect:
  assumes "kernel_ok k" and "length content \<le> L" and "B \<le> 2 ^ 64"
  shows "log_inv B s w \<Longrightarrow> fold (log_to F k tm us content) lvs (s, w) = (s', w') \<Longrightarrow> 0 < unat (logFileMaxSize s) \<Longrightarrow>
    unat (logFileMaxSize s) + L \<le> B \<Longrightarrow> distinct lvs \<Longrightarrow>
    log_inv B s' w' \<and> same_cfg s s' \<and> console w' = console w \<and>
    (all_succeed k w \<longrightarrow> writes w' = writes w @ map (\<lambda>lv. (name_after F s tm us w lv, content)) lvs)"
proof (induction lvs arbitrary: s w)
  case Nil
  then show ?case by (auto simp: same_cfg_def intro!: exI [of _ "loggers s"])
next
  case (Cons lv lvs)
  obtain s1 w1 where 1: "log_to F k tm us content lv (s, w) = (s1, w1)" by (cases "log_to F k tm us content lv (s, w)")
  note e = log_to_effect [OF assms(1) Cons.prems(1) 1 Cons.prems(3) assms(2) Cons.prems(4) assms(3)]
  have c: "logFileMaxSize s1 = logFileMaxSize s" using e same_cfg_fields(1) by blast
  have IH: "log_inv B s' w' \<and> same_cfg s1 s' \<and> console w' = console w1 \<and>
    (all_succeed k w1 \<longrightarrow> writes w' = writes w1 @ map (\<lambda>lv. (name_after F s1 tm us w1 lv, content)) lvs)"
    using Cons.IH [of s1 w1] e Cons.prems c 1 by simp
  have "name_after F s1 tm us w1 lv' = name_after F s tm us w lv'" if "lv' \<in> set lvs" for lv'
  proof -
    have "lv' \<noteq> lv" using that Cons.prems(5) by auto
    with e have "loggers s1 lv' = loggers s lv'"
      "outFD (loggers s lv') \<noteq> -1 \<longrightarrow> fds w1 (outFD (loggers s lv')) = fds w (outFD (loggers s lv'))" by blast+
    moreover have "same_cfg s s1" using e by blast
    ultimately show ?thesis using same_cfg_fields(1) [of s s1] by (auto simp: name_after_def needs_file_def same_cfg_fields(7))
  qed
  with IH e show ?case by (auto simp: same_cfg_def)
qed

lemma distinct_levels_down [simp]: "distinct (levels_down level lowest)"
  by (simp add: levels_down_def)

lemma set_levels_down [simp]: "set (levels_down level lowest) = {lowest..level}"
proof -
  have "set [LogLevelFatal, LogLevelError, LogLevelWarn, LogLevelInfo, LogLevelTrace] = UNIV" (is "set ?all = UNIV")
  proof (intro set_eqI iffI UNIV_I)
    show "lv \<in> set ?all" for lv by (cases lv) simp_all
  qed
  then show ?thesis unfolding levels_down_def set_filter by auto
qed

lemma set_buffer_simps [simp]:
  "loggers (set_buffer t b s) = loggers s" "logFileMaxSize (set_buffer t b s) = logFileMaxSize s" "logDest (set_buffer t b s) = logDest s"
  "controlFlags (set_buffer t b s) = controlFlags s" "logLevel (set_buffer t b s) = logLevel s" "buffer_of t (set_buffer t b s) = b"
  "log_inv B (set_buffer t b s) w = log_inv B s w" "name_after F (set_buffer t b s) tm us w lv = name_after F s tm us w lv"
  by (auto simp: set_buffer_def buffer_of_def log_inv_def name_after_def needs_file_def filename_def)

text \<open>Which lines are dropped, the files that get a line, and the line itself.\<close>

definition filtered :: "logger \<Rightarrow> LogLevel \<Rightarrow> bool" where
  "filtered s level \<longleftrightarrow> level < logLevel s \<or> logDest s = LogDestNone"

definition targets :: "logger \<Rightarrow> LogLevel \<Rightarrow> LogLevel list" where
  "targets s level =
     (if filtered s level \<or> logDest s AND LogDestFile = 0 then []
      else if controlFlags s AND ControlFlagLogThrough \<noteq> 0 then levels_down level (logLevel s) else [level])"

definition line_of :: "'tm time_fmt \<Rightarrow> logger \<Rightarrow> nat \<Rightarrow> LogLevel \<Rightarrow> 'tm \<Rightarrow> string \<Rightarrow> string" where
  "line_of F s t level tm txt = buffer_of t s @ prepend F s level tm @ txt @ ''\<newline>''"

lemma distinct_targets [simp]: "distinct (targets s level)"
  by (simp add: targets_def)

lemma targets_buffer [simp]: "targets (set_buffer t b s) level = targets s level"
  by (simp add: targets_def filtered_def)

lemma Log_Text:
  "Log F k t level tm us (Text txt) (s, w) =
     (if filtered s level then (True, s, w)
      else let b = line_of F s t level tm txt;
               (s1, w1) = fold (log_to F k tm us b) (targets s level) (set_buffer t b s, w)
           in (True, set_buffer t [] s1, if logDest s1 AND LogDestConsole \<noteq> 0 then w1\<lparr>console := console w1 @ [b]\<rparr> else w1))"
  by (simp add: Log_def filtered_def targets_def line_of_def Let_def split: prod.splits)

lemma Log_Throws:
  "Log F k t level tm us (Throws part) (s, w) =
     (if filtered s level then (True, s, w) else (False, set_buffer t (buffer_of t s @ prepend F s level tm @ part) s, w))"
  by (simp add: Log_def filtered_def)

lemma Log_Text_effect:
  assumes "kernel_ok k" and "log_inv B s w" and "Log F k t level tm us (Text txt) (s, w) = (ok, s', w')" and "0 < unat (logFileMaxSize s)"
    and "length (line_of F s t level tm txt) \<le> L" and "unat (logFileMaxSize s) + L \<le> B" and "B \<le> 2 ^ 64"
  shows "log_inv B s' w' \<and> logFileMaxSize s' = logFileMaxSize s \<and> ok \<and> (\<not> filtered s level \<longrightarrow> buffer_of t s' = []) \<and>
    console w' = console w @ (if \<not> filtered s level \<and> logDest s AND LogDestConsole \<noteq> 0 then [line_of F s t level tm txt] else []) \<and>
    (all_succeed k w \<longrightarrow>
       writes w' = writes w @ map (\<lambda>lv. (name_after F s tm us w lv, line_of F s t level tm txt)) (targets s level))"
proof (cases "filtered s level")
  case True
  with assms show ?thesis by (simp add: Log_Text targets_def)
next
  case False
  let ?b = "line_of F s t level tm txt"
  obtain s1 w1 where f: "fold (log_to F k tm us ?b) (targets s level) (set_buffer t ?b s, w) = (s1, w1)" by fastforce
  note e = log_all_effect [OF assms(1,5,7) _ f]
  have e': "log_inv B s1 w1 \<and> same_cfg (set_buffer t ?b s) s1 \<and> console w1 = console w \<and>
    (all_succeed k w \<longrightarrow> writes w1 = writes w @ map (\<lambda>lv. (name_after F s tm us w lv, ?b)) (targets s level))"
    using e assms(2,4,6) by simp
  have c: "logDest s1 = logDest s" "logFileMaxSize s1 = logFileMaxSize s" using e' same_cfg_fields(1,2) by fastforce+
  have "log_inv B s (w\<lparr>console := x\<rparr>) = log_inv B s w" for s w x by (simp add: log_inv_def impl_ok_def)
  with f e' c assms(3) False show ?thesis by (auto simp: Log_Text)
qed

section \<open>All runs of a logger\<close>

text \<open>
  The states of a logger with lines of at most \<open>L\<close> bytes. Other parts of the process may do anything to the system
  except to the descriptors of the logger.
\<close>

inductive log_reach :: "'tm time_fmt \<Rightarrow> kernel \<Rightarrow> logger_cfg \<Rightarrow> nat \<Rightarrow> logger \<Rightarrow> os \<Rightarrow> bool" for F k cfg L where
  start: "log_reach F k cfg L (new_Logger cfg bufs) w"
| level: "log_reach F k cfg L s w \<Longrightarrow> log_reach F k cfg L (SetLogLevel lv s) w"
| dest: "log_reach F k cfg L s w \<Longrightarrow> log_reach F k cfg L (SetLogDest d s) w"
| line: "log_reach F k cfg L s w \<Longrightarrow> length (line_of F s t lv tm txt) \<le> L \<Longrightarrow> Log F k t lv tm us (Text txt) (s, w) = (ok, s', w') \<Longrightarrow>
    log_reach F k cfg L s' w'"
| throw: "log_reach F k cfg L s w \<Longrightarrow> Log F k t lv tm us (Throws part) (s, w) = (ok, s', w') \<Longrightarrow> log_reach F k cfg L s' w'"
| other: "log_reach F k cfg L s w \<Longrightarrow>
    \<forall>lv. fds w' (outFD (loggers s lv)) = fds w (outFD (loggers s lv)) \<and> fd_bytes w' (outFD (loggers s lv)) = fd_bytes w (outFD (loggers s lv)) \<Longrightarrow>
    log_reach F k cfg L s w'"

text \<open>The size limit in bytes.\<close>

definition limit_of :: "u32 \<Rightarrow> nat" where
  "limit_of mb = (if mb = 0 then 2 ^ 64 - 2 ^ 24 else unat mb * 2 ^ 20)"

lemma limit_new_Logger: "unat (logFileMaxSize (new_Logger (Cfg dir pre mb mt lv d fl) bufs)) = limit_of mb"
proof (cases "mb = 0")
  case True
  then show ?thesis by (simp add: new_Logger_def Cfg_def limit_of_def)
next
  case False
  have "unat mb < 2 ^ 32" using unsigned_less [of mb] by simp
  then have "unat ((ucast mb :: u64) * 1048576) = unat mb * 1048576"
    by (simp add: unat_word_ariths unsigned_ucast_eq take_bit_eq_mod)
  moreover have "(ucast mb :: u64) \<noteq> 0" using False \<open>unat mb < 2 ^ 32\<close> by (simp add: unat_eq_0 [symmetric] unsigned_ucast_eq take_bit_eq_mod)
  ultimately show ?thesis using False by (simp add: new_Logger_def Cfg_def limit_of_def mult.assoc)
qed

lemma limit_bounds: "0 < limit_of mb" "L \<le> 2 ^ 24 \<Longrightarrow> limit_of mb + L \<le> 2 ^ 64"
proof -
  have "unat mb < 2 ^ 32" using unsigned_less [of mb] by simp
  then show "L \<le> 2 ^ 24 \<Longrightarrow> limit_of mb + L \<le> 2 ^ 64" by (auto simp: limit_of_def)
  show "0 < limit_of mb" by (auto simp: limit_of_def unat_gt_0)
qed

lemma log_inv_reach:
  assumes "kernel_ok k" and "L \<le> 2 ^ 24"
  shows "log_reach F k (Cfg dir pre mb mt lv0 d0 fl) L s w \<Longrightarrow> log_inv (limit_of mb + L) s w \<and> unat (logFileMaxSize s) = limit_of mb"
proof (induction rule: log_reach.induct)
  case (start bufs w)
  show ?case using limit_new_Logger limit_bounds(1) [of mb]
    by (simp add: log_inv_def impl_ok_def) (simp add: new_Logger_def new_impl_def)
next
  case (line s w t lv tm m us ok s' w')
  have u: "unat (logFileMaxSize s) = limit_of mb" using line.IH by simp
  show ?case
    using Log_Text_effect [OF assms(1) _ line.hyps(3) _ line.hyps(2), of "limit_of mb + L"] line.IH u limit_bounds(1) [of mb] limit_bounds(2) [OF assms(2), of mb] by simp
next
  case (throw s w t lv tm us part ok s' w')
  then show ?case by (auto simp: Log_Throws split: if_splits)
next
  case (other s w w')
  then show ?case by (simp add: log_inv_def impl_ok_def)
qed (auto simp: SetLogLevel_def SetLogDest_def log_inv_def)

text \<open>
  C22: (bounds) In every state of a logger whose lines have at most 16 MB, whichever system calls fail, the descriptor of a level
  that has a file is open, no other level has it, and fewer bytes than the limit of the configuration plus one line have gone through it.
  The limit is \<open>fileMaxSizeInMB\<close> megabytes without overflow (2^64 - 2^24 bytes for 0), and \<open>curFileSize_\<close> does not wrap: it is at least the bytes written.
\<close>

theorem log_files_bounded:
  assumes "kernel_ok k" and "L \<le> 2 ^ 24" and "log_reach F k (Cfg dir pre mb mt lv0 d0 fl) L s w" and "outFD (loggers s lv) \<noteq> -1"
  shows "fds w (outFD (loggers s lv)) \<noteq> None \<and> (lv' \<noteq> lv \<longrightarrow> outFD (loggers s lv') \<noteq> outFD (loggers s lv)) \<and>
    fd_bytes w (outFD (loggers s lv)) \<le> unat (curFileSize (loggers s lv)) \<and>
    unat (curFileSize (loggers s lv)) < limit_of mb + L \<and> unat (logFileMaxSize s) = limit_of mb"
  using log_inv_reach [OF assms(1-3)] assms(4) by (auto simp: log_inv_def impl_ok_def) metis

text \<open>
  C21: (functional) \<open>Log\<close>, in every state of a logger: a line that formatting completes is dropped below the level of the logger or without a destination.
  Otherwise, when the system calls succeed, it is written once, and nothing else is, to the file of its own level
  or, with \<open>ControlFlagLogThrough\<close>, of every level from its own down to the level of the logger, each in its current file or in a new one
  when that is full, of another day, or missing; the console gets it once when it is a destination. The buffer of the thread is empty afterwards.
\<close>

theorem Log_delivers:
  assumes "kernel_ok k" and "all_succeed k w" and "L \<le> 2 ^ 24" and "log_reach F k (Cfg dir pre mb mt lv0 d0 fl) L s w"
    and "length (line_of F s t level tm txt) \<le> L" and "Log F k t level tm us (Text txt) (s, w) = (ok, s', w')"
  shows "ok \<and> (\<not> filtered s level \<longrightarrow> buffer_of t s' = []) \<and>
    writes w' = writes w @ map (\<lambda>lv. (name_after F s tm us w lv, line_of F s t level tm txt)) (targets s level) \<and>
    console w' = console w @ (if \<not> filtered s level \<and> logDest s AND LogDestConsole \<noteq> 0 then [line_of F s t level tm txt] else []) \<and>
    set (targets s level) =
      (if filtered s level \<or> logDest s AND LogDestFile = 0 then {}
       else if controlFlags s AND ControlFlagLogThrough \<noteq> 0 then {logLevel s..level} else {level})"
proof -
  note i = log_inv_reach [OF assms(1,3,4)]
  then have u: "0 < unat (logFileMaxSize s)" "unat (logFileMaxSize s) + L \<le> limit_of mb + L" using limit_bounds(1) [of mb] by simp_all
  note Log_Text_effect [OF assms(1) i [THEN conjunct1] assms(6) u(1) assms(5) u(2) limit_bounds(2) [OF assms(3)]]
  moreover have "set (targets s level) =
      (if filtered s level \<or> logDest s AND LogDestFile = 0 then {}
       else if controlFlags s AND ControlFlagLogThrough \<noteq> 0 then {logLevel s..level} else {level})"
    by (simp add: targets_def)
  ultimately show ?thesis using assms(2) by blast
qed

text \<open>
  A format that throws leaves its text in the buffer of the thread: the next line of that thread starts with it.
\<close>

lemma stale_text_after_throw:
  assumes "Log F k t level tm us (Throws part) (s, w) = (ok, s', w')" and "\<not> filtered s level"
  shows "\<not> ok \<and> w' = w \<and> line_of F s' t level tm txt = buffer_of t s @ prepend F s level tm @ part @ prepend F s level tm @ txt @ ''\<newline>''"
  using assms by (auto simp: Log_Throws line_of_def prepend_def)

section \<open>Witnesses\<close>

text \<open>A system in which the lowest free descriptor is handed out and nothing fails, and times that are days of the year.\<close>

definition free_kernel :: kernel where
  "free_kernel = \<lparr>mkdir_ok = (\<lambda>w. True), open_ret = (\<lambda>w. if \<exists>n. fds w (int n) = None then int (LEAST n. fds w (int n) = None) else -1),
     write_ret = (\<lambda>w n. int n)\<rparr>"

lemma free_kernel_ok: "kernel_ok free_kernel"
  by (auto simp: kernel_ok_def free_kernel_def) (metis (mono_tags, lifting) LeastI)

lemma free_kernel_succeeds: "finite (dom (fds w)) \<Longrightarrow> all_succeed free_kernel w"
proof -
  have "\<exists>n. fds w (int n) = None" if "finite (dom (fds w))" for w :: os
  proof (rule ccontr)
    assume "\<not> ?thesis"
    then have "range int \<subseteq> dom (fds w)" by auto
    with that have "finite (range int)" by (rule finite_subset [rotated])
    then show False using finite_imageD [of int UNIV] by simp
  qed
  moreover assume "finite (dom (fds w))"
  ultimately show ?thesis by (auto simp: all_succeed_def free_kernel_def)
qed

definition day_fmt :: "int time_fmt" where
  "day_fmt = \<lparr>tm_yday = (\<lambda>d. d), hms = (\<lambda>d. ''12:00:00''), date_hms = (\<lambda>d. ''20240101 12:00:00''),
     stamp = (\<lambda>d. ''20240101120000''), micros = (\<lambda>u. ''000000'')\<rparr>"

definition quiet_os :: os where
  "quiet_os = \<lparr>fds = (\<lambda>fd. None), fd_bytes = (\<lambda>fd. 0), writes = [], links = (\<lambda>n. None), console = [], ticks = 0\<rparr>"

definition app_cfg :: logger_cfg where
  "app_cfg = Cfg ''d'' ''a'' 1 True LogLevelInfo LogDestBoth ControlFlagLogThrough"

lemmas log_eval = app_cfg_def Cfg_def new_Logger_def day_fmt_def quiet_os_def line_of_def buffer_of_def prepend_def targets_def filtered_def
  name_after_def needs_file_def filename_def new_impl_def slash_def LogDestBoth_def LogDestFile_def LogDestConsole_def LogDestNone_def
  ControlFlagLogThrough_def ControlFlagNoPrepends_def ControlFlagLogDate_def levels_down_def less_eq_LogLevel_def less_LogLevel_def

theorem Log_delivers_witness:
  "writes (snd (snd (Log day_fmt free_kernel 0 LogLevelWarn 0 0 (Text ''hi'') (new_Logger app_cfg (\<lambda>t. []), quiet_os)))) =
     [(''d/a.WARN.20240101120000000000.log'', ''W12:00:00 hi\<newline>''), (''d/a.INFO.20240101120000000000.log'', ''W12:00:00 hi\<newline>'')]"
proof -
  obtain ok s' w' where l: "Log day_fmt free_kernel 0 LogLevelWarn 0 0 (Text ''hi'') (new_Logger app_cfg (\<lambda>t. []), quiet_os) = (ok, s', w')"
    by (metis prod_cases3)
  have r: "log_reach day_fmt free_kernel (Cfg ''d'' ''a'' 1 True LogLevelInfo LogDestBoth ControlFlagLogThrough) 100 (new_Logger app_cfg (\<lambda>t. [])) quiet_os"
    unfolding app_cfg_def by (rule log_reach.start)
  have "all_succeed free_kernel quiet_os" by (rule free_kernel_succeeds) (simp add: quiet_os_def)
  from Log_delivers [OF free_kernel_ok this _ r _ l] l show ?thesis by (simp add: log_eval)
qed

text \<open>A system in which the number of calls so far is the next descriptor.\<close>

definition tick_kernel :: kernel where
  "tick_kernel = \<lparr>mkdir_ok = (\<lambda>w. True), open_ret = (\<lambda>w. if fds w (int (ticks w)) = None then int (ticks w) else -1), write_ret = (\<lambda>w n. int n)\<rparr>"

definition app_run :: "logger \<times> os" where
  "app_run = snd (Log day_fmt tick_kernel 0 LogLevelWarn 0 0 (Text ''hi'') (new_Logger app_cfg (\<lambda>t. []), quiet_os))"

lemma app_run_fd: "outFD (loggers (fst app_run) LogLevelWarn) = 1"
  by (simp add: app_run_def Log_def log_eval log_to_def Impl_Log_def log_def rotate_def open_new_def create_directories_def write_out_def
      os_open_def os_close_def os_write_def tick_kernel_def set_buffer_def ControlFlagNoSymlinks_def Let_def)

theorem log_files_bounded_witness:
  "log_reach day_fmt tick_kernel app_cfg 100 (fst app_run) (snd app_run) \<and> outFD (loggers (fst app_run) LogLevelWarn) \<noteq> -1 \<and>
     unat (curFileSize (loggers (fst app_run) LogLevelWarn)) < 1048576 + 100"
proof -
  obtain ok where l: "Log day_fmt tick_kernel 0 LogLevelWarn 0 0 (Text ''hi'') (new_Logger app_cfg (\<lambda>t. []), quiet_os) = (ok, fst app_run, snd app_run)"
    by (metis app_run_def prod.collapse)
  have "log_reach day_fmt tick_kernel app_cfg 100 (new_Logger app_cfg (\<lambda>t. [])) quiet_os" by (rule log_reach.start)
  then have r: "log_reach day_fmt tick_kernel app_cfg 100 (fst app_run) (snd app_run)" by (rule log_reach.line [OF _ _ l]) (simp add: log_eval)
  have k: "kernel_ok tick_kernel" by (simp add: kernel_ok_def tick_kernel_def)
  from log_files_bounded [OF k _ r [unfolded app_cfg_def], of LogLevelWarn] r show ?thesis
    by (simp add: limit_of_def app_run_fd)
qed

end
