(* ===== verification/Shm_Concurrent.thy ===== *)
theory Shm_Concurrent
  imports Shm_Queue
begin

text \<open>
  The shared queue with a producer and a consumer that run at the same time: \<open>Push\<close> and \<open>Pop\<close> of
  \<open>interprocess/containers/shm_circular_buf_queue.h\<close> and its \<open>.cpp\<close> as sequences of memory accesses. Every access to a location that the other side
  may write, or may be reading, is a step of its own; \<open>memcpy\<close> copies byte by byte. \<open>Tail\<close> is written by the producer only and \<open>Head\<close> by the consumer only, so that
  reading one's own position needs no step. Memory is sequentially consistent: accesses take effect in the order of the program.
\<close>

section \<open>The steps of the producer\<close>

text \<open>Where a producer is: between two calls (with the last result), in the loops (with the attempts left), or writing.\<close>

datatype prod =
    Pushed bool
  | Align_Wait bytes nat
  | Write_Pad bytes
  | Wrap bytes
  | Push_Wait bytes nat
  | Write_Len bytes
  | Copy bytes nat

definition elem_len :: "bytes \<Rightarrow> u32" where
  "elem_len data = of_nat (length data) + sizeof_ShmBlock"

definition start_push :: "bytes \<Rightarrow> ShmCQ \<Rightarrow> prod res" where
  "start_push data q =
     (let len = of_nat (length data) :: u32 in
      if \<not> (len > 0 \<and> len \<le> ElemMaxSize q - sizeof_ShmBlock) then Inl Assert_Failed
      else if ShmSize q - Tail q \<ge> elem_len data then Inr (Push_Wait data 10) else Inr (Align_Wait data 10))"

fun prod_step :: "Endian \<Rightarrow> prod \<Rightarrow> ShmCQ \<Rightarrow> (prod \<times> ShmCQ) res" where
  "prod_step h (Pushed b) q = Inr (Pushed b, q)"
| "prod_step h (Align_Wait data 0) q = Inr (Pushed False, q)"
| "prod_step h (Align_Wait data (Suc cnt)) q =
     (let head = Head q in
      if head > sizeof_ShmCQ \<and> head \<le> Tail q
      then Inr (if ShmSize q - Tail q \<ge> sizeof_ShmBlock then Write_Pad data else Wrap data, q)
      else Inr (Align_Wait data cnt, q))"
| "prod_step h (Write_Pad data) q = bind_res (set_block_len h q (Tail q) 0xFFFFFFFF) (\<lambda>q. Inr (Wrap data, q))"
| "prod_step h (Wrap data) q = Inr (Push_Wait data 10, q\<lparr>Tail := sizeof_ShmCQ\<rparr>)"
| "prod_step h (Push_Wait data 0) q = Inr (Pushed False, q)"
| "prod_step h (Push_Wait data (Suc cnt)) q =
     (let head = Head q in
      if head \<le> Tail q \<or> head \<ge> Tail q + elem_len data + ElemMaxSize q then Inr (Write_Len data, q)
      else Inr (Push_Wait data cnt, q))"
| "prod_step h (Write_Len data) q = bind_res (set_block_len h q (Tail q) (elem_len data)) (\<lambda>q. Inr (Copy data 0, q))"
| "prod_step h (Copy data i) q =
     (if i < length data
      then if unat (Tail q) + 4 + i < length (area q)
           then Inr (Copy data (Suc i), q\<lparr>area := (area q)[unat (Tail q) + 4 + i := data ! i]\<rparr>)
           else Inl Out_Of_Bounds
      else Inr (Pushed True, q\<lparr>Tail := Tail q + elem_len data\<rparr>))"

section \<open>The steps of the consumer\<close>

text \<open>
  Between two calls, with the offset and the length that the last call returned; the first test for emptiness; \<open>alignHead\<close>;
  the second test; and taking the block: the assertion, reading the length once more, moving the head, and reading the length again for the result.
\<close>

datatype cons =
    Popped "(nat \<times> u32) option"
  | Check_Empty
  | Align
  | Read_Pad
  | Reset
  | Check_Again
  | Check_Len
  | Read_Len
  | Move u32
  | Return u32

fun cons_step :: "Endian \<Rightarrow> cons \<Rightarrow> ShmCQ \<Rightarrow> (cons \<times> ShmCQ) res" where
  "cons_step h (Popped r) q = Inr (Popped r, q)"
| "cons_step h Check_Empty q = Inr (if Empty q then Popped None else Align, q)"
| "cons_step h Align q =
     Inr (if Head q < Tail q then Check_Again else if ShmSize q - Head q < sizeof_ShmBlock then Reset else Read_Pad, q)"
| "cons_step h Read_Pad q = bind_res (block_len h q (Head q)) (\<lambda>len. Inr (if len = 0xFFFFFFFF then Reset else Check_Again, q))"
| "cons_step h Reset q = Inr (Check_Again, q\<lparr>Head := sizeof_ShmCQ\<rparr>)"
| "cons_step h Check_Again q = Inr (if Empty q then Popped None else Check_Len, q)"
| "cons_step h Check_Len q =
     bind_res (block_len h q (Head q)) (\<lambda>len. if \<not> len \<le> ElemMaxSize q then Inl Assert_Failed else Inr (Read_Len, q))"
| "cons_step h Read_Len q = bind_res (block_len h q (Head q)) (\<lambda>len. Inr (Move len, q))"
| "cons_step h (Move len) q = Inr (Return (Head q), q\<lparr>Head := Head q + len\<rparr>)"
| "cons_step h (Return pos) q =
     bind_res (block_len h q pos) (\<lambda>len. Inr (Popped (Some (unat pos + 4, len - sizeof_ShmBlock)), q))"

section \<open>Both together\<close>

text \<open>
  The segment and both sides; and, to state what happens, the elements that \<open>Push\<close> published and the elements that \<open>Pop\<close> returned.
\<close>

record spsc =
  queue :: ShmCQ
  producer :: prod
  consumer :: cons
  accepted :: "bytes list"
  taken :: "bytes list"

datatype act = Call_Push bytes | Producer | Call_Pop | Consumer

text \<open>A side that is inside a call can not begin another one; a side that is between two calls has no step.\<close>

fun act_step :: "Endian \<Rightarrow> act \<Rightarrow> spsc \<Rightarrow> spsc res" where
  "act_step h (Call_Push data) s =
     (case producer s of
        Pushed b \<Rightarrow> bind_res (start_push data (queue s)) (\<lambda>p. Inr (s\<lparr>producer := p\<rparr>))
      | _ \<Rightarrow> Inr s)"
| "act_step h Producer s =
     bind_res (prod_step h (producer s) (queue s)) (\<lambda>(p, q).
       Inr (s\<lparr>queue := q, producer := p,
              accepted := (case producer s of Copy data i \<Rightarrow> if p = Pushed True then accepted s @ [data] else accepted s | _ \<Rightarrow> accepted s)\<rparr>))"
| "act_step h Call_Pop s = Inr (case consumer s of Popped r \<Rightarrow> s\<lparr>consumer := Check_Empty\<rparr> | _ \<Rightarrow> s)"
| "act_step h Consumer s =
     bind_res (cons_step h (consumer s) (queue s)) (\<lambda>(c, q).
       Inr (s\<lparr>queue := q, consumer := c,
              taken := (case (consumer s, c) of
                          (Return pos, Popped (Some (off, len))) \<Rightarrow> taken s @ [window off (unat len) (area q)]
                        | _ \<Rightarrow> taken s)\<rparr>))"

fun run :: "Endian \<Rightarrow> act list \<Rightarrow> spsc \<Rightarrow> spsc res" where
  "run h [] s = Inr s"
| "run h (a # as) s = bind_res (act_step h a s) (run h as)"

definition init_spsc :: "ShmCQ \<Rightarrow> spsc" where
  "init_spsc q = \<lparr>queue = q, producer = Pushed False, consumer = Popped None, accepted = [], taken = []\<rparr>"

section \<open>Stability of what each side relies on\<close>

text \<open>Room for an element at the tail, the element that the consumer still looks at, and the next element.\<close>

definition room :: "ShmCQ \<Rightarrow> nat \<Rightarrow> bool" where
  "room q n \<longleftrightarrow> unat (Head q) \<le> unat (Tail q) \<or> unat (Tail q) + 4 + n + unat (ElemMaxSize q) \<le> unat (Head q)"

definition held :: "Endian \<Rightarrow> ShmCQ \<Rightarrow> nat \<Rightarrow> bytes \<Rightarrow> bool" where
  "held h q pos d \<longleftrightarrow> block_at h (area q) pos d \<and> pos + 4 + length d = unat (Head q) \<and> element q d"

definition next_is :: "Endian \<Rightarrow> ShmCQ \<Rightarrow> bytes list \<Rightarrow> bool" where
  "next_is h q ds \<longleftrightarrow> ds \<noteq> [] \<and> block_at h (area q) (unat (Head q)) (hd ds) \<and> element q (hd ds)"

definition at_pad :: "Endian \<Rightarrow> ShmCQ \<Rightarrow> bytes list \<Rightarrow> bool" where
  "at_pad h q ds \<longleftrightarrow> unat (Tail q) < unat (Head q) \<and> padded h (area q) (unat (Head q)) \<and>
     chain h (unat (ElemMaxSize q)) (area q) 80 ds (unat (Tail q))"

text \<open>The producer writes at the tail only.\<close>

definition writes_at_tail :: "ShmCQ \<Rightarrow> nat \<Rightarrow> bytes \<Rightarrow> bool" where
  "writes_at_tail q n a \<longleftrightarrow> length a = length (area q) \<and>
     (\<forall>i < length (area q). i < unat (Tail q) \<or> unat (Tail q) + 4 + n \<le> i \<longrightarrow> a ! i = area q ! i)"

lemma padded_frame:
  assumes "padded h bs p" and "length a = length bs" and "\<And>i. p \<le> i \<Longrightarrow> i < length bs \<Longrightarrow> a ! i = bs ! i"
  shows "padded h a p"
proof (cases "length bs < p + 4")
  case False
  then have "window p 4 a = window p 4 bs" using assms(2,3) by (intro window_cong) auto
  then show ?thesis using assms(1,2) by (simp add: padded_def)
qed (use assms in \<open>simp add: padded_def\<close>)

lemma write_keeps:
  assumes "rep h q ds" and "writes_at_tail q n a" and "room q n"
  shows "rep h (q\<lparr>area := a\<rparr>) ds" "held h q pos d \<Longrightarrow> held h (q\<lparr>area := a\<rparr>) pos d" "next_is h q ds \<Longrightarrow> next_is h (q\<lparr>area := a\<rparr>) ds"
    "at_pad h q ds \<Longrightarrow> at_pad h (q\<lparr>area := a\<rparr>) ds"
proof -
  note b = rep_bounds [OF assms(1)] and base = rep_sizes [OF assms(1)]
  let ?q = "q\<lparr>area := a\<rparr>" and ?m = "unat (ElemMaxSize q)"
  have la: "length a = length (area q)" using assms(2) by (simp add: writes_at_tail_def)
  have low: "a ! i = area q ! i" if "i < unat (Tail q)" for i using that assms(2) b by (simp add: writes_at_tail_def)
  have high: "a ! i = area q ! i" if "unat (Tail q) < unat (Head q)" "unat (Head q) - ?m \<le> i" "i < length (area q)" for i
    using that assms(2,3) by (simp add: writes_at_tail_def room_def)
  have ok: "sizes_ok ?q" using base la by (simp add: sizes_ok_def)
  show "rep h ?q ds"
  proof (cases "unat (Head q) \<le> unat (Tail q)")
    case True
    have "chain h ?m a (unat (Head q)) ds (unat (Tail q))" using rep_straightD [OF assms(1) True] la by (rule chain_frame) (rule low)
    with True ok base show ?thesis by (intro rep_straightI) auto
  next
    case False
    then have lt: "unat (Tail q) < unat (Head q)" by simp
    with assms(1) obtain d1 d2 p where r: "ds = d1 @ d2" "chain h ?m (area q) (unat (Head q)) d1 p" "padded h (area q) p"
      "chain h ?m (area q) 80 d2 (unat (Tail q))" by (rule rep_wrappedE)
    note cb = chain_bounds [OF r(2)]
    have "chain h ?m a (unat (Head q)) d1 p" using r(2) la by (rule chain_frame) (use high lt cb in auto)
    moreover have "padded h a p" using r(3) la by (rule padded_frame) (use high lt cb in auto)
    moreover have "chain h ?m a 80 d2 (unat (Tail q))" using r(4) la by (rule chain_frame) (rule low)
    ultimately show ?thesis using ok base lt r(1) by (intro rep_wrappedI [of ?q h d1 p d2]) simp_all
  qed
  show "held h ?q pos d" if "held h q pos d"
  proof -
    have p: "block_at h (area q) pos d" "pos + 4 + length d = unat (Head q)" "element q d" using that by (auto simp: held_def)
    have "a ! i = area q ! i" if "pos \<le> i" "i < pos + 4 + length d" for i
    proof (cases "unat (Head q) \<le> unat (Tail q)")
      case True
      with that p(2) show ?thesis by (intro low) simp
    next
      case False
      with that p(2,3) b show ?thesis by (intro high) (auto simp: element_def)
    qed
    with p(1) la have "block_at h a pos d" by (rule block_at_frame)
    with p(2,3) show ?thesis by (simp add: held_def element_def)
  qed
  show "next_is h ?q ds" if n: "next_is h q ds"
  proof -
    obtain d ds' where ds: "ds = d # ds'" and p: "block_at h (area q) (unat (Head q)) d" "element q d"
      using n by (cases ds) (auto simp: next_is_def)
    have "a ! i = area q ! i" if i: "unat (Head q) \<le> i" "i < unat (Head q) + 4 + length d" for i
    proof (cases "unat (Head q) \<le> unat (Tail q)")
      case True
      have "unat (Head q) + 4 + length d \<le> unat (Tail q)"
        using rep_straightD [OF assms(1) True] ds chain_bounds by fastforce
      with i show ?thesis by (intro low) simp
    next
      case False
      with i p(1) show ?thesis by (intro high) (auto simp: block_at_def)
    qed
    with p(1) la have "block_at h a (unat (Head q)) d" by (rule block_at_frame)
    with p(2) ds show ?thesis by (simp add: next_is_def element_def)
  qed
  show "at_pad h ?q ds" if "at_pad h q ds"
  proof -
    have p: "unat (Tail q) < unat (Head q)" "padded h (area q) (unat (Head q))" "chain h ?m (area q) 80 ds (unat (Tail q))"
      using that by (auto simp: at_pad_def)
    have "padded h a (unat (Head q))" using p(2) la by (rule padded_frame) (use high p(1) in auto)
    moreover have "chain h ?m a 80 ds (unat (Tail q))" using p(3) la by (rule chain_frame) (rule low)
    ultimately show ?thesis using p(1) by (simp add: at_pad_def)
  qed
qed

text \<open>Moving the tail: publishing the element that has been written, or wrapping around after the mark.\<close>

lemma publish:
  assumes "rep h q ds" and "element q d" and "block_at h (area q) (unat (Tail q)) d" and "room q (length d)"
  defines "q' \<equiv> q\<lparr>Tail := Tail q + of_nat (length d + 4)\<rparr>"
  shows "rep h q' (ds @ [d])" "unat (Tail q') = unat (Tail q) + 4 + length d" "at_pad h q ds \<Longrightarrow> at_pad h q' (ds @ [d])"
    "Head q = Tail q \<Longrightarrow> next_is h q' [d]"
proof -
  note b = rep_bounds [OF assms(1)] and base = rep_sizes [OF assms(1)]
  let ?m = "unat (ElemMaxSize q)"
  have t: "unat (Tail q + of_nat (length d + 4)) = unat (Tail q) + 4 + length d"
    using assms(3) b by (subst unat_plus_of_nat_small) (auto simp: block_at_def)
  show t': "unat (Tail q') = unat (Tail q) + 4 + length d" using t by (simp add: q'_def del: of_nat_add)
  have ok: "sizes_ok q'" using base by (simp add: sizes_ok_def q'_def)
  have el: "d \<noteq> []" "length d + 4 \<le> ?m" using assms(2) by (auto simp: element_def)
  have snoc: "chain h ?m (area q) p (xs @ [d]) (unat (Tail q) + 4 + length d)"
    if "chain h ?m (area q) p xs (unat (Tail q))" for p xs using that el assms(3) by (rule chain_snoc)
  have q': "Head q' = Head q" "area q' = area q" "ElemMaxSize q' = ElemMaxSize q" by (simp_all add: q'_def)
  show "rep h q' (ds @ [d])"
  proof (cases "unat (Head q) \<le> unat (Tail q)")
    case True
    from snoc [OF rep_straightD [OF assms(1) True]] ok base True show ?thesis
      by (intro rep_straightI) (simp_all add: q' t')
  next
    case False
    then have "unat (Tail q) < unat (Head q)" by simp
    with assms(1) obtain d1 d2 p where r: "ds = d1 @ d2" "chain h ?m (area q) (unat (Head q)) d1 p" "padded h (area q) p"
      "chain h ?m (area q) 80 d2 (unat (Tail q))" by (rule rep_wrappedE)
    have lt: "unat (Tail q) + 4 + length d < unat (Head q)" using assms(4) False b by (auto simp: room_def)
    show ?thesis
      using ok base r snoc [OF r(4)] lt by (intro rep_wrappedI [of q' h d1 p "d2 @ [d]"]) (simp_all add: q' t')
  qed
  show "at_pad h q' (ds @ [d])" if "at_pad h q ds"
    using that snoc [of 80 ds] assms(4) b unfolding at_pad_def room_def q' t' by auto
  show "next_is h q' [d]" if "Head q = Tail q"
    using that assms(2,3) by (simp add: next_is_def q' element_def)
qed

lemma wrap:
  assumes "rep h q ds" and "80 < unat (Head q)" and "unat (Head q) \<le> unat (Tail q)" and "padded h (area q) (unat (Tail q))"
  shows "rep h (q\<lparr>Tail := sizeof_ShmCQ\<rparr>) ds"
proof -
  note b = rep_bounds [OF assms(1)] and base = rep_sizes [OF assms(1)]
  have "80 \<le> length (area q)" using b by simp
  then show ?thesis using rep_straightD [OF assms(1,3)] assms(2,4) base
    by (intro rep_wrappedI [of _ h ds "unat (Tail q)" "[]"]) (simp_all add: sizes_ok_def)
qed

text \<open>Moving the head: to the front at the mark, or behind the next element.\<close>

lemma reset_head:
  assumes "rep h q ds" and "at_pad h q ds"
  shows "rep h (q\<lparr>Head := sizeof_ShmCQ\<rparr>) ds"
  using rep_sizes [OF assms(1)] assms(2) by (intro rep_straightI) (auto simp: at_pad_def sizes_ok_def)

lemma not_padded: "block_at h (area q) p d \<Longrightarrow> element q d \<Longrightarrow> sizes_ok q \<Longrightarrow> \<not> padded h (area q) p"
proof
  assume a: "block_at h (area q) p d" "element q d" "sizes_ok q" "padded h (area q) p"
  have n: "length d + 4 < 2 ^ 32 - 1" using a(2,3) by (auto simp: element_def sizes_ok_def)
  have "obj_bytes h 4 (of_nat (length d + 4) :: u32) = obj_bytes h 4 (0xFFFFFFFF :: u32)"
    using a(1,4) by (auto simp: block_at_def padded_def)
  then have "obj_word h (obj_bytes h 4 (of_nat (length d + 4) :: u32)) = (obj_word h (obj_bytes h 4 (0xFFFFFFFF :: u32)) :: u32)" by simp
  then have "(of_nat (length d + 4) :: u32) = 0xFFFFFFFF" by (simp add: wire_simps)
  then have "unat (of_nat (length d + 4) :: u32) = unat (0xFFFFFFFF :: u32)" by simp
  also have "unat (0xFFFFFFFF :: u32) = 4294967295" by (simp add: unsigned_minus_1_eq_mask mask_eq_exp_minus_1)
  finally show False using n by (simp add: unat_of_nat_small del: of_nat_add)
qed

lemma move_head:
  assumes "rep h q (d # ds)" and "next_is h q (d # ds)"
  defines "q' \<equiv> q\<lparr>Head := Head q + of_nat (length d + 4)\<rparr>"
  shows "rep h q' ds" "unat (Head q') = unat (Head q) + 4 + length d" "held h q' (unat (Head q)) d"
    "unat (Head q) \<le> unat (Tail q) \<Longrightarrow> unat (Head q') \<le> unat (Tail q)"
proof -
  note base = rep_sizes [OF assms(1)]
  let ?m = "unat (ElemMaxSize q)"
  have n: "block_at h (area q) (unat (Head q)) d" "element q d" using assms(2) by (auto simp: next_is_def)
  show t: "unat (Head q') = unat (Head q) + 4 + length d"
    using advance_head [OF conjunct1 [OF base] n(1)] by (simp add: q'_def del: of_nat_add)
  have ok: "sizes_ok q'" using base by (simp add: sizes_ok_def q'_def)
  have q': "Tail q' = Tail q" "area q' = area q" "ElemMaxSize q' = ElemMaxSize q" by (simp_all add: q'_def)
  show "held h q' (unat (Head q)) d" using n t by (simp add: held_def q' element_def)
  show le: "unat (Head q') \<le> unat (Tail q)" if "unat (Head q) \<le> unat (Tail q)"
    using rep_straightD [OF assms(1) that] chain_bounds [of h ?m "area q" "unat (Head q) + 4 + length d" ds "unat (Tail q)"] t by simp
  show "rep h q' ds"
  proof (cases "unat (Head q) \<le> unat (Tail q)")
    case True
    from rep_straightD [OF assms(1) True] le [OF True] ok base t show ?thesis by (intro rep_straightI) (simp_all add: q' t)
  next
    case False
    then have lt: "unat (Tail q) < unat (Head q)" by simp
    with assms(1) obtain d1 d2 p where r: "d # ds = d1 @ d2" "chain h ?m (area q) (unat (Head q)) d1 p" "padded h (area q) p"
      "chain h ?m (area q) 80 d2 (unat (Tail q))" by (rule rep_wrappedE)
    have "d1 \<noteq> []" using not_padded [OF n] base r(2,3) by auto
    then obtain d1' where "d1 = d # d1'" "ds = d1' @ d2" using r(1) by (cases d1) auto
    with r ok base lt show ?thesis by (intro rep_wrappedI [of q' h d1' p d2]) (simp_all add: q' t)
  qed
qed

section \<open>The invariant\<close>

definition elem_fits :: "ShmCQ \<Rightarrow> bytes \<Rightarrow> bool" where
  "elem_fits q d \<longleftrightarrow> element q d \<and> unat (Tail q) + 4 + length d \<le> length (area q)"

text \<open>What the producer knows at each point. The consumer may move the head, but not so that this becomes wrong.\<close>

fun prod_ok :: "Endian \<Rightarrow> ShmCQ \<Rightarrow> prod \<Rightarrow> bool" where
  "prod_ok h q (Pushed b) \<longleftrightarrow> True"
| "prod_ok h q (Align_Wait d n) \<longleftrightarrow> element q d"
| "prod_ok h q (Write_Pad d) \<longleftrightarrow>
     element q d \<and> 80 < unat (Head q) \<and> unat (Head q) \<le> unat (Tail q) \<and> unat (Tail q) + 4 \<le> length (area q)"
| "prod_ok h q (Wrap d) \<longleftrightarrow>
     element q d \<and> 80 < unat (Head q) \<and> unat (Head q) \<le> unat (Tail q) \<and> padded h (area q) (unat (Tail q))"
| "prod_ok h q (Push_Wait d n) \<longleftrightarrow> elem_fits q d"
| "prod_ok h q (Write_Len d) \<longleftrightarrow> elem_fits q d \<and> room q (length d)"
| "prod_ok h q (Copy d i) \<longleftrightarrow> elem_fits q d \<and> room q (length d) \<and> i \<le> length d \<and>
     window (unat (Tail q)) 4 (area q) = obj_bytes h 4 (of_nat (length d + 4) :: u32) \<and> window (unat (Tail q) + 4) i (area q) = take i d"

text \<open>
  What the consumer knows, about the queue \<open>ds\<close>, the element \<open>pend\<close> that has left the queue but is not yet returned, and the elements returned so far.
\<close>

fun cons_ok :: "Endian \<Rightarrow> ShmCQ \<Rightarrow> bytes list \<Rightarrow> bytes list \<Rightarrow> bytes list \<Rightarrow> cons \<Rightarrow> bool" where
  "cons_ok h q ds pend tk (Popped None) \<longleftrightarrow> pend = []"
| "cons_ok h q ds pend tk (Popped (Some (off, len))) \<longleftrightarrow>
     pend = [] \<and> tk \<noteq> [] \<and> 4 \<le> off \<and> held h q (off - 4) (last tk) \<and> unat len = length (last tk)"
| "cons_ok h q ds pend tk Check_Empty \<longleftrightarrow> pend = []"
| "cons_ok h q ds pend tk Align \<longleftrightarrow> pend = [] \<and> unat (Head q) \<noteq> unat (Tail q)"
| "cons_ok h q ds pend tk Read_Pad \<longleftrightarrow> pend = [] \<and> unat (Tail q) < unat (Head q) \<and> unat (Head q) + 4 \<le> length (area q)"
| "cons_ok h q ds pend tk Reset \<longleftrightarrow> pend = [] \<and> at_pad h q ds"
| "cons_ok h q ds pend tk Check_Again \<longleftrightarrow> pend = [] \<and> (Head q = 80 \<and> Tail q = 80 \<and> ds = [] \<or> next_is h q ds)"
| "cons_ok h q ds pend tk Check_Len \<longleftrightarrow> pend = [] \<and> next_is h q ds"
| "cons_ok h q ds pend tk Read_Len \<longleftrightarrow> pend = [] \<and> next_is h q ds"
| "cons_ok h q ds pend tk (Move len) \<longleftrightarrow> pend = [] \<and> next_is h q ds \<and> len = of_nat (length (hd ds) + 4)"
| "cons_ok h q ds pend tk (Return pos) \<longleftrightarrow> (\<exists>d. pend = [d] \<and> held h q (unat pos) d)"

lemma cons_ok_write:
  assumes "rep h q ds" and "writes_at_tail q n a" and "room q n" and "cons_ok h q ds pend tk c"
  shows "cons_ok h (q\<lparr>area := a\<rparr>) ds pend tk c"
proof -
  have "length a = length (area q)" using assms(2) by (simp add: writes_at_tail_def)
  then show ?thesis using assms(4) write_keeps [OF assms(1-3)]
    by (cases "(h, q, ds, pend, tk, c)" rule: cons_ok.cases) auto
qed

lemma next_is_Tail [simp]: "next_is h (q\<lparr>Tail := t\<rparr>) ds = next_is h q ds" "held h (q\<lparr>Tail := t\<rparr>) pos d = held h q pos d"
  "element (q\<lparr>Tail := t\<rparr>) d = element q d" "element (q\<lparr>Head := t\<rparr>) d = element q d" "element (q\<lparr>area := a\<rparr>) d = element q d"
  by (simp_all add: next_is_def held_def element_def)

lemma next_is_snoc: "next_is h q ds \<Longrightarrow> next_is h q (ds @ [d])"
  by (simp add: next_is_def)

lemma next_is_hd: "next_is h q ds \<Longrightarrow> hd (ds @ [d]) = hd ds"
  by (simp add: next_is_def)

lemma cons_ok_publish:
  assumes "rep h q ds" and "element q d" and "block_at h (area q) (unat (Tail q)) d" and "room q (length d)" and "cons_ok h q ds pend tk c"
  shows "cons_ok h (q\<lparr>Tail := Tail q + of_nat (length d + 4)\<rparr>) (ds @ [d]) pend tk c"
proof -
  note p = publish [OF assms(1-4)]
  have b: "4 \<le> unat (ElemMaxSize q)" using rep_bounds [OF assms(1)] by simp
  have m: "unat (Tail q) < unat (Head q) \<Longrightarrow> unat (Tail q) + 4 + length d < unat (Head q)"
    using assms(4) b by (auto simp: room_def)
  show ?thesis using assms(5) p m
    by (cases "(h, q, ds, pend, tk, c)" rule: cons_ok.cases) (auto simp: next_is_snoc next_is_hd simp del: of_nat_add)
qed

lemma cons_ok_wrap:
  assumes "rep h q ds" and "80 < unat (Head q)" and "unat (Head q) \<le> unat (Tail q)" and "cons_ok h q ds pend tk c"
  shows "cons_ok h (q\<lparr>Tail := sizeof_ShmCQ\<rparr>) ds pend tk c"
  using assms(2-4) by (cases "(h, q, ds, pend, tk, c)" rule: cons_ok.cases) (auto simp: at_pad_def)

lemma elem_len_eq: "element q d \<Longrightarrow> sizes_ok q \<Longrightarrow> elem_len d = of_nat (length d + 4) \<and> unat (elem_len d) = length d + 4"
proof -
  assume "element q d" "sizes_ok q"
  then have "length d + 4 < 2 ^ 32" by (auto simp: element_def sizes_ok_def)
  then have "unat (of_nat (length d + 4) :: u32) = length d + 4" by (intro unat_of_nat_small) simp
  then show ?thesis by (simp add: elem_len_def)
qed

lemma room_test:
  assumes "sizes_ok q" and "elem_fits q d"
  shows "Head q \<le> Tail q \<or> Head q \<ge> Tail q + elem_len d + ElemMaxSize q \<longleftrightarrow> room q (length d)"
proof -
  have e: "unat (elem_len d) = length d + 4" using elem_len_eq assms by (auto simp: elem_fits_def)
  have b: "unat (Tail q) + 4 + length d \<le> unat (ShmSize q)" "unat (ElemMaxSize q) \<le> unat (ShmSize q)" "unat (ShmSize q) < 2000000080"
    using assms by (auto simp: sizes_ok_def elem_fits_def)
  have "unat (Tail q + elem_len d) = unat (Tail q) + (length d + 4)" using e b by (subst unat_plus_small) simp_all
  then have "unat (Tail q + elem_len d + ElemMaxSize q) = unat (Tail q) + (length d + 4) + unat (ElemMaxSize q)"
    using b by (subst unat_plus_small) simp_all
  then show ?thesis by (auto simp: room_def word_le_nat_alt)
qed

lemma write_len:
  fixes h :: Endian and v :: u32
  assumes "unat (Tail q) + 4 \<le> length (area q)"
  defines "a \<equiv> splice_at (unat (Tail q)) (obj_bytes h 4 v) (area q)"
  shows "set_block_len h q (Tail q) v = Inr (q\<lparr>area := a\<rparr>)" "writes_at_tail q n a" "window (unat (Tail q)) 4 a = obj_bytes h 4 v"
    "length a = length (area q)"
  using assms(1) by (auto simp: set_block_len_def a_def writes_at_tail_def nth_splice_at)

lemma copy_byte:
  assumes "i < length d" and "unat (Tail q) + 4 + length d \<le> length (area q)" and "window (unat (Tail q) + 4) i (area q) = take i d"
  defines "a \<equiv> (area q)[unat (Tail q) + 4 + i := d ! i]"
  shows "writes_at_tail q (length d) a" "window (unat (Tail q)) 4 a = window (unat (Tail q)) 4 (area q)"
    "window (unat (Tail q) + 4) (Suc i) a = take (Suc i) d"
proof -
  show "writes_at_tail q (length d) a" using assms(1) by (auto simp: writes_at_tail_def a_def nth_list_update)
  show "window (unat (Tail q)) 4 a = window (unat (Tail q)) 4 (area q)" by (simp add: a_def window_update_outside)
  have "window (unat (Tail q) + 4) (Suc i) a = window (unat (Tail q) + 4) i a @ window (unat (Tail q) + 4 + i) 1 a"
    using window_append_window [of "unat (Tail q) + 4" i 1 a] assms(1,2) by (simp add: a_def)
  also have "window (unat (Tail q) + 4) i a = take i d" using assms(3) by (simp add: a_def window_update_outside)
  also have "window (unat (Tail q) + 4 + i) 1 a = [d ! i]" using assms(1,2) by (simp add: a_def window_Suc)
  finally show "window (unat (Tail q) + 4) (Suc i) a = take (Suc i) d" using assms(1) by (simp add: take_Suc_conv_app_nth)
qed

text \<open>One step of the producer.\<close>

definition published :: "prod \<Rightarrow> prod \<Rightarrow> bytes list" where
  "published p p' = (case p of Copy d i \<Rightarrow> if p' = Pushed True then [d] else [] | _ \<Rightarrow> [])"

lemma prod_step_ok:
  assumes r: "rep h q ds" and p: "prod_ok h q p" and c: "cons_ok h q ds pend tk c"
  shows "\<exists>p' q'. prod_step h p q = Inr (p', q') \<and> rep h q' (ds @ published p p') \<and> prod_ok h q' p' \<and>
    cons_ok h q' (ds @ published p p') pend tk c \<and> ElemMaxSize q' = ElemMaxSize q"
proof -
  note b = rep_bounds [OF r] and base = rep_sizes [OF r]
  have s: "unat (ShmSize q - Tail q) = unat (ShmSize q) - unat (Tail q)"
    using b by (intro unat_minus_small) (simp add: word_le_nat_alt)
  show ?thesis
  proof (cases "(h, p, q)" rule: prod_step.cases)
    case (3 h' d n q')
    then show ?thesis using r p c b s
      by (auto simp: published_def Let_def word_less_nat_alt word_le_nat_alt padded_def)
  next
    case (4 h' d q')
    then have *: "unat (Tail q) + 4 \<le> length (area q)" "room q 0" using p by (auto simp: room_def)
    note w = write_len [OF *(1), where h = h and v = "0xFFFFFFFF"]
    have "padded h (splice_at (unat (Tail q)) (obj_bytes h 4 (0xFFFFFFFF :: u32)) (area q)) (unat (Tail q))"
      using w(3,4) b by (simp add: padded_def)
    with 4 p w write_keeps(1) [OF r w(2) *(2)] cons_ok_write [OF r w(2) *(2) c] show ?thesis
      by (auto simp: published_def)
  next
    case (5 h' d q')
    then have *: "80 < unat (Head q)" "unat (Head q) \<le> unat (Tail q)" "padded h (area q) (unat (Tail q))" "element q d" using p by auto
    then have "elem_fits (q\<lparr>Tail := 80\<rparr>) d" using b by (auto simp: elem_fits_def element_def)
    with 5 wrap [OF r *(1-3)] cons_ok_wrap [OF r *(1,2) c] show ?thesis by (simp add: published_def)
  next
    case (7 h' d n q')
    then show ?thesis using r p c room_test [of q d] base by (auto simp: published_def Let_def)
  next
    case (8 h' d q')
    then have *: "element q d" "unat (Tail q) + 4 \<le> length (area q)" "room q (length d)" "elem_fits q d" using p by (auto simp: elem_fits_def)
    note w = write_len [OF *(2), where h = h and v = "elem_len d"] and e = elem_len_eq [OF *(1)]
    have "prod_ok h (q\<lparr>area := splice_at (unat (Tail q)) (obj_bytes h 4 (elem_len d)) (area q)\<rparr>) (Copy d 0)"
      using * w(3,4) e base by (simp add: elem_fits_def room_def)
    with 8 w write_keeps(1) [OF r w(2) *(3)] cons_ok_write [OF r w(2) *(3) c] show ?thesis by (auto simp: published_def)
  next
    case (9 h' d i q')
    then have *: "element q d" "unat (Tail q) + 4 + length d \<le> length (area q)" "room q (length d)" "i \<le> length d"
      "window (unat (Tail q)) 4 (area q) = obj_bytes h 4 (of_nat (length d + 4) :: u32)" "window (unat (Tail q) + 4) i (area q) = take i d"
      using p by (auto simp: elem_fits_def)
    show ?thesis
    proof (cases "i < length d")
      case True
      note w = copy_byte [OF True *(2,6)]
      show ?thesis using 9 True * w write_keeps(1) [OF r w(1) *(3)] cons_ok_write [OF r w(1) *(3) c]
        by (auto simp: published_def elem_fits_def room_def simp del: of_nat_add)
    next
      case False
      then have i: "i = length d" using *(4) by simp
      have bl: "block_at h (area q) (unat (Tail q)) d" using * i by (simp add: block_at_def)
      have "elem_len d = of_nat (length d + 4)" using elem_len_eq *(1) base by blast
      with 9 False publish(1) [OF r *(1) bl *(3)] cons_ok_publish [OF r *(1) bl *(3) c] show ?thesis
        by (simp add: published_def del: of_nat_add)
    qed
  qed (use r c in \<open>auto simp: published_def\<close>)
qed

lemma prod_ok_head:
  assumes "prod_ok h q p" and "unat (Head q) \<le> unat (Tail q) \<Longrightarrow> unat (Head q) \<le> unat t \<and> unat t \<le> unat (Tail q)"
    and "unat (Tail q) < unat (Head q) \<Longrightarrow> unat (Head q) \<le> unat t \<or> unat t \<le> unat (Tail q)"
  shows "prod_ok h (q\<lparr>Head := t\<rparr>) p"
  using assms by (cases p) (auto simp: elem_fits_def room_def not_le)

lemma wrapped_next: "rep h q ds \<Longrightarrow> unat (Tail q) < unat (Head q) \<Longrightarrow> at_pad h q ds \<or> next_is h q ds"
  by (erule (1) rep_wrappedE) (auto simp: at_pad_def next_is_def element_def neq_Nil_conv elim: chain.elims)

lemma straight_next:
  assumes "rep h q ds" and "unat (Head q) < unat (Tail q)"
  shows "next_is h q ds"
proof -
  have "chain h (unat (ElemMaxSize q)) (area q) (unat (Head q)) ds (unat (Tail q))" using assms by (intro rep_straightD) auto
  with assms(2) show ?thesis by (cases ds) (auto simp: next_is_def element_def)
qed

lemma next_len:
  assumes "next_is h q ds" and "sizes_ok q"
  shows "block_len h q (Head q) = Inr (of_nat (length (hd ds) + 4))" "of_nat (length (hd ds) + 4) \<noteq> (0xFFFFFFFF :: u32)"
    "of_nat (length (hd ds) + 4) \<le> ElemMaxSize q" "unat (Head q) + 4 \<le> unat (ShmSize q)"
proof -
  have n: "block_at h (area q) (unat (Head q)) (hd ds)" "element q (hd ds)" using assms(1) by (auto simp: next_is_def)
  have e: "unat (of_nat (length (hd ds) + 4) :: u32) = length (hd ds) + 4" using elem_len_eq [OF n(2) assms(2)] by metis
  show l: "block_len h q (Head q) = Inr (of_nat (length (hd ds) + 4))"
    using n assms(2) by (intro block_len_eq) (auto simp: element_def sizes_ok_def)
  show "of_nat (length (hd ds) + 4) \<le> ElemMaxSize q" using e n(2) by (simp add: word_le_nat_alt element_def)
  show "unat (Head q) + 4 \<le> unat (ShmSize q)" using n(1) assms(2) by (auto simp: block_at_def sizes_ok_def)
  show "of_nat (length (hd ds) + 4) \<noteq> (0xFFFFFFFF :: u32)"
  proof
    assume "of_nat (length (hd ds) + 4) = (0xFFFFFFFF :: u32)"
    then have "padded h (area q) (unat (Head q))" using n(1) by (simp add: padded_def block_at_def del: of_nat_add)
    with not_padded [OF n assms(2)] show False by simp
  qed
qed

lemma pad_len:
  assumes "at_pad h q ds" and "unat (Head q) + 4 \<le> length (area q)"
  shows "block_len h q (Head q) = Inr 0xFFFFFFFF"
proof -
  have "obj_word h (obj_bytes h 4 (0xFFFFFFFF :: u32)) = (0xFFFFFFFF :: u32)" by (simp add: wire_simps)
  with assms show ?thesis by (auto simp: at_pad_def padded_def block_len_def)
qed

text \<open>One step of the consumer.\<close>

definition returned :: "cons \<Rightarrow> cons \<Rightarrow> ShmCQ \<Rightarrow> bytes list" where
  "returned c c' q = (case (c, c') of (Return pos, Popped (Some (off, len))) \<Rightarrow> [window off (unat len) (area q)] | _ \<Rightarrow> [])"

lemma cons_step_ok:
  assumes r: "rep h q ds" and p: "prod_ok h q p" and c: "cons_ok h q ds pend tk c"
  shows "\<exists>c' q' ds' pend'. cons_step h c q = Inr (c', q') \<and> rep h q' ds' \<and> prod_ok h q' p \<and>
    cons_ok h q' ds' pend' (tk @ returned c c' q') c' \<and> ElemMaxSize q' = ElemMaxSize q \<and> pend @ ds = returned c c' q' @ pend' @ ds'"
proof -
  note b = rep_bounds [OF r] and base = rep_sizes [OF r]
  have s: "unat (ShmSize q - Head q) = unat (ShmSize q) - unat (Head q)"
    using b by (intro unat_minus_small) (simp add: word_le_nat_alt)
  have same: ?thesis if "cons_step h c q = Inr (c', q)" "cons_ok h q ds pend tk c'" "returned c c' q = []" for c'
    using that r p by (intro exI [of _ c'] exI [of _ q] exI [of _ ds] exI [of _ pend]) simp
  have emp: "Empty q \<longleftrightarrow> unat (Head q) = unat (Tail q)" by (auto simp: Empty_def intro: unsigned_word_eqI)
  show ?thesis
  proof (cases c)
    case (Popped x)
    then show ?thesis using c by (intro same [of c]) (auto simp: returned_def split: option.splits)
  next
    case Check_Empty
    then show ?thesis using c emp by (intro same [of "if Empty q then Popped None else Align"]) (auto simp: returned_def)
  next
    case Align
    consider "unat (Head q) < unat (Tail q)" | "unat (Tail q) < unat (Head q)" using c Align by fastforce
    then show ?thesis
    proof cases
      case 1
      with Align c straight_next [OF r 1] show ?thesis by (intro same [of Check_Again]) (simp_all add: returned_def word_less_nat_alt)
    next
      case 2
      show ?thesis
      proof (cases "unat (ShmSize q) - unat (Head q) < 4")
        case True
        then have "at_pad h q ds" using wrapped_next [OF r 2] next_len(4) base by fastforce
        with Align c 2 True s show ?thesis by (intro same [of Reset]) (simp_all add: returned_def word_less_nat_alt)
      next
        case False
        with Align c 2 s b show ?thesis by (intro same [of Read_Pad]) (simp_all add: returned_def word_less_nat_alt)
      qed
    qed
  next
    case Read_Pad
    then have 1: "unat (Tail q) < unat (Head q)" "unat (Head q) + 4 \<le> length (area q)" "pend = []" using c by auto
    from wrapped_next [OF r 1(1)] show ?thesis
    proof
      assume "at_pad h q ds"
      with pad_len 1 Read_Pad show ?thesis by (intro same [of Reset]) (simp_all add: returned_def)
    next
      assume "next_is h q ds"
      with next_len [OF this] base 1 Read_Pad show ?thesis by (intro same [of Check_Again]) (simp_all add: returned_def del: of_nat_add)
    qed
  next
    case Reset
    then have 1: "at_pad h q ds" "pend = []" using c by auto
    let ?q = "q\<lparr>Head := sizeof_ShmCQ\<rparr>"
    have r': "rep h ?q ds" by (rule reset_head [OF r 1(1)])
    have "prod_ok h ?q p" using p by (rule prod_ok_head) (use 1(1) base in \<open>auto simp: at_pad_def\<close>)
    moreover have "cons_ok h ?q ds [] tk Check_Again"
    proof (cases "unat (Tail q) = 80")
      case True
      then have "Tail q = 80" by (intro unsigned_word_eqI [where ?'a = nat]) simp
      moreover have "ds = []" using 1(1) True chain_bounds by (fastforce simp: at_pad_def)
      ultimately show ?thesis by simp
    next
      case False
      then have "next_is h ?q ds" using base by (intro straight_next [OF r']) simp
      then show ?thesis by simp
    qed
    ultimately show ?thesis using Reset r' 1(2) by (intro exI [of _ Check_Again] exI [of _ ?q] exI [of _ ds] exI [of _ "[]"]) (simp add: returned_def)
  next
    case Check_Again
    show ?thesis
    proof (cases "Empty q")
      case True
      then show ?thesis using Check_Again c by (intro same [of "Popped None"]) (auto simp: returned_def)
    next
      case False
      then show ?thesis using Check_Again c by (intro same [of Check_Len]) (auto simp: returned_def Empty_def)
    qed
  next
    case Check_Len
    then have "next_is h q ds" using c by simp
    with next_len [OF this] base Check_Len c show ?thesis by (intro same [of Read_Len]) (simp_all add: returned_def del: of_nat_add)
  next
    case Read_Len
    then have "next_is h q ds" using c by simp
    with next_len [OF this] base Read_Len c show ?thesis
      by (intro same [of "Move (of_nat (length (hd ds) + 4))"]) (simp_all add: returned_def del: of_nat_add)
  next
    case (Move len)
    then obtain d ds' where 1: "ds = d # ds'" "next_is h q (d # ds')" "len = of_nat (length d + 4)" "pend = []"
      using c by (cases ds) (auto simp: next_is_def simp del: of_nat_add)
    let ?q = "q\<lparr>Head := Head q + of_nat (length d + 4)\<rparr>"
    note m = move_head [OF r [unfolded 1(1)] 1(2)]
    have "prod_ok h ?q p" using p by (rule prod_ok_head) (use m(2,4) in \<open>simp_all del: of_nat_add\<close>)
    then show ?thesis using Move 1 m
      by (intro exI [of _ "Return (Head q)"] exI [of _ ?q] exI [of _ ds'] exI [of _ "[d]"]) (simp add: returned_def del: of_nat_add)
  next
    case (Return pos)
    then obtain d where 1: "pend = [d]" "held h q (unat pos) d" using c by auto
    then have h: "block_at h (area q) (unat pos) d" "element q d" by (auto simp: held_def)
    have l: "block_len h q pos = Inr (of_nat (length d + 4))"
      using h base by (intro block_len_eq) (auto simp: element_def sizes_ok_def)
    have u: "unat (of_nat (length d + 4) - 4 :: u32) = length d"
      using h base by (simp add: unat_of_nat_small element_def sizes_ok_def)
    let ?c = "Popped (Some (unat pos + 4, of_nat (length d + 4) - 4))"
    have "returned c ?c q = [d]" using Return h(1) u by (simp add: returned_def block_at_def del: of_nat_add)
    then show ?thesis using Return 1 l u r p
      by (intro exI [of _ ?c] exI [of _ q] exI [of _ ds] exI [of _ "[]"]) (simp del: of_nat_add)
  qed
qed

definition spsc_inv :: "Endian \<Rightarrow> u32 \<Rightarrow> spsc \<Rightarrow> bool" where
  "spsc_inv h m s \<longleftrightarrow> ElemMaxSize (queue s) = m \<and>
     (\<exists>ds pend. rep h (queue s) ds \<and> accepted s = taken s @ pend @ ds \<and> prod_ok h (queue s) (producer s) \<and>
        cons_ok h (queue s) ds pend (taken s) (consumer s))"

definition small :: "u32 \<Rightarrow> bytes \<Rightarrow> bool" where
  "small m d \<longleftrightarrow> d \<noteq> [] \<and> length d + 4 \<le> unat m"

lemma start_push_ok:
  assumes "rep h q ds" and "element q d"
  shows "\<exists>p. start_push d q = Inr p \<and> prod_ok h q p \<and> p \<in> {Push_Wait d 10, Align_Wait d 10}"
proof -
  note b = rep_bounds [OF assms(1)] and base = rep_sizes [OF assms(1)]
  let ?n = "of_nat (length d) :: u32"
  have n: "unat ?n = length d" using assms(2) b by (intro unat_of_nat_small) (simp add: element_def)
  have "unat (ElemMaxSize q - sizeof_ShmBlock) = unat (ElemMaxSize q) - 4"
    using b by (subst unat_minus_small) (simp_all add: word_le_nat_alt)
  then have guard: "?n > 0 \<and> ?n \<le> ElemMaxSize q - sizeof_ShmBlock"
    using n assms(2) by (auto simp: word_less_nat_alt word_le_nat_alt element_def)
  have "unat (ShmSize q - Tail q) = unat (ShmSize q) - unat (Tail q)"
    using b by (intro unat_minus_small) (simp add: word_le_nat_alt)
  moreover have "unat (elem_len d) = length d + 4" using elem_len_eq assms(2) base by blast
  ultimately show ?thesis using guard assms(2) b
    by (auto simp: start_push_def Let_def elem_fits_def word_le_nat_alt)
qed

lemma act_step_ok:
  assumes "spsc_inv h m s" and "\<And>d. a = Call_Push d \<Longrightarrow> small m d"
  shows "\<exists>s'. act_step h a s = Inr s' \<and> spsc_inv h m s'"
proof -
  obtain ds pend where i: "ElemMaxSize (queue s) = m" "rep h (queue s) ds" "accepted s = taken s @ pend @ ds"
    "prod_ok h (queue s) (producer s)" "cons_ok h (queue s) ds pend (taken s) (consumer s)"
    using assms(1) by (auto simp: spsc_inv_def)
  show ?thesis
  proof (cases a)
    case (Call_Push d)
    then have "element (queue s) d" using assms(2) i(1) by (simp add: small_def element_def)
    from start_push_ok [OF i(2) this] obtain p where "start_push d (queue s) = Inr p" "prod_ok h (queue s) p" by blast
    with Call_Push assms(1) i show ?thesis by (auto simp: spsc_inv_def split: prod.splits)
  next
    case Producer
    from prod_step_ok [OF i(2,4,5)] obtain p' q' where
      p: "prod_step h (producer s) (queue s) = Inr (p', q')" "rep h q' (ds @ published (producer s) p')" "prod_ok h q' p'"
      "cons_ok h q' (ds @ published (producer s) p') pend (taken s) (consumer s)" "ElemMaxSize q' = ElemMaxSize (queue s)" by blast
    have "(case producer s of Copy data i \<Rightarrow> if p' = Pushed True then accepted s @ [data] else accepted s | _ \<Rightarrow> accepted s) =
        taken s @ pend @ ds @ published (producer s) p'" using i(3) by (auto simp: published_def split: prod.splits)
    with Producer p i(1) show ?thesis by (auto simp: spsc_inv_def)
  next
    case Call_Pop
    have "cons_ok h (queue s) ds pend (taken s) Check_Empty" if "consumer s = Popped x" for x
      using i(5) that by (cases x) auto
    with Call_Pop assms(1) i show ?thesis by (auto simp: spsc_inv_def split: cons.splits)
  next
    case Consumer
    from cons_step_ok [OF i(2,4,5)] obtain c' q' ds' pend' where
      c: "cons_step h (consumer s) (queue s) = Inr (c', q')" "rep h q' ds'" "prod_ok h q' (producer s)"
      "cons_ok h q' ds' pend' (taken s @ returned (consumer s) c' q') c'" "ElemMaxSize q' = ElemMaxSize (queue s)"
      "pend @ ds = returned (consumer s) c' q' @ pend' @ ds'" by blast
    have "(case (consumer s, c') of (Return pos, Popped (Some (off, len))) \<Rightarrow> taken s @ [window off (unat len) (area q')] | _ \<Rightarrow> taken s) =
        taken s @ returned (consumer s) c' q'" by (auto simp: returned_def split: cons.splits option.splits)
    with Consumer c i(1,3) show ?thesis by (auto simp: spsc_inv_def)
  qed
qed

lemma run_ok:
  "spsc_inv h m s \<Longrightarrow> (\<And>d. Call_Push d \<in> set as \<Longrightarrow> small m d) \<Longrightarrow> \<exists>s'. run h as s = Inr s' \<and> spsc_inv h m s'"
proof (induction as arbitrary: s)
  case (Cons a as)
  from act_step_ok [OF Cons.prems(1), of a] Cons.prems(2) obtain s1 where "act_step h a s = Inr s1" "spsc_inv h m s1" by auto
  with Cons.IH [of s1] Cons.prems(2) show ?case by simp
qed simp

section \<open>Bounded numbers of steps\<close>

fun push_left :: "prod \<Rightarrow> nat" where
  "push_left (Pushed b) = 0"
| "push_left (Copy d i) = length d - i + 1"
| "push_left (Write_Len d) = length d + 2"
| "push_left (Push_Wait d n) = length d + 3 + n"
| "push_left (Wrap d) = length d + 14"
| "push_left (Write_Pad d) = length d + 15"
| "push_left (Align_Wait d n) = length d + 16 + n"

fun pop_left :: "cons \<Rightarrow> nat" where
  "pop_left (Popped x) = 0"
| "pop_left (Return pos) = 1"
| "pop_left (Move n) = 2"
| "pop_left Read_Len = 3"
| "pop_left Check_Len = 4"
| "pop_left Check_Again = 5"
| "pop_left Reset = 6"
| "pop_left Read_Pad = 7"
| "pop_left Align = 8"
| "pop_left Check_Empty = 9"

lemma bind_InrE: "bind_res x f = Inr y \<Longrightarrow> (\<And>z. x = Inr z \<Longrightarrow> f z = Inr y \<Longrightarrow> P) \<Longrightarrow> P"
  by (cases x) auto

lemma prod_step_left: "prod_step h p q = Inr (p', q') \<Longrightarrow> push_left p' \<le> push_left p - 1"
  by (cases "(h, p, q)" rule: prod_step.cases) (auto simp: Let_def elim!: bind_InrE split: if_splits)

lemma cons_step_left: "cons_step h c q = Inr (c', q') \<Longrightarrow> pop_left c' \<le> pop_left c - 1"
  by (cases "(h, c, q)" rule: cons_step.cases) (auto simp: Let_def elim!: bind_InrE split: if_splits)

lemma push_left_0: "push_left p = 0 \<longleftrightarrow> (\<exists>b. p = Pushed b)"
  by (cases p) auto

lemma pop_left_0: "pop_left c = 0 \<longleftrightarrow> (\<exists>r. c = Popped r)"
  by (cases c) auto

definition is_push :: "act \<Rightarrow> bool" where
  "is_push a = (case a of Call_Push d \<Rightarrow> True | _ \<Rightarrow> False)"

lemma act_step_left:
  assumes "act_step h a s = Inr s'"
  shows "\<not> is_push a \<Longrightarrow> push_left (producer s') \<le> push_left (producer s) - (if a = Producer then 1 else 0)"
    "a \<noteq> Call_Pop \<Longrightarrow> pop_left (consumer s') \<le> pop_left (consumer s) - (if a = Consumer then 1 else 0)"
  using assms by (cases a; auto simp: is_push_def elim!: bind_InrE dest: prod_step_left cons_step_left split: cons.splits prod.splits)+

lemma run_left:
  "run h as s = Inr s' \<Longrightarrow> \<forall>a\<in>set as. \<not> is_push a \<Longrightarrow> push_left (producer s') \<le> push_left (producer s) - count_list as Producer"
  "run h as s = Inr s' \<Longrightarrow> Call_Pop \<notin> set as \<Longrightarrow> pop_left (consumer s') \<le> pop_left (consumer s) - count_list as Consumer"
proof (induction as arbitrary: s)
  case (Cons a as)
  {
    case 1
    then obtain s1 where "act_step h a s = Inr s1" "run h as s1 = Inr s'" by (auto elim: bind_InrE)
    with act_step_left(1) [of h a s s1] Cons.IH(1) [of s1] 1(2) show ?case by (auto split: if_splits)
  next
    case 2
    then obtain s1 where "act_step h a s = Inr s1" "run h as s1 = Inr s'" by (auto elim: bind_InrE)
    with act_step_left(2) [of h a s s1] Cons.IH(2) [of s1] 2(2) show ?case by (auto split: if_splits)
  }
qed auto

section \<open>Calls that are not interrupted\<close>

text \<open>Both sides alone: they follow a step function until they are between two calls.\<close>

fun iter_step :: "('p \<Rightarrow> 'q \<Rightarrow> ('p \<times> 'q) res) \<Rightarrow> nat \<Rightarrow> 'p \<times> 'q \<Rightarrow> ('p \<times> 'q) res" where
  "iter_step f 0 x = Inr x"
| "iter_step f (Suc n) x = bind_res (f (fst x) (snd x)) (iter_step f n)"

inductive ends :: "('p \<Rightarrow> 'q \<Rightarrow> ('p \<times> 'q) res) \<Rightarrow> 'p \<times> 'q \<Rightarrow> 'p \<times> 'q \<Rightarrow> bool" for f where
  ended: "ends f x x"
| step: "f p q = Inr y \<Longrightarrow> ends f y r \<Longrightarrow> ends f (p, q) r"

locale bounded_calls =
  fixes f :: "'p \<Rightarrow> 'q \<Rightarrow> ('p \<times> 'q) res" and left :: "'p \<Rightarrow> nat"
  assumes decreases: "f p q = Inr (p', q') \<Longrightarrow> left p' \<le> left p - 1"
    and stays: "left p = 0 \<Longrightarrow> f p q = Inr (p, q)"
begin

lemma iter_stays: "left p = 0 \<Longrightarrow> iter_step f n (p, q) = Inr (p, q)"
  by (induction n) (simp_all add: stays)

lemma ends_iter: "ends f x r \<Longrightarrow> left (fst r) = 0 \<Longrightarrow> left (fst x) \<le> n \<Longrightarrow> iter_step f n x = Inr r"
proof (induction arbitrary: n rule: ends.induct)
  case (ended x)
  then show ?case by (cases x) (simp add: iter_stays)
next
  case (step p q y r)
  obtain p' q' where y: "y = (p', q')" by (cases y)
  show ?case
  proof (cases n)
    case 0
    with step.prems stays [of p q] step.hyps(1) have "y = (p, q)" by simp
    with step.IH [of 0] step.prems 0 show ?thesis by simp
  next
    case (Suc m)
    have "left p' \<le> m" using decreases [of p q p' q'] step.hyps(1) step.prems y Suc by simp
    with step y Suc show ?thesis by simp
  qed
qed

end

interpretation pushing: bounded_calls "prod_step h" push_left for h
proof
  show "push_left p = 0 \<Longrightarrow> prod_step h p q = Inr (p, q)" for p q by (auto simp: push_left_0)
qed (rule prod_step_left)

interpretation popping: bounded_calls "cons_step h" pop_left for h
proof
  show "pop_left c = 0 \<Longrightarrow> cons_step h c q = Inr (c, q)" for c q by (auto simp: pop_left_0)
qed (rule cons_step_left)

abbreviation push_ends :: "Endian \<Rightarrow> prod \<times> ShmCQ \<Rightarrow> bool \<times> ShmCQ \<Rightarrow> bool" where
  "push_ends h x r \<equiv> ends (prod_step h) x (Pushed (fst r), snd r)"

lemma push_poll_ends:
  "(push_poll n q (Tail q) (elem_len d) \<Longrightarrow> push_ends h (Write_Len d, q) r) \<Longrightarrow>
   (\<not> push_poll n q (Tail q) (elem_len d) \<Longrightarrow> r = (False, q)) \<Longrightarrow> push_ends h (Push_Wait d n, q) r"
proof (induction n)
  case 0
  have "push_ends h (Pushed False, q) r" using 0 by (auto intro: ends.ended)
  then show ?case by (rule ends.step [rotated]) simp
next
  case (Suc n)
  show ?case
  proof (cases "Head q \<le> Tail q \<or> Head q \<ge> Tail q + elem_len d + ElemMaxSize q")
    case True
    with Suc.prems(1) have "push_ends h (Write_Len d, q) r" by (auto simp: Let_def)
    then show ?thesis by (rule ends.step [rotated]) (use True in \<open>auto simp: Let_def\<close>)
  next
    case False
    with Suc have "push_ends h (Push_Wait d n, q) r" by (auto simp: Let_def)
    then show ?thesis by (rule ends.step [rotated]) (use False in \<open>auto simp: Let_def\<close>)
  qed
qed

lemma copy_ends:
  "i \<le> length d \<Longrightarrow> unat (Tail q) + 4 + length d \<le> length (area q) \<Longrightarrow>
   push_ends h (Copy d i, q) (True, q\<lparr>area := splice_at (unat (Tail q) + 4 + i) (drop i d) (area q), Tail := Tail q + elem_len d\<rparr>)"
proof (induction "length d - i" arbitrary: i q)
  case 0
  then have i: "i = length d" by simp
  then have "prod_step h (Copy d i) q = Inr (Pushed True, q\<lparr>Tail := Tail q + elem_len d\<rparr>)" by simp
  then show ?case by (rule ends.step) (simp add: i ends.ended)
next
  case (Suc n)
  then have i: "i < length d" by simp
  let ?q = "q\<lparr>area := (area q)[unat (Tail q) + 4 + i := d ! i]\<rparr>"
  have "splice_at (unat (Tail q) + 4 + Suc i) (drop (Suc i) d) (area ?q) = splice_at (unat (Tail q) + 4 + i) (drop i d) (area q)"
    using splice_at_Cons [of "unat (Tail q) + 4 + i" "area q" "drop (Suc i) d" "d ! i"] Suc.prems i
    by (simp add: Cons_nth_drop_Suc)
  moreover have "push_ends h (Copy d (Suc i), ?q)
      (True, ?q\<lparr>area := splice_at (unat (Tail ?q) + 4 + Suc i) (drop (Suc i) d) (area ?q), Tail := Tail ?q + elem_len d\<rparr>)"
    by (rule Suc.hyps(1)) (use Suc i in auto)
  ultimately have "push_ends h (Copy d (Suc i), ?q)
      (True, q\<lparr>area := splice_at (unat (Tail q) + 4 + i) (drop i d) (area q), Tail := Tail q + elem_len d\<rparr>)" by simp
  moreover have "prod_step h (Copy d i) q = Inr (Copy d (Suc i), ?q)" using i Suc.prems by simp
  ultimately show ?case by (rule ends.step [rotated])
qed

lemma write_ends:
  assumes "bind_res (set_block_len h q (Tail q) (elem_len d)) (\<lambda>q.
      if unat (Tail q) + 4 + length d \<le> length (area q)
      then Inr (True, q\<lparr>area := splice_at (unat (Tail q) + 4) d (area q), Tail := Tail q + elem_len d\<rparr>)
      else Inl Out_Of_Bounds) = Inr r"
  shows "push_ends h (Write_Len d, q) r"
proof -
  from assms obtain q1 where q1: "set_block_len h q (Tail q) (elem_len d) = Inr q1" "unat (Tail q1) + 4 + length d \<le> length (area q1)"
    "r = (True, q1\<lparr>area := splice_at (unat (Tail q1) + 4) d (area q1), Tail := Tail q1 + elem_len d\<rparr>)"
    by (auto elim!: bind_InrE split: if_splits)
  have "push_ends h (Copy d 0, q1) r" using copy_ends [of 0 d q1 h] q1(2,3) by simp
  moreover have "prod_step h (Write_Len d) q = Inr (Copy d 0, q1)" using q1(1) by simp
  ultimately show ?thesis by (rule ends.step [rotated])
qed

text \<open>The part of \<open>Push\<close> after \<open>alignTail\<close>.\<close>

definition push_rest :: "Endian \<Rightarrow> bytes \<Rightarrow> bool \<times> ShmCQ \<Rightarrow> (bool \<times> ShmCQ) res" where
  "push_rest h d = (\<lambda>(ok, q).
     if ok then bind_res (set_block_len h q (Tail q) (elem_len d)) (\<lambda>q.
              if unat (Tail q) + 4 + length d \<le> length (area q)
              then Inr (True, q\<lparr>area := splice_at (unat (Tail q) + 4) d (area q), Tail := Tail q + elem_len d\<rparr>)
              else Inl Out_Of_Bounds)
     else Inr (False, q))"

lemma wait_ends: "push_rest h d (pushWait q (elem_len d), q) = Inr r \<Longrightarrow> push_ends h (Push_Wait d 10, q) r"
  by (rule push_poll_ends) (auto simp: push_rest_def pushWait_def intro: write_ends)

lemma align_ends:
  "(align_poll n q (Tail q) \<Longrightarrow> push_ends h (if ShmSize q - Tail q \<ge> sizeof_ShmBlock then Write_Pad d else Wrap d, q) r) \<Longrightarrow>
   (\<not> align_poll n q (Tail q) \<Longrightarrow> r = (False, q)) \<Longrightarrow> push_ends h (Align_Wait d n, q) r"
proof (induction n)
  case 0
  have "push_ends h (Pushed False, q) r" using 0 by (auto intro: ends.ended)
  then show ?case by (rule ends.step [rotated]) simp
next
  case (Suc n)
  show ?case
  proof (cases "Head q > sizeof_ShmCQ \<and> Head q \<le> Tail q")
    case True
    with Suc.prems(1) have "push_ends h (if ShmSize q - Tail q \<ge> sizeof_ShmBlock then Write_Pad d else Wrap d, q) r" by (auto simp: Let_def)
    then show ?thesis by (rule ends.step [rotated]) (use True in \<open>auto simp: Let_def\<close>)
  next
    case False
    with Suc have "push_ends h (Align_Wait d n, q) r" by (auto simp: Let_def)
    then show ?thesis by (rule ends.step [rotated]) (use False in \<open>auto simp: Let_def\<close>)
  qed
qed

lemma Push_ends:
  assumes "Push h d q = Inr r"
  shows "\<exists>p. start_push d q = Inr p \<and> push_ends h (p, q) r"
proof -
  have g: "of_nat (length d) > (0 :: u32) \<and> of_nat (length d) \<le> ElemMaxSize q - sizeof_ShmBlock"
    using assms by (auto simp: Push_def Let_def split: if_splits)
  have a: "bind_res (alignTail h q (elem_len d)) (push_rest h d) = Inr r"
    using assms g unfolding Push_def Let_def elem_len_def push_rest_def by simp
  show ?thesis
  proof (cases "ShmSize q - Tail q \<ge> elem_len d")
    case True
    with a have "push_rest h d (pushWait q (elem_len d), q) = Inr r" by (simp add: alignTail_def)
    with g True wait_ends show ?thesis by (simp add: start_push_def)
  next
    case False
    have "push_ends h (Align_Wait d 10, q) r"
    proof (rule align_ends)
      assume "\<not> align_poll 10 q (Tail q)"
      with a False show "r = (False, q)" by (simp add: alignTail_def tailAlignWait_def push_rest_def)
    next
      assume "align_poll 10 q (Tail q)"
      with a False obtain q1 where q1: "(if ShmSize q - Tail q \<ge> sizeof_ShmBlock then set_block_len h q (Tail q) 0xFFFFFFFF else Inr q) = Inr q1"
        "push_rest h d (pushWait (q1\<lparr>Tail := sizeof_ShmCQ\<rparr>) (elem_len d), q1\<lparr>Tail := sizeof_ShmCQ\<rparr>) = Inr r"
        by (auto simp: alignTail_def tailAlignWait_def Let_def elim!: bind_InrE split: if_splits)
      have w: "push_ends h (Wrap d, q1) r" using wait_ends [OF q1(2)] by (rule ends.step [rotated]) simp
      show "push_ends h (if ShmSize q - Tail q \<ge> sizeof_ShmBlock then Write_Pad d else Wrap d, q) r"
      proof (cases "ShmSize q - Tail q \<ge> sizeof_ShmBlock")
        case True
        with q1(1) have "prod_step h (Write_Pad d) q = Inr (Wrap d, q1)" by simp
        with True w show ?thesis by (auto intro: ends.step)
      qed (use q1(1) w in auto)
    qed
    with g False show ?thesis by (simp add: start_push_def)
  qed
qed

lemma run_producer:
  "iter_step (prod_step h) n (producer s, queue s) = Inr (Pushed b, q) \<Longrightarrow>
   \<exists>s'. run h (replicate n Producer) s = Inr s' \<and> queue s' = q \<and> producer s' = Pushed b \<and> consumer s' = consumer s"
proof (induction n arbitrary: s)
  case (Suc n)
  then obtain p' q' where p: "prod_step h (producer s) (queue s) = Inr (p', q')" "iter_step (prod_step h) n (p', q') = Inr (Pushed b, q)"
    by (auto elim!: bind_InrE)
  define s1 where "s1 = s\<lparr>queue := q', producer := p',
    accepted := (case producer s of Copy data i \<Rightarrow> if p' = Pushed True then accepted s @ [data] else accepted s | _ \<Rightarrow> accepted s)\<rparr>"
  have "act_step h Producer s = Inr s1" using p(1) by (simp add: s1_def)
  moreover have "iter_step (prod_step h) n (producer s1, queue s1) = Inr (Pushed b, q)" using p(2) by (simp add: s1_def)
  ultimately show ?case using Suc.IH [of s1] by (auto simp: s1_def)
qed simp

text \<open>The same for \<open>Pop\<close>, whose result is \<open>None\<close> when it returns 0 for an empty queue.\<close>

lemma taking_ends:
  assumes "(if Empty q then Inr (0, 0, q) else bind_res (block_len h q (Head q)) (\<lambda>len.
      if \<not> len \<le> ElemMaxSize q then Inl Assert_Failed
      else Inr (len - sizeof_ShmBlock, unat (Head q) + 4, q\<lparr>Head := Head q + len\<rparr>))) = Inr (n, off, q')"
  shows "ends (cons_step h) (Check_Again, q) (Popped (if off = 0 then None else Some (off, n)), q')"
proof (cases "Empty q")
  case True
  with assms have "ends (cons_step h) (Popped None, q) (Popped (if off = 0 then None else Some (off, n)), q')"
    by (auto intro: ends.ended)
  with True show ?thesis by (intro ends.step [of "cons_step h" Check_Again]) auto
next
  case False
  with assms obtain len where l: "block_len h q (Head q) = Inr len" "len \<le> ElemMaxSize q"
    "n = len - sizeof_ShmBlock" "off = unat (Head q) + 4" "q' = q\<lparr>Head := Head q + len\<rparr>"
    by (auto elim!: bind_InrE split: if_splits)
  have "block_len h q' (Head q) = Inr len" using l(1,5) by (auto simp: block_len_def split: if_splits)
  then have "cons_step h (Return (Head q)) q' = Inr (Popped (Some (off, n)), q')" using l(3,4) by simp
  then have "ends (cons_step h) (Return (Head q), q') (Popped (Some (off, n)), q')" by (rule ends.step) (rule ends.ended)
  then have "ends (cons_step h) (Move len, q) (Popped (Some (off, n)), q')"
    by (rule ends.step [rotated]) (simp add: l)
  then have "ends (cons_step h) (Read_Len, q) (Popped (Some (off, n)), q')" by (rule ends.step [rotated]) (simp add: l)
  then have "ends (cons_step h) (Check_Len, q) (Popped (Some (off, n)), q')" by (rule ends.step [rotated]) (simp add: l)
  then show ?thesis using False l by (intro ends.step [of "cons_step h" Check_Again]) auto
qed

lemma Pop_ends:
  assumes "Pop h q = Inr (n, off, q')"
  shows "ends (cons_step h) (Check_Empty, q) (Popped (if off = 0 then None else Some (off, n)), q')"
proof (cases "Empty q")
  case True
  with assms have "ends (cons_step h) (Popped None, q) (Popped (if off = 0 then None else Some (off, n)), q')"
    by (auto simp: Pop_def intro: ends.ended)
  with True show ?thesis by (intro ends.step [of "cons_step h" Check_Empty]) auto
next
  case ne: False
  with assms obtain q1 where q1: "alignHead h q = Inr q1"
    "ends (cons_step h) (Check_Again, q1) (Popped (if off = 0 then None else Some (off, n)), q')"
    by (auto simp: Pop_def elim!: bind_InrE intro: taking_ends)
  have reset: "ends (cons_step h) (Reset, q) (Popped (if off = 0 then None else Some (off, n)), q')" if "q1 = q\<lparr>Head := sizeof_ShmCQ\<rparr>"
    using q1(2) by (rule ends.step [rotated]) (simp add: that)
  have "ends (cons_step h) (Align, q) (Popped (if off = 0 then None else Some (off, n)), q')"
  proof (cases "Head q < Tail q \<or> ShmSize q - Head q < sizeof_ShmBlock")
    case True
    with q1 reset have "ends (cons_step h) (if Head q < Tail q then Check_Again else Reset, q)
        (Popped (if off = 0 then None else Some (off, n)), q')"
      by (auto simp: alignHead_def split: if_splits)
    then show ?thesis by (rule ends.step [rotated]) (use True in auto)
  next
    case False
    with q1(1) obtain len where len: "block_len h q (Head q) = Inr len" "q1 = (if len = 0xFFFFFFFF then q\<lparr>Head := sizeof_ShmCQ\<rparr> else q)"
      by (auto simp: alignHead_def elim!: bind_InrE)
    then have "ends (cons_step h) (if len = 0xFFFFFFFF then Reset else Check_Again, q) (Popped (if off = 0 then None else Some (off, n)), q')"
      using q1(2) reset by (auto split: if_splits)
    then have "ends (cons_step h) (Read_Pad, q) (Popped (if off = 0 then None else Some (off, n)), q')"
      by (rule ends.step [rotated]) (simp add: len(1))
    then show ?thesis by (rule ends.step [rotated]) (use False in auto)
  qed
  then show ?thesis by (rule ends.step [rotated]) (use ne in auto)
qed

lemma run_consumer:
  "iter_step (cons_step h) n (consumer s, queue s) = Inr (Popped r, q) \<Longrightarrow>
   \<exists>s'. run h (replicate n Consumer) s = Inr s' \<and> queue s' = q \<and> consumer s' = Popped r \<and> producer s' = producer s"
proof (induction n arbitrary: s)
  case (Suc n)
  then obtain c' q' where c: "cons_step h (consumer s) (queue s) = Inr (c', q')" "iter_step (cons_step h) n (c', q') = Inr (Popped r, q)"
    by (auto elim!: bind_InrE)
  obtain s1 where s1: "act_step h Consumer s = Inr s1" "queue s1 = q'" "consumer s1 = c'" "producer s1 = producer s" using c(1) by simp
  then have "iter_step (cons_step h) n (consumer s1, queue s1) = Inr (Popped r, q)" using c(2) by simp
  with Suc.IH [of s1] s1 show ?case by auto
qed simp

text \<open>
  C4: (refinement) One producer and one consumer on a new queue, for every interleaving of the memory accesses of \<open>Push\<close> and \<open>Pop\<close>:
  no assertion fails and no access leaves the segment; the elements that \<open>Pop\<close> returned are, in order, the first of those that \<open>Push\<close> accepted, and the others
  are in the segment (apart from the one that a \<open>Pop\<close> in progress has already removed). The bytes that \<open>Pop\<close> returned a pointer to stay
  those of the element until the consumer calls \<open>Pop\<close> again, whatever the producer does meanwhile.
\<close>

theorem spsc_fifo:
  assumes "cqSize < kShmCircularQueueMaxSz" and "unat dataMaxSz + 4 \<le> unat cqSize" and "length name < kShmNameSz"
    and "mmap (cqSize + 80) = Some bs" and "length bs = unat (cqSize + 80)"
    and "\<And>d. Call_Push d \<in> set as \<Longrightarrow> d \<noteq> [] \<and> length d \<le> unat dataMaxSz"
  shows "\<exists>q s pend ds. Create True True mmap name cqSize dataMaxSz ob = Inr (True, \<lparr>cq = Some q, mapped = True\<rparr>) \<and>
    run h as (init_spsc q) = Inr s \<and> accepted s = taken s @ pend @ ds \<and> rep h (queue s) ds \<and> length pend \<le> 1 \<and>
    (\<forall>r. consumer s = Popped r \<longrightarrow> pend = []) \<and>
    (\<forall>off len. consumer s = Popped (Some (off, len)) \<longrightarrow> taken s \<noteq> [] \<and> window off (unat len) (area (queue s)) = last (taken s))"
proof -
  obtain q where q: "Create True True mmap name cqSize dataMaxSz ob = Inr (True, \<lparr>cq = Some q, mapped = True\<rparr>)" "rep h q []"
      "unat (ElemMaxSize q) = unat dataMaxSz + 4"
    using Create_rep [of cqSize dataMaxSz name mmap bs ob h] assms(1-5) by blast
  have i: "spsc_inv h (ElemMaxSize q) (init_spsc q)" using q(2) by (auto simp: spsc_inv_def init_spsc_def)
  have "small (ElemMaxSize q) d" if "Call_Push d \<in> set as" for d using assms(6) [OF that] q(3) by (simp add: small_def)
  from run_ok [OF i this] obtain s where s: "run h as (init_spsc q) = Inr s" "spsc_inv h (ElemMaxSize q) s" by blast
  then obtain ds pend where ds: "rep h (queue s) ds" "accepted s = taken s @ pend @ ds" "cons_ok h (queue s) ds pend (taken s) (consumer s)"
    by (auto simp: spsc_inv_def)
  have "length pend \<le> 1" using ds(3) by (cases "(h, queue s, ds, pend, taken s, consumer s)" rule: cons_ok.cases) auto
  moreover have "pend = []" if "consumer s = Popped r" for r using ds(3) that by (cases r) auto
  moreover have "taken s \<noteq> [] \<and> window off (unat len) (area (queue s)) = last (taken s)" if "consumer s = Popped (Some (off, len))" for off len
    using ds(3) that by (auto simp: held_def block_at_def)
  ultimately show ?thesis using q(1) s(1) ds(1,2) by blast
qed

text \<open>
  C5: (termination) Both operations are wait-free. However the steps of the two sides are interleaved, a \<open>Push\<close> of \<open>n\<close> bytes has
  returned after \<open>n + 26\<close> steps of the producer and a \<open>Pop\<close> after nine steps of the consumer; the other side may be anywhere, or stopped for ever.
\<close>

theorem spsc_wait_free:
  "(run h (Call_Push d # as) s = Inr s' \<and> producer s = Pushed b \<and> (\<forall>a\<in>set as. \<not> is_push a) \<and> length d + 26 \<le> count_list as Producer \<longrightarrow>
      (\<exists>b. producer s' = Pushed b)) \<and>
   (run h (Call_Pop # as) s = Inr s' \<and> consumer s = Popped r \<and> Call_Pop \<notin> set as \<and> 9 \<le> count_list as Consumer \<longrightarrow>
      (\<exists>r. consumer s' = Popped r))"
proof (intro conjI impI)
  assume a: "run h (Call_Push d # as) s = Inr s' \<and> producer s = Pushed b \<and> (\<forall>a\<in>set as. \<not> is_push a) \<and> length d + 26 \<le> count_list as Producer"
  then obtain p where p: "start_push d (queue s) = Inr p" "run h as (s\<lparr>producer := p\<rparr>) = Inr s'" by (auto elim!: bind_InrE)
  have "push_left p \<le> length d + 26" using p(1) by (auto simp: start_push_def Let_def split: if_splits)
  then have "push_left (producer s') = 0" using run_left(1) [OF p(2)] a by simp
  then show "\<exists>b. producer s' = Pushed b" by (simp add: push_left_0)
next
  assume a: "run h (Call_Pop # as) s = Inr s' \<and> consumer s = Popped r \<and> Call_Pop \<notin> set as \<and> 9 \<le> count_list as Consumer"
  then have "run h as (s\<lparr>consumer := Check_Empty\<rparr>) = Inr s'" by auto
  then have "pop_left (consumer s') = 0" using run_left(2) a by fastforce
  then show "\<exists>r. consumer s' = Popped r" by (simp add: pop_left_0)
qed

text \<open>
  (equivalence) A call that the other side does not interrupt does what the function \<open>Push\<close> or \<open>Pop\<close> of the sequential model does: the
  access-by-access description and the sequential one are two views of the same code.
\<close>

theorem uninterrupted_calls:
  "(Push h d (queue s) = Inr (ok, q') \<and> producer s = Pushed b \<longrightarrow>
      (\<exists>s'. run h (Call_Push d # replicate (length d + 26) Producer) s = Inr s' \<and> queue s' = q' \<and> producer s' = Pushed ok)) \<and>
   (Pop h (queue s) = Inr (len, off, q') \<and> consumer s = Popped r \<longrightarrow>
      (\<exists>s'. run h (Call_Pop # replicate 9 Consumer) s = Inr s' \<and> queue s' = q' \<and>
         consumer s' = Popped (if off = 0 then None else Some (off, len))))"
proof (intro conjI impI)
  assume a: "Push h d (queue s) = Inr (ok, q') \<and> producer s = Pushed b"
  then obtain p where p: "start_push d (queue s) = Inr p" "push_ends h (p, queue s) (ok, q')" using Push_ends by blast
  have "push_left p \<le> length d + 26" using p(1) by (auto simp: start_push_def Let_def split: if_splits)
  with pushing.ends_iter [OF p(2)] have "iter_step (prod_step h) (length d + 26) (p, queue s) = Inr (Pushed ok, q')" by simp
  with run_producer [of h "length d + 26" "s\<lparr>producer := p\<rparr>" ok q'] a p(1)
  show "\<exists>s'. run h (Call_Push d # replicate (length d + 26) Producer) s = Inr s' \<and> queue s' = q' \<and> producer s' = Pushed ok"
    by (auto simp del: replicate.simps)
next
  assume a: "Pop h (queue s) = Inr (len, off, q') \<and> consumer s = Popped r"
  let ?r = "if off = 0 then None else Some (off, len)"
  have "iter_step (cons_step h) 9 (Check_Empty, queue s) = Inr (Popped ?r, q')"
    using popping.ends_iter [OF Pop_ends [OF conjunct1 [OF a]]] by simp
  with run_consumer [of h 9 "s\<lparr>consumer := Check_Empty\<rparr>" ?r q'] a
  show "\<exists>s'. run h (Call_Pop # replicate 9 Consumer) s = Inr s' \<and> queue s' = q' \<and> consumer s' = Popped ?r"
    by (auto simp del: replicate.simps)
qed

section \<open>Witnesses\<close>

text \<open>A queue for elements of up to eight bytes; the consumer runs while the producer is still copying.\<close>

definition demo_cq :: ShmCQ where
  "demo_cq = \<lparr>Head = 80, Tail = 80, ShmSize = 100, ElemMaxSize = 12, Name = [], area = replicate 100 0\<rparr>"

lemma demo_cq_rep: "rep h demo_cq []"
  by (rule rep_straightI) (simp_all add: demo_cq_def sizes_ok_def)

definition demo_acts :: "act list" where
  "demo_acts = Call_Push [1, 2] # replicate 4 Producer @ Call_Pop # replicate 9 Consumer @ replicate 24 Producer @ Call_Pop # replicate 9 Consumer"

theorem spsc_fifo_witness:
  "\<exists>q s pend ds. Create True True (\<lambda>n. Some (replicate 100 0)) [] 20 8 ShmCircularBufQueue = Inr (True, \<lparr>cq = Some q, mapped = True\<rparr>) \<and>
    run LittleEndian demo_acts (init_spsc q) = Inr s \<and> accepted s = taken s @ pend @ ds \<and> rep LittleEndian (queue s) ds"
  using spsc_fifo [of 20 8 "[]" "\<lambda>n. Some (replicate 100 0)" "replicate 100 0" demo_acts ShmCircularBufQueue LittleEndian]
  by (auto simp: demo_acts_def kShmCircularQueueMaxSz_def kShmNameSz_def)

lemma demo_runs: "(\<And>d. Call_Push d \<in> set as \<Longrightarrow> small 12 d) \<Longrightarrow> \<exists>s'. run LittleEndian as (init_spsc demo_cq) = Inr s'"
  using run_ok [of LittleEndian 12 "init_spsc demo_cq" as] demo_cq_rep
  by (auto simp: spsc_inv_def init_spsc_def demo_cq_def)

lemma count_replicate: "count_list (replicate n x) x = n"
  by (induction n) simp_all

theorem spsc_wait_free_witness:
  "\<exists>s' b. run LittleEndian (Call_Push [1, 2] # replicate 28 Producer) (init_spsc demo_cq) = Inr s' \<and> producer s' = Pushed b"
proof -
  obtain s' where "run LittleEndian (Call_Push [1, 2] # replicate 28 Producer) (init_spsc demo_cq) = Inr s'"
    using demo_runs [of "Call_Push [1, 2] # replicate 28 Producer"] by (auto simp: small_def)
  moreover have "count_list (replicate 28 Producer) Producer = 28" by (rule count_replicate)
  ultimately show ?thesis
    using spsc_wait_free [of LittleEndian "[1, 2]" "replicate 28 Producer" "init_spsc demo_cq" s' False]
    by (auto simp: init_spsc_def is_push_def)
qed

theorem uninterrupted_calls_witness:
  "\<exists>ok q' s'. Push LittleEndian [1, 2] demo_cq = Inr (ok, q') \<and>
     run LittleEndian (Call_Push [1, 2] # replicate 28 Producer) (init_spsc demo_cq) = Inr s' \<and> queue s' = q' \<and> producer s' = Pushed ok"
proof -
  have "element demo_cq [1, 2]" by (simp add: element_def demo_cq_def)
  then obtain ok q' where "Push LittleEndian [1, 2] demo_cq = Inr (ok, q')" using Push_spec [OF demo_cq_rep] by blast
  then show ?thesis
    using uninterrupted_calls [of LittleEndian "[1, 2]" "init_spsc demo_cq" ok q' False] by (auto simp: init_spsc_def simp del: run.simps)
qed

end
