(* ===== verification/File_Purger.thy ===== *)
theory File_Purger
  imports Prelude "HOL-Library.Sublist"
begin

text \<open>
  Model of \<open>file_utils/file_purger.h\<close> and \<open>.cpp\<close> (class \<open>FilePurger\<close>). The file system is a tree; which of its operations fail is a
  parameter that depends on the path. Times are counted in nanoseconds. Symbolic links to directories are not part of the tree.
\<close>

section \<open>The file system\<close>

type_synonym path = "string list"

text \<open>Regular files, directories and other entries, with their times of last modification.\<close>

datatype node = File int | Dir int "(string \<times> node) list" | Special int

type_synonym entries = "(string \<times> node) list"

text \<open>Which paths can be listed, examined and removed, and the time at which a directory is found changed by a removal.\<close>

record fs_ops =
  can_list :: "path \<Rightarrow> bool"
  can_stat :: "path \<Rightarrow> bool"
  can_remove :: "path \<Rightarrow> bool"
  changed_at :: "path \<Rightarrow> int"

section \<open>Purging\<close>

record PurgingRule =
  inactiveTime :: int
  purgeRecursively :: bool
  purgeEmptyDirectory :: bool

text \<open>\<open>duration_cast\<close> to seconds rounds towards zero.\<close>

definition elapsed :: "int \<Rightarrow> int \<Rightarrow> int" where
  "elapsed now t = sgn (now - t) * (\<bar>now - t\<bar> div 1000000000)"

definition inactive :: "PurgingRule \<Rightarrow> int \<Rightarrow> int \<Rightarrow> bool" where
  "inactive rule now t \<longleftrightarrow> elapsed now t > inactiveTime rule"

text \<open>Removing an entry changes the directory that had it.\<close>

definition touch :: "fs_ops \<Rightarrow> path \<Rightarrow> entries \<Rightarrow> entries \<Rightarrow> int \<Rightarrow> int" where
  "touch ops p es es' t = (if map fst es' = map fst es then t else changed_at ops p)"

text \<open>
  The loop over the entries of a directory that can be listed, and its body, which gives \<open>None\<close> for an entry that is removed.
  A directory can be removed when it is empty.
\<close>

fun purge_loop :: "fs_ops \<Rightarrow> int \<Rightarrow> PurgingRule \<Rightarrow> path \<Rightarrow> entries \<Rightarrow> entries"
  and purge_entry :: "fs_ops \<Rightarrow> int \<Rightarrow> PurgingRule \<Rightarrow> path \<Rightarrow> node \<Rightarrow> node option" where
  "purge_loop ops now rule p [] = []"
| "purge_loop ops now rule p ((n, nd) # es) =
     (case (if can_stat ops (p @ [n]) then purge_entry ops now rule (p @ [n]) nd else Some nd) of
        None \<Rightarrow> purge_loop ops now rule p es
      | Some nd' \<Rightarrow> (n, nd') # purge_loop ops now rule p es)"
| "purge_entry ops now rule p (File t) = (if inactive rule now t \<and> can_remove ops p then None else Some (File t))"
| "purge_entry ops now rule p (Dir t es) =
     (let es' = (if purgeRecursively rule \<and> can_list ops p then purge_loop ops now rule p es else es) in
      if purgeEmptyDirectory rule \<and> inactive rule now t \<and> es' = [] \<and> can_remove ops p then None
      else Some (Dir (touch ops p es es' t) es'))"
| "purge_entry ops now rule p (Special t) = Some (Special t)"

definition purgeOldFiles :: "fs_ops \<Rightarrow> int \<Rightarrow> PurgingRule \<Rightarrow> path \<Rightarrow> entries \<Rightarrow> entries" where
  "purgeOldFiles ops now rule p es = (if can_list ops p then purge_loop ops now rule p es else es)"

text \<open>The call for a monitored directory: nothing happens when the path leads to no directory.\<close>

definition purge_dir :: "fs_ops \<Rightarrow> int \<Rightarrow> PurgingRule \<Rightarrow> path \<Rightarrow> node \<Rightarrow> node" where
  "purge_dir ops now rule p nd =
     (case nd of Dir t es \<Rightarrow> let es' = purgeOldFiles ops now rule p es in Dir (touch ops p es es' t) es' | _ \<Rightarrow> nd)"

fun at_path :: "path \<Rightarrow> (node \<Rightarrow> node) \<Rightarrow> node \<Rightarrow> node" where
  "at_path [] f nd = f nd"
| "at_path (c # cs) f (Dir t es) = Dir t (map (\<lambda>(n, nd). (n, if n = c then at_path cs f nd else nd)) es)"
| "at_path (c # cs) f nd = nd"

section \<open>What is removed\<close>

fun files_of :: "path \<Rightarrow> entries \<Rightarrow> (path \<times> int) list"
  and files_node :: "path \<Rightarrow> node \<Rightarrow> (path \<times> int) list" where
  "files_of p [] = []"
| "files_of p ((n, nd) # es) = files_node (p @ [n]) nd @ files_of p es"
| "files_node p (File t) = [(p, t)]"
| "files_node p (Dir t es) = files_of p es"
| "files_node p (Special t) = []"

fun dirs_of :: "path \<Rightarrow> entries \<Rightarrow> (path \<times> int) list"
  and dirs_node :: "path \<Rightarrow> node \<Rightarrow> (path \<times> int) list" where
  "dirs_of p [] = []"
| "dirs_of p ((n, nd) # es) = dirs_node (p @ [n]) nd @ dirs_of p es"
| "dirs_node p (File t) = []"
| "dirs_node p (Dir t es) = (p, t) # dirs_of p es"
| "dirs_node p (Special t) = []"

text \<open>
  A path below \<open>p\<close> is visited when all directories on the way can be listed and examined, and it is an entry of \<open>p\<close> itself
  or the rule is recursive.
\<close>

definition visited :: "fs_ops \<Rightarrow> PurgingRule \<Rightarrow> path \<Rightarrow> path \<Rightarrow> bool" where
  "visited ops rule p q \<longleftrightarrow>
     (\<forall>i\<in>{length p..<length q}. can_list ops (take i q) \<and> can_stat ops (take (Suc i) q)) \<and>
     (purgeRecursively rule \<or> length q = Suc (length p))"

definition removed :: "fs_ops \<Rightarrow> int \<Rightarrow> PurgingRule \<Rightarrow> path \<Rightarrow> path \<times> int \<Rightarrow> bool" where
  "removed ops now rule p = (\<lambda>(q, t). visited ops rule p q \<and> inactive rule now t \<and> can_remove ops q)"

lemma files_below: "(q, t) \<in> set (files_of p es) \<Longrightarrow> strict_prefix p q" "(q, t) \<in> set (files_node p nd) \<Longrightarrow> prefix p q"
proof (induction p es and p nd rule: files_of_files_node.induct)
  case (2 p n nd es)
  then show ?case by (auto dest: append_prefixD simp: strict_prefix_def prefix_def)
qed auto

lemma visited_entry: "visited ops rule p (p @ [n]) \<longleftrightarrow> can_list ops p \<and> can_stat ops (p @ [n])"
  by (auto simp: visited_def)

lemma visited_below:
  assumes "strict_prefix (p @ [n]) q"
  shows "visited ops rule p q \<longleftrightarrow> purgeRecursively rule \<and> can_list ops p \<and> can_stat ops (p @ [n]) \<and> visited ops rule (p @ [n]) q"
proof -
  obtain r where q: "q = p @ n # r" "r \<noteq> []" using assms by (auto simp: strict_prefix_def prefix_def)
  have "{length p..<length q} = insert (length p) {Suc (length p)..<length q}" using q by auto
  then show ?thesis using q by (auto simp: visited_def)
qed

lemma visited_listed: "strict_prefix p q \<Longrightarrow> visited ops rule p q \<Longrightarrow> can_list ops p"
  by (auto simp: visited_def strict_prefix_def prefix_def dest!: bspec [of _ _ "length p"])

text \<open>The same for the files of a single entry that was examined.\<close>

definition removed_in :: "fs_ops \<Rightarrow> int \<Rightarrow> PurgingRule \<Rightarrow> path \<Rightarrow> path \<times> int \<Rightarrow> bool" where
  "removed_in ops now rule p = (\<lambda>(q, t). (q = p \<or> purgeRecursively rule \<and> visited ops rule p q) \<and> inactive rule now t \<and> can_remove ops q)"

lemma removed_entry:
  assumes "can_list ops p" and "(q, t) \<in> set (files_node (p @ [n]) nd)"
  shows "removed ops now rule p (q, t) \<longleftrightarrow> can_stat ops (p @ [n]) \<and> removed_in ops now rule (p @ [n]) (q, t)"
proof (cases "q = p @ [n]")
  case True
  then show ?thesis using assms(1) by (auto simp: removed_def removed_in_def visited_entry)
next
  case False
  then have "strict_prefix (p @ [n]) q" using files_below(2) [OF assms(2)] by (simp add: strict_prefix_def)
  with False assms(1) show ?thesis by (auto simp: removed_def removed_in_def visited_below)
qed

definition files_opt :: "path \<Rightarrow> node option \<Rightarrow> (path \<times> int) list" where
  "files_opt p x = (case x of None \<Rightarrow> [] | Some nd \<Rightarrow> files_node p nd)"

lemma files_purged:
  "can_list ops p \<Longrightarrow> files_of p (purge_loop ops now rule p es) = filter (\<lambda>f. \<not> removed ops now rule p f) (files_of p es)"
  "files_opt p (purge_entry ops now rule p nd) = filter (\<lambda>f. \<not> removed_in ops now rule p f) (files_node p nd)"
proof (induction ops now rule p es and ops now rule p nd rule: purge_loop_purge_entry.induct)
  case (2 ops now rule p n nd es)
  let ?x = "if can_stat ops (p @ [n]) then purge_entry ops now rule (p @ [n]) nd else Some nd"
  have "filter (\<lambda>f. \<not> removed ops now rule p f) (files_node (p @ [n]) nd) =
      filter (\<lambda>f. \<not> (can_stat ops (p @ [n]) \<and> removed_in ops now rule (p @ [n]) f)) (files_node (p @ [n]) nd)"
    by (rule filter_cong [OF refl]) (use removed_entry [OF "2.prems"] in auto)
  also have "\<dots> = files_opt (p @ [n]) ?x"
  proof (cases "can_stat ops (p @ [n])")
    case True
    with "2.IH"(1) show ?thesis by simp
  qed (simp add: files_opt_def)
  finally have x: "files_opt (p @ [n]) ?x = filter (\<lambda>f. \<not> removed ops now rule p f) (files_node (p @ [n]) nd)" ..
  have "files_of p (purge_loop ops now rule p es) = filter (\<lambda>f. \<not> removed ops now rule p f) (files_of p es)"
  proof (cases ?x)
    case None
    then show ?thesis by (rule "2.IH"(2)) (rule "2.prems")
  next
    case (Some nd')
    then show ?thesis by (rule "2.IH"(3)) (rule "2.prems")
  qed
  moreover have "files_of p (purge_loop ops now rule p ((n, nd) # es)) = files_opt (p @ [n]) ?x @ files_of p (purge_loop ops now rule p es)"
    by (cases ?x) (simp_all add: files_opt_def)
  ultimately show ?case using x by simp
next
  case (4 ops now rule p t es)
  let ?es = "if purgeRecursively rule \<and> can_list ops p then purge_loop ops now rule p es else es"
  have "files_opt p (purge_entry ops now rule p (Dir t es)) = files_of p ?es"
    by (auto simp: files_opt_def Let_def)
  moreover have "files_of p ?es = filter (\<lambda>f. \<not> removed_in ops now rule p f) (files_of p es)"
  proof (cases "purgeRecursively rule \<and> can_list ops p")
    case True
    then have "files_of p ?es = filter (\<lambda>f. \<not> removed ops now rule p f) (files_of p es)" using 4 by simp
    also have "\<dots> = filter (\<lambda>f. \<not> removed_in ops now rule p f) (files_of p es)"
      by (rule filter_cong [OF refl]) (use True files_below(1) [of _ _ p es] in \<open>auto simp: removed_def removed_in_def\<close>)
    finally show ?thesis .
  next
    case False
    have "\<not> removed_in ops now rule p (q, u)" if f: "(q, u) \<in> set (files_of p es)" for q u
    proof -
      have "strict_prefix p q" by (rule files_below(1) [OF f])
      with False visited_listed [OF this] show ?thesis by (auto simp: removed_in_def)
    qed
    then have "filter (\<lambda>f. \<not> removed_in ops now rule p f) (files_of p es) = files_of p es" by (auto intro!: filter_True)
    with False show ?thesis by auto
  qed
  ultimately show ?case by simp
qed (auto simp: files_opt_def removed_in_def)

text \<open>Directories: those that stay are a part of the old ones, and those of recent time stay.\<close>

definition dirs_opt :: "path \<Rightarrow> node option \<Rightarrow> (path \<times> int) list" where
  "dirs_opt p x = (case x of None \<Rightarrow> [] | Some nd \<Rightarrow> dirs_node p nd)"

definition dirs_kept :: "PurgingRule \<Rightarrow> int \<Rightarrow> (path \<times> int) list \<Rightarrow> (path \<times> int) list \<Rightarrow> bool" where
  "dirs_kept rule now ds ds' \<longleftrightarrow> subseq (map fst ds') (map fst ds) \<and>
     subseq (map fst (filter (\<lambda>(q, t). \<not> (purgeEmptyDirectory rule \<and> inactive rule now t)) ds)) (map fst ds')"

lemma dirs_kept_refl [simp]: "dirs_kept rule now ds ds"
  by (simp add: dirs_kept_def subseq_map)

lemma dirs_kept_append: "dirs_kept rule now as as' \<Longrightarrow> dirs_kept rule now bs bs' \<Longrightarrow> dirs_kept rule now (as @ bs) (as' @ bs')"
  by (auto simp: dirs_kept_def intro: list_emb_append_mono)

lemma dirs_purged:
  "dirs_kept rule now (dirs_of p es) (dirs_of p (purge_loop ops now rule p es))"
  "dirs_kept rule now (dirs_node p nd) (dirs_opt p (purge_entry ops now rule p nd))"
proof (induction ops now rule p es and ops now rule p nd rule: purge_loop_purge_entry.induct)
  case (2 ops now rule p n nd es)
  let ?x = "if can_stat ops (p @ [n]) then purge_entry ops now rule (p @ [n]) nd else Some nd"
  have "dirs_kept rule now (dirs_node (p @ [n]) nd) (dirs_opt (p @ [n]) ?x)"
  proof (cases "can_stat ops (p @ [n])")
    case True
    with "2.IH"(1) show ?thesis by simp
  qed (simp add: dirs_opt_def)
  moreover have "dirs_kept rule now (dirs_of p es) (dirs_of p (purge_loop ops now rule p es))"
  proof (cases ?x)
    case None
    then show ?thesis by (rule "2.IH"(2))
  next
    case (Some nd')
    then show ?thesis by (rule "2.IH"(3))
  qed
  moreover have "dirs_of p (purge_loop ops now rule p ((n, nd) # es)) = dirs_opt (p @ [n]) ?x @ dirs_of p (purge_loop ops now rule p es)"
    by (cases ?x) (simp_all add: dirs_opt_def)
  ultimately show ?case using dirs_kept_append by simp
next
  case (4 ops now rule p t es)
  let ?es = "if purgeRecursively rule \<and> can_list ops p then purge_loop ops now rule p es else es"
  have e: "dirs_kept rule now (dirs_of p es) (dirs_of p ?es)" using 4 by simp
  show ?case
  proof (cases "purgeEmptyDirectory rule \<and> inactive rule now t \<and> ?es = [] \<and> can_remove ops p")
    case True
    then have "purge_entry ops now rule p (Dir t es) = None" by simp
    moreover have "dirs_kept rule now (dirs_of p es) []" using e True by simp
    ultimately show ?thesis using True by (simp add: dirs_opt_def dirs_kept_def)
  next
    case False
    then have "purge_entry ops now rule p (Dir t es) = Some (Dir (touch ops p es ?es t) ?es)" by (simp add: Let_def)
    with e show ?thesis by (auto simp: dirs_opt_def dirs_kept_def intro: list_emb_Cons)
  qed
qed (simp_all add: dirs_opt_def)

text \<open>
  Purging a directory: the files and directories that stay.
\<close>

lemma purgeOldFiles_removes:
  "files_of p (purgeOldFiles ops now rule p es) = filter (\<lambda>f. \<not> removed ops now rule p f) (files_of p es) \<and>
   subseq (map fst (dirs_of p (purgeOldFiles ops now rule p es))) (map fst (dirs_of p es)) \<and>
   subseq (map fst (filter (\<lambda>(q, t). \<not> (purgeEmptyDirectory rule \<and> inactive rule now t)) (dirs_of p es)))
     (map fst (dirs_of p (purgeOldFiles ops now rule p es)))"
proof (cases "can_list ops p")
  case True
  then show ?thesis using files_purged(1) dirs_purged(1) [of rule now p es ops] by (simp add: purgeOldFiles_def dirs_kept_def)
next
  case False
  have "\<not> removed ops now rule p (q, u)" if f: "(q, u) \<in> set (files_of p es)" for q u
    using visited_listed [OF files_below(1) [OF f]] False by (auto simp: removed_def)
  then have "filter (\<lambda>f. \<not> removed ops now rule p f) (files_of p es) = files_of p es" by (auto intro!: filter_True)
  with False show ?thesis by (simp add: purgeOldFiles_def subseq_map)
qed

text \<open>The file system after purging one monitored directory.\<close>

definition selects :: "fs_ops \<Rightarrow> int \<Rightarrow> path \<times> PurgingRule \<Rightarrow> path \<times> int \<Rightarrow> bool" where
  "selects ops now = (\<lambda>(dir, rule) f. strict_prefix dir (fst f) \<and> removed ops now rule dir f)"

lemma files_map: "files_of p (map (\<lambda>(n, nd). (n, g n nd)) es) = concat (map (\<lambda>(n, nd). files_node (p @ [n]) (g n nd)) es)"
  by (induction es) auto

lemma files_concat: "files_of p es = concat (map (\<lambda>(n, nd). files_node (p @ [n]) nd) es)"
  using files_map [of p "\<lambda>n nd. nd"] by (simp add: case_prod_unfold)

lemma files_at_path:
  "files_node p (at_path dir (purge_dir ops now rule (p @ dir)) nd) = filter (\<lambda>f. \<not> selects ops now (p @ dir, rule) f) (files_node p nd)"
proof (induction dir arbitrary: p nd)
  case Nil
  show ?case
  proof (cases nd)
    case (Dir t es)
    have "filter (\<lambda>f. \<not> removed ops now rule p f) (files_of p es) = filter (\<lambda>f. \<not> selects ops now (p, rule) f) (files_of p es)"
      by (rule filter_cong [OF refl]) (auto simp: selects_def dest: files_below(1))
    with Dir show ?thesis using purgeOldFiles_removes [of p ops now rule es] by (simp add: purge_dir_def Let_def)
  qed (simp_all add: purge_dir_def selects_def)
next
  case (Cons c cs)
  show ?case
  proof (cases nd)
    case (Dir t es)
    have e: "files_node (p @ [n]) (if n = c then at_path cs (purge_dir ops now rule (p @ c # cs)) nd' else nd') =
        filter (\<lambda>f. \<not> selects ops now (p @ c # cs, rule) f) (files_node (p @ [n]) nd')" for n nd'
    proof (cases "n = c")
      case True
      then show ?thesis using Cons.IH [of "p @ [c]" nd'] by simp
    next
      case False
      have "\<not> selects ops now (p @ c # cs, rule) f" if "f \<in> set (files_node (p @ [n]) nd')" for f
        using that False files_below(2) [of "fst f" "snd f" "p @ [n]" nd'] by (auto simp: selects_def prefix_def strict_prefix_def)
      then have "filter (\<lambda>f. \<not> selects ops now (p @ c # cs, rule) f) (files_node (p @ [n]) nd') = files_node (p @ [n]) nd'"
        by (auto intro!: filter_True)
      with False show ?thesis by simp
    qed
    show ?thesis unfolding Dir at_path.simps files_node.simps files_map files_concat filter_concat
      by (simp add: comp_def case_prod_unfold e)
  qed (auto simp: selects_def strict_prefix_def prefix_def)
qed

section \<open>The thread\<close>

text \<open>
  The thread holds \<open>cvMtx_\<close> from its start to its end, except while it waits; the destructor needs it to set \<open>stop_\<close>. A pass works on a copy of the rules
  in some order. \<open>Waiting\<close> ends by the notification, after 300 seconds or without a reason.
\<close>

datatype phase = Starting | Purging int "(path \<times> PurgingRule) list" | Waiting | Exited

record purger =
  rules :: "path \<rightharpoonup> PurgingRule"
  stop :: bool
  thread :: phase
  disk :: node

definition FilePurger :: "(path \<rightharpoonup> PurgingRule) option \<Rightarrow> node \<Rightarrow> purger" where
  "FilePurger rs d = \<lparr>rules = (case rs of None \<Rightarrow> (\<lambda>dir. None) | Some rs \<Rightarrow> rs), stop = False, thread = Starting, disk = d\<rparr>"

definition Add :: "path \<Rightarrow> PurgingRule \<Rightarrow> purger \<Rightarrow> purger" where
  "Add dir rule s = s\<lparr>rules := (rules s)(dir \<mapsto> rule)\<rparr>"

definition Remove :: "path \<Rightarrow> purger \<Rightarrow> purger" where
  "Remove dir s = s\<lparr>rules := (rules s)(dir := None)\<rparr>"

definition Clear :: "purger \<Rightarrow> purger" where
  "Clear s = s\<lparr>rules := (\<lambda>dir. None)\<rparr>"

text \<open>The head of the loop, with the copy of the rules and the time; one directory; the end of a pass; and the destructor up to \<open>join\<close>.\<close>

definition loop_head :: "int \<Rightarrow> (path \<times> PurgingRule) list \<Rightarrow> purger \<Rightarrow> purger" where
  "loop_head now rs s = (if stop s then s\<lparr>thread := Exited\<rparr> else s\<lparr>thread := Purging now rs\<rparr>)"

definition purge_next :: "fs_ops \<Rightarrow> int \<Rightarrow> (path \<times> PurgingRule) list \<Rightarrow> purger \<Rightarrow> purger" where
  "purge_next ops now rs s =
     (case rs of
        [] \<Rightarrow> s\<lparr>thread := Waiting\<rparr>
      | (dir, rule) # rs' \<Rightarrow> s\<lparr>disk := at_path dir (purge_dir ops now rule dir) (disk s), thread := Purging now rs'\<rparr>)"

definition request_stop :: "purger \<Rightarrow> purger" where
  "request_stop s = s\<lparr>stop := True\<rparr>"

definition mutex_free :: "purger \<Rightarrow> bool" where
  "mutex_free s \<longleftrightarrow> (case thread s of Purging now rs \<Rightarrow> False | _ \<Rightarrow> True)"

inductive thread_step :: "purger \<Rightarrow> purger \<Rightarrow> bool" where
  head: "thread s \<in> {Starting, Waiting} \<Longrightarrow> map_of rs = rules s \<Longrightarrow> distinct (map fst rs) \<Longrightarrow> thread_step s (loop_head now rs s)"
| purge: "thread s = Purging now rs \<Longrightarrow> thread_step s (purge_next ops now rs s)"

inductive user_step :: "purger \<Rightarrow> purger \<Rightarrow> bool" where
  add: "user_step s (Add dir rule s)"
| remove: "user_step s (Remove dir s)"
| clear: "user_step s (Clear s)"
| stop: "mutex_free s \<Longrightarrow> user_step s (request_stop s)"

inductive_cases thread_stepE: "thread_step s s'"
inductive_cases user_stepE: "user_step s s'"

inductive purger_reach :: "purger \<Rightarrow> bool" where
  start: "(\<forall>m. rs = Some m \<longrightarrow> finite (dom m)) \<Longrightarrow> purger_reach (FilePurger rs d)"
| thread: "purger_reach s \<Longrightarrow> thread_step s s' \<Longrightarrow> purger_reach s'"
| user: "purger_reach s \<Longrightarrow> user_step s s' \<Longrightarrow> purger_reach s'"

lemmas purger_ops = FilePurger_def Add_def Remove_def Clear_def loop_head_def purge_next_def request_stop_def mutex_free_def

lemma rules_listed:
  assumes "finite (dom m)"
  shows "\<exists>rs. map_of rs = m \<and> distinct (map fst rs)"
proof -
  obtain ds where ds: "set ds = dom m" "distinct ds" using finite_distinct_list [OF assms] by blast
  let ?rs = "map (\<lambda>d. (d, the (m d))) ds"
  have "map_of ?rs d = m d" for d
    unfolding map_of_map_restrict restrict_map_def ds(1) by (cases "m d") (simp_all add: domIff)
  then have "map_of ?rs = m" by (rule ext)
  moreover have "distinct (map fst ?rs)" using ds(2) by (simp add: comp_def)
  ultimately show ?thesis by (intro exI [of _ ?rs] conjI)
qed

lemma finite_rules_upd: "finite (dom m) \<Longrightarrow> finite (dom (m(d := x)))"
  by (cases x) simp_all

lemma purger_inv: "purger_reach s \<Longrightarrow> finite (dom (rules s)) \<and> (stop s \<longrightarrow> mutex_free s)"
proof (induction rule: purger_reach.induct)
  case (start rs d)
  then show ?case by (auto simp: purger_ops split: option.splits)
next
  case (thread s s')
  then show ?case by (auto elim!: thread_stepE simp: purger_ops split: list.splits if_splits)
next
  case (user s s')
  then show ?case by (auto elim!: user_stepE simp: purger_ops finite_rules_upd simp del: fun_upd_apply)
qed

text \<open>
  (liveness) The destructor does not wait for ever, and nothing is purged once it has set \<open>stop_\<close>. In every state of a purger, a pass shrinks with each step of the
  thread and ends with the mutex released; \<open>stop_\<close> is set outside a pass only; then the thread can make a step
  until it has ended, its next step ends it without a change to the file system, and the user can not make it go on.
\<close>

theorem purger_stops:
  assumes "purger_reach s"
  shows "(thread s = Purging now rs \<and> thread_step s s' \<longrightarrow> thread s' = (case rs of [] \<Rightarrow> Waiting | r # rs' \<Rightarrow> Purging now rs')) \<and>
    (thread s \<noteq> Exited \<longrightarrow> (\<exists>s'. thread_step s s')) \<and>
    (stop s \<and> thread_step s s' \<longrightarrow> thread s' = Exited \<and> disk s' = disk s) \<and>
    (stop s \<and> user_step s s' \<longrightarrow> stop s' \<and> thread s' = thread s \<and> disk s' = disk s) \<and>
    (thread s = Exited \<longrightarrow> \<not> thread_step s s')"
proof -
  have i: "finite (dom (rules s))" "stop s \<longrightarrow> mutex_free s" using purger_inv [OF assms] by blast+
  have "\<exists>s'. thread_step s s'" if "thread s \<noteq> Exited"
  proof (cases "thread s")
    case (Purging now rs)
    then show ?thesis by (blast intro: thread_step.purge)
  qed (use that rules_listed [OF i(1)] in \<open>auto intro: thread_step.head\<close>)
  moreover have "thread s' = (case rs of [] \<Rightarrow> Waiting | r # rs' \<Rightarrow> Purging now rs')" if "thread s = Purging now rs" "thread_step s s'"
    using that(2,1) by (cases rule: thread_stepE) (auto simp: purge_next_def split: list.splits)
  moreover have "thread s' = Exited \<and> disk s' = disk s" if "stop s" "thread_step s s'"
    using that(2,1) i(2) by (cases rule: thread_stepE) (auto simp: purger_ops)
  moreover have "stop s' \<and> thread s' = thread s \<and> disk s' = disk s" if "stop s" "user_step s s'"
    using that(2,1) by (cases rule: user_stepE) (auto simp: purger_ops)
  moreover have "\<not> thread_step s s'" if "thread s = Exited" using that by (auto elim!: thread_stepE)
  ultimately show ?thesis by blast
qed


section \<open>Witness\<close>

definition plain_fs :: fs_ops where
  "plain_fs = \<lparr>can_list = (\<lambda>p. True), can_stat = (\<lambda>p. True), can_remove = (\<lambda>p. True), changed_at = (\<lambda>p. 0)\<rparr>"

definition hour_rule :: PurgingRule where
  "hour_rule = \<lparr>inactiveTime = 3600, purgeRecursively = True, purgeEmptyDirectory = True\<rparr>"


theorem purger_stops_witness:
  "\<exists>s. purger_reach s \<and> stop s \<and> thread s = Starting \<and> (\<forall>s'. thread_step s s' \<longrightarrow> thread s' = Exited \<and> disk s' = Dir 0 [(''a'', File 0)])"
proof -
  let ?s = "request_stop (FilePurger (Some [[''tmp''] \<mapsto> hour_rule]) (Dir 0 [(''a'', File 0)]))"
  have "purger_reach (FilePurger (Some [[''tmp''] \<mapsto> hour_rule]) (Dir 0 [(''a'', File 0)]))" by (rule purger_reach.start) simp
  then have "purger_reach ?s" by (rule purger_reach.user) (rule user_step.stop, simp add: purger_ops)
  moreover from purger_stops [OF this] have "\<forall>s'. thread_step ?s s' \<longrightarrow> thread s' = Exited \<and> disk s' = Dir 0 [(''a'', File 0)]"
    by (simp add: request_stop_def FilePurger_def)
  ultimately show ?thesis by (intro exI [of _ ?s]) (simp add: purger_ops)
qed

end
