(* ===== verification/Process_Utils.thy ===== *)
theory Process_Utils
  imports Prelude
begin

text \<open>
  Model of \<open>system/daemon\<close>, \<open>system/resource\<close> and \<open>system/signal\<close> (POSIX variants). A process is described by what these functions
  change. Which system calls succeed is a parameter.
\<close>

section \<open>Processes\<close>

record proc =
  leader :: bool
  tty :: bool
  ignored :: "int set"
  blocked :: "int set"
  mask :: nat
  cwd :: string
  fds :: "nat \<rightharpoonup> string"
  core_limit :: u64
  file_limit :: u64

record sys_calls =
  fork_ok :: "nat \<Rightarrow> bool"
  sigaction_ok :: bool
  chdir_ok :: bool
  open_null :: "proc \<Rightarrow> nat option"
  dup2_ok :: "nat \<Rightarrow> bool"

definition SIGHUP :: int where
  "SIGHUP = 1"

text \<open>The child of \<open>fork\<close> leads no session. \<open>setsid\<close> makes it the leader of a new session without a terminal.\<close>

definition child :: "proc \<Rightarrow> proc" where
  "child p = p\<lparr>leader := False\<rparr>"

definition setsid :: "proc \<Rightarrow> proc" where
  "setsid p = p\<lparr>leader := True, tty := False\<rparr>"

definition dup2 :: "sys_calls \<Rightarrow> nat option \<Rightarrow> nat \<Rightarrow> proc \<Rightarrow> nat option \<times> proc" where
  "dup2 k fd n p =
     (case fd of None \<Rightarrow> (None, p) | Some f \<Rightarrow> if dup2_ok k n \<and> fds p f \<noteq> None then (Some n, p\<lparr>fds := (fds p)(n := fds p f)\<rparr>) else (None, p))"

definition close_fd :: "nat option \<Rightarrow> proc \<Rightarrow> proc" where
  "close_fd fd p = (case fd of None \<Rightarrow> p | Some f \<Rightarrow> p\<lparr>fds := (fds p)(f := None)\<rparr>)"

section \<open>Daemonize\<close>

datatype fate = Exit int | Return bool

text \<open>The redirection of the standard descriptors.\<close>

definition redirect :: "sys_calls \<Rightarrow> proc \<Rightarrow> bool \<times> proc" where
  "redirect k p =
     (let fd = open_null k p;
          p = (case fd of None \<Rightarrow> p | Some f \<Rightarrow> p\<lparr>fds := (fds p)(f \<mapsto> ''/dev/null'')\<rparr>);
          (fdIn, p) = dup2 k fd 0 p;
          (fdOut, p) = dup2 k fd 1 p;
          (fdErr, p) = dup2 k fd 2 p;
          p = close_fd fd p
      in (\<not> (fdIn \<noteq> Some 0 \<or> fdOut \<noteq> Some 1 \<or> fdErr \<noteq> Some 2), p))"

text \<open>The second child.\<close>

definition daemon_part :: "sys_calls \<Rightarrow> bool \<Rightarrow> bool \<Rightarrow> proc \<Rightarrow> fate \<times> proc" where
  "daemon_part k noChgDir noClose p =
     (if \<not> noChgDir \<and> \<not> chdir_ok k then (Return False, p)
      else let p = (if noChgDir then p else p\<lparr>cwd := ''/''\<rparr>) in
        if \<not> noClose then (case redirect k p of (ok, p) \<Rightarrow> (Return ok, p)) else (Return True, p))"

text \<open>What becomes of the calling process and of its descendants, in the order in which they end or return.\<close>

definition Daemonize :: "sys_calls \<Rightarrow> bool \<Rightarrow> bool \<Rightarrow> proc \<Rightarrow> (fate \<times> proc) list" where
  "Daemonize k noChgDir noClose p =
     (let p = p\<lparr>mask := 0\<rparr> in
      if \<not> fork_ok k 0 then [(Return False, p)]
      else (Exit 0, p) #
        (let c = setsid (child p) in
         if \<not> sigaction_ok k then [(Return False, c)]
         else let c = c\<lparr>ignored := insert SIGHUP (ignored c)\<rparr> in
           if \<not> fork_ok k 1 then [(Return False, c)]
           else [(Exit 0, c), daemon_part k noChgDir noClose (child c)]))"

section \<open>Limits and signals\<close>

text \<open>\<open>setrlimit\<close> gets the same value for both limits.\<close>

definition SetMaxCoreFileSize :: "(u64 \<Rightarrow> bool) \<Rightarrow> u64 \<Rightarrow> proc \<Rightarrow> bool \<times> proc" where
  "SetMaxCoreFileSize setrlimit_ok sizeInGB p =
     (let rlim_cur = sizeInGB * 1024 * 1024 * 1024 in
      if setrlimit_ok rlim_cur then (True, p\<lparr>core_limit := rlim_cur\<rparr>) else (False, p))"

definition SetMaxOpenFiles :: "(u64 \<Rightarrow> bool) \<Rightarrow> u64 \<Rightarrow> proc \<Rightarrow> bool \<times> proc" where
  "SetMaxOpenFiles setrlimit_ok maxFileNum p =
     (if setrlimit_ok maxFileNum then (True, p\<lparr>file_limit := maxFileNum\<rparr>) else (False, p))"

definition IgnoreSignal :: "(int \<Rightarrow> bool) \<Rightarrow> int \<Rightarrow> proc \<Rightarrow> bool \<times> proc" where
  "IgnoreSignal signal_ok sigNum p = (if signal_ok sigNum then (True, p\<lparr>ignored := insert sigNum (ignored p)\<rparr>) else (False, p))"

text \<open>\<open>SIGKILL\<close> and \<open>SIGSTOP\<close> cannot be blocked; \<open>pthread_sigmask\<close> passes over them silently.\<close>

definition ThreadBlockAllSignals :: "bool \<Rightarrow> bool \<Rightarrow> proc \<Rightarrow> bool \<times> proc" where
  "ThreadBlockAllSignals sigfillset_ok sigmask_ok p =
     (if sigfillset_ok \<and> sigmask_ok then (True, p\<lparr>blocked := blocked p \<union> (UNIV - {9, 19})\<rparr>) else (False, p))"

section \<open>Properties\<close>

text \<open>A system in which every call succeeds and \<open>open\<close> returns a descriptor that is not in use.\<close>

definition calls_succeed :: "sys_calls \<Rightarrow> bool" where
  "calls_succeed k \<longleftrightarrow> (\<forall>n. fork_ok k n \<and> dup2_ok k n) \<and> sigaction_ok k \<and> chdir_ok k"

lemma redirect_eq:
  assumes "calls_succeed k" and "open_null k p = Some n" and "fds p n = None"
  shows "redirect k p = (True, p\<lparr>fds := (fds p)(0 \<mapsto> ''/dev/null'', 1 \<mapsto> ''/dev/null'', 2 \<mapsto> ''/dev/null'', n := None)\<rparr>)"
  using assms by (auto simp: redirect_def dup2_def close_fd_def calls_succeed_def Let_def fun_eq_iff)

text \<open>One process returns, the others exit.\<close>

definition one_returns :: "(fate \<times> proc) list \<Rightarrow> bool" where
  "one_returns ps \<longleftrightarrow> (\<exists>b d. last ps = (Return b, d)) \<and> (\<forall>x\<in>set (butlast ps). fst x = Exit 0)"

lemma daemon_part_returns: "\<exists>b d. daemon_part k noChgDir noClose q = (Return b, d)"
  by (auto simp: daemon_part_def Let_def split: prod.splits)

lemma Daemonize_one_returns: "one_returns (Daemonize k noChgDir noClose p)"
proof -
  have "\<exists>b d. daemon_part k noChgDir noClose (child c) = (Return b, d)" for c by (rule daemon_part_returns)
  then show ?thesis unfolding Daemonize_def Let_def by (auto simp: one_returns_def)
qed


text \<open>
  (error) When a standard descriptor is closed at the call, \<open>open\<close> returns it, the lowest one that is free; the redirection then closes it again, and
  \<open>Daemonize\<close> reports success to a daemon that has no such descriptor.
\<close>

theorem Daemonize_loses_descriptor:
  assumes "calls_succeed k" and "\<forall>q. fds q n = None \<and> (\<forall>m<n. fds q m \<noteq> None) \<longrightarrow> open_null k q = Some n"
    and "fds p n = None" and "\<forall>m<n. fds p m \<noteq> None" and "n \<le> 2"
  shows "\<exists>p1 p2 d. Daemonize k noChgDir False p = [(Exit 0, p1), (Exit 0, p2), (Return True, d)] \<and> fds d n = None"
proof -
  define c where "c = (setsid (child (p\<lparr>mask := 0\<rparr>)))\<lparr>ignored := insert SIGHUP (ignored p)\<rparr>"
  define q where "q = (if noChgDir then child c else (child c)\<lparr>cwd := ''/''\<rparr>)"
  have q: "fds q = fds p" by (auto simp: q_def c_def child_def setsid_def)
  have "open_null k q = Some n" "fds q n = None" using assms(2-4) q by auto
  from redirect_eq [OF assms(1) this] obtain d where "redirect k q = (True, d)" "fds d n = None" by simp
  then have "daemon_part k noChgDir False (child c) = (Return True, d)"
    using assms(1) by (auto simp: daemon_part_def Let_def q_def calls_succeed_def)
  then have "Daemonize k noChgDir False p = [(Exit 0, p\<lparr>mask := 0\<rparr>), (Exit 0, c), (Return True, d)]"
    using assms(1) by (simp add: Daemonize_def Let_def calls_succeed_def c_def setsid_def child_def)
  with \<open>fds d n = None\<close> show ?thesis by blast
qed

text \<open>
  (bounds) The limit of core files is \<open>sizeInGB\<close> times 2^30 bytes below 2^34 GB; from there on the 64-bit product wraps around, and 2^34 GB sets the limit to 0.
\<close>

theorem core_limit_bounds:
  "(sizeInGB < 2 ^ 34 \<and> SetMaxCoreFileSize ok sizeInGB p = (True, p') \<longrightarrow> unat (core_limit p') = unat sizeInGB * 2 ^ 30) \<and>
   (ok 0 \<longrightarrow> SetMaxCoreFileSize ok (2 ^ 34) p = (True, p\<lparr>core_limit := 0\<rparr>))"
proof (intro conjI impI)
  assume a: "sizeInGB < 2 ^ 34 \<and> SetMaxCoreFileSize ok sizeInGB p = (True, p')"
  have "unat sizeInGB < 2 ^ 34" using a by (simp add: word_less_nat_alt)
  then have "unat (sizeInGB * 2 ^ 30) = unat sizeInGB * 2 ^ 30" by (simp add: unat_word_ariths)
  moreover have "core_limit p' = sizeInGB * 2 ^ 30" using a by (auto simp: SetMaxCoreFileSize_def Let_def mult.assoc split: if_splits)
  ultimately show "unat (core_limit p') = unat sizeInGB * 2 ^ 30" by simp
next
  assume "ok 0"
  moreover have "(2 :: u64) ^ 34 * 1024 * 1024 * 1024 = 0" by (rule word_unat_eq_iff [THEN iffD2]) (simp add: unat_word_ariths)
  ultimately show "SetMaxCoreFileSize ok (2 ^ 34) p = (True, p\<lparr>core_limit := 0\<rparr>)" unfolding SetMaxCoreFileSize_def Let_def by (simp only: if_True)
qed

section \<open>Witnesses\<close>

definition shell_proc :: proc where
  "shell_proc = \<lparr>leader = False, tty = True, ignored = {}, blocked = {}, mask = 18, cwd = ''/home'',
     fds = [0 \<mapsto> ''/dev/tty'', 1 \<mapsto> ''/dev/tty'', 2 \<mapsto> ''/dev/tty''], core_limit = 0, file_limit = 1024\<rparr>"

definition good_calls :: sys_calls where
  "good_calls = \<lparr>fork_ok = (\<lambda>n. True), sigaction_ok = True, chdir_ok = True,
     open_null = (\<lambda>q. find (\<lambda>n. fds q n = None) [0..<10]), dup2_ok = (\<lambda>n. True)\<rparr>"


theorem Daemonize_loses_descriptor_witness:
  "\<exists>p1 p2 d. Daemonize good_calls False False (shell_proc\<lparr>fds := [1 \<mapsto> ''/dev/tty'', 2 \<mapsto> ''/dev/tty'']\<rparr>) = [(Exit 0, p1), (Exit 0, p2), (Return True, d)] \<and>
     fds d 0 = None"
proof -
  have "calls_succeed good_calls" by (simp add: calls_succeed_def good_calls_def)
  moreover have "\<forall>q. fds q 0 = None \<and> (\<forall>m<0. fds q m \<noteq> None) \<longrightarrow> open_null good_calls q = Some 0" by (simp add: good_calls_def upt_rec)
  ultimately show ?thesis
    using Daemonize_loses_descriptor [of good_calls 0 "shell_proc\<lparr>fds := [1 \<mapsto> ''/dev/tty'', 2 \<mapsto> ''/dev/tty'']\<rparr>" False] by simp
qed

theorem core_limit_bounds_witness:
  "unat (core_limit (snd (SetMaxCoreFileSize (\<lambda>n. True) 2 shell_proc))) = 2 ^ 31 \<and>
   SetMaxCoreFileSize (\<lambda>n. True) (2 ^ 34) shell_proc = (True, shell_proc\<lparr>core_limit := 0\<rparr>)"
  using core_limit_bounds [of 2 "\<lambda>n. True" shell_proc "snd (SetMaxCoreFileSize (\<lambda>n. True) 2 shell_proc)"]
  by (simp add: SetMaxCoreFileSize_def Let_def)

end
