(* ===== verification/Char_Convert.thy ===== *)
theory Char_Convert
  imports Prelude
begin

text \<open>
  Model of \<open>encoding/char/convert.h\<close> and \<open>.cpp\<close> for systems with \<open>iconv\<close>. The converter is a parameter: for the rest of the input and the space that is left, whether
  the call succeeds, how many bytes it consumes and what it writes. The Windows functions are not modelled.
\<close>

section \<open>Conversion\<close>

datatype CharEncodingType = kEncodingGBK | kEncodingUTF8

fun encoding_name :: "CharEncodingType \<Rightarrow> string" where
  "encoding_name kEncodingGBK = ''GBK''"
| "encoding_name kEncodingUTF8 = ''UTF-8''"

type_synonym iconv = "bytes \<Rightarrow> nat \<Rightarrow> bool \<times> nat \<times> bytes"

text \<open>
  The loop, on the rest of the input, the output buffer and \<open>outBytesLeft\<close>; \<open>None\<close> if it does not end. The pointer \<open>out\<close> stands \<open>outBytesLeft\<close> bytes before the
  end of the buffer.
\<close>

partial_function (option) convert_loop :: "iconv \<Rightarrow> bytes \<Rightarrow> bytes \<Rightarrow> nat \<Rightarrow> bytes option" where
  "convert_loop cd inp outBuf outBytesLeft =
     (if inp = [] then Some (take (length outBuf - outBytesLeft) outBuf)
      else case cd inp outBytesLeft of (ok, consumed, out) \<Rightarrow>
        if ok then convert_loop cd (drop consumed inp) (splice_at (length outBuf - outBytesLeft) out outBuf) (outBytesLeft - length out)
        else Some [])"

text \<open>\<open>iconv_open\<close> gives a converter for the names of two encodings, or fails. The size of the output buffer is computed with 64 bits.\<close>

definition convertEncoding :: "(string \<Rightarrow> string \<Rightarrow> iconv option) \<Rightarrow> bytes \<Rightarrow> CharEncodingType \<Rightarrow> CharEncodingType \<Rightarrow> bytes option" where
  "convertEncoding iconv_open input fromEncoding toEncoding =
     (case iconv_open (encoding_name toEncoding) (encoding_name fromEncoding) of
        None \<Rightarrow> Some []
      | Some cd \<Rightarrow>
          let n = unat (of_nat (length input) * 2 :: u64) in convert_loop cd input (replicate n 0) n)"

definition Utf8ToGbk :: "(string \<Rightarrow> string \<Rightarrow> iconv option) \<Rightarrow> bytes \<Rightarrow> bytes option" where
  "Utf8ToGbk iconv_open input = convertEncoding iconv_open input kEncodingUTF8 kEncodingGBK"

definition GbkToUtf8 :: "(string \<Rightarrow> string \<Rightarrow> iconv option) \<Rightarrow> bytes \<Rightarrow> bytes option" where
  "GbkToUtf8 iconv_open input = convertEncoding iconv_open input kEncodingGBK kEncodingUTF8"

section \<open>Converters that work character by character\<close>

text \<open>
  A character table: for an input that starts with a complete character, the number of its bytes and its bytes in the other encoding. \<open>iconv\<close> converts characters until
  the input ends, or until it fails at a character that is invalid, incomplete or finds no space.
\<close>

type_synonym table = "bytes \<Rightarrow> (nat \<times> bytes) option"

definition table_ok :: "table \<Rightarrow> bool" where
  "table_ok T \<longleftrightarrow> (\<forall>inp k out. T inp = Some (k, out) \<longrightarrow> 0 < k \<and> k \<le> length inp \<and> length out \<le> 2 * k)"

function iconv_spec :: "table \<Rightarrow> bytes \<Rightarrow> nat \<Rightarrow> bool \<times> nat \<times> bytes" where
  "iconv_spec T inp left =
     (if inp = [] then (True, 0, [])
      else case T inp of
             None \<Rightarrow> (False, 0, [])
           | Some (k, out) \<Rightarrow>
               if k = 0 \<or> left < length out then (False, 0, [])
               else case iconv_spec T (drop k inp) (left - length out) of (ok, n, out') \<Rightarrow> (ok, k + n, out @ out'))"
  by auto
termination by (relation "measure (\<lambda>(T, inp, left). length inp)") auto

declare iconv_spec.simps [simp del]

text \<open>The text in the other encoding, \<open>None\<close> for an input that is not a sequence of characters.\<close>

function transcode :: "table \<Rightarrow> bytes \<Rightarrow> bytes option" where
  "transcode T inp =
     (if inp = [] then Some []
      else case T inp of
             None \<Rightarrow> None
           | Some (k, out) \<Rightarrow> if k = 0 then None else map_option ((@) out) (transcode T (drop k inp)))"
  by auto
termination by (relation "measure (\<lambda>(T, inp). length inp)") auto

declare transcode.simps [simp del]

lemma transcode_Nil [simp]: "transcode T [] = Some []" "iconv_spec T [] left = (True, 0, [])"
  by (simp_all add: transcode.simps iconv_spec.simps)

lemma iconv_spec_transcode:
  assumes "table_ok T"
  shows "2 * length inp \<le> left \<Longrightarrow> \<exists>n out. iconv_spec T inp left = (transcode T inp \<noteq> None, n, out) \<and>
    (\<forall>x. transcode T inp = Some x \<longrightarrow> n = length inp \<and> out = x \<and> length x \<le> 2 * length inp)"
proof (induction inp arbitrary: left rule: length_induct)
  case (1 inp)
  show ?case
  proof (cases "inp = [] \<or> T inp = None")
    case True
    then have "iconv_spec T inp left = (transcode T inp \<noteq> None, 0, []) \<and> (transcode T inp \<noteq> None \<longrightarrow> inp = [] \<and> transcode T inp = Some [])"
      by (cases "inp = []") (simp_all add: iconv_spec.simps [of T inp] transcode.simps [of T inp])
    then show ?thesis by (intro exI [of _ 0] exI [of _ "[]"]) auto
  next
    case False
    then obtain k out where T: "inp \<noteq> []" "T inp = Some (k, out)" by auto
    then have k: "0 < k" "k \<le> length inp" "length out \<le> 2 * k" using assms unfolding table_ok_def by blast+
    then have l: "length (drop k inp) < length inp" "2 * length (drop k inp) \<le> left - length out" "length out \<le> left" using 1(2) by auto
    from 1(1) [rule_format, OF l(1,2)] obtain n out' where r: "iconv_spec T (drop k inp) (left - length out) = (transcode T (drop k inp) \<noteq> None, n, out')"
      "\<forall>x. transcode T (drop k inp) = Some x \<longrightarrow> n = length (drop k inp) \<and> out' = x \<and> length x \<le> 2 * length (drop k inp)" by blast
    have "iconv_spec T inp left = (transcode T (drop k inp) \<noteq> None, k + n, out @ out')"
      using T k(1) r(1) l(3) by (simp add: iconv_spec.simps [of T inp])
    moreover have "transcode T inp = map_option ((@) out) (transcode T (drop k inp))"
      using T k(1) by (simp add: transcode.simps [of T inp])
    ultimately show ?thesis using r(2) k(2,3)
      by (intro exI [of _ "k + n"] exI [of _ "out @ out'"]) (cases "transcode T (drop k inp)", simp, force)
  qed
qed

lemma convert_loop_spec:
  assumes "table_ok T"
  shows "convert_loop (iconv_spec T) inp (replicate (2 * length inp) 0) (2 * length inp) =
    Some (case transcode T inp of None \<Rightarrow> [] | Some x \<Rightarrow> x)"
proof (cases "inp = []")
  case True
  then show ?thesis by (simp add: convert_loop.simps transcode.simps)
next
  case False
  obtain n out where r: "iconv_spec T inp (2 * length inp) = (transcode T inp \<noteq> None, n, out)"
    "\<forall>x. transcode T inp = Some x \<longrightarrow> n = length inp \<and> out = x \<and> length x \<le> 2 * length inp"
    using iconv_spec_transcode [OF assms, of inp "2 * length inp"] by blast
  show ?thesis
  proof (cases "transcode T inp")
    case None
    with False r show ?thesis by (simp add: convert_loop.simps [of _ inp])
  next
    case (Some x)
    have "convert_loop (iconv_spec T) inp (replicate (2 * length inp) 0) (2 * length inp) =
        convert_loop (iconv_spec T) [] (splice_at 0 x (replicate (2 * length inp) 0)) (2 * length inp - length x)"
      using False Some r by (simp add: convert_loop.simps [of _ inp])
    also have "\<dots> = Some x" using Some r(2) by (simp add: convert_loop.simps [of _ "[]"] splice_at_def)
    finally show ?thesis using Some by simp
  qed
qed

text \<open>Two tables that undo each other.\<close>

definition inverse_tables :: "table \<Rightarrow> table \<Rightarrow> bool" where
  "inverse_tables T U \<longleftrightarrow> (\<forall>inp k out rest. T inp = Some (k, out) \<longrightarrow> out \<noteq> [] \<and> U (out @ rest) = Some (length out, take k inp))"

lemma transcode_back:
  assumes "inverse_tables T U"
  shows "transcode T inp = Some x \<Longrightarrow> transcode U x = Some inp"
proof (induction inp arbitrary: x rule: length_induct)
  case (1 inp)
  show ?case
  proof (cases "inp = []")
    case True
    with 1(2) show ?thesis by (simp add: transcode.simps)
  next
    case False
    then obtain k out y where T: "T inp = Some (k, out)" "0 < k" "transcode T (drop k inp) = Some y" "x = out @ y"
      using 1(2) by (auto simp: transcode.simps [of T inp] split: option.splits if_splits)
    have U: "out \<noteq> []" "U (out @ y) = Some (length out, take k inp)" using assms T(1) by (auto simp: inverse_tables_def)
    have "length (drop k inp) < length inp" using False T(2) by simp
    then have "transcode U y = Some (drop k inp)" using 1(1) T(3) by blast
    then show ?thesis using U T(4) by (simp add: transcode.simps [of U "out @ y"])
  qed
qed

lemma convertEncoding_eq:
  assumes "iconv_open (encoding_name toEncoding) (encoding_name fromEncoding) = map_option iconv_spec T" and "pred_option table_ok T"
    and "2 * length input < 2 ^ 64"
  shows "convertEncoding iconv_open input fromEncoding toEncoding =
    Some (case T of None \<Rightarrow> [] | Some T \<Rightarrow> (case transcode T input of None \<Rightarrow> [] | Some x \<Rightarrow> x))"
proof -
  have "unat (of_nat (length input) * 2 :: u64) = unat (of_nat (2 * length input) :: u64)" by (simp add: mult.commute)
  also have "\<dots> = 2 * length input" using assms(3) by (intro unat_of_nat_small) simp
  finally show ?thesis using assms(1,2) convert_loop_spec by (cases T) (simp_all add: convertEncoding_def)
qed

section \<open>Properties\<close>

text \<open>
  C33: (functional) Converting a text between UTF-8 and GBK, with an \<open>iconv\<close> that works by a character table in which no character grows to more than twice its length:
  the loop ends and gives the text in the other encoding; for an input that is not a valid text, or when \<open>iconv_open\<close> fails, the result is
  empty. So the output buffer of twice the input size is always large enough.
\<close>

theorem convertEncoding_transcodes:
  assumes "iconv_open (encoding_name toEncoding) (encoding_name fromEncoding) = map_option iconv_spec T" and "pred_option table_ok T"
    and "2 * length input < 2 ^ 64"
  shows "convertEncoding iconv_open input fromEncoding toEncoding =
    Some (case T of None \<Rightarrow> [] | Some T \<Rightarrow> (case transcode T input of None \<Rightarrow> [] | Some x \<Rightarrow> x))"
  using assms by (rule convertEncoding_eq)

text \<open>
  (roundtrip) A UTF-8 text that has a GBK encoding comes back unchanged from \<open>GbkToUtf8\<close>.
\<close>

theorem utf8_gbk_round_trip:
  assumes "iconv_open ''GBK'' ''UTF-8'' = Some (iconv_spec T)" and "iconv_open ''UTF-8'' ''GBK'' = Some (iconv_spec U)"
    and "table_ok T" and "table_ok U" and "inverse_tables T U" and "transcode T input = Some gbk" and "2 * length input < 2 ^ 63"
  shows "Utf8ToGbk iconv_open input = Some gbk \<and> GbkToUtf8 iconv_open gbk = Some input"
proof -
  have l: "length gbk \<le> 2 * length input"
    using iconv_spec_transcode [OF assms(3) order_refl, of input] assms(6) by blast
  have "convertEncoding iconv_open input kEncodingUTF8 kEncodingGBK = Some gbk"
    using convertEncoding_eq [of iconv_open kEncodingGBK kEncodingUTF8 "Some T" input] assms by simp
  moreover have "convertEncoding iconv_open gbk kEncodingGBK kEncodingUTF8 = Some input"
    using convertEncoding_eq [of iconv_open kEncodingUTF8 kEncodingGBK "Some U" gbk] transcode_back [OF assms(5,6)] assms l by simp
  ultimately show ?thesis by (simp add: Utf8ToGbk_def GbkToUtf8_def)
qed

section \<open>Witnesses\<close>

text \<open>A table with the characters of one byte, and one character that has two bytes in the one encoding and three in the other.\<close>

definition demo_gbk :: table where
  "demo_gbk inp =
     (if take 3 inp = [0xE4, 0xB8, 0xAD] then Some (3, [0xD6, 0xD0])
      else case inp of [] \<Rightarrow> None | b # r \<Rightarrow> if b < 0x80 then Some (1, [b]) else None)"

definition demo_utf8 :: table where
  "demo_utf8 inp =
     (if take 2 inp = [0xD6, 0xD0] then Some (2, [0xE4, 0xB8, 0xAD])
      else case inp of [] \<Rightarrow> None | b # r \<Rightarrow> if b < 0x80 then Some (1, [b]) else None)"

definition demo_open :: "string \<Rightarrow> string \<Rightarrow> iconv option" where
  "demo_open to from = Some (iconv_spec (if to = ''GBK'' then demo_gbk else demo_utf8))"

lemma take_eq_length: "take n xs = ys \<Longrightarrow> length ys = n \<Longrightarrow> n \<le> length xs"
  by auto

lemma demo_tables_ok: "table_ok demo_gbk" "table_ok demo_utf8"
  by (auto simp: table_ok_def demo_gbk_def demo_utf8_def dest!: take_eq_length split: if_splits list.splits)

lemma demo_tables_inverse: "inverse_tables demo_gbk demo_utf8"
  by (auto simp: inverse_tables_def demo_gbk_def demo_utf8_def split: if_splits list.splits)

theorem convertEncoding_transcodes_witness:
  "convertEncoding demo_open [0x41, 0xE4, 0xB8, 0xAD] kEncodingUTF8 kEncodingGBK = Some [0x41, 0xD6, 0xD0]"
  using convertEncoding_transcodes [of demo_open kEncodingGBK kEncodingUTF8 "Some demo_gbk" "[0x41, 0xE4, 0xB8, 0xAD]"] demo_tables_ok
  by (simp add: demo_open_def demo_gbk_def transcode.simps [of _ "_ # _"])

theorem utf8_gbk_round_trip_witness:
  "Utf8ToGbk demo_open [0x41, 0xE4, 0xB8, 0xAD] = Some [0x41, 0xD6, 0xD0] \<and> GbkToUtf8 demo_open [0x41, 0xD6, 0xD0] = Some [0x41, 0xE4, 0xB8, 0xAD]"
  using utf8_gbk_round_trip [of demo_open demo_gbk demo_utf8 "[0x41, 0xE4, 0xB8, 0xAD]" "[0x41, 0xD6, 0xD0]"] demo_tables_ok demo_tables_inverse
  by (simp add: demo_open_def demo_gbk_def transcode.simps [of _ "_ # _"])

end
