(* ===== verification/Md5_File.thy ===== *)
theory Md5_File
  imports Hex
begin

text \<open>
  Model of \<open>hash/md5.h\<close> and \<open>.cpp\<close>. OpenSSL's digest context is a parameter; a file is the bytes that the stream delivers until it
  ends or a read fails, which the code does not distinguish.
\<close>

section \<open>The function\<close>

record 'ctx digest =
  EVP_MD_CTX_new :: bool
  EVP_DigestInit_ex :: "'ctx option"
  EVP_DigestUpdate :: "bytes \<Rightarrow> 'ctx \<Rightarrow> 'ctx option"
  EVP_DigestFinal_ex :: "'ctx \<Rightarrow> bytes option"

definition bufSize :: nat where
  "bufSize = 256 * 1024"

definition MD5_DIGEST_LENGTH :: nat where
  "MD5_DIGEST_LENGTH = 16"

function update_loop :: "'ctx digest \<Rightarrow> bytes \<Rightarrow> 'ctx \<Rightarrow> 'ctx option" where
  "update_loop D fin ctx =
     (let buf = take bufSize fin in
      case EVP_DigestUpdate D buf ctx of
        None \<Rightarrow> None
      | Some ctx \<Rightarrow> if length buf < bufSize then Some ctx else update_loop D (drop bufSize fin) ctx)"
  by auto
termination by (relation "measure (\<lambda>(D, fin, ctx). length fin)") (auto simp: bufSize_def)

declare update_loop.simps [simp del]

text \<open>
  \<open>filepath\<close> is \<open>None\<close> when the file can not be opened. The destination of \<open>ToLowerHexString\<close> are the bytes of the string with their terminator.
\<close>

definition MD5File :: "'ctx digest \<Rightarrow> bytes option \<Rightarrow> bytes \<Rightarrow> (bool \<times> bytes) res" where
  "MD5File D fin md5 =
     (case fin of
        None \<Rightarrow> Inr (False, md5)
      | Some fin \<Rightarrow>
          if \<not> EVP_MD_CTX_new D then Inr (False, md5)
          else case EVP_DigestInit_ex D of
            None \<Rightarrow> Inr (False, md5)
          | Some ctx \<Rightarrow> (case update_loop D fin ctx of
              None \<Rightarrow> Inr (False, md5)
            | Some ctx \<Rightarrow> (case EVP_DigestFinal_ex D ctx of
                None \<Rightarrow> Inr (False, md5)
              | Some md \<Rightarrow>
                  let n = MD5_DIGEST_LENGTH * 2 in
                  bind_res (ToLowerHexString_to md MD5_DIGEST_LENGTH (replicate (n + 1) 0)) (\<lambda>d. Inr (True, take n d)))))"

section \<open>The digest of a file\<close>

text \<open>
  What OpenSSL documents: data may be given in any number of pieces. \<open>R\<close> relates a context to the data it has seen, and \<open>H\<close> is the hash.
\<close>

definition computes :: "'ctx digest \<Rightarrow> ('ctx \<Rightarrow> bytes \<Rightarrow> bool) \<Rightarrow> (bytes \<Rightarrow> bytes) \<Rightarrow> bool" where
  "computes D R H \<longleftrightarrow> EVP_MD_CTX_new D \<and> (\<exists>c. EVP_DigestInit_ex D = Some c \<and> R c []) \<and>
     (\<forall>c bs x. R c bs \<longrightarrow> (\<exists>c'. EVP_DigestUpdate D x c = Some c' \<and> R c' (bs @ x))) \<and>
     (\<forall>c bs. R c bs \<longrightarrow> EVP_DigestFinal_ex D c = Some (H bs)) \<and> (\<forall>bs. length (H bs) = MD5_DIGEST_LENGTH)"

lemma update_loop_all:
  assumes "computes D R H"
  shows "R c bs \<Longrightarrow> \<exists>c'. update_loop D fin c = Some c' \<and> R c' (bs @ fin)"
proof (induction fin arbitrary: c bs rule: length_induct)
  case (1 fin)
  obtain c1 where u: "EVP_DigestUpdate D (take bufSize fin) c = Some c1" "R c1 (bs @ take bufSize fin)"
    using assms 1(2) unfolding computes_def by blast
  show ?case
  proof (cases "length fin < bufSize")
    case True
    with u show ?thesis by (simp add: update_loop.simps [of D fin])
  next
    case False
    then have "length (drop bufSize fin) < length fin" by (simp add: bufSize_def)
    from 1(1) [rule_format, OF this u(2)] obtain c' where "update_loop D (drop bufSize fin) c1 = Some c'" "R c' ((bs @ take bufSize fin) @ drop bufSize fin)"
      by blast
    with False u(1) show ?thesis by (simp add: update_loop.simps [of D fin])
  qed
qed


text \<open>A digest that only counts.\<close>

definition count_digest :: "nat digest" where
  "count_digest = \<lparr>EVP_MD_CTX_new = True, EVP_DigestInit_ex = Some 0, EVP_DigestUpdate = (\<lambda>x n. Some (n + length x)),
     EVP_DigestFinal_ex = (\<lambda>n. Some (replicate 16 (of_nat n)))\<rparr>"


end
