(* ===== verification/Kafka.thy ===== *)
theory Kafka
  imports Prelude
begin

text \<open>
  Model of \<open>kafka/common.h\<close>, \<open>kafka/common.cpp\<close>, \<open>kafka/producer.h\<close> and \<open>kafka/consumer.h\<close>, wrappers of librdkafka. That library is a parameter: records of
  its operations on configurations, producers and consumers, which return what they did. What is modelled is the part of the wrapper: error messages and
  exceptions, and which object owns a configuration, a list of headers or a client (\<open>std::unique_ptr\<close>, null as \<open>None\<close>). Overloads that report errors by a
  result have the suffix \<open>_err\<close>; the others throw.
\<close>

section \<open>Configuration\<close>

text \<open>The names of the configuration properties.\<close>

definition global_properties :: "(string \<times> string) list" where
  "global_properties =
    [(''kBrokerList'', ''metadata.broker.list''), (''kMessageMaxBytes'', ''message.max.bytes''),
     (''kMessageCopyMaxBytes'', ''message.copy.max.bytes''), (''kReceiveMessageMaxBytes'', ''receive.message.max.bytes''),
     (''kMaxInFlightRequestsPerConnection'', ''max.in.flight.requests.per.connection''),
     (''kTopicMetadataRefreshIntervalMS'', ''topic.metadata.refresh.interval.ms''), (''kMetadataMaxAgeMS'', ''metadata.max.age.ms''),
     (''kTopicMetadataRefreshFastIntervalMS'', ''topic.metadata.refresh.fast.interval.ms''),
     (''kTopicMetadataRefreshSparse'', ''topic.metadata.refresh.sparse''),
     (''kTopicMetadataPropagationMaxMS'', ''topic.metadata.propagation.max.ms''), (''kTopicBlacklist'', ''topic.blacklist''),
     (''kSocketTimeoutMS'', ''socket.timeout.ms''), (''kSocketSendBufferBytes'', ''socket.send.buffer.bytes''),
     (''kSocketReceiveBufferBytes'', ''socket.receive.buffer.bytes''), (''kSocketKeepaliveEnable'', ''socket.keepalive.enable''),
     (''kSocketNagleDisable'', ''socket.nagle.disable''), (''kSocketMaxFails'', ''socket.max.fails''),
     (''kBrokerAddressTTL'', ''broker.address.ttl''), (''kBrokerAddressFamily'', ''broker.address.family''),
     (''kSocketConnectionSetupTimeoutMS'', ''socket.connection.setup.timeout.ms''), (''kConnectionsMaxIdleMS'', ''connections.max.idle.ms''),
     (''kReconnectBackoffMS'', ''reconnect.backoff.ms''), (''kReconnectBackoffMaxMS'', ''reconnect.backoff.max.ms''),
     (''kStatisticsIntervalMS'', ''statistics.interval.ms''), (''kEnabledEvents'', ''enabled_events''), (''kLogLevel'', ''log_level''),
     (''kLogQueue'', ''log.queue''), (''kLogThreadName'', ''log.thread.name''), (''kEnableRandomSeed'', ''enable.random.seed''),
     (''kLogConnectionClose'', ''log.connection.close''), (''kInternalTerminationSignal'', ''internal.termination.signal''),
     (''kApiVersionRequest'', ''api.version.request''), (''kApiVersionRequestTimeoutMS'', ''api.version.request.timeout.ms''),
     (''kApiVersionFallbackMS'', ''api.version.fallback.ms''), (''kBrokerVersionFallback'', ''broker.version.fallback''),
     (''kSecurityProtocol'', ''security.protocol''), (''kSslCipherSuites'', ''ssl.cipher.suites''), (''kSslCurvesList'', ''ssl.curves.list''),
     (''kSslSigalgsList'', ''ssl.sigalgs.list''), (''kSslKeyLocation'', ''ssl.key.location''), (''kSslKeyPassword'', ''ssl.key.password''),
     (''kSslKeyPem'', ''ssl.key.pem''), (''kSslCertificateLocation'', ''ssl.certificate.location''),
     (''kSslCertificatePem'', ''ssl.certificate.pem''), (''kSslCaLocation'', ''ssl.ca.location''), (''kSslCaPem'', ''ssl.ca.pem''),
     (''kSslCaCertificateStores'', ''ssl.ca.certificate.stores''), (''kSslCrlLocation'', ''ssl.crl.location''),
     (''kSslKeystoreLocation'', ''ssl.keystore.location''), (''kSslKeystorePassword'', ''ssl.keystore.password''),
     (''kSslEngineLocation'', ''ssl.engine.location''), (''kSslEngineID'', ''ssl.engine.id''),
     (''kEnableSslCertificateVerification'', ''enable.ssl.certificate.verification''),
     (''kSslEndpointIdentificationAlgorithm'', ''ssl.endpoint.identification.algorithm''), (''kSaslMechanisms'', ''sasl.mechanisms''),
     (''kSaslKerberosServiceName'', ''sasl.kerberos.service.name''), (''kSaslKerberosPrincipal'', ''sasl.kerberos.principal''),
     (''kSaslKerberosKinitCmd'', ''sasl.kerberos.kinit.cmd''), (''kSaslKerberosKeytab'', ''sasl.kerberos.keytab''),
     (''kSaslKerberosMinTimeBeforeReLogin'', ''sasl.kerberos.min.time.before.relogin''), (''kSaslUsername'', ''sasl.username''),
     (''kSaslPassword'', ''sasl.password''), (''kSaslOAuthBearerConfig'', ''sasl.oauthbearer.config''),
     (''kEnableSaslOAuthBearerUnsecureJwt'', ''enable.sasl.oauthbearer.unsecure.jwt''),
     (''kSaslOAuthBearerMethod'', ''sasl.oauthbearer.method''), (''kSaslOAuthBearerClientID'', ''sasl.oauthbearer.client.id''),
     (''kSaslOAuthBearerClientSecret'', ''sasl.oauthbearer.client.secret''), (''kSaslOAuthBearerScope'', ''sasl.oauthbearer.scope''),
     (''kSaslOAuthBearerExtensions'', ''sasl.oauthbearer.extensions''),
     (''kSaslOAuthBearerTokenEndpointURL'', ''sasl.oauthbearer.token.endpoint.url''), (''kPluginLibraryPaths'', ''plugin.library.paths''),
     (''kInterceptors'', ''interceptors''), (''kClientRack'', ''client.rack''), (''kTransactionalID'', ''transactional.id''),
     (''kTransactionTimeoutMS'', ''transaction.timeout.ms''), (''kEnableIdempotence'', ''enable.idempotence''),
     (''kQueueBufferingMaxMessages'', ''queue.buffering.max.messages''), (''kQueueBufferingMaxKBytes'', ''queue.buffering.max.kbytes''),
     (''kQueueBufferingMaxMS'', ''queue.buffering.max.ms''), (''kMessageSendMaxRetries'', ''message.send.max.retries''),
     (''kRetryBackoffMS'', ''retry.backoff.ms''), (''kQueueBufferingBackpressureThreshold'', ''queue.buffering.backpressure.threshold''),
     (''kCompressionCodec'', ''compression.codec''), (''kBatchNumMessages'', ''batch.num.messages''), (''kBatchSize'', ''batch.size''),
     (''kDeliveryReportOnlyError'', ''delivery.report.only.error''), (''kStickyPartitioningLingerMS'', ''sticky.partitioning.linger.ms''),
     (''kGroupID'', ''group.id''), (''kGroupInstanceID'', ''group.instance.id''),
     (''kPartitionAssignmentStrategy'', ''partition.assignment.strategy''), (''kSessionTimeoutMS'', ''session.timeout.ms''),
     (''kHeartbeatIntervalMS'', ''heartbeat.interval.ms''), (''kGroupProtocolType'', ''group.protocol.type''),
     (''kCoordinatorQueryIntervalMS'', ''coordinator.query.interval.ms''), (''kMaxPollIntervalMS'', ''max.poll.interval.ms''),
     (''kEnableAutoCommit'', ''enable.auto.commit''), (''kAutoCommitIntervalMS'', ''auto.commit.interval.ms''),
     (''kEnableAutoOffsetStore'', ''enable.auto.offset.store''), (''kQueuedMinMessages'', ''queued.min.messages''),
     (''kQueuedMaxMessagesKBytes'', ''queued.max.messages.kbytes''), (''kFetchWaitMaxMS'', ''fetch.wait.max.ms''),
     (''kFetchMessageMaxBytes'', ''fetch.message.max.bytes''), (''kFetchMaxBytes'', ''fetch.max.bytes''),
     (''kFetchMinBytes'', ''fetch.min.bytes''), (''kFetchErrorBackoffMS'', ''fetch.error.backoff.ms''),
     (''kIsolationLevel'', ''isolation.level''), (''kEnablePartitionEOF'', ''enable.partition.eof''), (''kCheckCrcs'', ''check.crcs''),
     (''kAllowAutoCreateTopics'', ''allow.auto.create.topics'')]"

definition topic_properties :: "(string \<times> string) list" where
  "topic_properties =
    [(''kRequestRequiredAcks'', ''request.required.acks''), (''kRequestTimeoutMS'', ''request.timeout.ms''),
     (''kMessageTimeoutMS'', ''message.timeout.ms''), (''kPartitioner'', ''partitioner''), (''kCompressionCodec'', ''compression.codec''),
     (''kCompressionLevel'', ''compression.level''), (''kAutoOffsetReset'', ''auto.offset.reset'')]"

text \<open>\<open>RdKafka::Conf\<close>: the new configuration, or the error message of a property that is refused.\<close>

record ('conf, 'cb) rd_conf =
  create_topic :: 'conf
  create_global :: 'conf
  set_value :: "string \<Rightarrow> string \<Rightarrow> 'conf \<Rightarrow> string + 'conf"
  set_cb :: "string \<Rightarrow> 'cb \<Rightarrow> 'conf \<Rightarrow> string + 'conf"
  set_topic_conf :: "string \<Rightarrow> 'conf option \<Rightarrow> 'conf \<Rightarrow> string + 'conf"
  set_ssl_cert :: "nat \<Rightarrow> nat \<Rightarrow> bytes \<Rightarrow> 'conf \<Rightarrow> string + 'conf"

record 'conf KafkaTopicConfig =
  topic_conf :: "'conf option"

record 'conf KafkaGlobalConfig =
  defTopicConf :: "'conf option"
  conf :: "'conf option"

definition new_KafkaTopicConfig :: "('conf, 'cb) rd_conf \<Rightarrow> 'conf KafkaTopicConfig" where
  "new_KafkaTopicConfig R = \<lparr>topic_conf = Some (create_topic R)\<rparr>"

definition new_KafkaGlobalConfig :: "('conf, 'cb) rd_conf \<Rightarrow> 'conf KafkaGlobalConfig" where
  "new_KafkaGlobalConfig R = \<lparr>defTopicConf = None, conf = Some (create_global R)\<rparr>"

text \<open>An exception, or a result.\<close>

datatype 'a may_throw = KafkaConfException string | Returned 'a

text \<open>A call of \<open>conf_->set\<close>: the result as \<open>bool\<close>, the error message and the configuration after the call; and the form that throws.\<close>

definition conf_call :: "('conf \<Rightarrow> string + 'conf) \<Rightarrow> string \<Rightarrow> 'conf option \<Rightarrow> (bool \<times> string \<times> 'conf option) res" where
  "conf_call f err c =
     (case c of
        None \<Rightarrow> Inl Null_Deref
      | Some x \<Rightarrow> Inr (case f x of Inl e \<Rightarrow> (False, e, c) | Inr y \<Rightarrow> (True, err, Some y)))"

definition topic_Set_err :: "('conf, 'cb) rd_conf \<Rightarrow> string \<Rightarrow> string \<Rightarrow> string \<Rightarrow> 'conf KafkaTopicConfig \<Rightarrow> (bool \<times> string \<times> 'conf KafkaTopicConfig) res" where
  "topic_Set_err R key value errMessage t =
     bind_res (conf_call (set_value R key value) errMessage (topic_conf t)) (\<lambda>(ok, e, c). Inr (ok, e, t\<lparr>topic_conf := c\<rparr>))"

definition topic_Set :: "('conf, 'cb) rd_conf \<Rightarrow> string \<Rightarrow> string \<Rightarrow> 'conf KafkaTopicConfig \<Rightarrow> (unit may_throw \<times> 'conf KafkaTopicConfig) res" where
  "topic_Set R key value t =
     bind_res (conf_call (set_value R key value) [] (topic_conf t)) (\<lambda>(ok, err, c).
       if ok then Inr (Returned (), t\<lparr>topic_conf := c\<rparr>) else Inr (KafkaConfException err, t\<lparr>topic_conf := c\<rparr>))"

text \<open>The same for the global configuration.\<close>

definition global_call :: "('conf \<Rightarrow> string + 'conf) \<Rightarrow> string \<Rightarrow> 'conf KafkaGlobalConfig \<Rightarrow> (bool \<times> string \<times> 'conf KafkaGlobalConfig) res" where
  "global_call f errMessage g = bind_res (conf_call f errMessage (conf g)) (\<lambda>(ok, e, c). Inr (ok, e, g\<lparr>conf := c\<rparr>))"

definition global_call_throw :: "('conf \<Rightarrow> string + 'conf) \<Rightarrow> 'conf KafkaGlobalConfig \<Rightarrow> (unit may_throw \<times> 'conf KafkaGlobalConfig) res" where
  "global_call_throw f g =
     bind_res (conf_call f [] (conf g)) (\<lambda>(ok, err, c).
       if ok then Inr (Returned (), g\<lparr>conf := c\<rparr>) else Inr (KafkaConfException err, g\<lparr>conf := c\<rparr>))"

definition Set_err :: "('conf, 'cb) rd_conf \<Rightarrow> string \<Rightarrow> string \<Rightarrow> string \<Rightarrow> 'conf KafkaGlobalConfig \<Rightarrow> (bool \<times> string \<times> 'conf KafkaGlobalConfig) res" where
  "Set_err R key value = global_call (set_value R key value)"

definition Set :: "('conf, 'cb) rd_conf \<Rightarrow> string \<Rightarrow> string \<Rightarrow> 'conf KafkaGlobalConfig \<Rightarrow> (unit may_throw \<times> 'conf KafkaGlobalConfig) res" where
  "Set R key value = global_call_throw (set_value R key value)"

definition SetSslCert_err ::
  "('conf, 'cb) rd_conf \<Rightarrow> nat \<Rightarrow> nat \<Rightarrow> bytes \<Rightarrow> string \<Rightarrow> 'conf KafkaGlobalConfig \<Rightarrow> (bool \<times> string \<times> 'conf KafkaGlobalConfig) res" where
  "SetSslCert_err R certType certEnc buffer = global_call (set_ssl_cert R certType certEnc buffer)"

definition SetSslCert ::
  "('conf, 'cb) rd_conf \<Rightarrow> nat \<Rightarrow> nat \<Rightarrow> bytes \<Rightarrow> 'conf KafkaGlobalConfig \<Rightarrow> (unit may_throw \<times> 'conf KafkaGlobalConfig) res" where
  "SetSslCert R certType certEnc buffer = global_call_throw (set_ssl_cert R certType certEnc buffer)"

definition SetSslCertificateVerifyCallback_err ::
  "('conf, 'cb) rd_conf \<Rightarrow> 'cb \<Rightarrow> string \<Rightarrow> 'conf KafkaGlobalConfig \<Rightarrow> (bool \<times> string \<times> 'conf KafkaGlobalConfig) res" where
  "SetSslCertificateVerifyCallback_err R cb = global_call (set_cb R ''ssl.certificate.verify_cb'' cb)"

definition SetSslCertificateVerifyCallback :: "('conf, 'cb) rd_conf \<Rightarrow> 'cb \<Rightarrow> 'conf KafkaGlobalConfig \<Rightarrow> (unit may_throw \<times> 'conf KafkaGlobalConfig) res" where
  "SetSslCertificateVerifyCallback R cb = global_call_throw (set_cb R ''ssl.certificate.verify_cb'' cb)"

definition SetOAuthBearerTokenRefreshCallback_err ::
  "('conf, 'cb) rd_conf \<Rightarrow> 'cb \<Rightarrow> string \<Rightarrow> 'conf KafkaGlobalConfig \<Rightarrow> (bool \<times> string \<times> 'conf KafkaGlobalConfig) res" where
  "SetOAuthBearerTokenRefreshCallback_err R cb = global_call (set_cb R ''oauthbearer_token_refresh_cb'' cb)"

definition SetOAuthBearerTokenRefreshCallback :: "('conf, 'cb) rd_conf \<Rightarrow> 'cb \<Rightarrow> 'conf KafkaGlobalConfig \<Rightarrow> (unit may_throw \<times> 'conf KafkaGlobalConfig) res" where
  "SetOAuthBearerTokenRefreshCallback R cb = global_call_throw (set_cb R ''oauthbearer_token_refresh_cb'' cb)"

definition SetDeliveryReportCallback_err ::
  "('conf, 'cb) rd_conf \<Rightarrow> 'cb \<Rightarrow> string \<Rightarrow> 'conf KafkaGlobalConfig \<Rightarrow> (bool \<times> string \<times> 'conf KafkaGlobalConfig) res" where
  "SetDeliveryReportCallback_err R cb = global_call (set_cb R ''dr_cb'' cb)"

definition SetDeliveryReportCallback :: "('conf, 'cb) rd_conf \<Rightarrow> 'cb \<Rightarrow> 'conf KafkaGlobalConfig \<Rightarrow> (unit may_throw \<times> 'conf KafkaGlobalConfig) res" where
  "SetDeliveryReportCallback R cb = global_call_throw (set_cb R ''dr_cb'' cb)"

definition SetEventCallback_err ::
  "('conf, 'cb) rd_conf \<Rightarrow> 'cb \<Rightarrow> string \<Rightarrow> 'conf KafkaGlobalConfig \<Rightarrow> (bool \<times> string \<times> 'conf KafkaGlobalConfig) res" where
  "SetEventCallback_err R cb = global_call (set_cb R ''event_cb'' cb)"

definition SetEventCallback :: "('conf, 'cb) rd_conf \<Rightarrow> 'cb \<Rightarrow> 'conf KafkaGlobalConfig \<Rightarrow> (unit may_throw \<times> 'conf KafkaGlobalConfig) res" where
  "SetEventCallback R cb = global_call_throw (set_cb R ''event_cb'' cb)"

definition SetConsumeCallback_err ::
  "('conf, 'cb) rd_conf \<Rightarrow> 'cb \<Rightarrow> string \<Rightarrow> 'conf KafkaGlobalConfig \<Rightarrow> (bool \<times> string \<times> 'conf KafkaGlobalConfig) res" where
  "SetConsumeCallback_err R cb = global_call (set_cb R ''consume_cb'' cb)"

definition SetConsumeCallback :: "('conf, 'cb) rd_conf \<Rightarrow> 'cb \<Rightarrow> 'conf KafkaGlobalConfig \<Rightarrow> (unit may_throw \<times> 'conf KafkaGlobalConfig) res" where
  "SetConsumeCallback R cb = global_call_throw (set_cb R ''consume_cb'' cb)"

definition SetRebalanceCallback_err ::
  "('conf, 'cb) rd_conf \<Rightarrow> 'cb \<Rightarrow> string \<Rightarrow> 'conf KafkaGlobalConfig \<Rightarrow> (bool \<times> string \<times> 'conf KafkaGlobalConfig) res" where
  "SetRebalanceCallback_err R cb = global_call (set_cb R ''rebalance_cb'' cb)"

definition SetRebalanceCallback :: "('conf, 'cb) rd_conf \<Rightarrow> 'cb \<Rightarrow> 'conf KafkaGlobalConfig \<Rightarrow> (unit may_throw \<times> 'conf KafkaGlobalConfig) res" where
  "SetRebalanceCallback R cb = global_call_throw (set_cb R ''rebalance_cb'' cb)"

definition SetOffsetCommitCallback_err ::
  "('conf, 'cb) rd_conf \<Rightarrow> 'cb \<Rightarrow> string \<Rightarrow> 'conf KafkaGlobalConfig \<Rightarrow> (bool \<times> string \<times> 'conf KafkaGlobalConfig) res" where
  "SetOffsetCommitCallback_err R cb = global_call (set_cb R ''offset_commit_cb'' cb)"

definition SetOffsetCommitCallback :: "('conf, 'cb) rd_conf \<Rightarrow> 'cb \<Rightarrow> 'conf KafkaGlobalConfig \<Rightarrow> (unit may_throw \<times> 'conf KafkaGlobalConfig) res" where
  "SetOffsetCommitCallback R cb = global_call_throw (set_cb R ''offset_commit_cb'' cb)"

definition SetSocketCallback_err ::
  "('conf, 'cb) rd_conf \<Rightarrow> 'cb \<Rightarrow> string \<Rightarrow> 'conf KafkaGlobalConfig \<Rightarrow> (bool \<times> string \<times> 'conf KafkaGlobalConfig) res" where
  "SetSocketCallback_err R cb = global_call (set_cb R ''socket_cb'' cb)"

definition SetSocketCallback :: "('conf, 'cb) rd_conf \<Rightarrow> 'cb \<Rightarrow> 'conf KafkaGlobalConfig \<Rightarrow> (unit may_throw \<times> 'conf KafkaGlobalConfig) res" where
  "SetSocketCallback R cb = global_call_throw (set_cb R ''socket_cb'' cb)"

definition SetOpenCallback_err ::
  "('conf, 'cb) rd_conf \<Rightarrow> 'cb \<Rightarrow> string \<Rightarrow> 'conf KafkaGlobalConfig \<Rightarrow> (bool \<times> string \<times> 'conf KafkaGlobalConfig) res" where
  "SetOpenCallback_err R cb = global_call (set_cb R ''open_cb'' cb)"

definition SetOpenCallback :: "('conf, 'cb) rd_conf \<Rightarrow> 'cb \<Rightarrow> 'conf KafkaGlobalConfig \<Rightarrow> (unit may_throw \<times> 'conf KafkaGlobalConfig) res" where
  "SetOpenCallback R cb = global_call_throw (set_cb R ''open_cb'' cb)"

text \<open>The default configuration of topics moves from the argument into the global configuration, and back when it is refused.\<close>

definition swap_def :: "'conf KafkaGlobalConfig \<Rightarrow> 'conf KafkaTopicConfig \<Rightarrow> 'conf KafkaGlobalConfig \<times> 'conf KafkaTopicConfig" where
  "swap_def g t = (g\<lparr>defTopicConf := topic_conf t\<rparr>, t\<lparr>topic_conf := defTopicConf g\<rparr>)"

definition SetDefaultTopicConf_err ::
  "('conf, 'cb) rd_conf \<Rightarrow> string \<Rightarrow> 'conf KafkaGlobalConfig \<Rightarrow> 'conf KafkaTopicConfig \<Rightarrow>
     (bool \<times> string \<times> 'conf KafkaGlobalConfig \<times> 'conf KafkaTopicConfig) res" where
  "SetDefaultTopicConf_err R errMessage g t =
     (let (g, t) = swap_def g t in
      bind_res (conf_call (set_topic_conf R ''default_topic_conf'' (defTopicConf g)) errMessage (conf g)) (\<lambda>(ok, e, c).
        let g = g\<lparr>conf := c\<rparr> in
        if ok then Inr (True, e, g, t) else (case swap_def g t of (g, t) \<Rightarrow> Inr (False, e, g, t))))"

definition SetDefaultTopicConf ::
  "('conf, 'cb) rd_conf \<Rightarrow> 'conf KafkaGlobalConfig \<Rightarrow> 'conf KafkaTopicConfig \<Rightarrow>
     (unit may_throw \<times> 'conf KafkaGlobalConfig \<times> 'conf KafkaTopicConfig) res" where
  "SetDefaultTopicConf R g t =
     (let (g, t) = swap_def g t in
      bind_res (conf_call (set_topic_conf R ''default_topic_conf'' (defTopicConf g)) [] (conf g)) (\<lambda>(ok, err, c).
        let g = g\<lparr>conf := c\<rparr> in
        if ok then Inr (Returned (), g, t) else (case swap_def g t of (g, t) \<Rightarrow> Inr (KafkaConfException err, g, t))))"

section \<open>Headers and producer\<close>

text \<open>
  librdkafka's producer. \<open>produce\<close> gets the topic, the payload (\<open>None\<close> for a null pointer), the headers for the overloads that have them, and the opaque pointer.
\<close>

datatype 'h headers_arg = No_Headers | With_Headers "'h option"

record ('conf, 'p, 'h, 'err, 'op) rd_producer =
  create_producer :: "'conf option \<Rightarrow> string \<Rightarrow> 'p option \<times> string"
  produce :: "string \<Rightarrow> bytes option \<Rightarrow> 'h headers_arg \<Rightarrow> 'op option \<Rightarrow> 'p \<Rightarrow> 'err \<times> 'p"
  flush :: "int \<Rightarrow> 'p \<Rightarrow> 'p"
  poll :: "int \<Rightarrow> 'p \<Rightarrow> int \<times> 'p"
  create_headers :: 'h
  add_header :: "string \<Rightarrow> string \<Rightarrow> 'h \<Rightarrow> 'err \<times> 'h"
  err_no_error :: 'err
  err2str :: "'err \<Rightarrow> string"

record 'h KafkaHeaders =
  headers :: "'h option"

definition new_KafkaHeaders :: "('conf, 'p, 'h, 'err, 'op) rd_producer \<Rightarrow> 'h KafkaHeaders" where
  "new_KafkaHeaders R = \<lparr>headers = Some (create_headers R)\<rparr>"

definition Add :: "('conf, 'p, 'h, 'err, 'op) rd_producer \<Rightarrow> string \<Rightarrow> string \<Rightarrow> 'h KafkaHeaders \<Rightarrow> ('err \<times> 'h KafkaHeaders) res" where
  "Add R key value hs =
     (case headers hs of
        None \<Rightarrow> Inl Null_Deref
      | Some h \<Rightarrow> (case add_header R key value h of (r, h) \<Rightarrow> Inr (r, hs\<lparr>headers := Some h\<rparr>)))"

text \<open>The producer, and the clients that have been destroyed, in the state they had then.\<close>

record 'p KafkaProducer =
  errMsg :: string
  client :: "'p option"
  gone :: "'p list"

definition new_KafkaProducer :: "'p KafkaProducer" where
  "new_KafkaProducer = \<lparr>errMsg = [], client = None, gone = []\<rparr>"

text \<open>Assigning to a \<open>unique_ptr\<close> destroys the object it had.\<close>

definition replace_client :: "'p option \<Rightarrow> 'p KafkaProducer \<Rightarrow> 'p KafkaProducer" where
  "replace_client x s = s\<lparr>client := x, gone := gone s @ (case client s of None \<Rightarrow> [] | Some p \<Rightarrow> [p])\<rparr>"

definition Init ::
  "('conf, 'p, 'h, 'err, 'op) rd_producer \<Rightarrow> 'conf KafkaGlobalConfig option \<Rightarrow> 'p KafkaProducer \<Rightarrow> bool \<times> 'p KafkaProducer" where
  "Init R cfg s =
     (case create_producer R (case cfg of None \<Rightarrow> None | Some g \<Rightarrow> conf g) (errMsg s) of (x, e) \<Rightarrow>
        let s = replace_client x (s\<lparr>errMsg := e\<rparr>) in (client s \<noteq> None, s))"

definition destroy_KafkaProducer :: "('conf, 'p, 'h, 'err, 'op) rd_producer \<Rightarrow> 'p KafkaProducer \<Rightarrow> 'p KafkaProducer" where
  "destroy_KafkaProducer R s =
     (let s = (case client s of None \<Rightarrow> s | Some p \<Rightarrow> s\<lparr>client := Some (flush R 3000 p)\<rparr>) in replace_client None s)"

text \<open>\<open>producer_->produce\<close> and the error message.\<close>

definition produce_call ::
  "('conf, 'p, 'h, 'err, 'op) rd_producer \<Rightarrow> string \<Rightarrow> bytes option \<Rightarrow> 'h headers_arg \<Rightarrow> 'op option \<Rightarrow> 'p KafkaProducer \<Rightarrow> ('err \<times> 'p KafkaProducer) res" where
  "produce_call R topic payload hs msgOpaque s =
     (case client s of
        None \<Rightarrow> Inl Null_Deref
      | Some p \<Rightarrow> (case produce R topic payload hs msgOpaque p of (r, p) \<Rightarrow>
          Inr (r, if r = err_no_error R then s\<lparr>client := Some p\<rparr> else s\<lparr>client := Some p, errMsg := err2str R r\<rparr>)))"

definition Produce ::
  "('conf, 'p, 'h, 'err, 'op) rd_producer \<Rightarrow> string \<Rightarrow> bytes \<Rightarrow> 'op option \<Rightarrow> 'p KafkaProducer \<Rightarrow> ('err \<times> 'p KafkaProducer) res" where
  "Produce R topic payload msgOpaque s = produce_call R topic (Some payload) No_Headers msgOpaque s"

text \<open>The headers are released before the call and put back when it fails.\<close>

definition Produce_headers ::
  "('conf, 'p, 'h, 'err, 'op) rd_producer \<Rightarrow> string \<Rightarrow> bytes \<Rightarrow> 'h KafkaHeaders \<Rightarrow> 'op option \<Rightarrow> 'p KafkaProducer \<Rightarrow>
     ('err \<times> 'h KafkaHeaders \<times> 'p KafkaProducer) res" where
  "Produce_headers R topic payload hs msgOpaque s =
     (let h = headers hs; hs = hs\<lparr>headers := None\<rparr> in
      bind_res (produce_call R topic (Some payload) (With_Headers h) msgOpaque s) (\<lambda>(r, s).
        Inr (r, if r = err_no_error R then hs else hs\<lparr>headers := h\<rparr>, s)))"

definition Produce_headers_only ::
  "('conf, 'p, 'h, 'err, 'op) rd_producer \<Rightarrow> string \<Rightarrow> 'h KafkaHeaders \<Rightarrow> 'p KafkaProducer \<Rightarrow> ('err \<times> 'h KafkaHeaders \<times> 'p KafkaProducer) res" where
  "Produce_headers_only R topic hs s =
     (let h = headers hs; hs = hs\<lparr>headers := None\<rparr> in
      bind_res (produce_call R topic None (With_Headers h) None s) (\<lambda>(r, s).
        Inr (r, if r = err_no_error R then hs else hs\<lparr>headers := h\<rparr>, s)))"

definition Poll :: "('conf, 'p, 'h, 'err, 'op) rd_producer \<Rightarrow> int \<Rightarrow> 'p KafkaProducer \<Rightarrow> (int \<times> 'p KafkaProducer) res" where
  "Poll R timeoutMS s =
     (case client s of
        None \<Rightarrow> Inl Null_Deref
      | Some p \<Rightarrow> (case poll R timeoutMS p of (n, p) \<Rightarrow> Inr (n, s\<lparr>client := Some p\<rparr>)))"

section \<open>Consumer\<close>

record ('conf, 'c, 'm, 'err) rd_consumer =
  create_consumer :: "'conf option \<Rightarrow> string \<Rightarrow> 'c option \<times> string"
  subscribe :: "string list \<Rightarrow> 'c \<Rightarrow> 'err \<times> 'c"
  unsubscribe :: "'c \<Rightarrow> 'err \<times> 'c"
  consume :: "int \<Rightarrow> 'c \<Rightarrow> 'm \<times> 'c"
  commit_async :: "'m option \<Rightarrow> 'c \<Rightarrow> 'c"
  close_consumer :: "'c \<Rightarrow> 'c"
  c_no_error :: 'err
  c_err2str :: "'err \<Rightarrow> string"

record 'c KafkaConsumer =
  c_errMsg :: string
  consumer :: "'c option"

definition new_KafkaConsumer :: "'c KafkaConsumer" where
  "new_KafkaConsumer = \<lparr>c_errMsg = [], consumer = None\<rparr>"

definition consumer_Init ::
  "('conf, 'c, 'm, 'err) rd_consumer \<Rightarrow> 'conf KafkaGlobalConfig option \<Rightarrow> 'c KafkaConsumer \<Rightarrow> bool \<times> 'c KafkaConsumer" where
  "consumer_Init R cfg s =
     (case create_consumer R (case cfg of None \<Rightarrow> None | Some g \<Rightarrow> conf g) (c_errMsg s) of (x, e) \<Rightarrow> (x \<noteq> None, \<lparr>c_errMsg = e, consumer = x\<rparr>))"

text \<open>The destructor does not test the pointer.\<close>

definition destroy_KafkaConsumer :: "('conf, 'c, 'm, 'err) rd_consumer \<Rightarrow> 'c KafkaConsumer \<Rightarrow> 'c res" where
  "destroy_KafkaConsumer R s = (case consumer s of None \<Rightarrow> Inl Null_Deref | Some c \<Rightarrow> Inr (close_consumer R c))"

definition consumer_call ::
  "('conf, 'c, 'm, 'err) rd_consumer \<Rightarrow> ('c \<Rightarrow> 'err \<times> 'c) \<Rightarrow> 'c KafkaConsumer \<Rightarrow> ('err \<times> 'c KafkaConsumer) res" where
  "consumer_call R f s =
     (case consumer s of
        None \<Rightarrow> Inl Null_Deref
      | Some c \<Rightarrow> (case f c of (r, c) \<Rightarrow>
          Inr (r, if r = c_no_error R then s\<lparr>consumer := Some c\<rparr> else s\<lparr>consumer := Some c, c_errMsg := c_err2str R r\<rparr>)))"

definition Subscribe :: "('conf, 'c, 'm, 'err) rd_consumer \<Rightarrow> string list \<Rightarrow> 'c KafkaConsumer \<Rightarrow> ('err \<times> 'c KafkaConsumer) res" where
  "Subscribe R topics = consumer_call R (subscribe R topics)"

definition Unsubscribe :: "('conf, 'c, 'm, 'err) rd_consumer \<Rightarrow> 'c KafkaConsumer \<Rightarrow> ('err \<times> 'c KafkaConsumer) res" where
  "Unsubscribe R = consumer_call R (unsubscribe R)"

definition Consume :: "('conf, 'c, 'm, 'err) rd_consumer \<Rightarrow> int \<Rightarrow> 'c KafkaConsumer \<Rightarrow> ('m \<times> 'c KafkaConsumer) res" where
  "Consume R timeoutMS s =
     (case consumer s of
        None \<Rightarrow> Inl Null_Deref
      | Some c \<Rightarrow> (case consume R timeoutMS c of (m, c) \<Rightarrow> Inr (m, s\<lparr>consumer := Some c\<rparr>)))"

definition AsyncCommit :: "('conf, 'c, 'm, 'err) rd_consumer \<Rightarrow> 'm option \<Rightarrow> 'c KafkaConsumer \<Rightarrow> 'c KafkaConsumer res" where
  "AsyncCommit R msg s =
     (case consumer s of None \<Rightarrow> Inl Null_Deref | Some c \<Rightarrow> Inr (s\<lparr>consumer := Some (commit_async R msg c)\<rparr>))"

section \<open>Properties\<close>

text \<open>No two constants name the same property.\<close>

lemma properties_distinct: "distinct (map snd global_properties)" "distinct (map snd topic_properties)"
  by (simp_all add: global_properties_def topic_properties_def)



text \<open>
  (functional) Headers belong to one side at a time. When librdkafka accepts a message with headers it has taken them, and the
  \<open>KafkaHeaders\<close> object is empty: adding to it dereferences a null pointer. When the message is refused, the headers are back as
  they were, with the message of the error, so that the call can be repeated. This holds with and without a payload.
\<close>

theorem Produce_headers_ownership:
  assumes "client s = Some p" and "produce R topic payload (With_Headers (headers hs)) msgOpaque p = (r, p')"
    and "payload = None \<Longrightarrow> msgOpaque = None"
  shows "\<exists>hs' s'. (case payload of Some d \<Rightarrow> Produce_headers R topic d hs msgOpaque s | None \<Rightarrow> Produce_headers_only R topic hs s) = Inr (r, hs', s') \<and>
    client s' = Some p' \<and> gone s' = gone s \<and>
    (if r = err_no_error R then headers hs' = None \<and> errMsg s' = errMsg s \<and> Add R k v hs' = Inl Null_Deref
     else hs' = hs \<and> errMsg s' = err2str R r)"
  using assms by (cases hs; cases payload) (auto simp: Produce_headers_def Produce_headers_only_def produce_call_def Add_def)

theorem Produce_headers_ownership_witness:
  "\<exists>hs' s'. Produce_headers \<lparr>create_producer = (\<lambda>(c :: nat option) e. (Some (0 :: nat), e)), produce = (\<lambda>t d h op p. (1 :: nat, p)), flush = (\<lambda>n p. p), poll = (\<lambda>n p. (0, p)),
        create_headers = [], add_header = (\<lambda>k v h. (0, h @ [(k, v)])), err_no_error = 0, err2str = (\<lambda>e. ''queue full'')\<rparr>
      ''topic'' [1, 2] \<lparr>headers = Some [(''k'', ''v'')]\<rparr> (None :: unit option) \<lparr>errMsg = [], client = Some 0, gone = []\<rparr> = Inr (1, hs', s') \<and>
    hs' = \<lparr>headers = Some [(''k'', ''v'')]\<rparr> \<and> errMsg s' = ''queue full''"
  using Produce_headers_ownership [of "\<lparr>errMsg = [], client = Some 0, gone = []\<rparr>" 0
      "\<lparr>create_producer = (\<lambda>(c :: nat option) e. (Some (0 :: nat), e)), produce = (\<lambda>t d h op p. (1 :: nat, p)), flush = (\<lambda>n p. p), poll = (\<lambda>n p. (0, p)),
        create_headers = [], add_header = (\<lambda>k v h. (0, h @ [(k, v)])), err_no_error = 0, err2str = (\<lambda>e. ''queue full'')\<rparr>"
      "''topic''" "Some [1, 2]" "\<lparr>headers = Some [(''k'', ''v'')]\<rparr>" None 1 0]
  by auto

text \<open>
  Without a client, because \<open>Init\<close> was not called or failed, every call dereferences a null pointer, and so does the destructor of the consumer; the
  destructor of the producer does not.
\<close>

lemma kafka_without_client:
  "client s = None \<Longrightarrow> Produce R topic payload op s = Inl Null_Deref \<and> Poll R n s = Inl Null_Deref \<and> destroy_KafkaProducer R s = s"
  "consumer c = None \<Longrightarrow> Subscribe S topics c = Inl Null_Deref \<and> Consume S n c = Inl Null_Deref \<and> destroy_KafkaConsumer S c = Inl Null_Deref"
  by (simp_all add: Produce_def produce_call_def Poll_def destroy_KafkaProducer_def replace_client_def Subscribe_def consumer_call_def Consume_def
      destroy_KafkaConsumer_def)

text \<open>A second \<open>Init\<close> destroys the first client as it is; only the destructor flushes it.\<close>

lemma second_Init_drops:
  "client s = Some p \<Longrightarrow> gone (snd (Init R cfg s)) = gone s @ [p]"
  "client s = Some p \<Longrightarrow> gone (destroy_KafkaProducer R s) = gone s @ [flush R 3000 p]"
  by (auto simp: Init_def replace_client_def destroy_KafkaProducer_def Let_def split: prod.splits)

end
