(* ===== verification/Fmt_Checked.thy ===== *)
theory Fmt_Checked
  imports Fmt_Format
begin

text \<open>
  What the parts of the formatting library do together: a format string that the compiler has checked, the two ways to parse a format
  string, and the two kinds of buffers.
\<close>

lemma content_full: "used b = length (store b) \<Longrightarrow> content b = store b"
  by (simp add: content_def)

lemma checked_format_appends:
  assumes "check_format_string (map type_of args) s"
  shows "\<exists>txt. format_to strftime s args container = Done () (container @ txt) \<or>
    (\<exists>m. m \<in> set runtime_errors \<and> format_to strftime s args container = Throw m (container @ txt))"
proof -
  let ?args = "\<lparr>arg_list = args, arg_names = []\<rparr>" and ?b = "\<lparr>store = container, used = length container\<rparr>"
  let ?ok = "\<lambda>b. used b = length (store b)"
  let ?P = "parse_format_string (format_handler strftime string_grow ?args) s \<lparr>next_id = 0, out = ?b\<rparr>"
  obtain n where c: "parse_format_string (format_string_checker (map type_of (arg_list ?args))) s 0 = Done () n"
    using assms by (auto simp: check_format_string_def split: outcome.splits)
  have "out_rel ?ok container 0 \<lparr>next_id = 0, out = ?b\<rparr>" by (simp add: out_rel_def content_def)
  then have "sim (out_rel ?ok container) (out_error ?ok container) (parse_format_string (format_string_checker (map type_of (arg_list ?args))) s 0) ?P"
    by (rule checked_string.sim_format_string)
  then consider st where "?P = Done () st" "out_rel ?ok container n st" | m st where "?P = Throw m st" "out_error ?ok container m st"
    using c by (auto simp: sim_def)
  then show ?thesis
  proof cases
    case 1
    then show ?thesis
      by (auto simp: format_to_def string_buf.vformat_to_parse out_rel_def dest: content_full)
  next
    case 2
    then show ?thesis
      by (auto simp: format_to_def string_buf.vformat_to_parse out_rel_def out_error_def dest: content_full)
  qed
qed



lemma format_to_Done:
  "format_to strftime s args container = Done u c \<longleftrightarrow>
     (\<exists>st. parse_format_string (format_handler strftime string_grow \<lparr>arg_list = args, arg_names = []\<rparr>) s
        \<lparr>next_id = 0, out = \<lparr>store = container, used = length container\<rparr>\<rparr> = Done () st \<and> c = store (out st))"
  by (auto simp: format_to_def string_buf.vformat_to_parse split: outcome.splits)

lemma format_string_Done:
  "format_string strftime s args = Done x u \<longleftrightarrow>
     (\<exists>st. parse_format_string (format_handler strftime memory_grow \<lparr>arg_list = args, arg_names = []\<rparr>) s
        \<lparr>next_id = 0, out = \<lparr>store = replicate 500 (CHR 0x00), used = 0\<rparr>\<rparr> = Done () st \<and> x = content (out st))"
  by (auto simp: format_string_def memory_buf.vformat_to_parse wf_buf_def content_def split: outcome.splits)

interpretation string_to_memory: handler_sim "format_handler strftime string_grow args" "format_handler strftime memory_grow args"
  "same_text (\<lambda>b. used b = length (store b)) wf_buf c1 c2" no_error "\<lambda>_. True"
  for strftime args c1 c2
  by (rule string_memory.same_handler_sim)

interpretation memory_to_string: handler_sim "format_handler strftime memory_grow args" "format_handler strftime string_grow args"
  "same_text wf_buf (\<lambda>b. used b = length (store b)) c1 c2" no_error "\<lambda>_. True"
  for strftime args c1 c2
  by (rule memory_string.same_handler_sim)

text \<open>
  C27: \<open>format\<close>, which writes into a \<open>memory_buffer\<close> that grows by half its capacity, and \<open>format_to\<close> with the \<open>back_inserter\<close> of a string,
  which resizes the string for every reservation and writes into it, produce the same text, for every format string and all arguments: one
  of them returns exactly if the other one does, and the container has its old text and the new text and nothing else.
\<close>
theorem format_agrees_with_format_to:
  "format_string strftime s args = Done txt () \<longleftrightarrow> format_to strftime s args container = Done () (container @ txt)"
proof -
  let ?args = "\<lparr>arg_list = args, arg_names = []\<rparr>" and ?s = "\<lparr>store = container, used = length container\<rparr>"
  let ?m = "\<lparr>store = replicate 500 (CHR 0x00), used = 0\<rparr>"
  let ?S = "parse_format_string (format_handler strftime string_grow ?args) s \<lparr>next_id = 0, out = ?s\<rparr>"
  let ?M = "parse_format_string (format_handler strftime memory_grow ?args) s \<lparr>next_id = 0, out = ?m\<rparr>"
  have "sim (same_text (\<lambda>b. used b = length (store b)) wf_buf container []) no_error ?S ?M"
    by (rule string_to_memory.sim_format_string) (simp add: same_text_def wf_buf_def content_def)
  then have S: "?S = Done () st \<Longrightarrow> \<exists>st' txt. ?M = Done () st' \<and> store (out st) = container @ txt \<and> content (out st') = txt" for st
    by (fastforce simp: sim_def no_error_def same_text_def dest: content_full)
  have "sim (same_text wf_buf (\<lambda>b. used b = length (store b)) [] container) no_error ?M ?S"
    by (rule memory_to_string.sim_format_string) (simp add: same_text_def wf_buf_def content_def)
  then have M: "?M = Done () st \<Longrightarrow> \<exists>st' txt. ?S = Done () st' \<and> store (out st') = container @ txt \<and> content (out st) = txt" for st
    by (fastforce simp: sim_def no_error_def same_text_def dest: content_full)
  show ?thesis unfolding format_to_Done format_string_Done using S M by fastforce
qed

text \<open>
  C26: The parser has two loops, one for format strings of less than 32 characters that looks at each character, and one that searches for
  braces. Both do exactly the same: for the formatting handler and for the checker, they make the same calls in the same state, so the result, the
  exception and the output do not depend on the length of the format string.
\<close>
theorem parse_loops_agree:
  assumes "used (out st) = length (store (out st))"
  shows "parse_format_string (format_handler strftime string_grow args) s st = short_loop (format_handler strftime string_grow args) [] s st \<and>
    parse_format_string (format_handler strftime string_grow args) s st = long_loop (format_handler strftime string_grow args) s st \<and>
    short_loop (format_string_checker types) [] s n = long_loop (format_string_checker types) s n"
  by (simp add: parse_format_string_def string_text.short_long [OF assms] checker_text.short_long)

theorem parse_loops_agree_witness:
  "long_loop (format_handler (\<lambda>f t :: unit. f) string_grow \<lparr>arg_list = [String_Arg ''ab''], arg_names = []\<rparr>) ''{}}}''
     \<lparr>next_id = 0, out = \<lparr>store = [], used = 0\<rparr>\<rparr> = Done () \<lparr>next_id = 1, out = \<lparr>store = ''ab}'', used = 3\<rparr>\<rparr>"
proof -
  have "short_loop (format_handler (\<lambda>f t :: unit. f) string_grow \<lparr>arg_list = [String_Arg ''ab''], arg_names = []\<rparr>) [] ''{}}}''
      \<lparr>next_id = 0, out = \<lparr>store = [], used = 0\<rparr>\<rparr> = Done () \<lparr>next_id = 1, out = \<lparr>store = ''ab}'', used = 3\<rparr>\<rparr>"
    by code_simp
  then show ?thesis
    using parse_loops_agree [of "\<lparr>next_id = 0, out = \<lparr>store = [], used = 0\<rparr>\<rparr>" "\<lambda>f t :: unit. f"
      "\<lparr>arg_list = [String_Arg ''ab''], arg_names = []\<rparr>" "''{}}}''" "[]" 0] by auto
qed

section \<open>Integers\<close>

text \<open>
  C29: The number of digits that \<open>count_digits\<close> takes from the position of the highest bit and a table of powers of ten is the number of decimal
  digits, for all integers of all widths, and the digits that \<open>format_decimal\<close> writes, two at a time from the end of the buffer, fill a
  buffer of that size exactly from its start and stand for the number.
\<close>
theorem decimal_digits_exact:
  fixes n :: "'a::len word"
  shows "count_digits n = length (digits_in 10 (unat n)) \<and>
    format_decimal n (count_digits n) = Inr (0, map digit_char (digits_in 10 (unat n))) \<and>
    number 10 (digits_in 10 (unat n)) = unat n \<and> (n \<noteq> 0 \<longrightarrow> hd (digits_in 10 (unat n)) \<noteq> 0)"
  by (simp add: count_digits_eq format_decimal_eq [unfolded count_digits_eq] number_digits_in hd_digits_in unat_gt_0)

theorem decimal_digits_exact_witness:
  "count_digits (1000 :: u32) = length (digits_in 10 1000) \<and> hd (digits_in 10 1000) \<noteq> 0"
  using decimal_digits_exact [of "1000 :: u32"] by simp

text \<open>
  C25: An integer of any width, signed or not, is written with any specifiers of the parser as sign, base prefix, zeros up to the precision or
  (with numeric alignment) the width, digits of its magnitude in the base of the presentation type and padding, whatever the buffer was: the
  capacity is reserved beforehand, nothing else in the buffer changes, and no read or write goes out of bounds, not even for
  the smallest value of a signed type. Any other presentation type throws before anything is written.
\<close>
theorem write_int_text:
  fixes v :: "'a::len word"
  assumes "wf_buf b" and "specs_ok specs"
  shows "if check_int_type_spec (type_char specs)
    then \<exists>b'. write_int memory_grow sg v specs b = Done () b' \<and> wf_buf b' \<and>
      content b' = content b @ int_text specs (int_value sg v < 0) (nat \<bar>int_value sg v\<bar>)
    else write_int memory_grow sg v specs b = Throw ''invalid type specifier'' b"
proof -
  have neg: "is_negative sg v \<longleftrightarrow> int_value sg v < 0" by (auto simp: is_negative_def int_value_def)
  then have "nat \<bar>int_value sg v\<bar> = unat (abs_value sg v)" using abs_value_eq [of sg v] by auto
  then show ?thesis using memory_buf.write_int_wrote [OF assms, of sg v] memory_buf.wrote_props [OF assms(1)] neg by auto
qed

text \<open>The smallest \<open>int\<close> in hexadecimal with a base, in a buffer that is full.\<close>

theorem write_int_text_witness:
  "\<exists>b'. write_int memory_grow True (0x80000000 :: u32) (default_specs\<lparr>type_char := CHR ''x'', alt := True\<rparr>) \<lparr>store = ''ab'', used = 2\<rparr> = Done () b' \<and>
     content b' = ''ab-0x80000000''"
proof -
  let ?specs = "default_specs\<lparr>type_char := CHR ''x'', alt := True\<rparr>" and ?b = "\<lparr>store = ''ab'', used = 2\<rparr>"
  have "wf_buf ?b" "specs_ok ?specs" "check_int_type_spec (type_char ?specs)" "content ?b = ''ab''"
    by (simp_all add: wf_buf_def specs_ok_def default_specs_def check_int_type_spec_def content_def)
  moreover have "int_value True (0x80000000 :: u32) = - 0x80000000" by (simp add: int_value_def)
  moreover have "int_text ?specs True 0x80000000 = ''-0x80000000''"
    by (simp add: int_text_def int_body_def pad_text_def sign_text_def base_text_def int_digits_def digits_in.simps base_char_def hex_digit_def default_specs_def)
  ultimately show ?thesis using write_int_text [of ?b ?specs True "0x80000000 :: u32"] by auto
qed

text \<open>
  C30: What \<open>format\<close> writes for an unsigned integer is read back by the parser of widths, precisions and indices as the same number if it fits
  into an \<open>int\<close>, with the rest of the string left; a larger one is rejected as too big and never wraps around.
\<close>
theorem decimal_round_trip:
  assumes "rest = [] \<or> \<not> is_digit (hd rest)"
  shows "\<exists>txt. format_string strftime ''{}'' [ULongLong_Arg v] = Done txt () \<and>
    parse_nonnegative_int (txt @ rest) st = (if v < 2 ^ 31 then Done (uint v, rest) st else Throw ''number is too big'' st)"
proof -
  let ?b = "\<lparr>store = replicate 500 (CHR 0x00), used = 0\<rparr>" and ?txt = "map digit_char (digits_in 10 (unat v))"
  have "wf_buf ?b" by (simp add: wf_buf_def)
  then obtain b' where "write_default strftime memory_grow (ULongLong_Arg v) ?b = Done () b'" "content b' = content ?b @ default_text strftime (ULongLong_Arg v)"
    using memory_buf.write_default_appends [of ?b "ULongLong_Arg v" strftime] by (auto simp del: write_default.simps)
  moreover have "default_text strftime (ULongLong_Arg v) = ?txt" by (simp add: default_int_text is_negative_def abs_value_def)
  ultimately have "format_string strftime ''{}'' [ULongLong_Arg v] = Done ?txt ()"
    by (simp add: format_string_def vformat_to_def get_arg_def content_def)
  moreover have "parse_nonnegative_int (?txt @ rest) st = (if v < 2 ^ 31 then Done (uint v, rest) st else Throw ''number is too big'' st)"
    using parse_nonnegative_int_digits [of "digits_in 10 (unat v)" rest st] assms digits_in_less [of 10 _ "unat v"]
    by (auto simp: number_digits_in word_less_nat_alt)
  ultimately show ?thesis by blast
qed

theorem decimal_round_trip_witness:
  "\<exists>txt. format_string (\<lambda>f t :: unit. f) ''{}'' [ULongLong_Arg 2147483648] = Done txt () \<and>
     parse_nonnegative_int (txt @ ''}'') () = Throw ''number is too big'' ()"
  using decimal_round_trip [of "''}''" "\<lambda>f t :: unit. f" 2147483648 "()"] by (simp add: is_digit_def)

section \<open>Limits\<close>

text \<open>
  What the check at compile time accepts although it throws for all values: a dynamic width with a name, and one of a type that is not an integer. A
  format of the macros of the logger with explicit indices is rejected, since the macro's own fields number themselves.
\<close>

lemma check_limits:
  "check_format_string [int_type] ''{:{w}}''" "check_format_string [int_type, string_type] ''{:{}}''"
  "\<not> check_format_string [cstring_type, int_type, int_type] ''{}:{}] {0}''"
  by code_simp+

text \<open>A dynamic width of 128 bits is reduced to 64 bits before it is compared with the largest \<open>int\<close>.\<close>

lemma wide_width_truncated: "get_dynamic_spec ''width'' (UInt128_Arg (2 ^ 64 + 5)) = Inr 5"
  by (simp add: get_dynamic_spec_def)

end
