(* ===== verification/Fmt_Print.thy ===== *)
theory Fmt_Print
  imports Fmt_Format
begin

text \<open>
  Format strings that are printed: format specifiers as the documented grammar
  \<open>[[fill]align][sign][#][0][width][.precision][L][type]\<close> has them, and format strings of text and fields. The parser reads back what was printed.
\<close>

section \<open>Specifiers\<close>

fun align_text :: "align_t \<Rightarrow> string" where
  "align_text Align_Left = ''<''"
| "align_text Align_Right = ''>''"
| "align_text Align_Center = ''^''"
| "align_text _ = ''''"

fun sign_chars :: "sign_t \<Rightarrow> string" where
  "sign_chars Sign_Plus = ''+''"
| "sign_chars Sign_Minus = ''-''"
| "sign_chars Sign_Space = '' ''"
| "sign_chars Sign_None = ''''"

definition decimal :: "int \<Rightarrow> string" where
  "decimal n = map digit_char (digits_in 10 (nat n))"

definition flag :: "bool \<Rightarrow> string \<Rightarrow> string" where
  "flag b s = (if b then s else '''')"

text \<open>The parts from the end to the front, each with what follows it.\<close>

definition print_type :: "format_specs \<Rightarrow> string" where
  "print_type sp = flag (localized sp) ''L'' @ flag (type_char sp \<noteq> CHR 0x00) [type_char sp]"

definition print_precision :: "format_specs \<Rightarrow> string" where
  "print_precision sp = flag (0 \<le> precision sp) (CHR ''.'' # decimal (precision sp)) @ print_type sp"

definition print_width :: "format_specs \<Rightarrow> string" where
  "print_width sp = flag (width sp \<noteq> 0) (decimal (width sp)) @ print_precision sp"

definition print_zero :: "format_specs \<Rightarrow> string" where
  "print_zero sp = flag (align sp = Align_Numeric) ''0'' @ print_width sp"

definition print_hash :: "format_specs \<Rightarrow> string" where
  "print_hash sp = flag (alt sp) ''#'' @ print_zero sp"

definition print_sign :: "format_specs \<Rightarrow> string" where
  "print_sign sp = sign_chars (sign sp) @ print_hash sp"

definition print_specs :: "format_specs \<Rightarrow> string" where
  "print_specs sp = flag (align_text (align sp) \<noteq> '''') (fill sp @ align_text (align sp)) @ print_sign sp"

lemmas print_defs = print_sign_def print_hash_def print_zero_def print_width_def print_precision_def print_type_def

text \<open>The specifiers that the grammar has, and those that a type of argument allows.\<close>

definition printable :: "format_specs \<Rightarrow> bool" where
  "printable sp \<longleftrightarrow>
     0 \<le> width sp \<and> width sp < 2 ^ 31 \<and> - 1 \<le> precision sp \<and> precision sp < 2 ^ 31 \<and>
     (case align sp of
        Align_None \<Rightarrow> fill sp = '' ''
      | Align_Numeric \<Rightarrow> fill sp = ''0''
      | _ \<Rightarrow> fill sp \<noteq> '''' \<and> code_point_length (hd (fill sp)) = length (fill sp) \<and> hd (fill sp) \<noteq> CHR ''{'') \<and>
     (type_char sp = CHR 0x00 \<or> is_ascii_letter (type_char sp) \<and> type_char sp \<noteq> CHR ''L'')"

definition allowed_for :: "arg_type \<Rightarrow> format_specs \<Rightarrow> bool" where
  "allowed_for t sp \<longleftrightarrow>
     (alt sp \<or> localized sp \<or> align sp = Align_Numeric \<or> sign sp \<noteq> Sign_None \<longrightarrow> is_arithmetic_type t) \<and>
     (sign sp \<noteq> Sign_None \<and> is_integral_type t \<longrightarrow> t \<in> {int_type, long_long_type, char_type}) \<and>
     (0 \<le> precision sp \<longrightarrow> \<not> is_integral_type t \<and> t \<noteq> pointer_type)"

text \<open>The short cut for a single letter has the result of the general path.\<close>

definition parse_specs_general :: "'s spec_handler \<Rightarrow> arg_type \<Rightarrow> string \<Rightarrow> 's \<Rightarrow> ('s, string) outcome" where
  "parse_specs_general H t s st =
        bnd (unless_end (parse_align H t) s st) (\<lambda>s st.
        bnd (unless_end (parse_sign H t) s st) (\<lambda>s st.
        bnd (unless_end (parse_flag H t (CHR ''#'') On_Hash) s st) (\<lambda>s st.
        bnd (unless_end (parse_flag H t (CHR ''0'') On_Zero) s st) (\<lambda>s st.
        bnd (unless_end (parse_width H t) s st) (\<lambda>s st.
        bnd (unless_end (\<lambda>s st. if hd s = CHR ''.'' then parse_precision H t s st else Done s st) s st) (\<lambda>s st.
        unless_end (parse_type H t) s st))))))"

lemma code_point_length_ascii: "(of_char c :: nat) < 128 \<Longrightarrow> code_point_length c = 1"
proof -
  let ?L = "[1, 1, 1, 1, 1, 1, 1, 1, 1, 1, 1, 1, 1, 1, 1, 1, 0, 0, 0, 0, 0, 0, 0, 0, 2, 2, 2, 2, 3, 3, 4, 0] :: nat list"
  assume "(of_char c :: nat) < 128"
  then have "(of_char c :: nat) < 16 * 8" by simp
  then have "of_char c div 8 < (16 :: nat)" by (rule less_mult_imp_div_less)
  then have "(of_char c div 8 :: nat) \<in> set [0..<16]" by simp
  moreover have "\<forall>i\<in>set [0..<16]. ?L ! i = 1" by code_simp
  ultimately have "?L ! (of_char c div 8) = 1" by blast
  then show ?thesis by (simp add: code_point_length_def)
qed

lemma letter_simps:
  assumes "is_ascii_letter c"
  shows "(of_char c :: nat) < 128" and "align_of c = Align_None" and "\<not> is_digit c"
    and "c \<notin> {CHR ''+'', CHR ''-'', CHR '' '', CHR ''#'', CHR ''0'', CHR ''{'', CHR ''}'', CHR ''.''}"
  using assms by (auto simp: is_ascii_letter_def is_digit_def)

lemma parse_format_specs_general: "parse_format_specs H t s st = parse_specs_general H t s st"
proof (cases "length s > 1 \<and> s ! 1 = CHR ''}'' \<and> is_ascii_letter (hd s) \<and> hd s \<noteq> CHR ''L''")
  case True
  then obtain c r where s: "s = c # CHR ''}'' # r" by (cases s; cases "tl s") auto
  note l = letter_simps [of c]
  have c: "is_ascii_letter c" "c \<noteq> CHR ''L''" using True s by auto
  have "unless_end (parse_align H t) s st = Done s st"
    using c l(1,2) by (simp add: unless_end_def parse_align_def s code_point_length_ascii)
  moreover have "unless_end (parse_sign H t) s st = Done s st" "unless_end (parse_flag H t (CHR ''#'') On_Hash) s st = Done s st"
    "unless_end (parse_flag H t (CHR ''0'') On_Zero) s st = Done s st"
    "unless_end (parse_width H t) s st = Done s st"
    using c l by (auto simp: unless_end_def parse_sign_def parse_flag_def parse_width_def s)
  ultimately show ?thesis using c l(4) True
    by (auto simp: parse_format_specs_def parse_specs_general_def s unless_end_def parse_type_def)
qed (auto simp: parse_format_specs_def parse_specs_general_def)

lemmas notify = specs_handler_def check_sign_def require_numeric_argument_def

lemma parse_align_printed:
  assumes "align_text a \<noteq> ''''" and "f \<noteq> ''''" and "code_point_length (hd f) = length f" and "hd f \<noteq> CHR ''{''"
  shows "parse_align (specs_handler args) t (f @ align_text a @ s) (sp, st) = Done s (sp\<lparr>fill := f, align := a\<rparr>, st)"
proof -
  obtain c where c: "align_text a = [c]" "align_of c = a" "a \<noteq> Align_None" "a \<noteq> Align_Numeric" using assms(1) by (cases a) auto
  have "hd (f @ c # s) = hd f" "(f @ c # s) ! length f = c" using assms(2) by simp_all
  then show ?thesis using assms c by (simp add: parse_align_def Let_def notify del: align_of.simps)
qed

text \<open>Without alignment, neither of the first two characters looks like one.\<close>

lemma parse_align_none:
  assumes "s = c # r" and "(of_char c :: nat) < 128" and "align_of c = Align_None" and "r = [] \<or> align_of (hd r) = Align_None"
  shows "parse_align H t s st = Done s st"
  using assms by (cases r) (auto simp: parse_align_def code_point_length_ascii)

lemma parse_sign_printed:
  assumes "sg \<noteq> Sign_None \<longrightarrow> is_arithmetic_type t \<and> (is_integral_type t \<longrightarrow> t \<in> {int_type, long_long_type, char_type})"
    and "hd s \<notin> {CHR ''+'', CHR ''-'', CHR '' ''}" and "sign sp = Sign_None"
  shows "parse_sign (specs_handler args) t (sign_chars sg @ s) (sp, st) = Done s (sp\<lparr>sign := sg\<rparr>, st)"
proof (cases sg)
  case Sign_None
  then show ?thesis using assms by (cases sp) (simp add: parse_sign_def)
qed (use assms in \<open>simp_all add: parse_sign_def notify del: is_arithmetic_type.simps is_integral_type.simps\<close>)

lemma parse_flag_printed:
  assumes "b \<longrightarrow> is_arithmetic_type t" and "hd s \<noteq> c" and "e \<in> {On_Hash, On_Zero}"
  shows "parse_flag (specs_handler args) t c e (flag b [c] @ s) (sp, st) = Done s (if b then specs_setter e sp else sp, st)"
  using assms by (auto simp: parse_flag_def flag_def notify simp del: is_arithmetic_type.simps is_integral_type.simps)

lemma decimal_digits: "decimal n = map digit_char (digits_in 10 (nat n))" "digits_in 10 (nat n) \<noteq> []" "\<forall>d\<in>set (digits_in 10 (nat n)). d < 10"
  using digits_in_less [of 10 _ "nat n"] by (auto simp: decimal_def)

lemma parse_decimal:
  assumes "0 \<le> n" and "n < 2 ^ 31" and "rest = [] \<or> \<not> is_digit (hd rest)"
  shows "parse_nonnegative_int (decimal n @ rest) st = Done (n, rest) st"
  using parse_nonnegative_int_digits [OF decimal_digits(2,3) assms(3), of n st] assms(1,2)
  by (simp add: decimal_def number_digits_in)

lemma hd_decimal: "is_digit (hd (decimal n @ s))" "decimal n \<noteq> []" "0 < n \<Longrightarrow> hd (decimal n @ s) \<noteq> CHR ''0''"
proof -
  obtain d ds where d: "digits_in 10 (nat n) = d # ds" using decimal_digits(2) by (meson neq_Nil_conv)
  then have "d < 10" using decimal_digits(3) [of n] by simp
  then show "is_digit (hd (decimal n @ s))" by (simp add: decimal_def d is_digit_digit_char)
  show "decimal n \<noteq> []" by (simp add: decimal_def)
  assume "0 < n"
  then have "d \<noteq> 0" using hd_digits_in [of 10 "nat n"] d by simp
  moreover have "digit_char d = CHR ''0'' \<Longrightarrow> d = 0" using of_char_digit_char(1) [OF \<open>d < 10\<close>] by simp
  ultimately show "hd (decimal n @ s) \<noteq> CHR ''0''" by (auto simp: decimal_def d)
qed

lemma parse_width_printed:
  assumes "0 \<le> w" and "w < 2 ^ 31" and "s \<noteq> []" and "\<not> is_digit (hd s)" and "hd s \<noteq> CHR ''{''" and "width sp = 0"
  shows "parse_width (specs_handler args) t (flag (w \<noteq> 0) (decimal w) @ s) (sp, st) = Done s (sp\<lparr>width := w\<rparr>, st)"
proof (cases "w = 0")
  case True
  then show ?thesis using assms by (cases sp) (simp add: parse_width_def flag_def)
next
  case False
  then show ?thesis using assms hd_decimal(1,3) [of w s] hd_decimal(2) [of w] parse_decimal [OF assms(1,2), of s "(sp, st)"]
    by (simp add: parse_width_def flag_def notify)
qed

lemma parse_precision_printed:
  assumes "0 \<le> p" and "p < 2 ^ 31" and "s = [] \<or> \<not> is_digit (hd s)" and "\<not> is_integral_type t" and "t \<noteq> pointer_type"
  shows "parse_precision (specs_handler args) t (CHR ''.'' # decimal p @ s) (sp, st) = Done s (sp\<lparr>precision := p\<rparr>, st)"
  using assms hd_decimal(1,3) [of p s] hd_decimal(2) [of p] parse_decimal [OF assms(1,2,3), of "(sp, st)"]
  by (simp add: parse_precision_def Let_def notify check_precision_def del: is_integral_type.simps)

lemma parse_type_printed:
  assumes "l \<longrightarrow> is_arithmetic_type t" and "c = CHR 0x00 \<or> is_ascii_letter c \<and> c \<noteq> CHR ''L''" and "localized sp = False" "type_char sp = CHR 0x00"
  shows "parse_type (specs_handler args) t (flag l ''L'' @ flag (c \<noteq> CHR 0x00) [c] @ CHR ''}'' # s) (sp, st) =
    Done (CHR ''}'' # s) (sp\<lparr>localized := l, type_char := c\<rparr>, st)"
  using assms letter_simps(4) [of c]
  by (cases sp; cases l; cases "c = CHR 0x00") (auto simp: parse_type_def flag_def notify simp del: is_arithmetic_type.simps is_integral_type.simps)

text \<open>The characters that the printed specifiers behind the alignment have.\<close>

definition plain_char :: "char \<Rightarrow> bool" where
  "plain_char c \<longleftrightarrow> (of_char c :: nat) < 128 \<and> align_of c = Align_None"

lemma plain_char_simps [simp]: "is_ascii_letter c \<Longrightarrow> plain_char c" "is_digit c \<Longrightarrow> plain_char c"
  "plain_char (CHR ''+'')" "plain_char (CHR ''-'')" "plain_char (CHR '' '')" "plain_char (CHR ''#'')" "plain_char (CHR ''0'')" "plain_char (CHR ''.'')"
  "plain_char (CHR ''L'')" "plain_char (CHR ''}'')"
  by (auto simp: plain_char_def is_digit_def dest: letter_simps)

lemma plain_parts:
  "list_all plain_char (sign_chars s)" "list_all plain_char (decimal n)" "list_all plain_char x \<Longrightarrow> list_all plain_char (flag b x)"
proof -
  show "list_all plain_char (sign_chars s)" by (cases s) simp_all
  show "list_all plain_char (decimal n)" using decimal_digits(3) [of n] by (auto simp: decimal_def list_all_iff is_digit_digit_char)
qed (simp add: flag_def)

lemma parse_align_plain:
  assumes "list_all plain_char q" and "q \<noteq> [] \<or> rest = [] \<or> align_of (hd rest) = Align_None"
  shows "parse_align H t (q @ CHR ''}'' # rest) st = Done (q @ CHR ''}'' # rest) st"
proof (cases q)
  case Nil
  then show ?thesis using assms(2) by (intro parse_align_none) auto
next
  case (Cons c r)
  then show ?thesis using assms(1)
    by (intro parse_align_none [of _ c "r @ CHR ''}'' # rest"]; cases r) (auto simp: plain_char_def simp del: align_of.simps, simp)
qed

lemma printed_heads:
  assumes "printable sp"
  shows "\<not> is_digit (hd (print_type sp @ CHR ''}'' # s))" and "hd (print_type sp @ CHR ''}'' # s) \<noteq> CHR ''.''"
    and "\<not> is_digit (hd (print_precision sp @ CHR ''}'' # s))" and "hd (print_precision sp @ CHR ''}'' # s) \<noteq> CHR ''{''"
    and "hd (print_width sp @ CHR ''}'' # s) \<noteq> CHR ''0''" and "hd (print_zero sp @ CHR ''}'' # s) \<noteq> CHR ''#''"
    and "hd (print_hash sp @ CHR ''}'' # s) \<notin> {CHR ''+'', CHR ''-'', CHR '' ''}"
proof -
  let ?e = "CHR ''}'' # s"
  have ty: "type_char sp = CHR 0x00 \<or> is_ascii_letter (type_char sp) \<and> type_char sp \<noteq> CHR ''L''" and w: "0 \<le> width sp"
    using assms by (simp_all add: printable_def)
  have T: "\<not> is_digit (hd (print_type sp @ ?e))"
      "hd (print_type sp @ ?e) \<notin> {CHR ''+'', CHR ''-'', CHR '' '', CHR ''#'', CHR ''0'', CHR ''{'', CHR ''.''}"
    using ty letter_simps [of "type_char sp"] by (auto simp: print_type_def flag_def is_digit_def)
  have P: "\<not> is_digit (hd (print_precision sp @ ?e))"
      "hd (print_precision sp @ ?e) \<notin> {CHR ''+'', CHR ''-'', CHR '' '', CHR ''#'', CHR ''0'', CHR ''{''}"
    using T by (auto simp: print_precision_def flag_def is_digit_def)
  have W: "hd (print_width sp @ ?e) \<notin> {CHR ''+'', CHR ''-'', CHR '' '', CHR ''#'', CHR ''0''}"
    using P(2) w hd_decimal(1,3) [of "width sp" "print_precision sp @ ?e"] by (auto simp: print_width_def flag_def is_digit_def)
  have Z: "hd (print_zero sp @ ?e) \<notin> {CHR ''+'', CHR ''-'', CHR '' '', CHR ''#''}" using W by (auto simp: print_zero_def flag_def)
  then show "hd (print_hash sp @ ?e) \<notin> {CHR ''+'', CHR ''-'', CHR '' ''}" by (auto simp: print_hash_def flag_def)
  show "\<not> is_digit (hd (print_type sp @ ?e))" "hd (print_type sp @ ?e) \<noteq> CHR ''.''" "\<not> is_digit (hd (print_precision sp @ ?e))"
    "hd (print_precision sp @ ?e) \<noteq> CHR ''{''" "hd (print_width sp @ ?e) \<noteq> CHR ''0''" "hd (print_zero sp @ ?e) \<noteq> CHR ''#''"
    using T P W Z by auto
qed

lemma plain_print_sign:
  assumes "printable sp"
  shows "list_all plain_char (print_sign sp)"
proof -
  have "type_char sp = CHR 0x00 \<or> is_ascii_letter (type_char sp)" using assms by (auto simp: printable_def)
  then show ?thesis by (cases "type_char sp = CHR 0x00") (auto simp: print_defs flag_def [of False] intro!: plain_parts)
qed

definition align_specs :: "format_specs \<Rightarrow> format_specs" where
  "align_specs sp = (if align_text (align sp) \<noteq> '''' then default_specs\<lparr>fill := fill sp, align := align sp\<rparr> else default_specs)"

lemma parse_align_specs:
  assumes p: "printable sp" and r: "print_specs sp \<noteq> '''' \<or> rest = '''' \<or> align_of (hd rest) = Align_None"
  shows "parse_align (specs_handler args) t (print_specs sp @ CHR ''}'' # rest) (default_specs, st) =
    Done (print_sign sp @ CHR ''}'' # rest) (align_specs sp, st)"
proof (cases "align_text (align sp) \<noteq> ''''")
  case True
  then have "fill sp \<noteq> ''''" "code_point_length (hd (fill sp)) = length (fill sp)" "hd (fill sp) \<noteq> CHR ''{''"
    using p by (auto simp: printable_def split: align_t.splits)
  then show ?thesis using True parse_align_printed [of "align sp" "fill sp" args t "print_sign sp @ CHR ''}'' # rest" default_specs st]
    by (simp add: print_specs_def flag_def align_specs_def)
next
  case False
  then show ?thesis using plain_print_sign [OF p] r parse_align_plain [of "print_sign sp" rest "specs_handler args" t]
    by (simp add: print_specs_def flag_def align_specs_def)
qed

lemmas type_checks = is_arithmetic_type.simps is_integral_type.simps

lemma printed_specs_parse:
  assumes p: "printable sp" and a: "allowed_for t sp"
    and r: "print_specs sp \<noteq> '''' \<or> rest = '''' \<or> align_of (hd rest) = Align_None"
  shows "parse_format_specs (specs_handler args) t (print_specs sp @ CHR ''}'' # rest) (default_specs, st) = Done (CHR ''}'' # rest) (sp, st)"
proof -
  let ?e = "CHR ''}'' # rest" and ?H = "specs_handler args"
  have ty: "type_char sp = CHR 0x00 \<or> is_ascii_letter (type_char sp) \<and> type_char sp \<noteq> CHR ''L''"
    and w: "0 \<le> width sp" "width sp < 2 ^ 31" and pr: "precision sp < 2 ^ 31" "- 1 \<le> precision sp" using p by (simp_all add: printable_def)
  note heads = printed_heads [OF p, of rest]
  define sp1 where "sp1 = (align_specs sp)\<lparr>sign := sign sp\<rparr>"
  define sp2 where "sp2 = (if alt sp then sp1\<lparr>alt := True\<rparr> else sp1)"
  define sp3 where "sp3 = (if align sp = Align_Numeric then specs_setter On_Zero sp2 else sp2)"
  define sp4 where "sp4 = sp3\<lparr>width := width sp\<rparr>"
  define sp5 where "sp5 = (if 0 \<le> precision sp then sp4\<lparr>precision := precision sp\<rparr> else sp4)"
  note defs = sp5_def sp4_def sp3_def sp2_def sp1_def align_specs_def default_specs_def
  have a1: "alt sp \<or> localized sp \<or> align sp = Align_Numeric \<or> sign sp \<noteq> Sign_None \<Longrightarrow> is_arithmetic_type t"
    and a2: "sign sp \<noteq> Sign_None \<and> is_integral_type t \<Longrightarrow> t \<in> {int_type, long_long_type, char_type}"
    and a3: "0 \<le> precision sp \<Longrightarrow> \<not> is_integral_type t \<and> t \<noteq> pointer_type" using a unfolding allowed_for_def by blast+
  note parse_align_specs [OF p r, of args t st]
  moreover have "parse_sign ?H t (print_sign sp @ ?e) (align_specs sp, st) = Done (print_hash sp @ ?e) (sp1, st)"
    unfolding print_sign_def sp1_def append_assoc using a1 a2 heads by (intro parse_sign_printed) (auto simp: defs simp del: type_checks)
  moreover have "parse_flag ?H t (CHR ''#'') On_Hash (print_hash sp @ ?e) (sp1, st) = Done (print_zero sp @ ?e) (sp2, st)"
    using parse_flag_printed [of "alt sp" t "print_zero sp @ ?e" "CHR ''#''" On_Hash args sp1 st] a1 heads
    by (simp add: print_hash_def sp2_def del: type_checks)
  moreover have "parse_flag ?H t (CHR ''0'') On_Zero (print_zero sp @ ?e) (sp2, st) = Done (print_width sp @ ?e) (sp3, st)"
    using parse_flag_printed [of "align sp = Align_Numeric" t "print_width sp @ ?e" "CHR ''0''" On_Zero args sp2 st] a1 heads
    by (simp add: print_zero_def sp3_def del: type_checks)
  moreover have "parse_width ?H t (print_width sp @ ?e) (sp3, st) = Done (print_precision sp @ ?e) (sp4, st)"
    unfolding print_width_def sp4_def append_assoc using heads by (intro parse_width_printed w) (auto simp: defs)
  moreover have "(if hd (print_precision sp @ ?e) = CHR ''.'' then parse_precision ?H t (print_precision sp @ ?e) (sp4, st)
      else Done (print_precision sp @ ?e) (sp4, st)) = Done (print_type sp @ ?e) (sp5, st)"
    using heads parse_precision_printed [OF _ pr(1), of "print_type sp @ ?e" t args sp4 st] a3
    by (auto simp: print_precision_def flag_def sp5_def simp del: type_checks)
  moreover have "parse_type ?H t (print_type sp @ ?e) (sp5, st) = Done ?e (sp5\<lparr>localized := localized sp, type_char := type_char sp\<rparr>, st)"
    unfolding print_type_def append_assoc using a1 ty by (intro parse_type_printed) (auto simp: defs simp del: type_checks)
  moreover have "sp5\<lparr>localized := localized sp, type_char := type_char sp\<rparr> = sp"
    using p by (cases sp) (auto simp: defs printable_def split: align_t.splits)
  ultimately show ?thesis by (simp add: parse_format_specs_general parse_specs_general_def unless_end_def)
qed

text \<open>
  C24: Format specifiers that are printed in the grammar \<open>[[fill]align][sign][#][0][width][.precision][L][type]\<close> and are allowed for the type of the
  argument are parsed to the same specifiers, for all fills of one UTF-8 character, all widths and precisions below \<open>2\<^sup>3\<^sup>1\<close> and all types, and the parser
  stops at the closing brace. The exception are empty specifiers before an alignment character in the text: \<open>{:}<\<close> starts with the fill \<open>}\<close>.
\<close>
theorem specs_round_trip:
  assumes "printable sp" and "allowed_for t sp"
    and "print_specs sp \<noteq> '''' \<or> rest = '''' \<or> align_of (hd rest) = Align_None"
  shows "parse_format_specs (specs_handler args) t (print_specs sp @ CHR ''}'' # rest) (default_specs, st) = Done (CHR ''}'' # rest) (sp, st)"
  using assms by (rule printed_specs_parse)

theorem specs_round_trip_witness:
  "parse_format_specs (specs_handler \<lparr>arg_list = [] :: unit fmt_arg list, arg_names = []\<rparr>) int_type ''*^+#12x}<''
     (default_specs, \<lparr>next_id = 1, out = \<lparr>store = [], used = 0\<rparr>\<rparr>) =
   Done ''}<'' (\<lparr>width = 12, precision = -1, type_char = CHR ''x'', align = Align_Center, sign = Sign_Plus, alt = True, localized = False, fill = ''*''\<rparr>,
     \<lparr>next_id = 1, out = \<lparr>store = [], used = 0\<rparr>\<rparr>)"
proof -
  let ?sp = "\<lparr>width = 12, precision = -1, type_char = CHR ''x'', align = Align_Center, sign = Sign_Plus, alt = True, localized = False, fill = ''*''\<rparr>"
  have print: "print_specs ?sp = ''*^+#12x''"
    by (simp add: print_specs_def print_defs flag_def decimal_def digits_in.simps, code_simp)
  have "printable ?sp" by (simp add: printable_def is_ascii_letter_def code_point_length_def)
  moreover have "allowed_for int_type ?sp" by (simp add: allowed_for_def)
  ultimately show ?thesis
    using specs_round_trip [of ?sp int_type "''<''" "\<lparr>arg_list = [] :: unit fmt_arg list, arg_names = []\<rparr>" "\<lparr>next_id = 1, out = \<lparr>store = [], used = 0\<rparr>\<rparr>"]
    unfolding print by simp
qed

text \<open>Empty specifiers before an alignment character in the text: the closing brace is taken for the fill.\<close>

lemma empty_specs_before_align:
  "parse_format_specs (specs_handler args) t ''}<'' (default_specs, st) = Done [] (default_specs\<lparr>fill := ''}'', align := Align_Left\<rparr>, st)"
  by (simp add: parse_format_specs_general parse_specs_general_def unless_end_def parse_align_def code_point_length_def specs_handler_def)

section \<open>Format strings\<close>

text \<open>Text, fields and fields with specifiers, for the arguments in order. Braces in the text are doubled.\<close>

datatype piece = Letter char | Field | Field_With format_specs | Field_Time string

fun print_piece :: "piece \<Rightarrow> string" where
  "print_piece (Letter c) = (if c = CHR ''{'' \<or> c = CHR ''}'' then [c, c] else [c])"
| "print_piece Field = ''{}''"
| "print_piece (Field_With sp) = ''{:'' @ print_specs sp @ ''}''"
| "print_piece (Field_Time f) = ''{:'' @ f @ ''}''"

definition print_pieces :: "piece list \<Rightarrow> string" where
  "print_pieces ps = concat (map print_piece ps)"

fun time_of :: "'tm fmt_arg \<Rightarrow> 'tm option" where
  "time_of (Tm_Arg t) = Some t"
| "time_of _ = None"

fun pieces_text :: "(string \<Rightarrow> 'tm \<Rightarrow> string) \<Rightarrow> 'tm fmt_arg list \<Rightarrow> piece list \<Rightarrow> string" where
  "pieces_text strftime args [] = ''''"
| "pieces_text strftime args (Letter c # ps) = c # pieces_text strftime args ps"
| "pieces_text strftime args (Field # ps) = default_text strftime (hd args) @ pieces_text strftime (tl args) ps"
| "pieces_text strftime args (Field_With sp # ps) = arg_text sp (hd args) @ pieces_text strftime (tl args) ps"
| "pieces_text strftime args (Field_Time f # ps) =
     (case time_of (hd args) of Some t \<Rightarrow> tm_text strftime f t | None \<Rightarrow> '''') @ pieces_text strftime (tl args) ps"

definition field_ok :: "format_specs \<Rightarrow> 'tm fmt_arg \<Rightarrow> bool" where
  "field_ok sp a \<longleftrightarrow>
     type_of a \<noteq> custom_type \<and> printable sp \<and> allowed_for (type_of a) sp \<and> print_specs sp \<noteq> '''' \<and> check_type (type_of a) sp = None \<and>
     (null_string a \<longrightarrow> type_char sp = CHR ''p'')"

fun pieces_ok :: "'tm fmt_arg list \<Rightarrow> piece list \<Rightarrow> bool" where
  "pieces_ok args [] \<longleftrightarrow> True"
| "pieces_ok args (Letter c # ps) \<longleftrightarrow> pieces_ok args ps"
| "pieces_ok args (Field # ps) \<longleftrightarrow> args \<noteq> [] \<and> \<not> null_string (hd args) \<and> pieces_ok (tl args) ps"
| "pieces_ok args (Field_With sp # ps) \<longleftrightarrow> args \<noteq> [] \<and> field_ok sp (hd args) \<and> pieces_ok (tl args) ps"
| "pieces_ok args (Field_Time f # ps) \<longleftrightarrow>
     args \<noteq> [] \<and> time_of (hd args) \<noteq> None \<and> CHR ''}'' \<notin> set f \<and> (f \<noteq> [] \<longrightarrow> hd f \<noteq> CHR '':'') \<and> pieces_ok (tl args) ps"

context growable
begin

lemma handler_auto: "next_id st = int n \<Longrightarrow> on_arg_id (format_handler strftime g args) Auto_Id st = Done (int n) (st\<lparr>next_id := int (Suc n)\<rparr>)"
  by (simp add: format_handler_def handler_arg_id_def next_arg_id_def)

lemma get_arg_drop: "drop n (arg_list args) \<noteq> [] \<Longrightarrow> get_arg args (int n) = Some (hd (drop n (arg_list args)))"
  by (simp add: get_arg_def hd_drop_conv_nth)

lemma replacement_field_written:
  assumes "ok (out st)" and "get_arg args i = Some a" and "\<not> null_string a"
  shows "\<exists>b. on_replacement_field (format_handler strftime g args) i st = Done () (st\<lparr>out := b\<rparr>) \<and> ok b \<and>
    content b = content (out st) @ default_text strftime a"
  using write_default_appends [OF assms(1), of a strftime] assms(2,3)
  by (auto simp: format_handler_def handler_replacement_field_def on_out_def)

lemma format_specs_written:
  assumes "ok (out st)" and "get_arg args i = Some a" and "field_ok sp a"
  shows "\<exists>b. bnd (on_format_specs (format_handler strftime g args) i (print_specs sp @ CHR ''}'' # r) st) (after_specs (print_specs sp @ CHR ''}'' # r)) =
      Done r (st\<lparr>out := b\<rparr>) \<and> ok b \<and> content b = content (out st) @ arg_text sp a"
proof -
  let ?s = "print_specs sp @ CHR ''}'' # r"
  have f: "type_of a \<noteq> custom_type" "printable sp" "allowed_for (type_of a) sp" "print_specs sp \<noteq> ''''" "check_type (type_of a) sp = None"
    "null_string a \<longrightarrow> type_char sp = CHR ''p''" using assms(3) by (simp_all add: field_ok_def)
  have parse: "parse_format_specs (specs_handler args) (type_of a) ?s (default_specs, st) = Done (CHR ''}'' # r) (sp, st)"
    using f by (intro printed_specs_parse) auto
  have "specs_ok sp" using f(2) by (simp add: specs_ok_def printable_def)
  then obtain b where b: "arg_formatter g sp a (out st) = Done () b" "ok b" "content b = content (out st) @ arg_text sp a"
    using arg_formatter_appends [OF assms(1) _ f(1), of sp] f(5,6) by auto
  have "on_format_specs (format_handler strftime g args) i ?s st = Done (length ?s - length (CHR ''}'' # r)) (st\<lparr>out := b\<rparr>)"
    using b(1) parse by (simp add: format_handler_def handler_format_specs_builtin [OF assms(2) f(1)] on_out_def)
  then show ?thesis using b after_specs_suffix [of "CHR ''}'' # r" ?s "st\<lparr>out := b\<rparr>"] by (auto simp: suffix_def)
qed

lemma time_written:
  assumes "ok (out st)" and "get_arg args i = Some (Tm_Arg t)" and "CHR ''}'' \<notin> set f" and "f \<noteq> [] \<longrightarrow> hd f \<noteq> CHR '':''"
  shows "\<exists>b. bnd (on_format_specs (format_handler strftime g args) i (f @ CHR ''}'' # r) st) (after_specs (f @ CHR ''}'' # r)) =
      Done r (st\<lparr>out := b\<rparr>) \<and> ok b \<and> content b = content (out st) @ tm_text strftime f t"
proof -
  have "tm_parse (f @ CHR ''}'' # r) = (f, length f)" using assms(3,4) by (cases f) (auto simp: tm_parse_def takeWhile_no)
  then have "on_format_specs (format_handler strftime g args) i (f @ CHR ''}'' # r) st =
      Done (length f) (st\<lparr>out := fold (push_back g) (tm_text strftime f t) (out st)\<rparr>)"
    using assms(2) by (simp add: format_handler_def handler_format_specs_def)
  then show ?thesis using fold_push_back [OF assms(1), of "tm_text strftime f t"] by (auto simp: after_specs_def)
qed

lemma parse_field:
  assumes "ok (out st)" and "next_id st = int n" and "drop n (arg_list args) \<noteq> []" and "\<not> null_string (hd (drop n (arg_list args)))"
  shows "\<exists>b. parse_replacement_field (format_handler strftime g args) (''{}'' @ r) st = Done r (st\<lparr>next_id := int (Suc n), out := b\<rparr>) \<and> ok b \<and>
    content b = content (out st) @ default_text strftime (hd (drop n (arg_list args)))"
  using replacement_field_written [of "st\<lparr>next_id := int (Suc n)\<rparr>", OF _ get_arg_drop [OF assms(3)] assms(4), of strftime] assms(1) handler_auto [OF assms(2), of strftime args]
  by (auto simp: parse_replacement_field_def)

lemma parse_field_with:
  assumes "ok (out st)" and "next_id st = int n" and "drop n (arg_list args) \<noteq> []" and "field_ok sp (hd (drop n (arg_list args)))"
  shows "\<exists>b. parse_replacement_field (format_handler strftime g args) (''{:'' @ print_specs sp @ CHR ''}'' # r) st =
      Done r (st\<lparr>next_id := int (Suc n), out := b\<rparr>) \<and> ok b \<and> content b = content (out st) @ arg_text sp (hd (drop n (arg_list args)))"
  using format_specs_written [of "st\<lparr>next_id := int (Suc n)\<rparr>", OF _ get_arg_drop [OF assms(3)] assms(4), of strftime r] assms(1) handler_auto [OF assms(2), of strftime args]
  by (auto simp: parse_replacement_field_def parse_arg_id_def)

lemma parse_field_time:
  assumes "ok (out st)" and "next_id st = int n" and "drop n (arg_list args) \<noteq> []" and "hd (drop n (arg_list args)) = Tm_Arg t"
    and "CHR ''}'' \<notin> set f" and "f \<noteq> [] \<longrightarrow> hd f \<noteq> CHR '':''"
  shows "\<exists>b. parse_replacement_field (format_handler strftime g args) (''{:'' @ f @ CHR ''}'' # r) st =
      Done r (st\<lparr>next_id := int (Suc n), out := b\<rparr>) \<and> ok b \<and> content b = content (out st) @ tm_text strftime f t"
  using time_written [of "st\<lparr>next_id := int (Suc n)\<rparr>", OF _ get_arg_drop [OF assms(3), unfolded assms(4)] assms(5,6), of strftime r] assms(1)
    handler_auto [OF assms(2), of strftime args]
  by (auto simp: parse_replacement_field_def parse_arg_id_def)

lemma parse_brace:
  assumes "ok (out st)"
  shows "parse_replacement_field (format_handler strftime g args) (''{{'' @ r) st = Done r (st\<lparr>out := wrote g ''{'' (out st)\<rparr>)"
  using assms by (simp add: parse_replacement_field_def on_text_wrote)

lemma short_loop_pieces:
  assumes "ok (out st)" and "next_id st = int n" and "pieces_ok (drop n (arg_list args)) ps"
  shows "\<exists>st'. short_loop (format_handler strftime g args) pending (print_pieces ps) st = Done () st' \<and> ok (out st') \<and>
    content (out st') = content (out st) @ pending @ pieces_text strftime (drop n (arg_list args)) ps"
  using assms
proof (induction ps arbitrary: st n pending)
  case Nil
  then show ?case using wrote_props(2) [OF ok_wf, of "out st" pending]
    by (subst short_loop.simps) (simp add: print_pieces_def on_text_wrote ok_wrote)
next
  case (Cons p ps)
  let ?H = "format_handler strftime g args" and ?r = "print_pieces ps"
  have print: "print_pieces (p # ps) = print_piece p @ ?r" by (simp add: print_pieces_def)
  have written: "ok (wrote g x b)" "content (wrote g x b) = content b @ x" if "ok b" for x b
    using that ok_wrote wrote_props(2) [OF ok_wf] by auto
  define st1 where "st1 = st\<lparr>out := wrote g pending (out st)\<rparr>"
  have st1: "ok (out st1)" "content (out st1) = content (out st) @ pending" "next_id st1 = int n"
    using written [OF Cons.prems(1), of pending] Cons.prems(2) by (simp_all add: st1_def)
  have field: "short_loop ?H pending (CHR ''{'' # s) st = bnd (parse_replacement_field ?H (CHR ''{'' # s) st1) (\<lambda>s st. short_loop ?H [] s st)" for s
    using Cons.prems(1) by (subst short_loop.simps) (simp add: on_text_wrote st1_def)
  have step: ?case
    if "short_loop ?H pending (print_pieces (p # ps)) st = short_loop ?H q ?r st2" "ok (out st2)" "next_id st2 = int m" "pieces_ok (drop m (arg_list args)) ps"
      "content (out st2) @ q @ pieces_text strftime (drop m (arg_list args)) ps =
        content (out st) @ pending @ pieces_text strftime (drop n (arg_list args)) (p # ps)" for q st2 m
    using Cons.IH [OF that(2,3,4), of q] that(1,5) by auto
  have letter_step: ?case if p: "p = Letter c" for c
  proof -
    have rest: "pieces_ok (drop n (arg_list args)) ps" using Cons.prems(3) p by simp
    consider "c = CHR ''{''" | "c = CHR ''}''" | "c \<noteq> CHR ''{''" "c \<noteq> CHR ''}''" by blast
    then show ?thesis
    proof cases
      case 1
      then have "short_loop ?H pending (print_pieces (p # ps)) st = short_loop ?H [] ?r (st1\<lparr>out := wrote g ''{'' (out st1)\<rparr>)"
        unfolding print using p field [of "CHR ''{'' # ?r"] parse_brace [OF st1(1), of strftime args ?r] by simp
      then show ?thesis by (rule step) (use written [OF st1(1)] st1 rest p 1 in simp_all)
    next
      case 2
      then have "short_loop ?H pending (print_pieces (p # ps)) st = short_loop ?H [] ?r (st\<lparr>out := wrote g (pending @ ''}'') (out st)\<rparr>)"
        unfolding print using p Cons.prems(1) by (subst short_loop.simps) (simp add: on_text_wrote)
      then show ?thesis by (rule step) (use written [OF Cons.prems(1)] Cons.prems(2) rest p 2 in simp_all)
    next
      case 3
      then have "short_loop ?H pending (print_pieces (p # ps)) st = short_loop ?H (pending @ [c]) ?r st"
        unfolding print using p by (subst short_loop.simps) simp
      then show ?thesis by (rule step) (use Cons.prems(1,2) rest p in simp_all)
    qed
  qed
  have field_step: ?case
    if ex: "\<exists>b. parse_replacement_field ?H (CHR ''{'' # s) st1 = Done ?r (st1\<lparr>next_id := int (Suc n), out := b\<rparr>) \<and> ok b \<and> content b = content (out st1) @ x"
      and pp: "print_piece p @ ?r = CHR ''{'' # s" and okp: "pieces_ok (tl (drop n (arg_list args))) ps"
      and tx: "pieces_text strftime (drop n (arg_list args)) (p # ps) = x @ pieces_text strftime (tl (drop n (arg_list args))) ps" for s x
  proof -
    obtain b where b: "parse_replacement_field ?H (CHR ''{'' # s) st1 = Done ?r (st1\<lparr>next_id := int (Suc n), out := b\<rparr>)"
      "ok b" "content b = content (out st1) @ x" using ex by blast
    then have "short_loop ?H pending (print_pieces (p # ps)) st = short_loop ?H [] ?r (st1\<lparr>next_id := int (Suc n), out := b\<rparr>)"
      unfolding print pp field by simp
    then show ?thesis by (rule step [where m = "Suc n"]) (use okp tx b st1 in \<open>simp_all add: drop_Suc tl_drop\<close>)
  qed
  show ?case
  proof (cases p)
    case (Letter c)
    then show ?thesis using letter_step by blast
  next
    case Field
    then show ?thesis using Cons.prems(3) parse_field [OF st1(1,3), of args strftime ?r] by (intro field_step) auto
  next
    case (Field_With sp)
    then show ?thesis using Cons.prems(3) parse_field_with [OF st1(1,3), of args sp strftime ?r] by (intro field_step) auto
  next
    case (Field_Time f)
    then obtain t where "hd (drop n (arg_list args)) = Tm_Arg t" using Cons.prems(3) by (cases "hd (drop n (arg_list args))") auto
    then show ?thesis using Field_Time Cons.prems(3) parse_field_time [OF st1(1,3), of args t f strftime ?r] by (intro field_step) auto
  qed
qed

end

lemma format_to_pieces:
  assumes "pieces_ok args ps"
  shows "format_to strftime (print_pieces ps) args container = Done () (container @ pieces_text strftime args ps)"
proof -
  let ?H = "format_handler strftime string_grow \<lparr>arg_list = args, arg_names = []\<rparr>" and ?st = "\<lparr>next_id = 0, out = \<lparr>store = container, used = length container\<rparr>\<rparr>"
  obtain st where st: "short_loop ?H [] (print_pieces ps) ?st = Done () st" "used (out st) = length (store (out st))"
    "content (out st) = container @ pieces_text strftime args ps"
    using string_buf.short_loop_pieces [of ?st 0 "\<lparr>arg_list = args, arg_names = []\<rparr>" ps strftime "[]"] assms by (auto simp: content_def)
  have "parse_format_string ?H (print_pieces ps) ?st = Done () st"
    using st(1) string_text.short_long [of ?st strftime "\<lparr>arg_list = args, arg_names = []\<rparr>" "print_pieces ps"] by (simp add: parse_format_string_def)
  then show ?thesis using st(2,3) by (simp add: format_to_def string_buf.vformat_to_parse content_def)
qed

lemma format_string_pieces:
  assumes "pieces_ok args ps"
  shows "format_string strftime (print_pieces ps) args = Done (pieces_text strftime args ps) ()"
proof -
  let ?H = "format_handler strftime memory_grow \<lparr>arg_list = args, arg_names = []\<rparr>" and ?st = "\<lparr>next_id = 0, out = \<lparr>store = replicate 500 (CHR 0x00), used = 0\<rparr>\<rparr>"
  have w: "wf_buf (out ?st)" by (simp add: wf_buf_def)
  obtain st where st: "short_loop ?H [] (print_pieces ps) ?st = Done () st" "content (out st) = pieces_text strftime args ps"
    using memory_buf.short_loop_pieces [OF w, of 0 "\<lparr>arg_list = args, arg_names = []\<rparr>" ps strftime "[]"] assms by (auto simp: content_def)
  have "parse_format_string ?H (print_pieces ps) ?st = Done () st"
    using st(1) memory_text.short_long [OF w, of strftime "\<lparr>arg_list = args, arg_names = []\<rparr>" "print_pieces ps"] by (simp add: parse_format_string_def)
  then show ?thesis using st(2) w by (simp add: format_string_def memory_buf.vformat_to_parse content_def)
qed

text \<open>
  C8: Formatting means what the format string says. For a format string of text with doubled braces, fields \<open>{}\<close> and fields with specifiers, as many as there are
  arguments and allowed for their types, \<open>format_to\<close> appends to the container the text with single braces and in place of each field the text of its
  argument: of integers their digits with sign, base, zeros and padding, of strings the prefix of the given precision padded to the width in
  columns, and so on. Every such format string works, whatever its length.
\<close>
theorem format_pieces:
  assumes "pieces_ok args ps"
  shows "format_to strftime (print_pieces ps) args container = Done () (container @ pieces_text strftime args ps)"
  using assms by (rule format_to_pieces)

text \<open>\<open>format_to(it, "{{{}: {: >4}}}", "id", -7)\<close>.\<close>

theorem format_pieces_witness:
  "format_to (\<lambda>f t :: unit. f) ''{{{}: {: >4}}}'' [String_Arg ''id'', Int_Arg (-7)] ''# '' = Done () ''# {id:   -7}''"
proof -
  let ?sp = "default_specs\<lparr>align := Align_Right, width := 4\<rparr>"
  let ?ps = "[Letter (CHR ''{''), Field, Letter (CHR '':''), Letter (CHR '' ''), Field_With ?sp, Letter (CHR ''}'')]"
  let ?args = "[String_Arg ''id'', Int_Arg (-7)] :: unit fmt_arg list"
  have specs: "print_specs ?sp = '' >4''"
    by (simp add: print_specs_def print_defs flag_def decimal_def digits_in.simps default_specs_def, code_simp)
  have print: "print_pieces ?ps = ''{{{}: {: >4}}}''" by (simp add: print_pieces_def specs)
  have "pieces_ok ?args ?ps" using specs
    by (simp add: field_ok_def printable_def allowed_for_def default_specs_def check_int_type_spec_def code_point_length_def)
  moreover have "pieces_text (\<lambda>f t :: unit. f) ?args ?ps = ''{id:   -7}''"
    by (simp add: is_negative_def abs_value_def int_text_def int_body_def pad_text_def sign_text_def base_text_def int_digits_def digits_in.simps default_specs_def, code_simp)
  ultimately show ?thesis using format_pieces [of ?args ?ps "\<lambda>f t :: unit. f" "''# ''"] unfolding print by simp
qed

end
