(* ===== verification/Log_Format.thy ===== *)
theory Log_Format
  imports Logger Fmt_Checked Fmt_Print
begin

text \<open>
  The logger (\<open>logger/logger.h\<close>, \<open>.cpp\<close>) on top of the formatting library: the calls of \<open>format_to\<close> and \<open>format\<close> that the logger makes give the texts that the
  model of the logger has as parameters.
\<close>

section \<open>The calls\<close>

text \<open>\<open>{:06d}\<close>\<close>

definition six_digits :: format_specs where
  "six_digits = default_specs\<lparr>width := 6, align := Align_Numeric, fill := ''0'', type_char := CHR ''d''\<rparr>"

text \<open>The texts of a time that the logger uses, in terms of \<open>strftime\<close>.\<close>

definition fmt_times :: "(string \<Rightarrow> 'tm \<Rightarrow> string) \<Rightarrow> ('tm \<Rightarrow> int) \<Rightarrow> 'tm time_fmt" where
  "fmt_times strftime yday =
     \<lparr>tm_yday = yday, hms = tm_text strftime ''%H:%M:%S'', date_hms = tm_text strftime ''%Y%m%d %H:%M:%S'',
      stamp = tm_text strftime ''%Y%m%d%H%M%S'', micros = (\<lambda>us. int_text six_digits False (unat us))\<rparr>"

text \<open>The part of \<open>Log\<close> that fills the buffer.\<close>

definition fill_buffer ::
  "(string \<Rightarrow> 'tm \<Rightarrow> string) \<Rightarrow> logger \<Rightarrow> LogLevel \<Rightarrow> 'tm \<Rightarrow> string \<Rightarrow> 'tm fmt_arg list \<Rightarrow> string \<Rightarrow> (string, unit) Fmt_Write.outcome" where
  "fill_buffer strftime s level tm format args b =
     bnd (if controlFlags s AND ControlFlagNoPrepends = 0
          then if controlFlags s AND ControlFlagLogDate = 0
               then format_to strftime ''{}{:%H:%M:%S} '' [Char_Arg (level_initial level), Tm_Arg tm] b
               else format_to strftime ''{}{:%Y%m%d %H:%M:%S} '' [Char_Arg (level_initial level), Tm_Arg tm] b
          else Done () b)
       (\<lambda>_ b. bnd (format_to strftime format args b) (\<lambda>_ b. Done () (b @ ''\<newline>'')))"

text \<open>The macros put the file and the line in front; \<open>p\<close> is the address of the file's name.\<close>

definition macro_format :: "string \<Rightarrow> string" where
  "macro_format format = ''{}:{}] '' @ format"

definition macro_args :: "u64 \<Rightarrow> string \<Rightarrow> u32 \<Rightarrow> 'tm fmt_arg list \<Rightarrow> 'tm fmt_arg list" where
  "macro_args p file line args = CString_Arg p (path_filename (''/'' @ file)) # Int_Arg line # args"

text \<open>The name of a new file.\<close>

definition file_name :: "(string \<Rightarrow> 'tm \<Rightarrow> string) \<Rightarrow> logger \<Rightarrow> LogLevel \<Rightarrow> 'tm \<Rightarrow> u32 \<Rightarrow> (unit, string) Fmt_Write.outcome" where
  "file_name strftime s lv tm us =
     format_string strftime ''{}.{}.{:%Y%m%d%H%M%S}{:06d}.log'' [String_Arg (logPathPrefix s), String_Arg (level_name lv), Tm_Arg tm, UInt_Arg us]"

section \<open>Their results\<close>

lemma six_digits_ok: "field_ok six_digits (UInt_Arg us)" "print_specs six_digits = ''06d''"
proof -
  show p: "print_specs six_digits = ''06d''"
    by (simp add: six_digits_def default_specs_def print_specs_def print_defs flag_def decimal_def digits_in.simps, code_simp)
  show "field_ok six_digits (UInt_Arg us)" using p
    by (simp add: field_ok_def six_digits_def default_specs_def printable_def allowed_for_def check_int_type_spec_def is_ascii_letter_def)
qed

lemma prefix_printed:
  "print_pieces [Field, Field_Time ''%H:%M:%S'', Letter (CHR '' '')] = ''{}{:%H:%M:%S} ''"
  "print_pieces [Field, Field_Time ''%Y%m%d %H:%M:%S'', Letter (CHR '' '')] = ''{}{:%Y%m%d %H:%M:%S} ''"
  by (simp_all add: print_pieces_def)

lemma prefix_formats:
  "format_to strftime ''{}{:%H:%M:%S} '' [Char_Arg c, Tm_Arg tm] b = Done () (b @ c # tm_text strftime ''%H:%M:%S'' tm @ '' '')"
  "format_to strftime ''{}{:%Y%m%d %H:%M:%S} '' [Char_Arg c, Tm_Arg tm] b = Done () (b @ c # tm_text strftime ''%Y%m%d %H:%M:%S'' tm @ '' '')"
  unfolding prefix_printed [symmetric] by (simp_all add: format_to_pieces)

lemma fill_buffer_prepend:
  "fill_buffer strftime s level tm format args b =
     bnd (format_to strftime format args (b @ prepend (fmt_times strftime yday) s level tm)) (\<lambda>_ b. Done () (b @ ''\<newline>''))"
  by (simp add: fill_buffer_def prefix_formats prepend_def fmt_times_def)



text \<open>
  A line of the macros \<open>LOG_INFO\<close> and so on. The name of the source file without its directory, the line number and the message, for a message format of text and
  fields that fits the arguments: the text that \<open>format_to\<close> produces for the format \<open>"{}:{}] "\<close> followed by the message format is the one that the model of
  \<open>LOGGER_WRITE\<close> passes to \<open>Log\<close>.
\<close>
theorem macro_line:
  assumes "pieces_ok args ps" and "p \<noteq> 0"
  shows "\<exists>txt. format_to strftime (macro_format (print_pieces ps)) (macro_args p file line args) b = Done () (b @ txt) \<and>
    located file (default_text strftime (Int_Arg line)) (Text (pieces_text strftime args ps)) = Text txt"
proof -
  let ?ps = "[Field, Letter (CHR '':''), Field, Letter (CHR '']''), Letter (CHR '' '')] @ ps"
  have "print_pieces ?ps = macro_format (print_pieces ps)" by (simp add: print_pieces_def macro_format_def)
  moreover have "pieces_ok (macro_args p file line args) ?ps" using assms by (simp add: macro_args_def)
  ultimately show ?thesis using format_to_pieces [of "macro_args p file line args" ?ps strftime b]
    by (simp add: macro_args_def located_def)
qed

text \<open>\<open>LOG_INFO("{}", "up")\<close> in line 7 of \<open>src/a.cpp\<close>.\<close>

theorem macro_line_witness:
  "format_to (\<lambda>f t :: unit. f) (macro_format ''{}'') (macro_args 1 ''src/a.cpp'' 7 [String_Arg ''up'']) ''I'' = Done () ''Ia.cpp:7] up''"
proof -
  have "default_text (\<lambda>f t :: unit. f) (Int_Arg 7) = ''7''"
    by (simp add: default_int_text is_negative_def abs_value_def digits_in.simps, code_simp)
  then show ?thesis using macro_line [of "[String_Arg ''up'']" "[Field]" 1 "\<lambda>f t :: unit. f" "''src/a.cpp''" 7 "''I''"]
    by (simp add: print_pieces_def located_def path_filename_def)
qed

text \<open>The microseconds have six digits, which determine them.\<close>

lemma number_zeros: "number b (replicate k 0 @ ds) = number b ds"
  by (induction k) (simp_all add: number_def)

lemma six_digits_text:
  assumes "n < 1000000"
  shows "int_text six_digits False n = map digit_char (replicate (6 - length (digits_in 10 n)) 0 @ digits_in 10 n)"
    and "length (digits_in 10 n) \<le> 6"
proof -
  show l: "length (digits_in 10 n) \<le> 6" using length_digits_in_le [of 10 n 5] assms by simp
  have "char_of (48 :: nat) = CHR ''0''" by code_simp
  with l show "int_text six_digits False n = map digit_char (replicate (6 - length (digits_in 10 n)) 0 @ digits_in 10 n)"
    by (simp add: int_text_def int_body_def six_digits_def default_specs_def sign_text_def base_text_def int_digits_def pad_text_def)
qed

lemma six_digits_inj:
  assumes "n < 1000000" and "m < 1000000" and "int_text six_digits False n = int_text six_digits False m"
  shows "n = m"
proof -
  let ?d = "\<lambda>n. replicate (6 - length (digits_in 10 n)) 0 @ digits_in 10 n"
  have "inj_on digit_char {..<10}"
  proof (rule inj_onI)
    fix x y :: nat
    assume "x \<in> {..<10}" "y \<in> {..<10}" "digit_char x = digit_char y"
    then show "x = y" using of_char_digit_char(1) [of x] of_char_digit_char(1) [of y] by simp
  qed
  moreover have "set (?d n) \<union> set (?d m) \<subseteq> {..<10}" using digits_in_less [of 10] by (auto simp: set_replicate_conv_if)
  ultimately have "inj_on digit_char (set (?d n) \<union> set (?d m))" by (rule inj_on_subset)
  moreover have "map digit_char (?d n) = map digit_char (?d m)"
    using assms(3) unfolding six_digits_text(1) [OF assms(1)] six_digits_text(1) [OF assms(2)] .
  ultimately have "?d n = ?d m" using inj_on_map_eq_map by blast
  then have "number 10 (?d n) = number 10 (?d m)" by simp
  then show ?thesis by (simp only: number_zeros number_digits_in)
qed

text \<open>
  The name of a new log file that \<open>format\<close> produces is the one of the model: prefix, level, time and, with six digits, microseconds. Two files
  of one level that are created in the same second but at different microseconds have different names.
\<close>
theorem log_file_name:
  assumes "us < 1000000" and "us' < 1000000"
  shows "file_name strftime s lv tm us = Done (filename (fmt_times strftime yday) s lv tm us) () \<and>
    length (micros (fmt_times strftime yday) us) = 6 \<and>
    (filename (fmt_times strftime yday) s lv tm us = filename (fmt_times strftime yday) s lv tm us' \<longleftrightarrow> us = us')"
proof -
  let ?ps = "[Field, Letter (CHR ''.''), Field, Letter (CHR ''.''), Field_Time ''%Y%m%d%H%M%S'', Field_With six_digits] @ map Letter ''.log''"
  let ?args = "[String_Arg (logPathPrefix s), String_Arg (level_name lv), Tm_Arg tm, UInt_Arg us] :: 'a fmt_arg list"
  have n: "unat us < 1000000" "unat us' < 1000000" using assms by (simp_all add: word_less_nat_alt)
  have print: "print_pieces ?ps = ''{}.{}.{:%Y%m%d%H%M%S}{:06d}.log''" by (simp add: print_pieces_def six_digits_ok(2))
  have "pieces_ok ?args ?ps" using six_digits_ok(1) by simp
  then have "file_name strftime s lv tm us = Done (filename (fmt_times strftime yday) s lv tm us) ()"
    using format_string_pieces [of ?args ?ps strftime] unfolding print
    by (simp add: file_name_def filename_def fmt_times_def is_negative_def abs_value_def)
  moreover have "length (micros (fmt_times strftime yday) us) = 6" using six_digits_text [OF n(1)] by (simp add: fmt_times_def)
  moreover have "filename (fmt_times strftime yday) s lv tm us = filename (fmt_times strftime yday) s lv tm us' \<longleftrightarrow> us = us'"
    using six_digits_inj [OF n] by (auto simp: filename_def fmt_times_def word_unat_eq_iff)
  ultimately show ?thesis by blast
qed

theorem log_file_name_witness:
  "file_name (\<lambda>f t :: unit. f) (new_Logger app_cfg (\<lambda>t. [])) LogLevelWarn () 42 =
     Done (filename (fmt_times (\<lambda>f t :: unit. f) (\<lambda>t. 0)) (new_Logger app_cfg (\<lambda>t. [])) LogLevelWarn () 42) () \<and>
   filename (fmt_times (\<lambda>f t :: unit. f) (\<lambda>t. 0)) (new_Logger app_cfg (\<lambda>t. [])) LogLevelWarn () 42 \<noteq>
     filename (fmt_times (\<lambda>f t :: unit. f) (\<lambda>t. 0)) (new_Logger app_cfg (\<lambda>t. [])) LogLevelWarn () 420000"
  using log_file_name [of 42 420000 "\<lambda>f t :: unit. f" "new_Logger app_cfg (\<lambda>t. [])" LogLevelWarn "()" "\<lambda>t. 0"] by simp

end
