(* ===== verification/Spec2Isabelle.thy ===== *)
theory Spec2Isabelle
  imports Fmt_Args Endian Binary_Writer Binary_Reader Binary_Buffer Hex Bits Xxtea Chacha20 Checksum
    Net_Packets Net_Checksum Buffer_Pool String_Utils Hash_Random Timer Shm_Queue Epoll
    Worker_Queue Thread_Pool Thread_Pool_Ex Http_Client Logger
    Shm_Concurrent File_Purger Process_Utils Char_Convert Md5_File Kafka
    Fmt_Checked Fmt_Print Log_Format
begin

text \<open>
  Verification of libant, a C++ library of mostly independent parts: binary encoding, hashes and ciphers, IP
  packets, a queue in shared memory, an event loop, thread pools, an HTTP client, a logger,
  a formatting library, wrappers of iconv, OpenSSL, librdkafka and system calls.

  \<^bold>\<open>Conventions.\<close> Every class or group of functions has its own theory. A class is a \<open>record\<close>, a method is a function
  from the state before to the results and the state after, under the name it has in the source; overloads get
  a suffix. Machine integers are words of their width (\<open>u8\<close> to \<open>u64\<close>), byte buffers are lists of \<open>u8\<close>. A failed assertion,
  an access outside an object, the use of a deleted object, a division by zero and the like are values
  \<open>Inl fault\<close> of the result type \<open>'a res\<close> (theory \<open>Prelude\<close>), so that the theorems can state their absence. Objects that the code
  allocates and deletes live on an explicit heap where this matters (\<open>Buffer_Pool\<close>, \<open>Epoll\<close>, \<open>Thread_Pool_Ex\<close>). Concurrency and
  asynchronous calls are step relations: a step is a critical section or a completion handler,
  and the theorems hold for every order of steps.
  Operating system, user callbacks and other libraries are parameters; what the code relies on of them is a hypothesis.

  \<^bold>\<open>Theories.\<close>
  \<^item> \<open>Prelude\<close>: integer types, faults, words as byte sequences, windows of byte lists, and the interfaces (locales)
    \<open>codec\<close> (decoding undoes encoding), \<open>invertible_steps\<close>, \<open>fifo\<close> (an implementation of a queue), \<open>draining\<close> (work that runs out).
  \<^item> \<open>Endian\<close> (\<open>encoding/binary/endian.h\<close>, \<open>.cpp\<close>): byte swapping and the detection of the byte order, on platforms of both
    orders, Linux or not. The bytes of an integer in a stream do not depend on the platform. The locale \<open>int_wire\<close> is what the
    stream classes use of it.
  \<^item> \<open>Binary_Writer\<close>, \<open>Binary_Reader\<close>, \<open>Binary_Buffer\<close> (\<open>encoding/binary/\<close>): streams of integers and strings. Messages are read back
    as written; the two-ended buffer keeps its contents over every growth (locale \<open>framing_buffer\<close>); length prefixes that wrap
    around or are truncated.
  \<^item> \<open>Hex\<close>, \<open>Bits\<close>, \<open>String_Utils\<close>, \<open>Hash_Random\<close> (\<open>encoding/hex\<close>, \<open>bits\<close>, \<open>utils/string_utils\<close>, \<open>hash/hash.h\<close>, \<open>random\<close>): conversions and
    their inverses, bit vectors, splitting and trimming.
  \<^item> \<open>Xxtea\<close>, \<open>Chacha20\<close> (\<open>crypto/\<close>): the ciphers word by word, loops included; decryption inverts encryption, the stream
    cipher also in place.
  \<^item> \<open>Checksum\<close>, \<open>Net_Packets\<close>, \<open>Net_Checksum\<close> (\<open>checksum/\<close>, \<open>net/\<close>): the Internet checksum equals its definition by 16-bit words; walking the
    headers of IPv4 and IPv6 packets without leaving the packet; the checksums that are set verify at the receiver.
  \<^item> \<open>Buffer_Pool\<close> (\<open>buffer_pool/\<close>), \<open>Timer\<close> (\<open>timer/\<close>): reusable buffers with deleters that may outlive the pool; the timer multimap with
    callbacks that add timers.
  \<^item> \<open>Shm_Queue\<close> (\<open>interprocess/containers/\<close>): the circular queue in a shared segment, which implements a FIFO queue.
  \<^item> \<open>Shm_Concurrent\<close>: a producer and a consumer of that queue that run at the same time, access by access to the shared memory. They
    implement a FIFO queue without a lock, and each call returns after a bounded number of steps of its own (locale \<open>bounded_calls\<close>).
  \<^item> \<open>Epoll\<close> (\<open>system/epoll\<close>): the event loop with its callback objects; the user's functions may call the loop again.
  \<^item> \<open>Worker_Queue\<close>, \<open>Thread_Pool\<close>, \<open>Thread_Pool_Ex\<close> (\<open>thread/\<close>): the task queue, the worker threads and \<open>Stop\<close> under all interleavings,
    spurious wake-ups and time-outs. \<open>Worker_Queue\<close> is the code that both pools repeat; both refine it by forgetting
    their own fields (\<open>workq.truncate\<close>). Safety, completion of all tasks, progress, and the one way in which a task is lost.
  \<^item> \<open>Http_Client\<close> (\<open>net/http/\<close>): the request queue and the completion handlers of the plain and the TLS client, and the pool.
  \<^item> \<open>Logger\<close> (\<open>logger/logger.h\<close>, \<open>.cpp\<close>): which files and lines a call of \<open>Log\<close> produces, and the sizes of the files whichever system calls
    fail. A call is one step; texts of the formatting library and results of system calls are parameters.
  \<^item> \<open>Fmt_Digits\<close>, \<open>Fmt_Write\<close>, \<open>Fmt_Text\<close>, \<open>Fmt_Parse\<close>, \<open>Fmt_Format\<close> (\<open>logger/fmt/core.h\<close>, \<open>format.h\<close>, \<open>chrono.h\<close>): the core of the vendored formatting library. Counting and
    writing of digits; growing output buffers (locale \<open>growable\<close>, for strings and memory buffers) and the writers of integers, strings, characters, pointers and times;
    their texts without buffers; the parser of format strings, which reports to a handler (locale \<open>text_handler\<close>); formatting and the check of format strings at
    compile time as two such handlers. A call returns, throws or faults (\<open>outcome\<close>). \<open>Fmt_Sim\<close> compares two handlers side by side (locales \<open>spec_sim\<close> and
    \<open>handler_sim\<close>): once the check beside formatting, once two kinds of buffers (locale \<open>two_buffers\<close>).
  \<^item> \<open>Fmt_Checked\<close>, \<open>Fmt_Print\<close>: checked format strings are safe for all values; both loops of the parser and both kinds of buffers agree; integers are written exactly; printed specifiers
    are read back, and a printed format string of text and fields produces the text it describes.
  \<^item> \<open>Fmt_Args\<close>: the store in which a call passes its arguments, with types packed into a 64-bit descriptor or not; lookups in it find the arguments that \<open>Fmt_Format\<close> works on.
  \<^item> \<open>Log_Format\<close>: the logger's calls of the formatting library give the texts that \<open>Logger\<close> has as parameters.
  \<^item> \<open>File_Purger\<close> (\<open>file_utils/\<close>): a pass over a tree of files and directories removes exactly the old ones; the purging thread stops.
  \<^item> \<open>Process_Utils\<close> (\<open>system/daemon\<close>, \<open>resource\<close>, \<open>signal\<close>): the processes that \<open>Daemonize\<close> forks and what the remaining one looks like; limits.
  \<^item> \<open>Char_Convert\<close> (\<open>encoding/char\<close>), \<open>Md5_File\<close> (\<open>hash/md5\<close>), \<open>Kafka\<close> (\<open>kafka/\<close>): loops and ownership around \<open>iconv\<close>, the digest functions of OpenSSL and
    librdkafka, which are parameters.

  \<^bold>\<open>Composition.\<close> \<open>Log_Format\<close> puts the logger on the formatting library. This theory states a property across components: a message that is written, encrypted, passed through
  the shared queue, decrypted and read on another platform arrives unchanged.

  \<^bold>\<open>Loops and bounds.\<close> Loops are recursive functions with termination proofs, or \<open>partial_function (option)\<close> where they may not end
  (\<open>SplitString\<close> with an empty separator, \<open>Update\<close> of the timers, the dispatch loops of \<open>Epoll\<close>); then termination or its failure is stated.
  The polling loops of the shared queue make ten attempts, as in the code. Nothing else is bounded artificially; hypotheses such
  as a length below \<open>2\<^sup>3\<^sup>2\<close> are limits of the types the code uses. Thread numbers of the pools are \<open>int\<close>, hence below \<open>2\<^sup>3\<^sup>1\<close>.

  \<^bold>\<open>Not modelled.\<close> Of the vendored formatting library, floating-point numbers, digit grouping of locales other than the
  classic one, wide characters, output to files and the headers that libant does not use; the network headers and other code for Windows; language helpers
  (singletons, \<open>noncopyable\<close>). Memory models and data races are outside of the step relations: shared fields are accessed
  under their mutex, except where a finding says otherwise, and \<open>Shm_Concurrent\<close> assumes that memory accesses take effect
  in program order.
\<close>

section \<open>A message through the shared queue\<close>

lemma read_whole_message:
  assumes "list_all fits fs" and "length (write_fields p e fs []) \<le> max_size"
  shows "\<exists>r. read_fields q e (map shape_of fs) (reader_of (write_fields p e fs [])) = Some (fs, r) \<and> unread r = []"
  using read_fields_eq [OF reader_of_inv [OF assms(2)] assms(1), of p e "[]" q] by (auto simp: write_fields_eq)

text \<open>
  C6: the parts work together. A process writes a message with \<open>BinaryWriter\<close>, encrypts it with \<open>XXTeaCipher\<close> and pushes
  it into a fresh shared queue whose elements are large enough; another process pops it, decrypts it with
  the same key and reads it with \<open>BinaryReader\<close>, possibly compiled for another platform. All operations succeed and the fields
  are those that were written.
\<close>

theorem encrypted_message_transport:
  assumes "list_all fits fs" and "write_fields p e fs [] \<noteq> []" and "length (write_fields p e fs []) + 8 \<le> 2 ^ 32"
    and "4 * ((length (write_fields p e fs []) + 3) div 4) + 4 \<le> unat dataMaxSz"
    and "cqSize < kShmCircularQueueMaxSz" and "unat dataMaxSz + 4 \<le> unat cqSize" and "length name < kShmNameSz"
    and "mmap (cqSize + 80) = Some bs" and "length bs = unat (cqSize + 80)"
  shows "\<exists>queue ct q1 q2 r.
    Create True True mmap name cqSize dataMaxSz ShmCircularBufQueue = Inr (True, \<lparr>cq = Some queue, mapped = True\<rparr>) \<and>
    Xxtea.Encrypt h c (write_fields p e fs []) = Inr ct \<and> Push h ct queue = Inr (True, q1) \<and> pop_data h q1 = Inr (Some ct, q2) \<and>
    Xxtea.Decrypt h c ct [] = Inr (True, write_fields p e fs []) \<and>
    read_fields q e (map shape_of fs) (reader_of (write_fields p e fs [])) = Some (fs, r) \<and> unread r = []"
proof -
  let ?m = "write_fields p e fs []"
  from FastEncrypt_FastDecrypt [OF assms(3,2), of h c] obtain ct where ct: "FastEncrypt h c ?m = Inr ct"
    "length ct = 4 * (word_count (length ?m) + 1)" "FastDecrypt h c ct = Inr (True, ?m)" by blast
  have len: "ct \<noteq> []" "length ct \<le> unat dataMaxSz" using ct(2) assms(4) by (auto simp: word_count_def)
  from Create_rep [of cqSize dataMaxSz name mmap bs ShmCircularBufQueue h, OF assms(5-9)] obtain queue where
    k: "Create True True mmap name cqSize dataMaxSz ShmCircularBufQueue = Inr (True, \<lparr>cq = Some queue, mapped = True\<rparr>)"
      "rep h queue []" "unat (ElemMaxSize queue) = unat dataMaxSz + 4" "Head queue = 80" "Tail queue = 80"
      "unat (ShmSize queue) = unat cqSize + 80" by blast
  have "\<exists>q1. Push h ct queue = Inr (True, q1) \<and> rep h q1 ([] @ [ct])"
    using k len assms(6) by (intro Push_accepts) (simp_all add: element_def)
  then obtain q1 where q1: "Push h ct queue = Inr (True, q1)" "rep h q1 [ct]" by auto
  obtain q2 where q2: "pop_data h q1 = Inr (Some ct, q2)" using shm_pop_Cons_law [OF q1(2)] by blast
  have "length ?m \<le> max_size" using assms(3) by simp
  from read_whole_message [OF assms(1) this, of q] k(1) q1(1) q2 ct show ?thesis
    by (auto simp: Xxtea.Encrypt_def Xxtea.Decrypt_def)
qed

theorem encrypted_message_transport_witness:
  "\<exists>queue ct q1 q2 r.
    Create True True (\<lambda>n. Some (replicate (unat n) 0)) [113] 64 16 ShmCircularBufQueue = Inr (True, \<lparr>cq = Some queue, mapped = True\<rparr>) \<and>
    Xxtea.Encrypt LittleEndian (XXTeaCipher LittleEndian [1, 2, 3])
      (write_fields \<lparr>byte_order = BigEndian, is_linux = False\<rparr> BigEndian [FInt UInt16 0x1234, FStr Int8 [7, 8, 9]] []) = Inr ct \<and>
    Push LittleEndian ct queue = Inr (True, q1) \<and> pop_data LittleEndian q1 = Inr (Some ct, q2) \<and>
    read_fields \<lparr>byte_order = LittleEndian, is_linux = True\<rparr> BigEndian [SInt UInt16, SStr Int8]
      (reader_of (write_fields \<lparr>byte_order = BigEndian, is_linux = False\<rparr> BigEndian [FInt UInt16 0x1234, FStr Int8 [7, 8, 9]] [])) =
      Some ([FInt UInt16 0x1234, FStr Int8 [7, 8, 9]], r)"
proof -
  let ?fs = "[FInt UInt16 0x1234, FStr Int8 [7, 8, 9]]" and ?p = "\<lparr>byte_order = BigEndian, is_linux = False\<rparr>"
  have l: "length (write_fields ?p BigEndian ?fs []) = 6"
    by (simp add: write_fields_eq wire_simps)
  then have "write_fields ?p BigEndian ?fs [] \<noteq> []" by (metis list.size(3) zero_neq_numeral)
  moreover have "list_all fits ?fs" by (simp add: cast_int_def)
  ultimately have "\<exists>queue ct q1 q2 r.
      Create True True (\<lambda>n. Some (replicate (unat n) 0)) [113] 64 16 ShmCircularBufQueue = Inr (True, \<lparr>cq = Some queue, mapped = True\<rparr>) \<and>
      Xxtea.Encrypt LittleEndian (XXTeaCipher LittleEndian [1, 2, 3]) (write_fields ?p BigEndian ?fs []) = Inr ct \<and>
      Push LittleEndian ct queue = Inr (True, q1) \<and> pop_data LittleEndian q1 = Inr (Some ct, q2) \<and>
      Xxtea.Decrypt LittleEndian (XXTeaCipher LittleEndian [1, 2, 3]) ct [] = Inr (True, write_fields ?p BigEndian ?fs []) \<and>
      read_fields \<lparr>byte_order = LittleEndian, is_linux = True\<rparr> BigEndian (map shape_of ?fs) (reader_of (write_fields ?p BigEndian ?fs [])) =
        Some (?fs, r) \<and> unread r = []"
    by (intro encrypted_message_transport [where bs = "replicate 144 0"])
      (simp_all add: kShmCircularQueueMaxSz_def kShmNameSz_def l del: write_fields.simps)
  then show ?thesis unfolding list.map shape_of.simps by blast
qed

end
